(* ===== verification/Prelude.thy ===== *)
theory Prelude
  imports Main "HOL-Library.Monad_Syntax"
begin

text \<open>
  The parts of C++11 and its standard library that the client under client/src uses, written
  once for all components: failures as values, \<open>std::string\<close>, \<open>std::vector\<close> and \<open>std::map\<close>
  accesses, 32-bit \<open>int\<close>, \<open>std::to_string\<close>, \<open>std::stoi\<close>, \<open>std::getline\<close> and pointer
  arithmetic on string literals. Strings are lists of bytes (\<open>char\<close>).
\<close>

section \<open>Failures\<close>

text \<open>
  A call ends with a value or with one of these failures. The exceptions are not caught
  anywhere in the client, so each of them ends the process; \<open>Undefined_Behaviour\<close> stands for
  an execution to which the language standard gives no meaning, \<open>Terminate_Called\<close> for a
  call of \<open>std::terminate\<close> by the run-time system, \<open>Abort_Called\<close> for a failed \<open>assert\<close>.
\<close>

datatype cpp_error =
    Out_Of_Range
  | Length_Error
  | Invalid_Argument
  | Json_Parse_Error
  | Json_Type_Error
  | Json_Out_Of_Range
  | Json_Invalid_Iterator
  | Undefined_Behaviour
  | Terminate_Called
  | Abort_Called

type_synonym 'a result = "cpp_error + 'a"

definition rbind :: "'e + 'a \<Rightarrow> ('a \<Rightarrow> 'e + 'b) \<Rightarrow> 'e + 'b" where
  "rbind m f = (case m of Inl e \<Rightarrow> Inl e | Inr x \<Rightarrow> f x)"

lemma rbind_simps [simp]:
  "rbind (Inl e) f = Inl e"
  "rbind (Inr x) f = f x"
  by (simp_all add: rbind_def)

lemma rbind_cong [fundef_cong]:
  "m = m' \<Longrightarrow> (\<And>x. m' = Inr x \<Longrightarrow> f x = f' x) \<Longrightarrow> rbind m f = rbind m' f'"
  by (cases m') auto

lemma rbind_eq_Inr: "rbind m f = Inr y \<longleftrightarrow> (\<exists>x. m = Inr x \<and> f x = Inr y)"
  by (cases m) auto

lemma rbind_eq_Inl: "rbind m f = Inl e \<longleftrightarrow> m = Inl e \<or> (\<exists>x. m = Inr x \<and> f x = Inl e)"
  by (cases m) auto

lemma rbind_split:
  "P (rbind m f) \<longleftrightarrow> (\<forall>e. m = Inl e \<longrightarrow> P (Inl e)) \<and> (\<forall>x. m = Inr x \<longrightarrow> P (f x))"
  by (cases m) auto

lemma rbind_assoc: "rbind (rbind m f) g = rbind m (\<lambda>x. rbind (f x) g)"
  by (cases m) auto

named_theorems frame_text \<open>the texts the client sends, as instances of one rendering function\<close>
named_theorems book_intros \<open>preservation of the bookkeeping invariants by the operations\<close>

section \<open>Characters and the accesses that check their index\<close>

abbreviation newline :: char where "newline \<equiv> CHR 0x0A"
abbreviation nul :: char where "nul \<equiv> CHR 0x00"
abbreviation colon :: char where "colon \<equiv> CHR '':''"

lemma takeWhile_delim [simp]: "d \<notin> set s \<Longrightarrow> takeWhile (\<lambda>c. c \<noteq> d) (s @ d # t) = s"
  by (induction s) auto

lemma dropWhile_delim [simp]: "d \<notin> set s \<Longrightarrow> dropWhile (\<lambda>c. c \<noteq> d) (s @ d # t) = d # t"
  by (induction s) auto

lemma takeWhile_no_delim [simp]: "d \<notin> set s \<Longrightarrow> takeWhile (\<lambda>c. c \<noteq> d) s = s"
  by (induction s) auto

lemma dropWhile_no_delim [simp]: "d \<notin> set s \<Longrightarrow> dropWhile (\<lambda>c. c \<noteq> d) s = []"
  by (induction s) auto

definition str_at :: "string \<Rightarrow> nat \<Rightarrow> char result" where
  "str_at s i = (if i < length s then Inr (s ! i) else Inl Out_Of_Range)"

definition substr :: "string \<Rightarrow> nat \<Rightarrow> string result" where
  "substr s i = (if i \<le> length s then Inr (drop i s) else Inl Out_Of_Range)"

text \<open>\<open>std::vector::operator[]\<close> does not check; an index past the end is undefined.\<close>

definition vec_at :: "'a list \<Rightarrow> nat \<Rightarrow> 'a result" where
  "vec_at v i = (if i < length v then Inr (v ! i) else Inl Undefined_Behaviour)"

lemma vec_at_Nil [simp]: "vec_at [] i = Inl Undefined_Behaviour"
  by (simp add: vec_at_def)

lemma vec_at_Cons_0 [simp]: "vec_at (x # xs) 0 = Inr x"
  by (simp add: vec_at_def)

lemma vec_at_Cons_Suc [simp]: "vec_at (x # xs) (Suc i) = vec_at xs i"
  by (simp add: vec_at_def)

lemma vec_at_Cons_numeral [simp]: "vec_at (x # xs) (numeral n) = vec_at xs (pred_numeral n)"
  by (simp add: numeral_eq_Suc)

lemma vec_at_eq_Inr: "vec_at v i = Inr x \<longleftrightarrow> i < length v \<and> x = v ! i"
  by (auto simp: vec_at_def)

text \<open>
  \<open>std::map\<close>: \<open>insert\<close> keeps an existing entry, \<open>operator[]\<close> inserts the default value for a
  missing key and then reads it.
\<close>

definition map_insert :: "('k \<rightharpoonup> 'v) \<Rightarrow> 'k \<Rightarrow> 'v \<Rightarrow> ('k \<rightharpoonup> 'v)" where
  "map_insert m k v = (case m k of None \<Rightarrow> m(k \<mapsto> v) | Some _ \<Rightarrow> m)"

definition map_index :: "'v \<Rightarrow> ('k \<rightharpoonup> 'v) \<Rightarrow> 'k \<Rightarrow> 'v \<times> ('k \<rightharpoonup> 'v)" where
  "map_index d m k = (case m k of None \<Rightarrow> (d, m(k \<mapsto> d)) | Some v \<Rightarrow> (v, m))"

lemma map_insert_new [simp]: "m k = None \<Longrightarrow> map_insert m k v = m(k \<mapsto> v)"
  by (simp add: map_insert_def)

lemma map_insert_old [simp]: "m k = Some w \<Longrightarrow> map_insert m k v = m"
  by (simp add: map_insert_def)

lemma map_insert_apply:
  "map_insert m k v x = (if x = k \<and> m k = None then Some v else m x)"
  by (auto simp: map_insert_def split: option.splits)

lemma map_index_present [simp]: "m k = Some v \<Longrightarrow> map_index d m k = (v, m)"
  by (simp add: map_index_def)

lemma map_index_absent [simp]: "m k = None \<Longrightarrow> map_index d m k = (d, m(k \<mapsto> d))"
  by (simp add: map_index_def)

section \<open>Pointer arithmetic on string literals\<close>

text \<open>
  \<open>"text" + n\<close> with an integer \<open>n\<close> is a pointer into the literal's array, which holds the text
  and a terminating NUL. A pointer may be formed up to one past the array, and reading a C
  string is defined from an offset at which the array still has an element.
\<close>

definition ptr_add :: "string \<Rightarrow> int \<Rightarrow> int \<Rightarrow> int result" where
  "ptr_add lit off n =
     (if 0 \<le> off + n \<and> off + n \<le> int (length lit) + 1 then Inr (off + n)
      else Inl Undefined_Behaviour)"

definition c_str :: "string \<Rightarrow> int \<Rightarrow> string result" where
  "c_str lit off =
     (if 0 \<le> off \<and> off \<le> int (length lit) then Inr (drop (nat off) lit)
      else Inl Undefined_Behaviour)"

definition lit_plus :: "string \<Rightarrow> int \<Rightarrow> string result" where
  "lit_plus lit n = rbind (ptr_add lit 0 n) (c_str lit)"

lemma lit_plus_eq:
  "lit_plus lit n = (if 0 \<le> n \<and> n \<le> int (length lit) then Inr (drop (nat n) lit)
     else Inl Undefined_Behaviour)"
  by (simp add: lit_plus_def ptr_add_def c_str_def)

text \<open>A \<open>char\<close> operand of \<open>+\<close> is promoted to its code; a newline counts 10.\<close>

definition char_code :: "char \<Rightarrow> int" where
  "char_code c = int (of_char c)"

lemma char_code_newline [simp]: "char_code newline = 10"
  by (simp add: char_code_def)

end
