(* ===== verification/Cpp_Strings.thy ===== *)
theory Cpp_Strings
  imports Prelude
begin

text \<open>
  The string functions of the standard library on which the client's own code rests:
  \<open>std::getline\<close> on a string stream, \<open>std::to_string\<close> and \<open>std::stoi\<close>, and
  \<open>std::istream::getline\<close> on the keyboard stream with its failure state.
\<close>

section \<open>Splitting a string stream\<close>

text \<open>
  \<open>std::getline\<close> fails only when it extracts no character at all, so the empty piece after a
  trailing delimiter is never produced.
\<close>

definition getline :: "char \<Rightarrow> string \<Rightarrow> (string \<times> string) option" where
  "getline d s =
     (if s = [] then None
      else Some (takeWhile (\<lambda>c. c \<noteq> d) s, drop (Suc (length (takeWhile (\<lambda>c. c \<noteq> d) s))) s))"

function split_on :: "char \<Rightarrow> string \<Rightarrow> string list" where
  "split_on d s =
     (case getline d s of None \<Rightarrow> [] | Some (segment, rest) \<Rightarrow> segment # split_on d rest)"
  by pat_completeness auto
termination
  by (relation "measure (\<lambda>(d, s). length s)") (auto simp: getline_def split: if_splits)

declare split_on.simps [simp del]

lemma split_on_Nil [simp]: "split_on d [] = []"
  by (simp add: split_on.simps getline_def)

lemma split_on_no_delim: "d \<notin> set s \<Longrightarrow> s \<noteq> [] \<Longrightarrow> split_on d s = [s]"
  by (subst split_on.simps) (simp add: getline_def)

lemma split_on_delim: "d \<notin> set s \<Longrightarrow> split_on d (s @ d # t) = s # split_on d t"
  by (subst split_on.simps) (simp add: getline_def)

lemma split_on_eq_Nil [simp]: "split_on d s = [] \<longleftrightarrow> s = []"
  by (subst split_on.simps) (simp add: getline_def)

lemma split_on_no_delim_pieces: "x \<in> set (split_on d s) \<Longrightarrow> d \<notin> set x"
proof (induction d s rule: split_on.induct)
  case (1 d s)
  show ?case
  proof (cases "s = []")
    case True
    with "1.prems" show ?thesis by simp
  next
    case False
    then have g: "getline d s = Some (takeWhile (\<lambda>c. c \<noteq> d) s,
        drop (Suc (length (takeWhile (\<lambda>c. c \<noteq> d) s))) s)"
      by (simp add: getline_def)
    from "1.prems" g consider "x = takeWhile (\<lambda>c. c \<noteq> d) s"
      | "x \<in> set (split_on d (drop (Suc (length (takeWhile (\<lambda>c. c \<noteq> d) s))) s))"
      by (subst (asm) split_on.simps) auto
    then show ?thesis
      by cases (auto dest: set_takeWhileD "1.IH" [OF g refl])
  qed
qed

section \<open>Decimal numbers\<close>

definition int_min :: int where "int_min = - (2 ^ 31)"
definition int_max :: int where "int_max = 2 ^ 31 - 1"

text \<open>Signed overflow is undefined, so \<open>++\<close> is defined below the largest value only.\<close>

definition int_incr :: "int \<Rightarrow> int result" where
  "int_incr i = (if i < int_max then Inr (i + 1) else Inl Undefined_Behaviour)"

text \<open>
  Conversion to \<open>int\<close>: a value of another integer type is reduced modulo \<open>2 ^ 32\<close>, as the
  compilers define it.
\<close>

definition to_int32 :: "int \<Rightarrow> int" where
  "to_int32 i = (i + 2 ^ 31) mod 2 ^ 32 - 2 ^ 31"

lemma to_int32_id [simp]: "int_min \<le> i \<Longrightarrow> i \<le> int_max \<Longrightarrow> to_int32 i = i"
  by (simp add: to_int32_def int_min_def int_max_def)

lemma to_int32_bounds: "int_min \<le> to_int32 i \<and> to_int32 i \<le> int_max"
  by (simp add: to_int32_def int_min_def int_max_def)

lemma to_int32_le: "0 \<le> i \<Longrightarrow> to_int32 i \<le> i"
proof -
  assume "0 \<le> i"
  then have "(i + 2 ^ 31) mod 2 ^ 32 \<le> i + 2 ^ 31" by (intro zmod_le_nonneg_dividend) simp
  then show ?thesis by (simp add: to_int32_def)
qed

lemma int_incr_eq_Inr: "int_incr i = Inr j \<longleftrightarrow> i < int_max \<and> j = i + 1"
  by (auto simp: int_incr_def)

definition digit_char :: "nat \<Rightarrow> char" where
  "digit_char n = char_of (48 + n)"

definition digit_val :: "char \<Rightarrow> nat" where
  "digit_val c = of_char c - 48"

definition is_digit :: "char \<Rightarrow> bool" where
  "is_digit c \<longleftrightarrow> 48 \<le> (of_char c :: nat) \<and> (of_char c :: nat) \<le> 57"

fun nat_digits :: "nat \<Rightarrow> string" where
  "nat_digits n =
     (if n < 10 then [digit_char n] else nat_digits (n div 10) @ [digit_char (n mod 10)])"

declare nat_digits.simps [simp del]

definition to_string :: "int \<Rightarrow> string" where
  "to_string i = (if i < 0 then CHR ''-'' # nat_digits (nat (- i)) else nat_digits (nat i))"

definition digits_val :: "string \<Rightarrow> nat" where
  "digits_val ds = foldl (\<lambda>n c. 10 * n + digit_val c) 0 ds"

definition is_space :: "char \<Rightarrow> bool" where
  "is_space c \<longleftrightarrow> c = CHR '' '' \<or> 9 \<le> (of_char c :: nat) \<and> (of_char c :: nat) \<le> 13"

text \<open>
  \<open>std::stoi\<close>: leading white space, an optional sign, then as many digits as there are;
  what follows is ignored. No digit is \<open>std::invalid_argument\<close>, a value outside \<open>int\<close> is
  \<open>std::out_of_range\<close>.
\<close>

definition stoi :: "string \<Rightarrow> int result" where
  "stoi s =
     (let s1 = dropWhile is_space s;
          neg = (s1 \<noteq> [] \<and> hd s1 = CHR ''-'');
          s2 = (if s1 \<noteq> [] \<and> (hd s1 = CHR ''-'' \<or> hd s1 = CHR ''+'') then tl s1 else s1);
          ds = takeWhile is_digit s2;
          v = (if neg then - int (digits_val ds) else int (digits_val ds))
      in if ds = [] then Inl Invalid_Argument
         else if int_min \<le> v \<and> v \<le> int_max then Inr v
         else Inl Out_Of_Range)"

lemma digit_val_digit_char [simp]: "n < 10 \<Longrightarrow> digit_val (digit_char n) = n"
  by (simp add: digit_val_def digit_char_def)

lemma is_digit_digit_char [simp]: "n < 10 \<Longrightarrow> is_digit (digit_char n)"
  by (simp add: is_digit_def digit_char_def)

lemma nat_digits_is_digit: "c \<in> set (nat_digits n) \<Longrightarrow> is_digit c"
proof (induction n rule: nat_digits.induct)
  case (1 n)
  then show ?case by (cases "n < 10") (auto simp: nat_digits.simps [of n])
qed

lemma nat_digits_not_Nil [simp]: "nat_digits n \<noteq> []"
  by (subst nat_digits.simps) simp

lemma digits_val_nat_digits [simp]: "digits_val (nat_digits n) = n"
proof (induction n rule: nat_digits.induct)
  case (1 n)
  show ?case
  proof (cases "n < 10")
    case True
    then show ?thesis by (simp add: nat_digits.simps [of n] digits_val_def)
  next
    case False
    with 1 have "digits_val (nat_digits (n div 10)) = n div 10" by simp
    with False show ?thesis by (simp add: nat_digits.simps [of n] digits_val_def)
  qed
qed

lemma nat_digits_inject [simp]: "nat_digits m = nat_digits n \<longleftrightarrow> m = n"
  by (metis digits_val_nat_digits)

lemma is_digit_not_special:
  "is_digit c \<Longrightarrow> c \<noteq> colon \<and> c \<noteq> newline \<and> c \<noteq> nul \<and> c \<noteq> CHR ''-'' \<and> c \<noteq> CHR ''+'' \<and> \<not> is_space c"
  by (auto simp: is_digit_def is_space_def)

lemma to_string_chars: "c \<in> set (to_string i) \<Longrightarrow> is_digit c \<or> c = CHR ''-''"
  by (auto simp: to_string_def dest: nat_digits_is_digit split: if_splits)

lemma to_string_not_Nil [simp]: "to_string i \<noteq> []"
  by (simp add: to_string_def)

lemma to_string_clean [simp]:
  "colon \<notin> set (to_string i)" "newline \<notin> set (to_string i)" "nul \<notin> set (to_string i)"
  using is_digit_not_special by (fastforce dest: to_string_chars)+

lemma length_nat_digits: "n < 10 ^ k \<Longrightarrow> 0 < k \<Longrightarrow> length (nat_digits n) \<le> k"
proof (induction n arbitrary: k rule: nat_digits.induct)
  case (1 n)
  show ?case
  proof (cases "n < 10")
    case True
    with 1 show ?thesis by (subst nat_digits.simps) simp
  next
    case False
    with "1.prems" obtain k' where k: "k = Suc k'" "0 < k'" by (cases k; cases "k - 1") auto
    with "1.prems" False have "length (nat_digits (n div 10)) \<le> k'" by (intro "1.IH") auto
    with False k show ?thesis by (subst nat_digits.simps) simp
  qed
qed

lemma length_to_string: "\<bar>i\<bar> < 10 ^ k \<Longrightarrow> 0 < k \<Longrightarrow> length (to_string i) \<le> Suc k"
proof -
  assume i: "\<bar>i\<bar> < 10 ^ k" and k: "0 < k"
  have "nat \<bar>i\<bar> < 10 ^ k" using i by (simp add: nat_less_iff)
  with length_nat_digits [OF this k] show ?thesis by (auto simp: to_string_def abs_if split: if_splits)
qed

text \<open>The text of an \<open>int\<close> has at most eleven characters.\<close>

lemma length_to_string_int: "int_min \<le> i \<Longrightarrow> i \<le> int_max + 1 \<Longrightarrow> length (to_string i) \<le> 11"
  using length_to_string [of i 10] by (simp add: int_min_def int_max_def)

lemma stoi_to_string:
  "stoi (to_string i) = (if int_min \<le> i \<and> i \<le> int_max then Inr i else Inl Out_Of_Range)"
proof -
  have ds: "takeWhile is_digit (nat_digits n) = nat_digits n" for n
    by (simp add: takeWhile_eq_all_conv nat_digits_is_digit)
  have hd_ok: "is_digit (hd (nat_digits n))" for n
    by (rule nat_digits_is_digit [OF hd_in_set]) simp
  show ?thesis
  proof (cases "i < 0")
    case True
    then show ?thesis
      by (simp add: stoi_def to_string_def is_space_def ds Let_def)
  next
    case False
    from hd_ok [of "nat i"] have "dropWhile is_space (nat_digits (nat i)) = nat_digits (nat i)"
      by (cases "nat_digits (nat i)") (auto dest: is_digit_not_special)
    with False hd_ok [of "nat i"] show ?thesis
      by (auto simp: stoi_def to_string_def ds Let_def dest: is_digit_not_special)
  qed
qed

lemma to_string_inject [simp]: "to_string i = to_string j \<longleftrightarrow> i = j"
proof -
  have *: "CHR ''-'' # xs \<noteq> nat_digits n" for xs n
    using nat_digits_is_digit [of "CHR ''-''" n] is_digit_not_special
    by (metis list.set_intros(1))
  show ?thesis by (auto simp: to_string_def * * [symmetric])
qed

section \<open>The keyboard stream\<close>

text \<open>
  \<open>std::cin\<close>: what is still to be read, and whether the stream is in a good state. Once it
  is not, every further \<open>getline\<close> fails and leaves an empty string in the buffer.
\<close>

record istream =
  rest :: string
  good :: bool

definition cin_getline :: "nat \<Rightarrow> istream \<Rightarrow> string \<times> istream" where
  "cin_getline n is =
     (if \<not> good is then ([], is)
      else let l = takeWhile (\<lambda>c. c \<noteq> newline) (rest is) in
        if length l < n then
          (if length l < length (rest is) then (l, is\<lparr>rest := drop (Suc (length l)) (rest is)\<rparr>)
           else (l, is\<lparr>rest := [], good := False\<rparr>))
        else (take (n - 1) (rest is), is\<lparr>rest := drop (n - 1) (rest is), good := False\<rparr>))"

text \<open>\<open>std::string line(buf)\<close> copies up to the first NUL of the buffer.\<close>

definition string_of_buf :: "string \<Rightarrow> string" where
  "string_of_buf b = takeWhile (\<lambda>c. c \<noteq> nul) b"

definition istream_size :: "istream \<Rightarrow> nat" where
  "istream_size is = length (rest is) + (if good is then 1 else 0)"

lemma cin_getline_failed [simp]: "\<not> good is \<Longrightarrow> cin_getline n is = ([], is)"
  by (simp add: cin_getline_def)

lemma cin_getline_line:
  assumes "newline \<notin> set l" "length l < n"
  shows "cin_getline n \<lparr>rest = l @ newline # s, good = True\<rparr> = (l, \<lparr>rest = s, good = True\<rparr>)"
  using assms by (simp add: cin_getline_def Let_def)

lemma string_of_buf_id [simp]: "nul \<notin> set s \<Longrightarrow> string_of_buf s = s"
  by (simp add: string_of_buf_def)

lemma cin_getline_shrinks:
  assumes "cin_getline n is = (l, is')" "good is" "0 < n"
  shows "istream_size is' < istream_size is"
  using assms by (auto simp: cin_getline_def istream_size_def Let_def split: if_splits)

end
