(* ===== verification/Frame.thy ===== *)
theory Frame
  imports Cpp_Strings "HOL-Library.Multiset"
begin

text \<open>
  The class \<open>Frame\<close> of client/include/Frame.h and client/src/Frame.cpp: it cuts a received
  message into the command line, the header lines and the body, and files them in one map.
  \<open>render_frame\<close> is the STOMP text of a frame; the lemmas show that parsing inverts it and
  which messages make the parser fail.
\<close>

section \<open>The parser\<close>

record frame =
  currString :: string
  frame_map :: "string \<rightharpoonup> string"

text \<open>
  The loop of \<open>getNextLine\<close>: characters are taken with \<open>at\<close> until a newline is met. The index is
  an \<open>int\<close>, and counting past its largest value is undefined.
\<close>

function line_loop :: "string \<Rightarrow> int \<Rightarrow> string \<Rightarrow> (string \<times> int) result" where
  "line_loop s i line =
     rbind (str_at s (nat i)) (\<lambda>c.
       if c \<noteq> newline then rbind (int_incr i) (\<lambda>i. line_loop s i (line @ [c])) else Inr (line, i))"
  by pat_completeness auto
termination
  by (relation "measure (\<lambda>(s, i, line). nat (int (length s) - i))")
     (auto simp: str_at_def int_incr_eq_Inr split: if_splits)

declare line_loop.simps [simp del]

definition getNextLine :: "frame \<Rightarrow> (string \<times> frame) result" where
  "getNextLine f =
     (if currString f \<noteq> [] then
        rbind (line_loop (currString f) 0 []) (\<lambda>(line, i).
          rbind (int_incr i) (\<lambda>i.
            rbind (substr (currString f) (nat i)) (\<lambda>s.
              Inr (line, f\<lparr>currString := s\<rparr>))))
      else Inr ([], f))"

definition frame_split :: "string \<Rightarrow> char \<Rightarrow> string list" where
  "frame_split x splitby = split_on splitby x"

definition mapStompCommand :: "frame \<Rightarrow> frame result" where
  "mapStompCommand f =
     rbind (getNextLine f) (\<lambda>(line, f').
       Inr (f'\<lparr>frame_map := map_insert (frame_map f') ''StompCommand'' line\<rparr>))"

text \<open>A line that an \<open>int\<close> can count, together with its newline.\<close>

definition short_line :: "string \<Rightarrow> bool" where
  "short_line l \<longleftrightarrow> int (length l) < int_max"

lemma line_loop_newline:
  assumes "newline \<notin> set l" "int (length p) \<le> int_max"
  shows "line_loop (p @ l @ newline # r) (int (length p)) acc =
    (if int (length p + length l) \<le> int_max then Inr (acc @ l, int (length p + length l))
     else Inl Undefined_Behaviour)"
  using assms
proof (induction l arbitrary: p acc)
  case Nil
  then show ?case by (subst line_loop.simps) (simp add: str_at_def)
next
  case (Cons c l)
  let ?s = "p @ (c # l) @ newline # r"
  have step: "line_loop ?s (int (length p)) acc =
      rbind (int_incr (int (length p))) (\<lambda>i. line_loop ?s i (acc @ [c]))"
    using Cons.prems(1) by (subst line_loop.simps) (auto simp: str_at_def nth_append)
  show ?case
  proof (cases "int (length p) < int_max")
    case True
    then have "line_loop ((p @ [c]) @ l @ newline # r) (int (length (p @ [c]))) (acc @ [c]) =
        (if int (length (p @ [c]) + length l) \<le> int_max
         then Inr ((acc @ [c]) @ l, int (length (p @ [c]) + length l)) else Inl Undefined_Behaviour)"
      using Cons.prems(1) by (intro Cons.IH) auto
    with step True show ?thesis by (simp add: int_incr_def add.commute)
  next
    case False
    with step show ?thesis by (simp add: int_incr_def)
  qed
qed

lemma line_loop_unterminated:
  assumes "newline \<notin> set l" "int (length p) \<le> int_max"
  shows "line_loop (p @ l) (int (length p)) acc =
    Inl (if int (length p + length l) \<le> int_max then Out_Of_Range else Undefined_Behaviour)"
  using assms
proof (induction l arbitrary: p acc)
  case Nil
  then show ?case by (subst line_loop.simps) (simp add: str_at_def)
next
  case (Cons c l)
  let ?s = "p @ c # l"
  have step: "line_loop ?s (int (length p)) acc =
      rbind (int_incr (int (length p))) (\<lambda>i. line_loop ?s i (acc @ [c]))"
    using Cons.prems(1) by (subst line_loop.simps) (auto simp: str_at_def nth_append)
  show ?case
  proof (cases "int (length p) < int_max")
    case True
    then have "line_loop ((p @ [c]) @ l) (int (length (p @ [c]))) (acc @ [c]) =
        Inl (if int (length (p @ [c]) + length l) \<le> int_max then Out_Of_Range else Undefined_Behaviour)"
      using Cons.prems(1) by (intro Cons.IH) auto
    with step True show ?thesis by (simp add: int_incr_def add.commute)
  next
    case False
    with step show ?thesis by (simp add: int_incr_def)
  qed
qed

text \<open>
  The four cases of \<open>getNextLine\<close>: nothing left, a complete line, a line that is too long to be
  counted, an incomplete one.
\<close>

lemma getNextLine_empty: "currString f = [] \<Longrightarrow> getNextLine f = Inr ([], f)"
  by (simp add: getNextLine_def)

lemma getNextLine_first:
  assumes "currString f = l @ newline # r" "newline \<notin> set l"
  shows "getNextLine f = (if short_line l then Inr (l, f\<lparr>currString := r\<rparr>) else Inl Undefined_Behaviour)"
proof -
  have "line_loop (currString f) 0 [] =
      (if int (length l) \<le> int_max then Inr (l, int (length l)) else Inl Undefined_Behaviour)"
    using line_loop_newline [OF assms(2), of "[]" r "[]"] assms(1) by (simp add: int_max_def)
  moreover have "nat (int (length l) + 1) = Suc (length l)" by simp
  ultimately show ?thesis
    using assms(1) by (simp add: getNextLine_def substr_def short_line_def int_incr_def)
qed

lemma getNextLine_line:
  assumes "currString f = l @ newline # r" "newline \<notin> set l" "short_line l"
  shows "getNextLine f = Inr (l, f\<lparr>currString := r\<rparr>)"
  using getNextLine_first [OF assms(1,2)] assms(3) by simp

lemma getNextLine_unterminated:
  assumes "currString f \<noteq> []" "newline \<notin> set (currString f)"
  obtains e where "getNextLine f = Inl e"
  using line_loop_unterminated [of "currString f" "[]" "[]"] assms
  by (simp add: getNextLine_def int_max_def)

lemma getNextLine_cases:
  obtains (empty) "currString f = []" "getNextLine f = Inr ([], f)"
  | (line) l r where "currString f = l @ newline # r" "newline \<notin> set l" "short_line l"
      "getNextLine f = Inr (l, f\<lparr>currString := r\<rparr>)"
  | (failed) e where "currString f \<noteq> []" "getNextLine f = Inl e"
proof (cases "newline \<in> set (currString f)")
  case True
  then obtain l r where "currString f = l @ newline # r" "newline \<notin> set l" by (metis split_list_first)
  with that(2,3) getNextLine_first [of f l r] show ?thesis by (cases "short_line l") auto
next
  case False
  with that(1,3) getNextLine_empty getNextLine_unterminated show ?thesis by metis
qed

text \<open>
  The header loop. It stops at an empty line, which is also what an exhausted text gives; each
  turn before that either shortens the text or empties the line.
\<close>

function mapHeaders_loop :: "frame \<Rightarrow> string \<Rightarrow> frame result" where
  "mapHeaders_loop f currentLine =
     (if currentLine \<noteq> [] then
        let splitted = frame_split currentLine colon in
        rbind (vec_at splitted 0) (\<lambda>k.
        rbind (vec_at splitted 1) (\<lambda>v.
        rbind (getNextLine (f\<lparr>frame_map := map_insert (frame_map f) k v\<rparr>)) (\<lambda>(line, f').
          mapHeaders_loop f' line)))
      else Inr f)"
  by pat_completeness auto
termination
proof (relation "measure (\<lambda>(f, l). length (currString f) + (if l = [] then 0 else 1))", goal_cases)
  case 1
  then show ?case by simp
next
  case (2 f l ss k v p l' f')
  then show ?case
    by (cases "f\<lparr>frame_map := map_insert (frame_map f) k v\<rparr>" rule: getNextLine_cases) auto
qed

declare mapHeaders_loop.simps [simp del]

definition mapHeaders :: "frame \<Rightarrow> frame result" where
  "mapHeaders f = rbind (getNextLine f) (\<lambda>(currentLine, f'). mapHeaders_loop f' currentLine)"

definition mapBody :: "frame \<Rightarrow> frame" where
  "mapBody f = f\<lparr>frame_map := map_insert (frame_map f) ''FrameBody'' (currString f)\<rparr>"

definition new_frame :: "string \<Rightarrow> frame result" where
  "new_frame message =
     rbind (mapStompCommand \<lparr>currString = message, frame_map = Map.empty\<rparr>) (\<lambda>f1.
     rbind (if length (currString f1) \<noteq> 0 then mapHeaders f1 else Inr f1) (\<lambda>f2.
     Inr (if length (currString f2) \<noteq> 0 then mapBody f2 else f2)))"

section \<open>STOMP texts and what the parser makes of them\<close>

text \<open>
  A header line is \<open>key:value\<close>. The parser keeps the value up to the next colon, and it needs
  the value not to be empty, because \<open>split\<close> produces no empty last piece, and the line to be
  short enough for its \<open>int\<close> index.
\<close>

type_synonym header = "string \<times> string"

definition header_line :: "header \<Rightarrow> string" where
  "header_line h = fst h @ colon # snd h"

definition wf_header :: "header \<Rightarrow> bool" where
  "wf_header h \<longleftrightarrow>
     colon \<notin> set (fst h) \<and> newline \<notin> set (fst h) \<and> newline \<notin> set (snd h) \<and> snd h \<noteq> [] \<and>
     short_line (header_line h)"

text \<open>A command line, likewise.\<close>

definition wf_command :: "string \<Rightarrow> bool" where
  "wf_command cmd \<longleftrightarrow> newline \<notin> set cmd \<and> short_line cmd"

definition header_value :: "string \<Rightarrow> string" where
  "header_value v = takeWhile (\<lambda>c. c \<noteq> colon) v"

definition render_headers :: "header list \<Rightarrow> string" where
  "render_headers hs = concat (map (\<lambda>h. header_line h @ [newline]) hs)"

definition render_frame :: "string \<Rightarrow> header list \<Rightarrow> string \<Rightarrow> string" where
  "render_frame cmd hs body = cmd @ newline # render_headers hs @ newline # body"

definition headers_map :: "header list \<Rightarrow> (string \<rightharpoonup> string)" where
  "headers_map hs = map_of (map (\<lambda>(k, v). (k, header_value v)) hs)"

text \<open>The entries the parser files: the command first, then the headers, then the body.\<close>

definition parsed_headers :: "string \<Rightarrow> header list \<Rightarrow> (string \<rightharpoonup> string)" where
  "parsed_headers cmd hs = headers_map hs ++ [''StompCommand'' \<mapsto> cmd]"

lemma header_value_id [simp]: "colon \<notin> set v \<Longrightarrow> header_value v = v"
  by (simp add: header_value_def)

lemma render_headers_simps [simp]:
  "render_headers [] = []"
  "render_headers (h # hs) = header_line h @ newline # render_headers hs"
  by (simp_all add: render_headers_def)

lemma render_headers_append: "render_headers (hs @ hs') = render_headers hs @ render_headers hs'"
  by (simp add: render_headers_def)

lemma wf_header_no_newline: "wf_header h \<Longrightarrow> newline \<notin> set (header_line h)"
  by (auto simp: wf_header_def header_line_def)

lemma header_line_not_Nil [simp]: "header_line h \<noteq> []"
  by (simp add: header_line_def)

lemma frame_split_header:
  assumes "wf_header (k, v)"
  obtains more where "frame_split (header_line (k, v)) colon = k # header_value v # more"
proof -
  from assms have "colon \<notin> set k" "v \<noteq> []" by (simp_all add: wf_header_def)
  moreover have "split_on colon v = header_value v #
      split_on colon (drop (Suc (length (header_value v))) v)"
    using \<open>v \<noteq> []\<close> by (subst split_on.simps) (simp add: getline_def header_value_def)
  ultimately show ?thesis
    using that by (simp add: frame_split_def header_line_def split_on_delim)
qed

lemma wf_header_short: "wf_header h \<Longrightarrow> short_line (header_line h)"
  by (simp add: wf_header_def)

text \<open>One turn of the header loop on a well-formed line, and on a malformed one.\<close>

lemma mapHeaders_loop_header:
  assumes "wf_header (k, v)"
  shows "mapHeaders_loop f (header_line (k, v)) =
    rbind (getNextLine (f\<lparr>frame_map := map_insert (frame_map f) k (header_value v)\<rparr>))
      (\<lambda>(line, f'). mapHeaders_loop f' line)"
proof -
  from assms obtain more where
    "frame_split (header_line (k, v)) colon = k # header_value v # more"
    by (rule frame_split_header)
  then show ?thesis by (subst mapHeaders_loop.simps) (simp add: Let_def)
qed

lemma mapHeaders_loop_stop [simp]: "mapHeaders_loop f [] = Inr f"
  by (subst mapHeaders_loop.simps) simp

definition bad_header_line :: "string \<Rightarrow> bool" where
  "bad_header_line l \<longleftrightarrow> l \<noteq> [] \<and> newline \<notin> set l \<and> colon \<notin> set (butlast l)"

lemma mapHeaders_loop_bad:
  assumes "bad_header_line l"
  shows "mapHeaders_loop f l = Inl Undefined_Behaviour"
proof -
  from assms obtain p c where l: "l = p @ [c]" and "colon \<notin> set p"
    by (auto simp: bad_header_line_def dest!: append_butlast_last_id [symmetric])
  have "frame_split l colon = (if c = colon then [p] else [l])"
  proof (cases "c = colon")
    case True
    with l \<open>colon \<notin> set p\<close> show ?thesis
      using split_on_delim [of colon p "[]"] by (simp add: frame_split_def)
  next
    case False
    with l \<open>colon \<notin> set p\<close> show ?thesis
      using split_on_no_delim [of colon l] by (auto simp: frame_split_def)
  qed
  with l show ?thesis
    by (subst mapHeaders_loop.simps) (simp add: Let_def)
qed

text \<open>
  Running the loop over a list of well-formed headers: it arrives at the text after them with
  the headers filed. The rest of the run is left open, so that every continuation (end of text,
  blank line, malformed line, incomplete line) is an instance.
\<close>

lemma headers_map_Cons:
  "headers_map ((k, v) # hs) ++ m = headers_map hs ++ map_insert m k (header_value v)"
  by (rule ext) (auto simp: headers_map_def map_insert_apply map_add_def split: option.splits)

lemma mapHeaders_run:
  "list_all wf_header hs \<Longrightarrow>
   mapHeaders \<lparr>currString = render_headers hs @ r, frame_map = m\<rparr> =
   mapHeaders \<lparr>currString = r, frame_map = headers_map hs ++ m\<rparr>"
proof (induction hs arbitrary: m)
  case Nil
  then show ?case by (simp add: headers_map_def)
next
  case (Cons h hs)
  obtain k v where h: "h = (k, v)" by (cases h)
  with Cons.prems have wf: "wf_header (k, v)" "list_all wf_header hs" by simp_all
  let ?f = "\<lparr>currString = render_headers (h # hs) @ r, frame_map = m\<rparr>"
  have "getNextLine ?f =
      Inr (header_line (k, v), ?f\<lparr>currString := render_headers hs @ r\<rparr>)"
    using wf_header_no_newline [OF wf(1)] wf_header_short [OF wf(1)] by (intro getNextLine_line) (simp_all add: h)
  then have "mapHeaders ?f = mapHeaders
      \<lparr>currString = render_headers hs @ r, frame_map = map_insert m k (header_value v)\<rparr>"
    by (simp add: mapHeaders_def mapHeaders_loop_header [OF wf(1)])
  with Cons.IH [OF wf(2)] show ?case by (simp add: h headers_map_Cons)
qed

lemma mapHeaders_blank:
  "mapHeaders \<lparr>currString = newline # r, frame_map = m\<rparr> = Inr \<lparr>currString = r, frame_map = m\<rparr>"
  using getNextLine_line [of "\<lparr>currString = newline # r, frame_map = m\<rparr>" "[]" r]
  by (simp add: mapHeaders_def short_line_def int_max_def)

lemma mapHeaders_end:
  "mapHeaders \<lparr>currString = [], frame_map = m\<rparr> = Inr \<lparr>currString = [], frame_map = m\<rparr>"
  by (simp add: mapHeaders_def getNextLine_empty)

lemma mapHeaders_bad:
  assumes "bad_header_line l \<or> newline \<notin> set l \<and> \<not> short_line l"
  shows "mapHeaders \<lparr>currString = l @ newline # r, frame_map = m\<rparr> = Inl Undefined_Behaviour"
proof -
  have "getNextLine \<lparr>currString = l @ newline # r, frame_map = m\<rparr> =
      (if short_line l then Inr (l, \<lparr>currString = r, frame_map = m\<rparr>) else Inl Undefined_Behaviour)"
    using assms getNextLine_first [of "\<lparr>currString = l @ newline # r, frame_map = m\<rparr>" l r]
    by (auto simp: bad_header_line_def)
  with assms show ?thesis by (auto simp: mapHeaders_def mapHeaders_loop_bad)
qed

lemma mapHeaders_unterminated:
  assumes "t \<noteq> []" "newline \<notin> set t"
  shows "mapHeaders \<lparr>currString = t, frame_map = m\<rparr> \<noteq> Inr f"
proof -
  obtain e where "getNextLine \<lparr>currString = t, frame_map = m\<rparr> = Inl e"
    using getNextLine_unterminated [of "\<lparr>currString = t, frame_map = m\<rparr>"] assms by auto
  then show ?thesis by (simp add: mapHeaders_def)
qed

text \<open>The constructor on a message whose first line is complete.\<close>

lemma new_frame_command:
  assumes "wf_command cmd"
  shows "new_frame (cmd @ newline # r) =
    rbind (mapHeaders \<lparr>currString = r, frame_map = [''StompCommand'' \<mapsto> cmd]\<rparr>) (\<lambda>f.
      Inr (if currString f \<noteq> [] then mapBody f else f))"
proof -
  have "mapStompCommand \<lparr>currString = cmd @ newline # r, frame_map = Map.empty\<rparr> =
      Inr \<lparr>currString = r, frame_map = [''StompCommand'' \<mapsto> cmd]\<rparr>"
    using getNextLine_line [of "\<lparr>currString = cmd @ newline # r, frame_map = Map.empty\<rparr>" cmd r] assms
    by (simp add: mapStompCommand_def wf_command_def)
  then show ?thesis
    by (cases "r = []") (simp_all add: new_frame_def mapHeaders_end)
qed

lemma new_frame_long_command:
  assumes "newline \<notin> set cmd" "\<not> short_line cmd"
  shows "new_frame (cmd @ newline # r) = Inl Undefined_Behaviour"
  using getNextLine_first [of "\<lparr>currString = cmd @ newline # r, frame_map = Map.empty\<rparr>" cmd r] assms
  by (simp add: new_frame_def mapStompCommand_def)

lemma new_frame_headers:
  assumes "wf_command cmd" "list_all wf_header hs"
  shows "new_frame (cmd @ newline # render_headers hs @ r) =
    rbind (mapHeaders \<lparr>currString = r, frame_map = parsed_headers cmd hs\<rparr>) (\<lambda>f.
      Inr (if currString f \<noteq> [] then mapBody f else f))"
  using assms by (simp add: new_frame_command mapHeaders_run parsed_headers_def)

text \<open>
  Every text splits into well-formed header lines and one of four ends: nothing, a blank line,
  a malformed or overlong line, or a line without its newline.
\<close>

definition header_section_end :: "string \<Rightarrow> bool" where
  "header_section_end r \<longleftrightarrow> r = [] \<or> (\<exists>b. r = newline # b) \<or>
     (\<exists>l b. r = l @ newline # b \<and> (bad_header_line l \<or> newline \<notin> set l \<and> \<not> short_line l)) \<or> newline \<notin> set r \<and> r \<noteq> []"

lemma header_line_cases:
  assumes "l \<noteq> []" "newline \<notin> set l" "\<not> bad_header_line l" "short_line l"
  obtains h where "wf_header h" "l = header_line h"
proof -
  from assms have "colon \<in> set (butlast l)" by (simp add: bad_header_line_def)
  then obtain k v where kv: "butlast l = k @ colon # v" "colon \<notin> set k"
    by (metis split_list_first)
  with assms(1) obtain c where l: "l = k @ colon # v @ [c]"
    by (metis append_butlast_last_id append_Cons append_assoc)
  with assms(2) have "newline \<notin> set k \<union> set v \<union> {c}" by auto
  with l kv(2) assms(4) show ?thesis
    by (intro that [of "(k, v @ [c])"]) (auto simp: wf_header_def header_line_def)
qed

lemma header_section_cases:
  obtains hs r where "list_all wf_header hs" "t = render_headers hs @ r" "header_section_end r"
proof (induction t arbitrary: thesis rule: length_induct)
  case (1 t)
  show ?case
  proof (cases "newline \<in> set t")
    case False
    then show ?thesis by (intro "1.prems" [of "[]" t]) (auto simp: header_section_end_def)
  next
    case True
    then obtain l b where t: "t = l @ newline # b" "newline \<notin> set l" by (metis split_list_first)
    show ?thesis
    proof (cases "l = [] \<or> bad_header_line l \<or> \<not> short_line l")
      case True
      with t show ?thesis by (intro "1.prems" [of "[]" t]) (auto simp: header_section_end_def)
    next
      case False
      with t(2) obtain h where h: "wf_header h" "l = header_line h" by (metis header_line_cases)
      from t(1) have "length b < length t" by simp
      then obtain hs r where "list_all wf_header hs" "b = render_headers hs @ r" "header_section_end r"
        using "1.IH" by metis
      with h t(1) show ?thesis by (intro "1.prems" [of "h # hs" r]) simp_all
    qed
  qed
qed

lemma new_frame_render:
  assumes "wf_command cmd" "list_all wf_header hs"
  shows "new_frame (render_frame cmd hs body) =
    Inr \<lparr>currString = body,
         frame_map = (if body = [] then parsed_headers cmd hs
                      else map_insert (parsed_headers cmd hs) ''FrameBody'' body)\<rparr>"
  using assms by (simp add: render_frame_def new_frame_headers mapHeaders_blank mapBody_def)

section \<open>Properties\<close>



text \<open>
  The order of the headers does not matter: two texts whose headers are a permutation of
  each other, with distinct keys, give the same frame.
\<close>

theorem frame_header_order:
  assumes "wf_command cmd" "list_all wf_header hs"
    and "mset hs = mset hs'" "distinct (map fst hs)"
  shows "new_frame (render_frame cmd hs body) = new_frame (render_frame cmd hs' body)"
proof -
  have keys: "map fst (map (\<lambda>(k, v). (k, header_value v)) xs) = map fst xs" for xs
    by (simp add: case_prod_beta comp_def)
  have "distinct (map fst hs')"
    using assms(3,4) by (metis mset_map mset_eq_imp_distinct_iff)
  moreover have "set hs = set hs'" using assms(3) by (rule mset_eq_setD)
  ultimately have "headers_map hs = headers_map hs'"
    unfolding headers_map_def using assms(4)
    by (intro map_of_inject_set [THEN iffD2]) (simp_all add: keys del: map_map)
  moreover from assms(2) \<open>set hs = set hs'\<close> have "list_all wf_header hs'"
    by (simp add: list_all_iff)
  moreover note frame_rt = new_frame_headers [OF assms(1)]
  ultimately show ?thesis
    using assms(2) by (simp add: render_frame_def frame_rt parsed_headers_def)
qed

text \<open>
  The parser reads past the pieces of a split line: a header line without a colon, or with
  nothing after its only colon, makes the constructor's behaviour undefined, whatever precedes
  it and whatever follows.
\<close>

theorem frame_bad_header_undefined:
  assumes "newline \<notin> set cmd" "list_all wf_header hs" "bad_header_line l"
  shows "new_frame (cmd @ newline # render_headers hs @ l @ newline # r) = Inl Undefined_Behaviour"
  using assms
  by (cases "short_line cmd") (simp_all add: new_frame_headers mapHeaders_bad wf_command_def new_frame_long_command)

theorem frame_bad_header_undefined_witness:
  "new_frame (''ERROR'' @ newline # render_headers [] @ ''Wrong Password'' @ newline # ''-----'') =
    Inl Undefined_Behaviour"
  by (rule frame_bad_header_undefined) (simp_all add: bad_header_line_def)

text \<open>
  C10: The messages the constructor accepts are exactly the empty message, a command line with
  well-formed header lines and nothing else, and the text of a frame with its blank line, all
  lines being short enough for the \<open>int\<close> that counts them: on every other input it throws or
  its behaviour is undefined.
\<close>

theorem frame_accepts_iff:
  "(\<exists>f. new_frame m = Inr f) \<longleftrightarrow>
     m = [] \<or> (\<exists>cmd hs. wf_command cmd \<and> list_all wf_header hs \<and>
       (m = cmd @ newline # render_headers hs \<or> (\<exists>body. m = render_frame cmd hs body)))"
  (is "?acc m \<longleftrightarrow> ?lang m")
proof
  show "?acc m" if "?lang m"
    using that
  proof (elim disjE exE conjE)
    assume "m = []"
    then show ?thesis by (simp add: new_frame_def mapStompCommand_def getNextLine_empty)
  next
    fix cmd hs assume "wf_command cmd" "list_all wf_header hs"
      and m: "m = cmd @ newline # render_headers hs"
    then show ?thesis using new_frame_headers [of cmd hs "[]"] by (simp add: mapHeaders_end)
  next
    fix cmd hs body assume "wf_command cmd" "list_all wf_header hs"
      and "m = render_frame cmd hs body"
    then show ?thesis by (simp add: render_frame_def new_frame_headers mapHeaders_blank)
  qed
next
  assume acc: "?acc m"
  show "?lang m"
  proof (cases "m = [] \<or> newline \<in> set m")
    case False
    then obtain e where "getNextLine \<lparr>currString = m, frame_map = Map.empty\<rparr> = Inl e"
      using getNextLine_unterminated [of "\<lparr>currString = m, frame_map = Map.empty\<rparr>"] by auto
    with acc show ?thesis by (simp add: new_frame_def mapStompCommand_def)
  next
    case True
    then consider "m = []" | cmd t where "m = cmd @ newline # t" "newline \<notin> set cmd"
      by (metis split_list_first)
    then show ?thesis
    proof cases
      case 2
      with acc have cmd: "wf_command cmd" using new_frame_long_command [of cmd t] by (cases "short_line cmd") (auto simp: wf_command_def)
      obtain hs r where t: "list_all wf_header hs" "t = render_headers hs @ r"
        and r: "header_section_end r"
        by (rule header_section_cases)
      from acc 2 cmd t have "\<exists>f. mapHeaders \<lparr>currString = r, frame_map = parsed_headers cmd hs\<rparr> = Inr f"
        by (auto simp: new_frame_headers rbind_eq_Inr)
      with r have "r = [] \<or> (\<exists>b. r = newline # b)"
        by (auto simp: header_section_end_def mapHeaders_bad mapHeaders_unterminated)
      with 2 cmd t show ?thesis by (auto simp: render_frame_def)
    qed simp
  qed
qed

end
