(* ===== verification/Event.thy ===== *)
theory Event
  imports Cpp_Strings
begin

text \<open>
  The class \<open>Event\<close> and the struct \<open>names_and_events\<close> of client/include/event.h and
  client/src/event.cpp: the data of one game event, its two constructors and its accessors.
\<close>

record event =
  team_a_name :: string
  team_b_name :: string
  ev_name :: string
  ev_time :: int
  game_updates :: "string \<rightharpoonup> string"
  team_a_updates :: "string \<rightharpoonup> string"
  team_b_updates :: "string \<rightharpoonup> string"
  description :: string

record names_and_events =
  ne_team_a_name :: string
  ne_team_b_name :: string
  ne_events :: "event list"

text \<open>The constructor of event.cpp takes the two team names before the name of the event.\<close>

definition new_event :: "string \<Rightarrow> string \<Rightarrow> string \<Rightarrow> int \<Rightarrow> (string \<rightharpoonup> string) \<Rightarrow>
    (string \<rightharpoonup> string) \<Rightarrow> (string \<rightharpoonup> string) \<Rightarrow> string \<Rightarrow> event" where
  "new_event ta tb n t gu au bu d =
     \<lparr>team_a_name = ta, team_b_name = tb, ev_name = n, ev_time = t,
      game_updates = gu, team_a_updates = au, team_b_updates = bu, description = d\<rparr>"

definition event_of_frame_body :: "string \<Rightarrow> event" where
  "event_of_frame_body frame_body =
     \<lparr>team_a_name = [], team_b_name = [], ev_name = [], ev_time = 0,
      game_updates = Map.empty, team_a_updates = Map.empty, team_b_updates = Map.empty,
      description = []\<rparr>"

definition get_team_a_name :: "event \<Rightarrow> string" where
  "get_team_a_name e = team_a_name e"

definition get_team_b_name :: "event \<Rightarrow> string" where
  "get_team_b_name e = team_b_name e"

definition get_name :: "event \<Rightarrow> string" where
  "get_name e = ev_name e"

definition get_time :: "event \<Rightarrow> int" where
  "get_time e = ev_time e"

definition get_game_updates :: "event \<Rightarrow> (string \<rightharpoonup> string)" where
  "get_game_updates e = game_updates e"

definition get_team_a_updates :: "event \<Rightarrow> (string \<rightharpoonup> string)" where
  "get_team_a_updates e = team_a_updates e"

definition get_team_b_updates :: "event \<Rightarrow> (string \<rightharpoonup> string)" where
  "get_team_b_updates e = team_b_updates e"

definition get_discription :: "event \<Rightarrow> string" where
  "get_discription e = description e"

lemmas event_getters [simp] =
  get_team_a_name_def get_team_b_name_def get_name_def get_time_def get_game_updates_def
  get_team_a_updates_def get_team_b_updates_def get_discription_def

text \<open>The name of the game an event belongs to, as Games.cpp and StompProtocol.cpp build it.\<close>

definition game_name :: "event \<Rightarrow> string" where
  "game_name e = get_team_a_name e @ ''_'' @ get_team_b_name e"

end
