(* ===== verification/Games.thy ===== *)
theory Games
  imports Event
begin

text \<open>
  The class \<open>Games\<close> of client/include/Games.h and client/src/Games.cpp: the events a client
  remembers, per user and per game. The lemmas say exactly which events survive a sequence of
  reports.
\<close>

record games =
  games_currString :: string
  games_map :: "string \<rightharpoonup> (string \<rightharpoonup> event list)"

definition new_games :: games where
  "new_games = \<lparr>games_currString = [], games_map = Map.empty\<rparr>"

text \<open>
  For a user without an entry the event becomes the only event of its game. For a user with an
  entry \<open>operator[]\<close> makes sure the game has a list, and the event is appended to a copy of
  that list which is dropped at the end of the block.
\<close>

definition MapEventToGame :: "string \<Rightarrow> event \<Rightarrow> games \<Rightarrow> games" where
  "MapEventToGame username e g =
     (let teamA = get_team_a_name e; teamB = get_team_b_name e;
          gameName = teamA @ ''_'' @ teamB
      in case games_map g username of
           None \<Rightarrow>
             let m1 = map_insert (games_map g) username Map.empty;
                 eventList = [e];
                 (inner, m2) = map_index Map.empty m1 username
             in g\<lparr>games_map := m2(username \<mapsto> map_insert inner gameName eventList)\<rparr>
         | Some gamesOfUser \<Rightarrow>
             let (copy, gamesOfUser') = map_index [] gamesOfUser gameName;
                 eventList = copy @ [e]
             in g\<lparr>games_map := (games_map g)(username \<mapsto> gamesOfUser')\<rparr>)"

lemma MapEventToGame_first:
  "games_map g u = None \<Longrightarrow>
   MapEventToGame u e g = g\<lparr>games_map := (games_map g)(u \<mapsto> [game_name e \<mapsto> [e]])\<rparr>"
  by (simp add: MapEventToGame_def game_name_def)

lemma MapEventToGame_later:
  "games_map g u = Some m \<Longrightarrow>
   MapEventToGame u e g =
     g\<lparr>games_map := (games_map g)(u \<mapsto> (if m (game_name e) = None then m(game_name e \<mapsto> []) else m))\<rparr>"
  by (cases "m (game_name e)") (simp_all add: MapEventToGame_def game_name_def)

lemma MapEventToGame_entry:
  "games_map (MapEventToGame u e g) v =
     (if v = u then Some (case games_map g u of None \<Rightarrow> [game_name e \<mapsto> [e]]
        | Some m \<Rightarrow> if m (game_name e) = None then m(game_name e \<mapsto> []) else m)
      else games_map g v)"
  by (cases "games_map g u") (simp_all add: MapEventToGame_first MapEventToGame_later)

text \<open>What \<open>map[user][game]\<close> reads: a missing entry counts as the empty list.\<close>

definition stored_events :: "games \<Rightarrow> string \<Rightarrow> string \<Rightarrow> event list" where
  "stored_events g u game =
     (let (inner, m) = map_index Map.empty (games_map g) u in fst (map_index [] inner game))"

lemma stored_events_eq:
  "stored_events g u game =
     (case games_map g u of None \<Rightarrow> [] | Some m \<Rightarrow> (case m game of None \<Rightarrow> [] | Some es \<Rightarrow> es))"
  by (simp add: stored_events_def map_index_def split: option.splits)

text \<open>A run of reports, oldest first, and the reports of one user in it.\<close>

definition record_all :: "(string \<times> event) list \<Rightarrow> games \<Rightarrow> games" where
  "record_all rs g = fold (\<lambda>(u, e). MapEventToGame u e) rs g"

definition events_of :: "string \<Rightarrow> (string \<times> event) list \<Rightarrow> event list" where
  "events_of u rs = map snd (filter (\<lambda>r. fst r = u) rs)"

text \<open>The entry of a user who reported the given events, in this order.\<close>

definition user_entry :: "event list \<Rightarrow> (string \<rightharpoonup> event list) option" where
  "user_entry es =
     (case es of [] \<Rightarrow> None
      | e # later \<Rightarrow> Some (\<lambda>game. if game = game_name e then Some [e]
          else if game \<in> game_name ` set later then Some [] else None))"

lemma user_entry_snoc:
  "user_entry (es @ [e]) =
     Some (case user_entry es of None \<Rightarrow> [game_name e \<mapsto> [e]]
      | Some m \<Rightarrow> if m (game_name e) = None then m(game_name e \<mapsto> []) else m)"
  by (cases es) (auto simp: user_entry_def fun_eq_iff)

lemma events_of_snoc:
  "events_of u (rs @ [(v, e)]) = (if v = u then events_of u rs @ [e] else events_of u rs)"
  by (simp add: events_of_def)

lemma record_all_entries:
  "games_map (record_all rs new_games) u = user_entry (events_of u rs)"
proof (induction rs arbitrary: u rule: rev_induct)
  case Nil
  show ?case by (simp add: record_all_def new_games_def events_of_def user_entry_def)
next
  case (snoc r rs)
  obtain v e where r: "r = (v, e)" by (cases r)
  have step: "record_all (rs @ [(v, e)]) new_games = MapEventToGame v e (record_all rs new_games)"
    by (simp add: record_all_def)
  show ?case
    by (simp add: r step MapEventToGame_entry snoc events_of_snoc user_entry_snoc)
qed

section \<open>Properties\<close>

text \<open>
  C21: After any sequence of reports the client remembers of each user the first event that user
  reported, under that event's game, and no other event: every later report of the user, for
  the same game or another one, is lost.
\<close>

theorem games_keep_first_event_only:
  "stored_events (record_all rs new_games) u game =
     (case events_of u rs of [] \<Rightarrow> [] | e # _ \<Rightarrow> if game = game_name e then [e] else [])"
  by (auto simp: stored_events_eq record_all_entries user_entry_def split: list.splits)

end
