(* ===== verification/Connections.thy ===== *)
theory Connections
  imports Cpp_Strings
begin

text \<open>
  The class \<open>Connections\<close> of client/include/Connections.h and client/src/Connections.cpp: the
  name the user logged in with, the subscription id of each channel, and for each receipt
  number the request it belongs to.
\<close>

record connections =
  username :: string
  channeltoUniqueID :: "string \<rightharpoonup> int"
  receiptToOriginalMsg :: "int \<rightharpoonup> string"

definition new_connections :: connections where
  "new_connections =
     \<lparr>username = [], channeltoUniqueID = Map.empty, receiptToOriginalMsg = Map.empty\<rparr>"

section \<open>Numbered tables\<close>

text \<open>
  Subscription ids and receipt numbers are handed out by the same discipline: a counter gives
  the next number, the number is entered in a table, the counter is incremented. A table kept
  this way is the enumeration of a list: number \<open>i\<close> stands for the list's element \<open>i\<close>.
\<close>

definition enumerates :: "int \<Rightarrow> (int \<Rightarrow> 'v \<Rightarrow> bool) \<Rightarrow> 'v list \<Rightarrow> bool" where
  "enumerates counter table vs \<longleftrightarrow> counter = int (length vs) \<and>
     (\<forall>i v. table i v \<longleftrightarrow> 0 \<le> i \<and> i < int (length vs) \<and> v = vs ! nat i)"

lemma enumerates_empty: "enumerates 0 (\<lambda>i v. False) []"
  by (simp add: enumerates_def)

lemma enumerates_counter: "enumerates n table vs \<Longrightarrow> n = int (length vs)"
  by (simp add: enumerates_def)

lemma enumerates_table:
  "enumerates n table vs \<Longrightarrow> table i v \<longleftrightarrow> 0 \<le> i \<and> i < int (length vs) \<and> v = vs ! nat i"
  by (simp add: enumerates_def)

lemma enumerates_nth: "enumerates n table vs \<Longrightarrow> k < length vs \<Longrightarrow> table (int k) (vs ! k)"
  by (simp add: enumerates_def)

lemma enumerates_member: "enumerates n table vs \<Longrightarrow> (\<exists>i. table i v) \<longleftrightarrow> v \<in> set vs"
proof
  assume "enumerates n table vs" "\<exists>i. table i v"
  then show "v \<in> set vs" by (auto simp: enumerates_table nat_less_iff)
next
  assume "enumerates n table vs" "v \<in> set vs"
  then show "\<exists>i. table i v" by (metis enumerates_nth in_set_conv_nth)
qed

lemma enumerates_snoc:
  assumes "enumerates n table vs"
    and "\<And>i w. table' i w \<longleftrightarrow> table i w \<or> i = n \<and> w = v"
  shows "enumerates (n + 1) table' (vs @ [v])"
  using assms unfolding enumerates_def by (auto simp: nth_append nat_less_iff)

text \<open>
  The interface of the operation that hands out one number: the counter, the table and the
  operation of the provider, and a precondition under which a value may be entered.
\<close>

locale numbered_table =
  fixes counter :: "'st \<Rightarrow> int"
    and table :: "'st \<Rightarrow> int \<Rightarrow> 'v \<Rightarrow> bool"
    and allocate :: "'v \<Rightarrow> 'st \<Rightarrow> 'st result"
    and allowed :: "'st \<Rightarrow> 'v \<Rightarrow> bool"
  assumes allocate_counter: "allocate v st = Inr st' \<Longrightarrow> counter st' = counter st + 1"
    and allocate_table: "allocate v st = Inr st' \<Longrightarrow> allowed st v \<Longrightarrow>
      (\<And>w. \<not> table st (counter st) w) \<Longrightarrow>
      table st' i w \<longleftrightarrow> table st i w \<or> i = counter st \<and> w = v"
    and allocate_defined: "(\<exists>st'. allocate v st = Inr st') \<longleftrightarrow> counter st < int_max"
begin

lemma allocate_enumerates:
  assumes "enumerates (counter st) (table st) vs" "allowed st v" "allocate v st = Inr st'"
  shows "enumerates (counter st') (table st') (vs @ [v])"
proof -
  have "\<not> table st (counter st) w" for w using assms(1) by (simp add: enumerates_def)
  from allocate_table [OF assms(3,2) this] enumerates_snoc [OF assms(1)]
  show ?thesis by (simp add: allocate_counter [OF assms(3)])
qed

lemma allocate_ok:
  assumes "enumerates (counter st) (table st) vs" "allowed st v" "int (length vs) < int_max"
  obtains st' where "allocate v st = Inr st'" "enumerates (counter st') (table st') (vs @ [v])"
  using assms allocate_defined [of v st] allocate_enumerates [OF assms(1,2)]
  by (auto dest: enumerates_counter)

end

end
