(* ===== verification/ConnectionHandler.thy ===== *)
theory ConnectionHandler
  imports Cpp_Strings
begin

text \<open>
  The class \<open>ConnectionHandler\<close> of client/include/ConnectionHandler.h and
  client/src/ConnectionHandler.cpp: blocking reads and writes of bytes and of delimited frames
  over a TCP socket. The socket is Boost.Asio's and is not part of the repository: its
  operations are a parameter, and what the code relies on is the interface \<open>tcp_socket\<close>. The
  texts written to \<open>std::cerr\<close> on failure are not modelled.
\<close>

section \<open>The operations of the socket\<close>

text \<open>
  \<open>read_some n\<close> gives the bytes read and whether the error code is set; \<open>write_some bs\<close> gives
  the number of bytes written and the error code; connecting and closing give whether they failed.
\<close>

record 's socket_ops =
  sock_connect :: "'s \<Rightarrow> bool \<times> 's"
  read_some :: "'s \<Rightarrow> nat \<Rightarrow> (string \<times> bool) \<times> 's"
  write_some :: "'s \<Rightarrow> string \<Rightarrow> (nat \<times> bool) \<times> 's"
  sock_close :: "'s \<Rightarrow> bool \<times> 's"

section \<open>The code\<close>

record 's connection_handler =
  host :: string
  port :: int
  socket :: 's

definition new_connection_handler :: "string \<Rightarrow> int \<Rightarrow> 's \<Rightarrow> 's connection_handler" where
  "new_connection_handler h p s = \<lparr>host = h, port = p, socket = s\<rparr>"

text \<open>\<open>connect\<close> prints where it connects to, and turns every error into the result \<open>false\<close>.\<close>

definition connect :: "'s socket_ops \<Rightarrow> 's connection_handler \<Rightarrow> (bool \<times> string) \<times> 's connection_handler" where
  "connect ops h =
     (let printed = ''Starting connect to '' @ host h @ '':'' @ to_string (port h) @ [newline]
      in case sock_connect ops (socket h) of (error, s') \<Rightarrow> ((\<not> error, printed), h\<lparr>socket := s'\<rparr>))"

text \<open>\<open>close\<close> prints a line when the socket throws.\<close>

definition close :: "'s socket_ops \<Rightarrow> 's connection_handler \<Rightarrow> string \<times> 's connection_handler" where
  "close ops h =
     (case sock_close ops (socket h) of (error, s') \<Rightarrow>
        (if error then ''closing failed: connection already closed'' @ [newline] else [], h\<lparr>socket := s'\<rparr>))"

text \<open>
  The destructor closes the socket. The free function \<open>Open\<close> makes a handler and destroys it. Their
  results are what is printed and the socket that is left.
\<close>

definition delete_connection_handler :: "'s socket_ops \<Rightarrow> 's connection_handler \<Rightarrow> string \<times> 's" where
  "delete_connection_handler ops h = (case close ops h of (printed, h') \<Rightarrow> (printed, socket h'))"

definition Open :: "'s socket_ops \<Rightarrow> string \<Rightarrow> int \<Rightarrow> 's \<Rightarrow> string \<times> 's" where
  "Open ops h p s = delete_connection_handler ops (new_connection_handler h p s)"

text \<open>
  The loops run until everything is transferred or the error code is set. The only lengths
  \<open>getBytes\<close> is called with are 1.
\<close>

partial_function (option) getBytes_loop ::
  "'s socket_ops \<Rightarrow> nat \<Rightarrow> string \<Rightarrow> bool \<Rightarrow> 's \<Rightarrow> ((bool \<times> string) \<times> 's) option" where
  "getBytes_loop ops bytesToRead bytes error s =
     (if \<not> error \<and> bytesToRead > length bytes then
        (case read_some ops s (bytesToRead - length bytes) of ((bs, error'), s') \<Rightarrow>
           getBytes_loop ops bytesToRead (bytes @ bs) error' s')
      else Some ((\<not> error, bytes), s))"

definition getBytes :: "'s socket_ops \<Rightarrow> nat \<Rightarrow> 's \<Rightarrow> ((bool \<times> string) \<times> 's) option" where
  "getBytes ops bytesToRead s = getBytes_loop ops bytesToRead [] False s"

text \<open>
  \<open>sendBytes\<close> takes the number of bytes as an \<open>int\<close> and counts in an \<open>int\<close> what is written.
\<close>

partial_function (option) sendBytes_loop ::
  "'s socket_ops \<Rightarrow> string \<Rightarrow> int \<Rightarrow> int \<Rightarrow> bool \<Rightarrow> 's \<Rightarrow> (bool \<times> 's) option" where
  "sendBytes_loop ops bytes bytesToWrite tmp error s =
     (if \<not> error \<and> bytesToWrite > tmp then
        (case write_some ops s (take (nat (bytesToWrite - tmp)) (drop (nat tmp) bytes)) of ((n, error'), s') \<Rightarrow>
           sendBytes_loop ops bytes bytesToWrite (to_int32 (tmp + int n)) error' s')
      else Some (\<not> error, s))"

definition sendBytes :: "'s socket_ops \<Rightarrow> string \<Rightarrow> int \<Rightarrow> 's \<Rightarrow> (bool \<times> 's) option" where
  "sendBytes ops bytes bytesToWrite s = sendBytes_loop ops bytes bytesToWrite 0 False s"

partial_function (option) getFrameAscii ::
  "'s socket_ops \<Rightarrow> char \<Rightarrow> string \<Rightarrow> 's \<Rightarrow> ((bool \<times> string) \<times> 's) option" where
  "getFrameAscii ops delimiter frame s =
     do {
       ((ok, bytes), s') \<leftarrow> getBytes ops 1 s;
       if \<not> ok then Some ((False, frame), s')
       else
         let ch = hd bytes;
             frame' = (if ch \<noteq> nul then frame @ [ch] else frame)
         in if delimiter \<noteq> ch then getFrameAscii ops delimiter frame' s'
            else Some ((True, frame'), s')
     }"

text \<open>The length of the frame is converted to the \<open>int\<close> that \<open>sendBytes\<close> takes.\<close>

definition sendFrameAscii :: "'s socket_ops \<Rightarrow> string \<Rightarrow> char \<Rightarrow> 's \<Rightarrow> (bool \<times> 's) option" where
  "sendFrameAscii ops frame delimiter s =
     do {
       (result, s') \<leftarrow> sendBytes ops frame (to_int32 (int (length frame))) s;
       if \<not> result then Some (False, s') else sendBytes ops [delimiter] 1 s'
     }"

definition getLine :: "'s socket_ops \<Rightarrow> string \<Rightarrow> 's \<Rightarrow> ((bool \<times> string) \<times> 's) option" where
  "getLine ops line s = getFrameAscii ops newline line s"

definition sendLine :: "'s socket_ops \<Rightarrow> string \<Rightarrow> 's \<Rightarrow> (bool \<times> 's) option" where
  "sendLine ops line s = sendFrameAscii ops line newline s"

text \<open>
  The bytes of a frame that the conversion of its length leaves to be sent: all of them below
  \<open>2 ^ 31\<close>, none when the \<open>int\<close> is negative.
\<close>

definition sent_part :: "string \<Rightarrow> string" where
  "sent_part f = take (nat (to_int32 (int (length f)))) f"

lemma sent_part_all: "length f < 2 ^ 31 \<Longrightarrow> sent_part f = f"
  by (simp add: sent_part_def int_min_def int_max_def)

lemma sent_part_set: "c \<notin> set f \<Longrightarrow> c \<notin> set (sent_part f)"
  by (auto simp: sent_part_def dest: in_set_takeD)

lemma length_sent_part: "length (sent_part f) = nat (to_int32 (int (length f)))"
  using to_int32_le [of "int (length f)"] by (simp add: sent_part_def)

section \<open>What the code relies on\<close>

text \<open>
  A TCP connection seen from the client: \<open>incoming\<close> is what the peer's side still delivers,
  \<open>outgoing\<close> what has been handed over for the peer. As documented for Asio's stream sockets,
  a read of at least one byte blocks until it delivers between one byte and as many as asked
  for, or sets the error code, which happens when nothing is left to be delivered; a write
  hands over a non-empty prefix of the data or sets the error code.
\<close>

locale tcp_socket =
  fixes ops :: "'s socket_ops"
    and incoming :: "'s \<Rightarrow> string"
    and outgoing :: "'s \<Rightarrow> string"
  assumes read_data: "0 < n \<Longrightarrow> incoming s \<noteq> [] \<Longrightarrow>
      \<exists>bs s'. read_some ops s n = ((bs, False), s') \<and> bs \<noteq> [] \<and> length bs \<le> n \<and>
        incoming s = bs @ incoming s' \<and> outgoing s' = outgoing s"
    and read_end: "0 < n \<Longrightarrow> incoming s = [] \<Longrightarrow>
      \<exists>s'. read_some ops s n = (([], True), s') \<and> incoming s' = [] \<and> outgoing s' = outgoing s"
    and write_data: "bs \<noteq> [] \<Longrightarrow>
      \<exists>k error s'. write_some ops s bs = ((k, error), s') \<and> incoming s' = incoming s \<and>
        (if error then outgoing s' = outgoing s
         else 0 < k \<and> k \<le> length bs \<and> outgoing s' = outgoing s @ take k bs)"
begin

lemma getBytes_loop_ok:
  assumes "incoming s = bs @ r" "length acc + length bs = n"
  shows "\<exists>s'. getBytes_loop ops n acc False s = Some ((True, acc @ bs), s') \<and>
    incoming s' = r \<and> outgoing s' = outgoing s"
  using assms
proof (induction "length bs" arbitrary: bs acc s rule: less_induct)
  case less
  show ?case
  proof (cases "bs = []")
    case True
    with less.prems show ?thesis by (subst getBytes_loop.simps) simp
  next
    case False
    then have need: "0 < n - length acc" "incoming s \<noteq> []" using less.prems by auto
    then obtain b s1 where rd: "read_some ops s (n - length acc) = ((b, False), s1)"
      and b: "b \<noteq> []" "length b \<le> n - length acc" "incoming s = b @ incoming s1"
      and same: "outgoing s1 = outgoing s"
      using read_data by metis
    from b(2,3) less.prems obtain bs' where bs: "bs = b @ bs'" "incoming s1 = bs' @ r"
      by (auto simp: append_eq_append_conv2)
    have "\<exists>s'. getBytes_loop ops n (acc @ b) False s1 = Some ((True, (acc @ b) @ bs'), s') \<and>
        incoming s' = r \<and> outgoing s' = outgoing s1"
      using b(1,2) less.prems(2) bs by (intro less.hyps) auto
    with rd bs(1) same need(1) show ?thesis by (subst getBytes_loop.simps) auto
  qed
qed

text \<open>A read of \<open>n\<close> bytes delivers the next \<open>n\<close> bytes, however the stream was segmented.\<close>

lemma getBytes_ok:
  assumes "incoming s = bs @ r"
  shows "\<exists>s'. getBytes ops (length bs) s = Some ((True, bs), s') \<and>
    incoming s' = r \<and> outgoing s' = outgoing s"
  using getBytes_loop_ok [OF assms, of "[]"] by (simp add: getBytes_def)

lemma getBytes_one:
  assumes "incoming s = c # r"
  shows "\<exists>s'. getBytes ops 1 s = Some ((True, [c]), s') \<and> incoming s' = r \<and> outgoing s' = outgoing s"
  using getBytes_ok [of s "[c]" r] assms by simp

lemma getBytes_end:
  assumes "incoming s = []"
  shows "\<exists>s'. getBytes ops 1 s = Some ((False, []), s') \<and> incoming s' = [] \<and> outgoing s' = outgoing s"
proof -
  obtain s' where rd: "read_some ops s 1 = (([], True), s')" "incoming s' = []" "outgoing s' = outgoing s"
    using read_end [OF zero_less_one assms] by blast
  have "getBytes_loop ops 1 [] True s' = Some ((False, []), s')"
    by (subst getBytes_loop.simps) simp
  with rd show ?thesis unfolding getBytes_def by (subst getBytes_loop.simps) simp
qed

text \<open>A frame is read up to its delimiter; NUL characters never reach the frame.\<close>

lemma getFrameAscii_ok:
  assumes "incoming s = f @ d # r" "d \<notin> set f"
  shows "\<exists>s'. getFrameAscii ops d acc s =
      Some ((True, acc @ filter (\<lambda>c. c \<noteq> nul) (f @ [d])), s') \<and>
    incoming s' = r \<and> outgoing s' = outgoing s"
  using assms
proof (induction f arbitrary: acc s)
  case Nil
  then obtain s1 where "getBytes ops 1 s = Some ((True, [d]), s1)"
    "incoming s1 = r \<and> outgoing s1 = outgoing s"
    using getBytes_one by fastforce
  then show ?case by (subst getFrameAscii.simps) (simp add: Let_def)
next
  case (Cons c f)
  then obtain s1 where s1: "getBytes ops 1 s = Some ((True, [c]), s1)"
    "incoming s1 = f @ d # r" "outgoing s1 = outgoing s"
    using getBytes_one by fastforce
  from Cons.prems(2) have "d \<noteq> c" "d \<notin> set f" by auto
  with Cons.IH [OF s1(2) this(2), of "if c \<noteq> nul then acc @ [c] else acc"] s1 show ?case
    by (subst getFrameAscii.simps) (auto simp: Let_def)
qed

lemma getFrameAscii_closed:
  assumes "incoming s = f" "d \<notin> set f"
  shows "\<exists>s'. getFrameAscii ops d acc s = Some ((False, acc @ filter (\<lambda>c. c \<noteq> nul) f), s') \<and>
    incoming s' = [] \<and> outgoing s' = outgoing s"
  using assms
proof (induction f arbitrary: acc s)
  case Nil
  then obtain s1 where "getBytes ops 1 s = Some ((False, []), s1)"
    "incoming s1 = [] \<and> outgoing s1 = outgoing s"
    using getBytes_end by fastforce
  then show ?case by (subst getFrameAscii.simps) simp
next
  case (Cons c f)
  then obtain s1 where s1: "getBytes ops 1 s = Some ((True, [c]), s1)"
    "incoming s1 = f" "outgoing s1 = outgoing s"
    using getBytes_one by fastforce
  from Cons.prems(2) have "d \<noteq> c" "d \<notin> set f" by auto
  with Cons.IH [OF s1(2) this(2), of "if c \<noteq> nul then acc @ [c] else acc"] s1 show ?case
    by (subst getFrameAscii.simps) (auto simp: Let_def)
qed

lemma getFrameAscii_returns:
  "\<exists>r s'. getFrameAscii ops d acc s = Some (r, s') \<and> outgoing s' = outgoing s \<and>
    (fst r \<longrightarrow> length (incoming s') < length (incoming s))"
proof (cases "d \<in> set (incoming s)")
  case True
  then obtain f r where fr: "incoming s = f @ d # r" "d \<notin> set f" by (metis split_list_first)
  then obtain s' where "getFrameAscii ops d acc s =
      Some ((True, acc @ filter (\<lambda>c. c \<noteq> nul) (f @ [d])), s')" "incoming s' = r" "outgoing s' = outgoing s"
    using getFrameAscii_ok by blast
  with fr(1) show ?thesis by auto
next
  case False
  then obtain s' where "getFrameAscii ops d acc s =
      Some ((False, acc @ filter (\<lambda>c. c \<noteq> nul) (incoming s)), s')" "outgoing s' = outgoing s"
    using getFrameAscii_closed by blast
  then show ?thesis by auto
qed

text \<open>
  A write hands over a prefix of the data, and reports success exactly when it is all of it.
\<close>

lemma sendBytes_loop_returns:
  assumes "tmp \<le> n" "n \<le> length bs" "int n \<le> int_max"
  shows "\<exists>ok s' j. sendBytes_loop ops bs (int n) (int tmp) False s = Some (ok, s') \<and> tmp \<le> j \<and> j \<le> n \<and>
    outgoing s' = outgoing s @ take (j - tmp) (drop tmp bs) \<and> incoming s' = incoming s \<and>
    (ok \<longleftrightarrow> j = n)"
  using assms(1)
proof (induction "n - tmp" arbitrary: tmp s rule: less_induct)
  case less
  show ?case
  proof (cases "tmp = n")
    case True
    then have "sendBytes_loop ops bs (int n) (int tmp) False s = Some (True, s)"
      by (subst sendBytes_loop.simps) simp
    with True show ?thesis by (intro exI [of _ True] exI [of _ s] exI [of _ tmp]) simp
  next
    case False
    let ?data = "take (n - tmp) (drop tmp bs)"
    from False less.prems assms(2) have ne: "?data \<noteq> []" "tmp < n" and len: "length ?data = n - tmp" by auto
    have data: "take (nat (int n - int tmp)) (drop (nat (int tmp)) bs) = ?data"
      using ne(2) by (simp add: nat_diff_distrib)
    obtain k error s1 where wr: "write_some ops s ?data = ((k, error), s1)" "incoming s1 = incoming s"
      "if error then outgoing s1 = outgoing s
       else 0 < k \<and> k \<le> length ?data \<and> outgoing s1 = outgoing s @ take k ?data"
      using write_data [OF ne(1)] by metis
    have step: "sendBytes_loop ops bs (int n) (int tmp) False s =
        sendBytes_loop ops bs (int n) (to_int32 (int tmp + int k)) error s1"
      using ne(2) wr(1) data by (subst sendBytes_loop.simps) simp
    show ?thesis
    proof (cases error)
      case True
      have "sendBytes_loop ops bs (int n) (to_int32 (int tmp + int k)) True s1 = Some (False, s1)"
        by (subst sendBytes_loop.simps) simp
      with step True have "sendBytes_loop ops bs (int n) (int tmp) False s = Some (False, s1)" by simp
      with True wr ne(2) show ?thesis by (intro exI [of _ False] exI [of _ s1] exI [of _ tmp]) simp
    next
      case False
      with wr len have k: "0 < k" "tmp + k \<le> n" "outgoing s1 = outgoing s @ take k (drop tmp bs)"
        using ne(2) by (auto simp: min_def)
      from k(1) ne(2) have "n - (tmp + k) < n - tmp" by simp
      from less.hyps [OF this k(2), of s1] obtain ok s' j where rec:
        "sendBytes_loop ops bs (int n) (int (tmp + k)) False s1 = Some (ok, s')"
        "tmp + k \<le> j" "j \<le> n" "incoming s' = incoming s1" "ok \<longleftrightarrow> j = n"
        "outgoing s' = outgoing s1 @ take (j - (tmp + k)) (drop (tmp + k) bs)"
        by blast
      have "take (j - tmp) (drop tmp bs) = take k (drop tmp bs) @ take (j - (tmp + k)) (drop (tmp + k) bs)"
        using take_add [of k "j - (tmp + k)" "drop tmp bs"] rec(2) by (simp add: add.commute)
      moreover have "to_int32 (int tmp + int k) = int (tmp + k)"
        using k(2) assms(3) by (simp add: int_min_def)
      ultimately show ?thesis
        using rec k(3) wr(2) step False by (intro exI [of _ ok] exI [of _ s'] exI [of _ j]) simp
    qed
  qed
qed

lemma sendBytes_returns:
  assumes "b \<le> int (length bs)" "b \<le> int_max"
  shows "\<exists>ok s' j. sendBytes ops bs b s = Some (ok, s') \<and> j \<le> nat b \<and>
    outgoing s' = outgoing s @ take j bs \<and> incoming s' = incoming s \<and> (ok \<longleftrightarrow> j = nat b)"
proof (cases "0 \<le> b")
  case True
  then show ?thesis
    using sendBytes_loop_returns [of 0 "nat b" bs s] assms by (simp add: sendBytes_def nat_le_iff)
next
  case False
  then have "sendBytes ops bs b s = Some (True, s)"
    unfolding sendBytes_def by (subst sendBytes_loop.simps) simp
  with False show ?thesis by (intro exI [of _ True] exI [of _ s]) simp
qed

lemma sendFrameAscii_returns:
  "\<exists>ok s' j. sendFrameAscii ops f d s = Some (ok, s') \<and> j \<le> length (sent_part f) + 1 \<and>
    outgoing s' = outgoing s @ take j (sent_part f @ [d]) \<and> incoming s' = incoming s \<and>
    (ok \<longleftrightarrow> j = length (sent_part f) + 1)"
proof -
  let ?n = "length (sent_part f)"
  have part: "take j f = take j (sent_part f)" if "j \<le> ?n" for j
    using that by (auto simp: sent_part_def)
  obtain ok1 s1 j1 where s1: "sendBytes ops f (to_int32 (int (length f))) s = Some (ok1, s1)" "j1 \<le> ?n"
    "outgoing s1 = outgoing s @ take j1 f" "incoming s1 = incoming s" "ok1 \<longleftrightarrow> j1 = ?n"
    using sendBytes_returns [of "to_int32 (int (length f))" f s] to_int32_bounds [of "int (length f)"]
      to_int32_le [of "int (length f)"] by (auto simp: length_sent_part)
  show ?thesis
  proof (cases ok1)
    case True
    obtain ok2 s2 j2 where s2: "sendBytes ops [d] 1 s1 = Some (ok2, s2)" "j2 \<le> 1"
      "outgoing s2 = outgoing s1 @ take j2 [d]" "incoming s2 = incoming s1" "ok2 \<longleftrightarrow> j2 = 1"
      using sendBytes_returns [of 1 "[d]" s1] by (auto simp: int_max_def)
    with True s1 part [of ?n] show ?thesis
      by (intro exI [of _ ok2] exI [of _ s2] exI [of _ "?n + j2"]) (auto simp: sendFrameAscii_def)
  next
    case False
    with s1 part [of j1] show ?thesis
      by (intro exI [of _ False] exI [of _ s1] exI [of _ j1]) (auto simp: sendFrameAscii_def)
  qed
qed

end

text \<open>A connection on which writes keep succeeding.\<close>

locale open_socket = tcp_socket ops incoming outgoing
  for ops :: "'s socket_ops" and incoming :: "'s \<Rightarrow> string" and outgoing :: "'s \<Rightarrow> string" +
  fixes writable :: "'s \<Rightarrow> bool"
  assumes write_ok: "bs \<noteq> [] \<Longrightarrow> writable s \<Longrightarrow> write_some ops s bs = ((k, error), s') \<Longrightarrow>
      \<not> error \<and> writable s'"
    and read_writable: "writable s \<Longrightarrow> read_some ops s n = (x, s') \<Longrightarrow> writable s'"
begin

lemma sendBytes_loop_ok:
  assumes "writable s" "tmp \<le> n" "n \<le> length bs" "int n \<le> int_max"
  shows "\<exists>s'. sendBytes_loop ops bs (int n) (int tmp) False s = Some (True, s') \<and> writable s'"
  using assms(1,2)
proof (induction "n - tmp" arbitrary: tmp s rule: less_induct)
  case less
  show ?case
  proof (cases "tmp < n")
    case False
    with less.prems show ?thesis by (subst sendBytes_loop.simps) simp
  next
    case True
    let ?data = "take (n - tmp) (drop tmp bs)"
    have data: "take (nat (int n - int tmp)) (drop (nat (int tmp)) bs) = ?data"
      using True by (simp add: nat_diff_distrib)
    from True assms(3) have ne: "?data \<noteq> []" and len: "length ?data = n - tmp" by auto
    obtain k s1 where wr: "write_some ops s ?data = ((k, False), s1)" "0 < k" "k \<le> n - tmp" "writable s1"
      using write_data [OF ne, of s] write_ok [OF ne less.prems(1)] len by auto
    have "to_int32 (int tmp + int k) = int (tmp + k)"
      using wr(3) True assms(4) by (simp add: int_min_def)
    moreover have "n - (tmp + k) < n - tmp" "tmp + k \<le> n" using wr(2,3) True by simp_all
    ultimately show ?thesis
      using less.hyps [of "tmp + k" s1] wr(1,4) True data by (subst sendBytes_loop.simps) simp
  qed
qed

lemma sendBytes_ok:
  assumes "writable s" "b \<le> int (length bs)" "b \<le> int_max"
  shows "\<exists>s'. sendBytes ops bs b s = Some (True, s') \<and> writable s' \<and>
    outgoing s' = outgoing s @ take (nat b) bs \<and> incoming s' = incoming s"
proof (cases "0 \<le> b")
  case True
  then show ?thesis
    using sendBytes_loop_ok [OF assms(1), of 0 "nat b" bs] sendBytes_returns [OF assms(2,3), of s] assms(2,3)
    by (auto simp: sendBytes_def nat_le_iff)
next
  case False
  then have "sendBytes ops bs b s = Some (True, s)"
    unfolding sendBytes_def by (subst sendBytes_loop.simps) simp
  with False assms(1) show ?thesis by simp
qed

text \<open>
  On such a connection the part of a frame that is left to be sent is handed over completely,
  followed by the delimiter, and success is returned.
\<close>

lemma sendFrameAscii_ok:
  assumes "writable s"
  shows "\<exists>s'. sendFrameAscii ops f d s = Some (True, s') \<and> writable s' \<and>
    outgoing s' = outgoing s @ sent_part f @ [d] \<and> incoming s' = incoming s"
proof -
  obtain s1 where s1: "sendBytes ops f (to_int32 (int (length f))) s = Some (True, s1)" "writable s1"
    "outgoing s1 = outgoing s @ sent_part f" "incoming s1 = incoming s"
    using sendBytes_ok [OF assms, of "to_int32 (int (length f))" f] to_int32_bounds [of "int (length f)"]
      to_int32_le [of "int (length f)"] by (auto simp: sent_part_def)
  obtain s2 where "sendBytes ops [d] 1 s1 = Some (True, s2)" "writable s2"
    "outgoing s2 = outgoing s1 @ [d]" "incoming s2 = incoming s1"
    using sendBytes_ok [OF s1(2), of 1 "[d]"] by (auto simp: int_max_def)
  with s1 show ?thesis by (auto simp: sendFrameAscii_def)
qed

lemma getBytes_one_writable:
  assumes "incoming s = c # r" "writable s" "getBytes ops 1 s = Some (x, s')"
  shows "writable s'"
proof -
  from assms(1) obtain bs s1 where rd: "read_some ops s 1 = ((bs, False), s1)" "bs \<noteq> []" "length bs \<le> 1"
    using read_data [of 1 s] by auto
  then have "length bs = 1" by (cases bs) auto
  then have "getBytes ops 1 s = Some ((True, bs), s1)"
    unfolding getBytes_def using rd(1)
    by (subst getBytes_loop.simps) (simp, subst getBytes_loop.simps, simp)
  with assms(3) have "s' = s1" by simp
  with read_writable [OF assms(2) rd(1)] show ?thesis by simp
qed

lemma getFrameAscii_writable:
  assumes "incoming s = f @ d # r" "d \<notin> set f" "writable s" "getFrameAscii ops d acc s = Some (x, s')"
  shows "writable s'"
  using assms
proof (induction f arbitrary: acc s)
  case Nil
  then obtain s1 where s1: "getBytes ops 1 s = Some ((True, [d]), s1)"
    using getBytes_one by fastforce
  with Nil have "writable s1" using getBytes_one_writable by fastforce
  moreover have "s' = s1"
    using Nil.prems(4) s1 by (subst (asm) getFrameAscii.simps) (simp add: Let_def)
  ultimately show ?case by simp
next
  case (Cons c f)
  then obtain s1 where s1: "getBytes ops 1 s = Some ((True, [c]), s1)" "incoming s1 = f @ d # r"
    using getBytes_one by fastforce
  with Cons.prems have "writable s1" using getBytes_one_writable by fastforce
  moreover have "getFrameAscii ops d (if c \<noteq> nul then acc @ [c] else acc) s1 = Some (x, s')"
    using Cons.prems(2,4) s1 by (subst (asm) getFrameAscii.simps) (auto simp: Let_def)
  ultimately show ?case using Cons.IH [OF s1(2)] Cons.prems(2) by simp
qed

end

section \<open>A concrete connection\<close>

text \<open>
  The bytes of the peer arrive in segments; a read delivers at most one segment, a write hands
  over at most \<open>mtu + 1\<close> bytes; after the connection is closed both set the error code.
\<close>

record wire =
  inbox :: "string list"
  outbox :: string
  mtu :: nat
  opened :: bool

definition wire_read :: "wire \<Rightarrow> nat \<Rightarrow> (string \<times> bool) \<times> wire" where
  "wire_read w n =
     (case dropWhile (\<lambda>seg. seg = []) (inbox w) of
        [] \<Rightarrow> (([], True), w)
      | seg # segs \<Rightarrow>
          if opened w then ((take n seg, False), w\<lparr>inbox := drop n seg # segs\<rparr>)
          else (([], True), w))"

definition wire_write :: "wire \<Rightarrow> string \<Rightarrow> (nat \<times> bool) \<times> wire" where
  "wire_write w bs =
     (if opened w then ((min (length bs) (Suc (mtu w)), False), w\<lparr>outbox := outbox w @ take (Suc (mtu w)) bs\<rparr>)
      else ((0, True), w))"

definition wire_ops :: "wire socket_ops" where
  "wire_ops = \<lparr>sock_connect = (\<lambda>w. (False, w\<lparr>opened := True\<rparr>)), read_some = wire_read,
     write_some = wire_write, sock_close = (\<lambda>w. (False, w\<lparr>opened := False\<rparr>))\<rparr>"

definition wire_incoming :: "wire \<Rightarrow> string" where
  "wire_incoming w = (if opened w then concat (inbox w) else [])"

lemma wire_ops_sel [simp]:
  "sock_connect wire_ops = (\<lambda>w. (False, w\<lparr>opened := True\<rparr>))"
  "read_some wire_ops = wire_read" "write_some wire_ops = wire_write"
  "sock_close wire_ops = (\<lambda>w. (False, w\<lparr>opened := False\<rparr>))"
  by (simp_all add: wire_ops_def)

lemma concat_dropWhile_empty: "concat (dropWhile (\<lambda>seg. seg = []) segs) = concat segs"
  by (induction segs) auto

lemma dropWhile_empty_cases:
  obtains "dropWhile (\<lambda>seg. seg = []) segs = []" "concat segs = []"
  | seg rest where "dropWhile (\<lambda>seg. seg = []) segs = seg # rest" "seg \<noteq> []" "concat segs = seg @ concat rest"
proof (cases "dropWhile (\<lambda>seg. seg = []) segs")
  case Nil
  with that(1) concat_dropWhile_empty [of segs] show ?thesis by simp
next
  case (Cons seg rest)
  then have "seg \<noteq> []" using hd_dropWhile [of "\<lambda>seg. seg = []" segs] by simp
  with Cons that(2) concat_dropWhile_empty [of segs] show ?thesis by simp
qed

lemma wire_read_end: "wire_incoming w = [] \<Longrightarrow> wire_read w n = (([], True), w)"
  by (cases rule: dropWhile_empty_cases [of "inbox w"])
     (simp_all add: wire_incoming_def wire_read_def split: if_splits del: dropWhile_eq_Nil_conv)

lemma wire_read_data:
  assumes "wire_incoming w \<noteq> []" "0 < n"
  shows "\<exists>bs w'. wire_read w n = ((bs, False), w') \<and> bs \<noteq> [] \<and> length bs \<le> n \<and>
    wire_incoming w = bs @ wire_incoming w' \<and> outbox w' = outbox w"
proof (cases rule: dropWhile_empty_cases [of "inbox w"])
  case 1
  with assms(1) show ?thesis by (simp add: wire_incoming_def split: if_splits)
next
  case (2 seg segs)
  with assms show ?thesis by (simp add: wire_incoming_def wire_read_def split: if_splits)
qed

interpretation wire: open_socket wire_ops wire_incoming outbox opened
proof
  fix n :: nat and s :: wire
  assume "0 < n" "wire_incoming s \<noteq> []"
  then show "\<exists>bs s'. read_some wire_ops s n = ((bs, False), s') \<and> bs \<noteq> [] \<and> length bs \<le> n \<and>
      wire_incoming s = bs @ wire_incoming s' \<and> outbox s' = outbox s"
    using wire_read_data by simp
next
  fix n :: nat and s :: wire
  assume "0 < n" "wire_incoming s = []"
  then show "\<exists>s'. read_some wire_ops s n = (([], True), s') \<and> wire_incoming s' = [] \<and> outbox s' = outbox s"
    by (simp add: wire_read_end)
next
  fix bs :: string and s :: wire
  assume "bs \<noteq> []"
  then show "\<exists>k error s'. write_some wire_ops s bs = ((k, error), s') \<and>
      wire_incoming s' = wire_incoming s \<and>
      (if error then outbox s' = outbox s
       else 0 < k \<and> k \<le> length bs \<and> outbox s' = outbox s @ take k bs)"
    by (cases "opened s") (auto simp: wire_write_def wire_incoming_def min_def)
qed (auto simp: wire_write_def wire_read_def split: if_splits list.splits)

lemma wire_is_tcp_socket: "tcp_socket wire_ops wire_incoming outbox"
  by (rule wire.tcp_socket_axioms)

lemma wire_is_open_socket: "open_socket wire_ops wire_incoming outbox opened"
  by (rule wire.open_socket_axioms)

section \<open>Properties\<close>

text \<open>
  A fixed-length read is exact: over any connection that still delivers the bytes, however
  they are segmented, \<open>getBytes\<close> returns with success and exactly these bytes, and leaves the
  rest of the stream unread.
\<close>

theorem getBytes_exact:
  assumes "tcp_socket ops incoming outgoing" "incoming s = bs @ r"
  shows "\<exists>s'. getBytes ops (length bs) s = Some ((True, bs), s') \<and>
    incoming s' = r \<and> outgoing s' = outgoing s"
  by (rule tcp_socket.getBytes_ok [OF assms])

text \<open>
  \<open>getFrameAscii\<close> always returns. If the delimiter arrives it succeeds with the bytes before
  it, without NUL characters and followed by the delimiter itself unless that is NUL, and it
  leaves the bytes after the delimiter unread; if the connection ends first it reports failure.
\<close>

theorem getFrameAscii_result:
  assumes "tcp_socket ops incoming outgoing"
  shows "\<exists>s'. getFrameAscii ops d acc s =
      (if d \<in> set (incoming s)
       then Some ((True, acc @ filter (\<lambda>c. c \<noteq> nul) (takeWhile (\<lambda>c. c \<noteq> d) (incoming s) @ [d])), s')
       else Some ((False, acc @ filter (\<lambda>c. c \<noteq> nul) (incoming s)), s')) \<and>
    incoming s' = tl (dropWhile (\<lambda>c. c \<noteq> d) (incoming s)) \<and> outgoing s' = outgoing s"
proof (cases "d \<in> set (incoming s)")
  case True
  then obtain f r where fr: "incoming s = f @ d # r" "d \<notin> set f" by (metis split_list_first)
  with True tcp_socket.getFrameAscii_ok [OF assms fr] show ?thesis by auto
next
  case False
  with tcp_socket.getFrameAscii_closed [OF assms refl False] show ?thesis by auto
qed

text \<open>
  \<open>sendFrameAscii\<close> always returns; it hands over a prefix of the part of the frame that the
  conversion of its length leaves, followed by the delimiter, and reports success exactly when
  it is the whole of that.
\<close>

theorem sendFrameAscii_result:
  assumes "tcp_socket ops incoming outgoing"
  shows "\<exists>ok s' j. sendFrameAscii ops f d s = Some (ok, s') \<and> j \<le> length (sent_part f) + 1 \<and>
    outgoing s' = outgoing s @ take j (sent_part f @ [d]) \<and> incoming s' = incoming s \<and>
    (ok \<longleftrightarrow> j = length (sent_part f) + 1)"
  by (rule tcp_socket.sendFrameAscii_returns [OF assms])

text \<open>
  The length of a frame of \<open>2 ^ 31\<close> bytes or more, up to \<open>2 ^ 32\<close>, is a negative \<open>int\<close>: nothing of
  the frame is sent, only the delimiter, and success is returned.
\<close>

theorem huge_frame_not_sent:
  assumes "open_socket ops incoming outgoing writable" "writable s"
    and "2 ^ 31 \<le> length f" "length f < 2 ^ 32"
  shows "\<exists>s'. sendFrameAscii ops f d s = Some (True, s') \<and> outgoing s' = outgoing s @ [d]"
proof -
  have "int (length f) + 2 ^ 31 = 2 ^ 32 + (int (length f) - 2 ^ 31)" by simp
  moreover have "0 \<le> int (length f) - 2 ^ 31" "int (length f) - 2 ^ 31 < 2 ^ 32"
    using assms(3,4) by simp_all
  ultimately have "to_int32 (int (length f)) = int (length f) - 2 ^ 31 - 2 ^ 31"
    unfolding to_int32_def by (simp only: mod_add_self1 mod_pos_pos_trivial)
  then have "to_int32 (int (length f)) < 0" using assms(4) by simp
  then have "sent_part f = []" by (simp add: sent_part_def)
  with open_socket.sendFrameAscii_ok [OF assms(1,2), of f d] show ?thesis by auto
qed

text \<open>
  C28: What one side sends as a frame the other side receives as that frame: with NUL as the
  delimiter, as the client uses it, every frame without a NUL and of fewer than \<open>2 ^ 31\<close> bytes
  (the length is passed on as an \<open>int\<close>) survives any segmentation on both sides, and the
  receiver stops exactly behind it.
\<close>

theorem frame_transport:
  assumes "open_socket ops incoming outgoing writable" "writable s" "nul \<notin> set f" "length f < 2 ^ 31"
    and "tcp_socket ops' incoming' outgoing'"
  shows "\<exists>s1. sendFrameAscii ops f nul s = Some (True, s1) \<and>
    (\<forall>t r. incoming' t = drop (length (outgoing s)) (outgoing s1) @ r \<longrightarrow>
       (\<exists>t'. getFrameAscii ops' nul [] t = Some ((True, f), t') \<and> incoming' t' = r))"
proof -
  obtain s1 where s1: "sendFrameAscii ops f nul s = Some (True, s1)"
    "outgoing s1 = outgoing s @ f @ [nul]"
    using open_socket.sendFrameAscii_ok [OF assms(1,2), of f] assms(4) by (auto simp: sent_part_all)
  have "\<exists>t'. getFrameAscii ops' nul [] t = Some ((True, f), t') \<and> incoming' t' = r"
    if "incoming' t = drop (length (outgoing s)) (outgoing s1) @ r" for t r
  proof -
    have "filter (\<lambda>c. c \<noteq> nul) f = f" using assms(3) by (auto simp: filter_id_conv)
    moreover have "incoming' t = f @ nul # r" using that s1(2) by simp
    ultimately show ?thesis
      using tcp_socket.getFrameAscii_ok [OF assms(5) _ assms(3), of t r "[]"] by auto
  qed
  with s1(1) show ?thesis by blast
qed

theorem frame_transport_witness:
  "\<exists>s1. sendFrameAscii wire_ops ''CONNECT'' nul
      \<lparr>inbox = [], outbox = [], mtu = 2, opened = True\<rparr> = Some (True, s1) \<and>
    (\<forall>t r. wire_incoming t = drop (length (outbox \<lparr>inbox = [], outbox = [], mtu = 2, opened = True\<rparr>))
         (outbox s1) @ r \<longrightarrow>
       (\<exists>t'. getFrameAscii wire_ops nul [] t = Some ((True, ''CONNECT''), t') \<and> wire_incoming t' = r))"
  by (rule frame_transport [OF wire_is_open_socket _ _ _ wire_is_tcp_socket]) simp_all

end
