(* ===== verification/StompProtocol.thy ===== *)
theory StompProtocol
  imports Frame Games Connections ConnectionHandler
begin

text \<open>
  The class \<open>StompProtocol\<close> of client/include/StompProtocol.h and client/src/StompProtocol.cpp
  without its two reading loops: the texts built for the user's commands, the bookkeeping of
  subscription ids and receipt numbers, the reaction to the server's frames, the report of an
  event and the summary of a game.
\<close>

section \<open>State\<close>

record 's stomp_protocol =
  proto_id :: int
  recipt :: int
  login :: bool
  handler :: "'s connection_handler"
  con :: connections
  game :: games

definition new_protocol :: "string \<Rightarrow> int \<Rightarrow> 's \<Rightarrow> 's stomp_protocol" where
  "new_protocol h p s =
     \<lparr>proto_id = 0, recipt = 0, login = False, handler = new_connection_handler h p s,
      con = new_connections, game = new_games\<rparr>"

definition protocol_split :: "string \<Rightarrow> char \<Rightarrow> string list" where
  "protocol_split x splitby = split_on splitby x"

definition protocol_getNextLine :: "string \<Rightarrow> string result" where
  "protocol_getNextLine msg = rbind (line_loop msg 0 []) (\<lambda>(line, i). Inr line)"

section \<open>Handing out numbers\<close>

text \<open>A new channel is entered with the current id, which is then incremented.\<close>

definition register_channel :: "string \<Rightarrow> 's stomp_protocol \<Rightarrow> 's stomp_protocol result" where
  "register_channel channel p =
     (let p1 = p\<lparr>con := (con p)\<lparr>channeltoUniqueID :=
                  map_insert (channeltoUniqueID (con p)) channel (proto_id p)\<rparr>\<rparr>
      in rbind (int_incr (proto_id p1)) (\<lambda>i. Inr (p1\<lparr>proto_id := i\<rparr>)))"

text \<open>A request is entered under the current receipt number, which is then incremented.\<close>

definition take_receipt :: "string \<Rightarrow> 's stomp_protocol \<Rightarrow> 's stomp_protocol result" where
  "take_receipt request p =
     (let p1 = p\<lparr>con := (con p)\<lparr>receiptToOriginalMsg :=
                  map_insert (receiptToOriginalMsg (con p)) (recipt p) request\<rparr>\<rparr>
      in rbind (int_incr (recipt p1)) (\<lambda>r. Inr (p1\<lparr>recipt := r\<rparr>)))"

definition id_table :: "'s stomp_protocol \<Rightarrow> int \<Rightarrow> string \<Rightarrow> bool" where
  "id_table p i channel \<longleftrightarrow> channeltoUniqueID (con p) channel = Some i"

definition receipt_table :: "'s stomp_protocol \<Rightarrow> int \<Rightarrow> string \<Rightarrow> bool" where
  "receipt_table p r request \<longleftrightarrow> receiptToOriginalMsg (con p) r = Some request"

interpretation ids: numbered_table proto_id id_table register_channel
  "\<lambda>p channel. channeltoUniqueID (con p) channel = None"
  by unfold_locales (auto simp: register_channel_def id_table_def rbind_eq_Inr int_incr_eq_Inr Let_def)

interpretation receipts: numbered_table recipt receipt_table take_receipt "\<lambda>p request. True"
  by unfold_locales
     (auto simp: take_receipt_def receipt_table_def rbind_eq_Inr int_incr_eq_Inr Let_def
        map_insert_apply split: option.splits)

section \<open>The texts of the commands\<close>

definition handleLogin :: "string list \<Rightarrow> 's stomp_protocol \<Rightarrow> (string \<times> 's stomp_protocol) result" where
  "handleLogin seglist p =
     (let message = ''CONNECT'' @ [newline] @ ''accept-version:1.2'' @ [newline] in
      rbind (vec_at seglist 1) (\<lambda>h.
      let message = message @ ''host:'' @ h @ [newline] in
      rbind (vec_at seglist 2) (\<lambda>user.
      let message = message @ ''login:'' @ user @ [newline];
          p = p\<lparr>con := (con p)\<lparr>username := user\<rparr>\<rparr> in
      rbind (vec_at seglist 3) (\<lambda>passcode.
      let message = message @ ''passcode:'' @ passcode @ [newline] @ [newline] @ ''^@'' in
      Inr (message, p)))))"

definition handleSubscribe :: "string list \<Rightarrow> 's stomp_protocol \<Rightarrow> (string \<times> 's stomp_protocol) result" where
  "handleSubscribe seglist p =
     (let message = ''SUBSCRIBE'' @ [newline] in
      rbind (vec_at seglist 1) (\<lambda>channel.
      let message = message @ ''destination:'' @ ''/'' @ channel @ [newline] in
      rbind (if channeltoUniqueID (con p) channel \<noteq> None then
               let (i, m) = map_index 0 (channeltoUniqueID (con p)) channel in
               Inr (message @ ''id:'' @ to_string i @ [newline],
                    p\<lparr>con := (con p)\<lparr>channeltoUniqueID := m\<rparr>\<rparr>)
             else
               rbind (register_channel channel p) (\<lambda>p1.
               Inr (message @ ''id:'' @ to_string (proto_id p) @ [newline], p1)))
      (\<lambda>(message, p).
      let message = message @ ''receipt:'' @ to_string (recipt p) @ [newline] in
      rbind (take_receipt (''SUBSCRIBE:'' @ channel) p) (\<lambda>p.
      Inr (message @ [newline] @ ''^@'', p)))))"

definition handleUnSubscribe :: "string list \<Rightarrow> 's stomp_protocol \<Rightarrow> (string \<times> 's stomp_protocol) result" where
  "handleUnSubscribe seglist p =
     (let message = ''UNSUBSCRIBE'' @ [newline] in
      rbind (vec_at seglist 1) (\<lambda>channel.
      let (i, m) = map_index 0 (channeltoUniqueID (con p)) channel;
          p = p\<lparr>con := (con p)\<lparr>channeltoUniqueID := m\<rparr>\<rparr>;
          message = message @ ''id:'' @ to_string i @ [newline];
          message = message @ ''receipt:'' @ to_string (recipt p) @ [newline] in
      rbind (take_receipt (''UNSUBSCRIBE:'' @ channel) p) (\<lambda>p.
      Inr (message @ [newline] @ ''^@'', p))))"

text \<open>
  Here the operands of \<open>+\<close> are a string literal and a \<open>char\<close> or an \<open>int\<close>, so the sums are
  pointers into the literals, evaluated from left to right.
\<close>

definition handleSend :: "string list \<Rightarrow> string result" where
  "handleSend seglist =
     rbind (lit_plus ''SEND'' (char_code newline)) (\<lambda>send.
     rbind (vec_at seglist 1) (\<lambda>channel.
     let message = send @ ''/'' @ channel @ [newline] @ [newline] @ [newline] @ ''^@'' in
     Inr message))"

definition handleLogout :: "string list \<Rightarrow> 's stomp_protocol \<Rightarrow> (string \<times> 's stomp_protocol) result" where
  "handleLogout seglist p =
     rbind (lit_plus ''DISCONNECT'' (char_code newline)) (\<lambda>message.
     rbind (ptr_add ''recipt:'' 0 (recipt p)) (\<lambda>ptr.
     rbind (ptr_add ''recipt:'' ptr (char_code newline)) (\<lambda>ptr.
     rbind (c_str ''recipt:'' ptr) (\<lambda>header.
     let message = message @ header in
     rbind (take_receipt ''DISCONNECT:'' p) (\<lambda>p.
     Inr (message @ [newline] @ ''^@'', p))))))"

definition processKeyboard :: "string \<Rightarrow> 's stomp_protocol \<Rightarrow> (string \<times> 's stomp_protocol) result" where
  "processKeyboard message p =
     (let seglist = protocol_split message (CHR '' '') in
      rbind (vec_at seglist 0) (\<lambda>command.
        if command = ''login'' then handleLogin seglist p
        else if command = ''join'' then handleSubscribe seglist p
        else if command = ''exit'' then handleUnSubscribe seglist p
        else if command = ''logout'' then handleLogout seglist p
        else Inr ([], p)))"

text \<open>No command touches the connection, the login flag or the remembered events.\<close>

definition untouched :: "'s stomp_protocol \<Rightarrow> 's stomp_protocol \<Rightarrow> bool" where
  "untouched p p' \<longleftrightarrow> handler p' = handler p \<and> login p' = login p \<and> game p' = game p"

lemma untouched_refl [simp]: "untouched p p"
  by (simp add: untouched_def)

lemma take_receipt_untouched: "take_receipt m p = Inr p' \<Longrightarrow> untouched p p'"
  by (auto simp: take_receipt_def untouched_def rbind_eq_Inr Let_def)

lemma register_channel_untouched: "register_channel ch p = Inr p' \<Longrightarrow> untouched p p'"
  by (auto simp: register_channel_def untouched_def rbind_eq_Inr Let_def)

lemma handleLogin_untouched: "handleLogin seglist p = Inr (m, p') \<Longrightarrow> untouched p p'"
  by (auto simp: handleLogin_def untouched_def rbind_eq_Inr Let_def)

lemma handleSubscribe_untouched: "handleSubscribe seglist p = Inr (m, p') \<Longrightarrow> untouched p p'"
  by (auto simp: handleSubscribe_def rbind_eq_Inr Let_def case_prod_beta untouched_def
      split: if_splits dest!: take_receipt_untouched register_channel_untouched)

lemma handleUnSubscribe_untouched: "handleUnSubscribe seglist p = Inr (m, p') \<Longrightarrow> untouched p p'"
  by (auto simp: handleUnSubscribe_def rbind_eq_Inr Let_def case_prod_beta untouched_def
      dest!: take_receipt_untouched)

lemma handleLogout_undefined: "handleLogout seglist p = Inl Undefined_Behaviour"
  by (simp add: handleLogout_def lit_plus_def ptr_add_def c_str_def rbind_def)

lemma processKeyboard_cases:
  assumes "processKeyboard l p = Inr (m, p')"
  obtains "handleLogin (protocol_split l (CHR '' '')) p = Inr (m, p')"
  | "handleSubscribe (protocol_split l (CHR '' '')) p = Inr (m, p')"
  | "handleUnSubscribe (protocol_split l (CHR '' '')) p = Inr (m, p')"
  | "m = []" "p' = p"
proof -
  from assms obtain word where "vec_at (protocol_split l (CHR '' '')) 0 = Inr word"
    by (auto simp: processKeyboard_def rbind_eq_Inr Let_def)
  with assms have branch: "(if word = ''login'' then handleLogin (protocol_split l (CHR '' '')) p
      else if word = ''join'' then handleSubscribe (protocol_split l (CHR '' '')) p
      else if word = ''exit'' then handleUnSubscribe (protocol_split l (CHR '' '')) p
      else if word = ''logout'' then handleLogout (protocol_split l (CHR '' '')) p
      else Inr ([], p)) = Inr (m, p')"
    by (simp add: processKeyboard_def Let_def)
  show ?thesis
  proof (cases "word = ''login'' \<or> word = ''join'' \<or> word = ''exit'' \<or> word = ''logout''")
    case True
    then show ?thesis
      by (elim disjE) (use branch that(1-3) in \<open>simp_all add: handleLogout_undefined\<close>)
  next
    case False
    with branch show ?thesis by (intro that(4)) simp_all
  qed
qed

lemma processKeyboard_untouched: "processKeyboard l p = Inr (m, p') \<Longrightarrow> untouched p p'"
  by (erule processKeyboard_cases)
     (simp_all add: handleLogin_untouched handleSubscribe_untouched handleUnSubscribe_untouched)

section \<open>The report of an event\<close>

definition processEvent :: "event \<Rightarrow> 's stomp_protocol \<Rightarrow> string" where
  "processEvent e p =
     (let response = ''SEND'' @ [newline];
          response = response @ ''destination:/'' @ get_team_a_name e @ ''_'' @ get_team_b_name e @ [newline];
          response = response @ [newline];
          response = response @ ''user: '' @ username (con p) @ [newline];
          response = response @ ''team a: '' @ get_team_a_name e @ [newline];
          response = response @ ''team b: '' @ get_team_b_name e @ [newline];
          response = response @ ''event name: '' @ get_name e @ [newline];
          response = response @ ''time: '' @ to_string (get_time e) @ [newline];
          gu = get_game_updates e; au = get_team_a_updates e; bu = get_team_b_updates e;
          response = response @ ''general game updates: '' @ [newline];
          (response, gu) =
            (if gu ''active'' \<noteq> None then
               let (v, gu) = map_index [] gu ''active'' in (response @ ''   active: '' @ v @ [newline], gu)
             else (response, gu));
          (response, gu) =
            (if gu ''before halftime'' \<noteq> None then
               let (v, gu) = map_index [] gu ''before halftime'' in
               (response @ ''   before halftime: '' @ v @ [newline], gu)
             else (response, gu));
          response = response @ ''team a updates:'' @ [newline];
          (response, gu) =
            (if au ''goals'' \<noteq> None then
               let (v, gu) = map_index [] gu ''goals'' in (response @ ''   goals: '' @ v @ [newline], gu)
             else (response, gu));
          (response, gu) =
            (if gu ''possession'' \<noteq> None then
               let (v, gu) = map_index [] gu ''possession'' in
               (response @ ''   possession: '' @ v @ [newline], gu)
             else (response, gu));
          response = response @ ''team b updates:'' @ [newline];
          (response, gu) =
            (if bu ''goals'' \<noteq> None then
               let (v, gu) = map_index [] gu ''goals'' in (response @ ''   goals: '' @ v @ [newline], gu)
             else (response, gu));
          (response, gu) =
            (if gu ''possession'' \<noteq> None then
               let (v, gu) = map_index [] gu ''possession'' in
               (response @ ''   possession: '' @ v @ [newline], gu)
             else (response, gu));
          response = response @ ''description: '' @ [newline];
          response = response @ get_discription e @ [newline]
      in response @ ''^@'')"

section \<open>The frames of the server\<close>

text \<open>
  The result of \<open>processServerMessage\<close> is the returned string, what was printed, and the new
  state. A MESSAGE frame only builds a local string that is dropped. For a receipt the request
  is read with \<open>operator[]\<close>, which enters an empty request for an unknown number.
\<close>

definition acknowledge :: "string list \<Rightarrow> (string \<times> string) result" where
  "acknowledge seglist =
     rbind (vec_at seglist 0) (\<lambda>kind.
     rbind (if kind = ''SUBSCRIBE'' then
              rbind (vec_at seglist 1) (\<lambda>channel. Inr (''Joined channel '' @ channel @ [newline, newline]))
            else Inr []) (\<lambda>out.
     rbind (if kind = ''UNSUBSCRIBE'' then
              rbind (vec_at seglist 1) (\<lambda>channel. Inr (out @ ''Exited channel '' @ channel @ [newline, newline]))
            else Inr out) (\<lambda>out.
     Inr (if kind = ''DISCONNECT'' then ''DISCONNECT'' else [], out))))"

definition processReceipt ::
    "(string \<rightharpoonup> string) \<Rightarrow> 's stomp_protocol \<Rightarrow> ((string \<times> string) \<times> 's stomp_protocol) result" where
  "processReceipt fm p =
     (let (receipt_id, fm) = map_index [] fm ''receipt-id'' in
      rbind (stoi receipt_id) (\<lambda>i.
      let (originalClientRequest, m) = map_index [] (receiptToOriginalMsg (con p)) i;
          p = p\<lparr>con := (con p)\<lparr>receiptToOriginalMsg := m\<rparr>\<rparr>;
          seglist = protocol_split originalClientRequest colon in
      rbind (acknowledge seglist) (\<lambda>(ret, out). Inr ((ret, out), p))))"

definition processServerMessage ::
    "string \<Rightarrow> 's stomp_protocol \<Rightarrow> ((string \<times> string) \<times> 's stomp_protocol) result" where
  "processServerMessage message p =
     rbind (new_frame message) (\<lambda>frame.
     let (command, fm) = map_index [] (frame_map frame) ''StompCommand'' in
     if command = ''CONNECTED'' then Inr (([], ''login successful'' @ [newline, newline]), p)
     else if command = ''RECEIPT'' then processReceipt fm p
     else Inr (([], []), p))"

text \<open>Looking up an unknown receipt ends in the access to the pieces of the empty request.\<close>

lemma processReceipt_eq:
  "processReceipt fm p =
     rbind (stoi (fst (map_index [] fm ''receipt-id''))) (\<lambda>i.
       case receiptToOriginalMsg (con p) i of
         None \<Rightarrow> Inl Undefined_Behaviour
       | Some req \<Rightarrow> rbind (acknowledge (protocol_split req colon)) (\<lambda>r. Inr (r, p)))"
proof -
  have "acknowledge (protocol_split [] colon) = Inl Undefined_Behaviour"
    by (simp add: acknowledge_def protocol_split_def)
  then show ?thesis
    unfolding processReceipt_def Let_def case_prod_beta
    by (cases "stoi (fst (map_index [] fm ''receipt-id''))")
       (auto simp: map_index_def prod_eq_iff split: option.splits intro!: arg_cong2 [where f = rbind])
qed

section \<open>The summary of a game\<close>

text \<open>The two loops over the events keep the last value of each statistic.\<close>

definition update_stat :: "(string \<rightharpoonup> string) \<Rightarrow> string \<Rightarrow> string \<Rightarrow> string" where
  "update_stat m key old = (if m key \<noteq> None then fst (map_index [] m key) else old)"

definition summary_general :: "event list \<Rightarrow> string \<times> string" where
  "summary_general eventlist =
     fold (\<lambda>e (active, beforeHalfTime).
         (update_stat (get_game_updates e) ''active'' active,
          update_stat (get_game_updates e) ''before halftime'' beforeHalfTime))
       eventlist ([], [])"

definition summary_teams :: "event list \<Rightarrow> string \<times> string \<times> string \<times> string" where
  "summary_teams eventlist =
     fold (\<lambda>e (teamAgoals, teamApossetion, teamBgoals, teamBpossetion).
         (update_stat (get_team_a_updates e) ''goals'' teamAgoals,
          update_stat (get_team_a_updates e) ''possetion'' teamApossetion,
          update_stat (get_team_b_updates e) ''goals'' teamBgoals,
          update_stat (get_team_b_updates e) ''possetion'' teamBpossetion))
       eventlist ([], [], [], [])"

definition add_line :: "string \<Rightarrow> string \<Rightarrow> string" where
  "add_line message stat = (if stat \<noteq> [] then message @ stat @ [newline] else message)"

text \<open>
  The last loop: the time of an event is an \<open>int\<close> added to a string literal, so it is an offset
  into the literal's array.
\<close>

fun summary_events :: "event list \<Rightarrow> string \<Rightarrow> string result" where
  "summary_events [] message = Inr message"
| "summary_events (e # es) message =
     rbind (lit_plus ''-'' (get_time e)) (\<lambda>t.
       summary_events es
         (message @ t @ get_name e @ [newline] @ [newline] @ get_discription e @ [newline] @ [newline]))"

definition summary_message :: "string list \<Rightarrow> games \<Rightarrow> string result" where
  "summary_message seglist g =
     rbind (vec_at seglist 1) (\<lambda>gameinput.
     let splitted = protocol_split gameinput (CHR ''_'') in
     rbind (vec_at splitted 0) (\<lambda>teamA.
     rbind (vec_at splitted 1) (\<lambda>teamB.
     let gamename = teamA @ ''vs'' @ teamB in
     rbind (vec_at seglist 2) (\<lambda>user.
     rbind (vec_at seglist 3) (\<lambda>filepath.
     let eventlist = stored_events g user (teamA @ ''_'' @ teamB);
         (active, beforeHalfTime) = summary_general eventlist;
         (teamAgoals, teamApossetion, teamBgoals, teamBpossetion) = summary_teams eventlist;
         message = gamename @ [newline] in
     rbind (lit_plus ''Game stats:'' (char_code newline)) (\<lambda>l.
     let message = message @ l in
     rbind (lit_plus ''General stats:'' (char_code newline)) (\<lambda>l.
     let message = add_line (add_line (message @ l) active) beforeHalfTime in
     rbind (vec_at seglist 0) (\<lambda>word.
     let message = message @ ''Team '' @ word @ ''stats:'' @ [newline];
         message = add_line (add_line message teamAgoals) teamApossetion;
         message = message @ ''Team '' @ gameinput @ ''stats:'' @ [newline];
         message = add_line (add_line message teamBgoals) teamBpossetion in
     rbind (lit_plus ''Game events repotrs:'' (char_code newline)) (\<lambda>l.
     summary_events eventlist (message @ l))))))))))"

text \<open>The message is a local variable: nothing of it is printed, written or kept.\<close>

definition handleSummary :: "string list \<Rightarrow> games \<Rightarrow> unit result" where
  "handleSummary seglist g = rbind (summary_message seglist g) (\<lambda>message. Inr ())"

end
