(* ===== verification/Requests.thy ===== *)
theory Requests
  imports StompProtocol
begin

text \<open>
  The requests a user makes of the server (login, join, exit, logout): what frame is sent for
  each, and that the bookkeeping of ids and receipts implements an abstract log of channels
  and requests.
\<close>

section \<open>The frames as rendered STOMP texts\<close>

lemma login_text [frame_text]:
  "''CONNECT'' @ [newline] @ ''accept-version:1.2'' @ [newline] @ ''host:'' @ h @ [newline] @
     ''login:'' @ u @ [newline] @ ''passcode:'' @ pw @ [newline] @ [newline] @ ''^@'' =
   render_frame ''CONNECT'' [(''accept-version'', ''1.2''), (''host'', h), (''login'', u), (''passcode'', pw)] ''^@''"
  by (simp add: render_frame_def header_line_def)

lemma subscribe_text [frame_text]:
  "''SUBSCRIBE'' @ [newline] @ ''destination:'' @ ''/'' @ ch @ [newline] @ ''id:'' @ i @ [newline] @
     ''receipt:'' @ r @ [newline] @ [newline] @ ''^@'' =
   render_frame ''SUBSCRIBE'' [(''destination'', CHR ''/'' # ch), (''id'', i), (''receipt'', r)] ''^@''"
  by (simp add: render_frame_def header_line_def)

lemma unsubscribe_text [frame_text]:
  "''UNSUBSCRIBE'' @ [newline] @ ''id:'' @ i @ [newline] @ ''receipt:'' @ r @ [newline] @ [newline] @ ''^@'' =
   render_frame ''UNSUBSCRIBE'' [(''id'', i), (''receipt'', r)] ''^@''"
  by (simp add: render_frame_def header_line_def)

section \<open>The log of a session\<close>

text \<open>
  A session is abstracted to the channels in the order of their first join, where a channel's
  position is its subscription id, and the requests in the order they were made, where a
  request's position is its receipt number.
\<close>

definition session_log :: "'s stomp_protocol \<Rightarrow> string list \<Rightarrow> string list \<Rightarrow> bool" where
  "session_log p chs reqs \<longleftrightarrow>
     enumerates (proto_id p) (id_table p) chs \<and> enumerates (recipt p) (receipt_table p) reqs"

definition log_join :: "string \<Rightarrow> string list \<Rightarrow> string list" where
  "log_join ch chs = (if ch \<in> set chs then chs else chs @ [ch])"

lemma session_log_new: "session_log (new_protocol h pt s) [] []"
  by (simp add: session_log_def new_protocol_def new_connections_def id_table_def receipt_table_def
      enumerates_def)

lemma session_log_distinct: "session_log p chs reqs \<Longrightarrow> distinct chs"
proof -
  assume "session_log p chs reqs"
  then have e: "enumerates (proto_id p) (id_table p) chs" by (simp add: session_log_def)
  have "i = j" if "i < length chs" "j < length chs" "chs ! i = chs ! j" for i j
    using enumerates_nth [OF e that(1)] enumerates_nth [OF e that(2)] that(3)
    by (simp add: id_table_def)
  then show ?thesis by (auto simp: distinct_conv_nth)
qed

lemma session_log_channel:
  assumes "session_log p chs reqs"
  shows "channeltoUniqueID (con p) ch = Some i \<longleftrightarrow> 0 \<le> i \<and> i < int (length chs) \<and> ch = chs ! nat i"
  using assms enumerates_table [of "proto_id p" "id_table p" chs i ch]
  by (simp add: session_log_def id_table_def)

lemma session_log_joined:
  "session_log p chs reqs \<Longrightarrow> channeltoUniqueID (con p) ch = None \<longleftrightarrow> ch \<notin> set chs"
  using enumerates_member [of "proto_id p" "id_table p" chs ch]
  by (auto simp: session_log_def id_table_def)

lemma session_log_receipt:
  assumes "session_log p chs reqs"
  shows "receiptToOriginalMsg (con p) r = Some m \<longleftrightarrow> 0 \<le> r \<and> r < int (length reqs) \<and> m = reqs ! nat r"
  using assms enumerates_table [of "recipt p" "receipt_table p" reqs r m]
  by (simp add: session_log_def receipt_table_def)

lemma session_log_counters:
  "session_log p chs reqs \<Longrightarrow> proto_id p = int (length chs) \<and> recipt p = int (length reqs)"
  by (auto simp: session_log_def dest: enumerates_counter)

text \<open>Fields the log does not look at can change freely.\<close>

lemma session_log_frame [simp]:
  "session_log (p\<lparr>handler := h\<rparr>) chs reqs = session_log p chs reqs"
  "session_log (p\<lparr>login := b\<rparr>) chs reqs = session_log p chs reqs"
  "session_log (p\<lparr>game := g\<rparr>) chs reqs = session_log p chs reqs"
  "session_log (p\<lparr>con := (con p)\<lparr>username := u\<rparr>\<rparr>) chs reqs = session_log p chs reqs"
  by (simp_all add: session_log_def id_table_def [abs_def] receipt_table_def [abs_def])

lemma session_log_take_receipt [book_intros]:
  assumes "session_log p chs reqs" "int (length reqs) < int_max"
  obtains p' where "take_receipt m p = Inr p'" "session_log p' chs (reqs @ [m])"
    "username (con p') = username (con p)" "channeltoUniqueID (con p') = channeltoUniqueID (con p)"
    "handler p' = handler p" "login p' = login p" "game p' = game p"
proof -
  from assms obtain p' where p': "take_receipt m p = Inr p'"
    "enumerates (recipt p') (receipt_table p') (reqs @ [m])"
    using receipts.allocate_ok [of p reqs m] by (auto simp: session_log_def)
  then have "proto_id p' = proto_id p" "username (con p') = username (con p)"
    "channeltoUniqueID (con p') = channeltoUniqueID (con p)" "handler p' = handler p"
    "login p' = login p" "game p' = game p"
    by (auto simp: take_receipt_def rbind_eq_Inr Let_def)
  moreover from this assms(1) p'(2) have "session_log p' chs (reqs @ [m])"
    by (simp add: session_log_def id_table_def [abs_def])
  ultimately show ?thesis using p'(1) that by blast
qed

lemma session_log_register [book_intros]:
  assumes "session_log p chs reqs" "ch \<notin> set chs" "int (length chs) < int_max"
  obtains p' where "register_channel ch p = Inr p'" "session_log p' (chs @ [ch]) reqs"
    "recipt p' = recipt p" "username (con p') = username (con p)"
    "handler p' = handler p" "login p' = login p" "game p' = game p"
proof -
  from assms obtain p' where p': "register_channel ch p = Inr p'"
    "enumerates (proto_id p') (id_table p') (chs @ [ch])"
    using ids.allocate_ok [of p chs ch] session_log_joined [OF assms(1), of ch]
    by (auto simp: session_log_def)
  then have same: "recipt p' = recipt p" "username (con p') = username (con p)"
    "receiptToOriginalMsg (con p') = receiptToOriginalMsg (con p)" "handler p' = handler p"
    "login p' = login p" "game p' = game p"
    by (auto simp: register_channel_def rbind_eq_Inr Let_def)
  moreover from same(1,3) assms(1) p'(2) have "session_log p' (chs @ [ch]) reqs"
    by (simp add: session_log_def receipt_table_def [abs_def])
  ultimately show ?thesis using p'(1) that by blast
qed

section \<open>The handlers on a logged session\<close>

lemma handleSubscribe_known:
  assumes "channeltoUniqueID (con p) ch = Some i" "vec_at seglist 1 = Inr ch" "take_receipt (''SUBSCRIBE:'' @ ch) p = Inr p'"
  shows "handleSubscribe seglist p = Inr (render_frame ''SUBSCRIBE''
    [(''destination'', CHR ''/'' # ch), (''id'', to_string i), (''receipt'', to_string (recipt p))] ''^@'', p')"
  using assms by (simp add: handleSubscribe_def subscribe_text [symmetric])

lemma handleSubscribe_new:
  assumes "channeltoUniqueID (con p) ch = None" "vec_at seglist 1 = Inr ch"
    "register_channel ch p = Inr p1" "take_receipt (''SUBSCRIBE:'' @ ch) p1 = Inr p'"
  shows "handleSubscribe seglist p = Inr (render_frame ''SUBSCRIBE''
    [(''destination'', CHR ''/'' # ch), (''id'', to_string (proto_id p)), (''receipt'', to_string (recipt p1))] ''^@'', p')"
  using assms by (simp add: handleSubscribe_def subscribe_text [symmetric])

lemma handleUnSubscribe_eq:
  assumes "vec_at seglist 1 = Inr ch" "map_index 0 (channeltoUniqueID (con p)) ch = (i, m)"
    "take_receipt (''UNSUBSCRIBE:'' @ ch) (p\<lparr>con := (con p)\<lparr>channeltoUniqueID := m\<rparr>\<rparr>) = Inr p'"
  shows "handleUnSubscribe seglist p = Inr (render_frame ''UNSUBSCRIBE''
    [(''id'', to_string i), (''receipt'', to_string (recipt p))] ''^@'', p')"
  using assms by (simp add: handleUnSubscribe_def unsubscribe_text [symmetric])

text \<open>What the log says the frame of a join and of an exit should be.\<close>

definition join_frame :: "string \<Rightarrow> nat \<Rightarrow> nat \<Rightarrow> string" where
  "join_frame ch i r = render_frame ''SUBSCRIBE''
     [(''destination'', CHR ''/'' # ch), (''id'', to_string (int i)), (''receipt'', to_string (int r))] ''^@''"

definition exit_frame :: "nat \<Rightarrow> nat \<Rightarrow> string" where
  "exit_frame i r = render_frame ''UNSUBSCRIBE''
     [(''id'', to_string (int i)), (''receipt'', to_string (int r))] ''^@''"

definition index_of :: "string \<Rightarrow> string list \<Rightarrow> nat" where
  "index_of ch chs = length (takeWhile (\<lambda>c. c \<noteq> ch) chs)"

lemma index_of_nth: "ch \<in> set chs \<Longrightarrow> index_of ch chs < length chs \<and> chs ! index_of ch chs = ch"
proof -
  assume "ch \<in> set chs"
  then obtain ys zs where "chs = ys @ ch # zs" "ch \<notin> set ys" by (metis split_list_first)
  then show ?thesis by (simp add: index_of_def)
qed

lemma index_of_eq: "distinct chs \<Longrightarrow> k < length chs \<Longrightarrow> index_of (chs ! k) chs = k"
  using index_of_nth [of "chs ! k" chs] nth_eq_iff_index_eq [of chs "index_of (chs ! k) chs" k]
  by simp

lemma index_of_snoc [simp]: "ch \<notin> set chs \<Longrightarrow> index_of ch (chs @ [ch]) = length chs"
  by (simp add: index_of_def)

lemma handleSubscribe_log:
  assumes log: "session_log p chs reqs" and ch: "vec_at seglist 1 = Inr ch"
    and room: "int (length chs) < int_max" "int (length reqs) < int_max"
  obtains p' where
    "handleSubscribe seglist p = Inr (join_frame ch (index_of ch (log_join ch chs)) (length reqs), p')"
    "session_log p' (log_join ch chs) (reqs @ [''SUBSCRIBE:'' @ ch])"
    "username (con p') = username (con p)" "handler p' = handler p" "login p' = login p" "game p' = game p"
proof (cases "ch \<in> set chs")
  case True
  from True log have i: "channeltoUniqueID (con p) ch = Some (int (index_of ch chs))"
    using index_of_nth [OF True] by (simp add: session_log_channel)
  from log room(2) obtain p' where p': "take_receipt (''SUBSCRIBE:'' @ ch) p = Inr p'"
    "session_log p' chs (reqs @ [''SUBSCRIBE:'' @ ch])" "username (con p') = username (con p)"
    "handler p' = handler p" "login p' = login p" "game p' = game p"
    by (rule session_log_take_receipt)
  from handleSubscribe_known [OF i ch p'(1)] session_log_counters [OF log] p' True show ?thesis
    by (intro that [of p']) (simp_all add: log_join_def join_frame_def)
next
  case False
  from log False room(1) obtain p1 where p1: "register_channel ch p = Inr p1" "session_log p1 (chs @ [ch]) reqs"
    "recipt p1 = recipt p" "username (con p1) = username (con p)" "handler p1 = handler p"
    "login p1 = login p" "game p1 = game p"
    by (rule session_log_register)
  from p1(2) room(2) obtain p' where p': "take_receipt (''SUBSCRIBE:'' @ ch) p1 = Inr p'"
    "session_log p' (chs @ [ch]) (reqs @ [''SUBSCRIBE:'' @ ch])" "username (con p') = username (con p1)"
    "handler p' = handler p1" "login p' = login p1" "game p' = game p1"
    by (rule session_log_take_receipt)
  from False log have "channeltoUniqueID (con p) ch = None" by (simp add: session_log_joined)
  from handleSubscribe_new [OF this ch p1(1) p'(1)] session_log_counters [OF log] p1 p' False
  show ?thesis by (intro that [of p']) (simp_all add: log_join_def join_frame_def)
qed

lemma handleUnSubscribe_log:
  assumes log: "session_log p chs reqs" and ch: "vec_at seglist 1 = Inr ch" "ch \<in> set chs"
    and room: "int (length reqs) < int_max"
  obtains p' where
    "handleUnSubscribe seglist p = Inr (exit_frame (index_of ch chs) (length reqs), p')"
    "session_log p' chs (reqs @ [''UNSUBSCRIBE:'' @ ch])"
    "username (con p') = username (con p)" "handler p' = handler p" "login p' = login p" "game p' = game p"
proof -
  from log ch(2) have i: "channeltoUniqueID (con p) ch = Some (int (index_of ch chs))"
    using index_of_nth [OF ch(2)] by (simp add: session_log_channel)
  from log room obtain p' where p': "take_receipt (''UNSUBSCRIBE:'' @ ch) p = Inr p'"
    "session_log p' chs (reqs @ [''UNSUBSCRIBE:'' @ ch])" "username (con p') = username (con p)"
    "handler p' = handler p" "login p' = login p" "game p' = game p"
    by (rule session_log_take_receipt)
  have "take_receipt (''UNSUBSCRIBE:'' @ ch)
      (p\<lparr>con := (con p)\<lparr>channeltoUniqueID := channeltoUniqueID (con p)\<rparr>\<rparr>) = Inr p'"
    using p'(1) by simp
  moreover from i have "map_index 0 (channeltoUniqueID (con p)) ch =
      (int (index_of ch chs), channeltoUniqueID (con p))" by simp
  moreover note handleUnSubscribe_eq [of seglist ch p "int (index_of ch chs)" "channeltoUniqueID (con p)" p'] ch(1)
  ultimately show ?thesis
    using session_log_counters [OF log] p'
    by (intro that [of p']) (simp_all add: exit_frame_def)
qed

section \<open>Whole sessions against the abstract log\<close>

datatype request = Join string | Leave string

fun request_channel :: "request \<Rightarrow> string" where
  "request_channel (Join ch) = ch"
| "request_channel (Leave ch) = ch"

fun request_line :: "request \<Rightarrow> string" where
  "request_line (Join ch) = ''join '' @ ch"
| "request_line (Leave ch) = ''exit '' @ ch"

text \<open>
  The specification: a join adds its channel unless it is there, an exit leaves the channels
  alone, both log the request, and each is announced by one frame with the channel's position
  and the request's position.
\<close>

fun spec_step :: "request \<Rightarrow> string list \<times> string list \<Rightarrow> string list \<times> string list" where
  "spec_step (Join ch) (chs, reqs) = (log_join ch chs, reqs @ [''SUBSCRIBE:'' @ ch])"
| "spec_step (Leave ch) (chs, reqs) = (chs, reqs @ [''UNSUBSCRIBE:'' @ ch])"

fun spec_frame :: "request \<Rightarrow> string list \<times> string list \<Rightarrow> string" where
  "spec_frame (Join ch) (chs, reqs) = join_frame ch (index_of ch (log_join ch chs)) (length reqs)"
| "spec_frame (Leave ch) (chs, reqs) = exit_frame (index_of ch chs) (length reqs)"

fun spec_run :: "request list \<Rightarrow> string list \<times> string list \<Rightarrow> string list \<times> string list \<times> string list" where
  "spec_run [] l = ([], l)"
| "spec_run (r # rs) l = (let (fs, l') = spec_run rs (spec_step r l) in (spec_frame r l # fs, l'))"

text \<open>A request is in order when its channel is one word and an exit is for a joined channel.\<close>

fun in_order :: "request list \<Rightarrow> string list \<Rightarrow> bool" where
  "in_order [] chs = True"
| "in_order (Join ch # rs) chs = (ch \<noteq> [] \<and> CHR '' '' \<notin> set ch \<and> in_order rs (log_join ch chs))"
| "in_order (Leave ch # rs) chs = (ch \<in> set chs \<and> ch \<noteq> [] \<and> CHR '' '' \<notin> set ch \<and> in_order rs chs)"

fun run_lines :: "string list \<Rightarrow> 's stomp_protocol \<Rightarrow> (string list \<times> 's stomp_protocol) result" where
  "run_lines [] p = Inr ([], p)"
| "run_lines (l # ls) p =
     rbind (processKeyboard l p) (\<lambda>(frame, p). rbind (run_lines ls p) (\<lambda>(frames, p). Inr (frame # frames, p)))"

lemma split_words:
  assumes "CHR '' '' \<notin> set w" "ch \<noteq> []" "CHR '' '' \<notin> set ch"
  shows "protocol_split (w @ CHR '' '' # ch) (CHR '' '') = [w, ch]"
  using assms by (simp add: protocol_split_def split_on_delim split_on_no_delim)

lemma processKeyboard_join:
  assumes "ch \<noteq> []" "CHR '' '' \<notin> set ch"
  shows "processKeyboard (''join '' @ ch) p = handleSubscribe [''join'', ch] p"
  using split_words [of "''join''", OF _ assms] by (simp add: processKeyboard_def)

lemma processKeyboard_exit:
  assumes "ch \<noteq> []" "CHR '' '' \<notin> set ch"
  shows "processKeyboard (''exit '' @ ch) p = handleUnSubscribe [''exit'', ch] p"
  using split_words [of "''exit''", OF _ assms] by (simp add: processKeyboard_def)

lemma processKeyboard_request:
  assumes log: "session_log p (fst l) (snd l)" and ok: "in_order (r # rs) (fst l)"
    and room: "int (length (fst l)) < int_max" "int (length (snd l)) < int_max"
  obtains p' where "processKeyboard (request_line r) p = Inr (spec_frame r l, p')"
    "session_log p' (fst (spec_step r l)) (snd (spec_step r l))" "in_order rs (fst (spec_step r l))"
proof (cases r)
  case (Join ch)
  obtain chs reqs where l: "l = (chs, reqs)" by (cases l)
  from Join ok have ch: "ch \<noteq> []" "CHR '' '' \<notin> set ch" by simp_all
  have "vec_at [''join'', ch] 1 = Inr ch" by simp
  from handleSubscribe_log [OF log [unfolded l fst_conv snd_conv] this room [unfolded l fst_conv snd_conv]]
  obtain p' where
    "handleSubscribe [''join'', ch] p = Inr (join_frame ch (index_of ch (log_join ch chs)) (length reqs), p')"
    "session_log p' (log_join ch chs) (reqs @ [''SUBSCRIBE:'' @ ch])"
    by blast
  with Join l ok show ?thesis
    using processKeyboard_join [OF ch, of p] by (intro that [of p']) simp_all
next
  case (Leave ch)
  obtain chs reqs where l: "l = (chs, reqs)" by (cases l)
  from Leave ok l have ch: "ch \<in> set chs" "ch \<noteq> []" "CHR '' '' \<notin> set ch" by simp_all
  have "vec_at [''exit'', ch] 1 = Inr ch" by simp
  from handleUnSubscribe_log [OF log [unfolded l fst_conv snd_conv] this ch(1) room(2) [unfolded l snd_conv]]
  obtain p' where
    "handleUnSubscribe [''exit'', ch] p = Inr (exit_frame (index_of ch chs) (length reqs), p')"
    "session_log p' chs (reqs @ [''UNSUBSCRIBE:'' @ ch])"
    by blast
  with Leave l ok show ?thesis
    using processKeyboard_exit [OF ch(2,3), of p] by (intro that [of p']) simp_all
qed

lemma spec_step_lengths:
  "length (fst (spec_step r l)) \<le> length (fst l) + 1" "length (snd (spec_step r l)) = length (snd l) + 1"
  by (cases r; cases l, simp_all add: log_join_def)+

lemma run_lines_refines:
  assumes "session_log p (fst l) (snd l)" "in_order rs (fst l)"
    and "int (length (fst l) + length rs) \<le> int_max" "int (length (snd l) + length rs) \<le> int_max"
  shows "\<exists>p'. run_lines (map request_line rs) p = Inr (fst (spec_run rs l), p') \<and>
    session_log p' (fst (snd (spec_run rs l))) (snd (snd (spec_run rs l)))"
  using assms
proof (induction rs arbitrary: p l)
  case Nil
  then show ?case by simp
next
  case (Cons r rs)
  have "int (length (fst l)) < int_max" "int (length (snd l)) < int_max"
    using Cons.prems(3,4) by simp_all
  with Cons.prems(1,2) obtain p1 where p1: "processKeyboard (request_line r) p = Inr (spec_frame r l, p1)"
    "session_log p1 (fst (spec_step r l)) (snd (spec_step r l))" "in_order rs (fst (spec_step r l))"
    by (rule processKeyboard_request)
  moreover have "int (length (fst (spec_step r l)) + length rs) \<le> int_max"
    "int (length (snd (spec_step r l)) + length rs) \<le> int_max"
    using Cons.prems(3,4) spec_step_lengths [of r l] by auto
  ultimately obtain p' where "run_lines (map request_line rs) p1 = Inr (fst (spec_run rs (spec_step r l)), p')"
    "session_log p' (fst (snd (spec_run rs (spec_step r l)))) (snd (snd (spec_run rs (spec_step r l))))"
    using Cons.IH by blast
  with p1(1) show ?case by (simp add: Let_def case_prod_beta)
qed

section \<open>Properties\<close>

text \<open>
  C2: The bookkeeping refines the abstract log: from a fresh client, any sequence of join and
  exit commands in which exits are for joined channels is answered with exactly the frames of
  the specification (each channel keeps the id of its first join, receipts count the requests),
  and afterwards the id and receipt tables are the specified log.
\<close>

theorem requests_refine_log:
  assumes "in_order rs []" "int (length rs) \<le> int_max"
  shows "\<exists>p'. run_lines (map request_line rs) (new_protocol h pt s) = Inr (fst (spec_run rs ([], [])), p') \<and>
    session_log p' (fst (snd (spec_run rs ([], [])))) (snd (snd (spec_run rs ([], []))))"
  using run_lines_refines [of "new_protocol h pt s" "([], [])" rs] assms
  by (simp add: session_log_new)

theorem requests_refine_log_witness:
  "\<exists>p'. run_lines (map request_line [Join ''a_b'', Join ''c_d'', Leave ''a_b'']) (new_protocol ''h'' 7777 ()) =
      Inr (fst (spec_run [Join ''a_b'', Join ''c_d'', Leave ''a_b''] ([], [])), p') \<and>
    session_log p' (fst (snd (spec_run [Join ''a_b'', Join ''c_d'', Leave ''a_b''] ([], []))))
      (snd (snd (spec_run [Join ''a_b'', Join ''c_d'', Leave ''a_b''] ([], []))))"
  by (rule requests_refine_log) (simp_all add: log_join_def int_max_def)

text \<open>
  Ids are unique and stable: in a logged session two joined channels never share an id, and
  joining a channel again is announced with the id it already has and registers nothing new.
\<close>

theorem channel_ids_unique:
  assumes "session_log p chs reqs"
    and "channeltoUniqueID (con p) a = Some i" "channeltoUniqueID (con p) b = Some j"
    and "int (length reqs) < int_max"
  shows "(i = j \<longleftrightarrow> a = b) \<and>
    (\<exists>p'. handleSubscribe [''join'', a] p = Inr (join_frame a (nat i) (length reqs), p') \<and>
       channeltoUniqueID (con p') = channeltoUniqueID (con p) \<and> proto_id p' = proto_id p)"
proof
  have ij: "0 \<le> i \<and> i < int (length chs) \<and> a = chs ! nat i" "0 \<le> j \<and> j < int (length chs) \<and> b = chs ! nat j"
    using assms(1-3) by (simp_all add: session_log_channel)
  then show "i = j \<longleftrightarrow> a = b"
    using assms(2,3) by (metis option.inject)
  from assms(1,4) obtain p' where p': "take_receipt (''SUBSCRIBE:'' @ a) p = Inr p'"
    "session_log p' chs (reqs @ [''SUBSCRIBE:'' @ a])" "channeltoUniqueID (con p') = channeltoUniqueID (con p)"
    by (rule session_log_take_receipt)
  have "vec_at [''join'', a] 1 = Inr a" by simp
  from handleSubscribe_known [OF assms(2) this p'(1)] ij(1) p'(3)
    session_log_counters [OF assms(1)] session_log_counters [OF p'(2)]
  show "\<exists>p'. handleSubscribe [''join'', a] p = Inr (join_frame a (nat i) (length reqs), p') \<and>
       channeltoUniqueID (con p') = channeltoUniqueID (con p) \<and> proto_id p' = proto_id p"
    by (intro exI [of _ p']) (simp add: join_frame_def)
qed

theorem channel_ids_unique_witness:
  "\<exists>p :: unit stomp_protocol. session_log p [''a_b''] [''SUBSCRIBE:a_b''] \<and>
    ((0::int) = 0 \<longleftrightarrow> ''a_b'' = ''a_b'') \<and>
    (\<exists>p'. handleSubscribe [''join'', ''a_b''] p = Inr (join_frame ''a_b'' (nat 0) (length [''SUBSCRIBE:a_b'']), p') \<and>
       channeltoUniqueID (con p') = channeltoUniqueID (con p) \<and> proto_id p' = proto_id p)"
proof -
  obtain p :: "unit stomp_protocol" where p: "session_log p [''a_b''] [''SUBSCRIBE:a_b'']"
    using handleSubscribe_log [OF session_log_new [of "''h''" 0 "()"], of "[''join'', ''a_b'']" "''a_b''"]
    by (auto simp: log_join_def int_max_def)
  then have "channeltoUniqueID (con p) ''a_b'' = Some 0" by (simp add: session_log_channel)
  from channel_ids_unique [OF p this this] p show ?thesis
    by (intro exI [of _ p]) (simp add: int_max_def)
qed

text \<open>
  Exiting a channel that was never joined is not refused: \<open>operator[]\<close> enters the channel
  with id 0, so the frame sent asks the server to end the subscription of the first joined
  channel, and from then on two channels share the id 0, which no session log describes.
\<close>

theorem exit_unknown_channel:
  assumes "session_log p (c # chs) reqs" "ch \<notin> set (c # chs)" "int (length reqs) < int_max"
  shows "\<exists>p'. handleUnSubscribe [''exit'', ch] p = Inr (exit_frame 0 (length reqs), p') \<and>
    channeltoUniqueID (con p') ch = Some 0 \<and> channeltoUniqueID (con p') c = Some 0 \<and>
    (\<forall>chs' reqs'. \<not> session_log p' chs' reqs')"
proof -
  let ?p1 = "p\<lparr>con := (con p)\<lparr>channeltoUniqueID := (channeltoUniqueID (con p))(ch \<mapsto> 0)\<rparr>\<rparr>"
  from assms have none: "channeltoUniqueID (con p) ch = None" and c: "channeltoUniqueID (con p) c = Some 0"
    by (simp_all add: session_log_joined session_log_channel)
  have "recipt ?p1 < int_max" using session_log_counters [OF assms(1)] assms(3) by simp
  then obtain p' where p': "take_receipt (''UNSUBSCRIBE:'' @ ch) ?p1 = Inr p'"
    using receipts.allocate_defined [of "''UNSUBSCRIBE:'' @ ch" ?p1] by blast
  then have ids: "channeltoUniqueID (con p') = (channeltoUniqueID (con p))(ch \<mapsto> 0)"
    by (auto simp: take_receipt_def rbind_eq_Inr Let_def)
  have "vec_at [''exit'', ch] 1 = Inr ch" by simp
  from handleUnSubscribe_eq [OF this map_index_absent p'] none session_log_counters [OF assms(1)]
  have "handleUnSubscribe [''exit'', ch] p = Inr (exit_frame 0 (length reqs), p')"
    by (simp add: exit_frame_def)
  moreover have "ch \<noteq> c" using assms(2) by auto
  moreover from this have "\<not> session_log p' chs' reqs'" for chs' reqs'
    using session_log_channel [of p' chs' reqs' ch 0] session_log_channel [of p' chs' reqs' c 0] ids c by auto
  ultimately show ?thesis using ids c by auto
qed

theorem exit_unknown_channel_witness:
  "\<exists>p p' :: unit stomp_protocol. session_log p [''a_b''] [''SUBSCRIBE:a_b''] \<and>
    handleUnSubscribe [''exit'', ''x_y''] p = Inr (exit_frame 0 1, p') \<and>
    channeltoUniqueID (con p') ''x_y'' = Some 0 \<and> channeltoUniqueID (con p') ''a_b'' = Some 0"
proof -
  obtain p :: "unit stomp_protocol" where p: "session_log p [''a_b''] [''SUBSCRIBE:a_b'']"
    using handleSubscribe_log [OF session_log_new [of "''h''" 0 "()"], of "[''join'', ''a_b'']" "''a_b''"]
    by (auto simp: log_join_def int_max_def)
  from exit_unknown_channel [OF p, of "''x_y''"] p show ?thesis
    by (auto simp: int_max_def)
qed

text \<open>
  The frames of a session are understood by the client's own parser: for a channel without
  newline and colon (and not gigabytes long) the join frame is read back with its destination, id and receipt, and the
  exit frame with its id and receipt; both carry the two characters of the marker as a body.
\<close>

theorem request_frames_parse:
  assumes "newline \<notin> set ch" "colon \<notin> set ch" "length ch < 2 ^ 30" "int i \<le> int_max" "int r \<le> int_max"
  shows "(\<exists>f. new_frame (join_frame ch i r) = Inr f \<and>
      frame_map f ''StompCommand'' = Some ''SUBSCRIBE'' \<and>
      frame_map f ''destination'' = Some (''/'' @ ch) \<and>
      frame_map f ''id'' = Some (to_string (int i)) \<and>
      frame_map f ''receipt'' = Some (to_string (int r)) \<and>
      frame_map f ''FrameBody'' = Some ''^@'') \<and>
    (\<exists>f. new_frame (exit_frame i r) = Inr f \<and>
      frame_map f ''StompCommand'' = Some ''UNSUBSCRIBE'' \<and>
      frame_map f ''id'' = Some (to_string (int i)) \<and>
      frame_map f ''receipt'' = Some (to_string (int r)) \<and>
      frame_map f ''FrameBody'' = Some ''^@'')"
  using assms length_to_string_int [of "int i"] length_to_string_int [of "int r"]
  by (simp add: join_frame_def exit_frame_def new_frame_render wf_header_def wf_command_def parsed_headers_def
      headers_map_def map_insert_apply short_line_def header_line_def int_min_def int_max_def)

text \<open>
  C31: A login command sends the CONNECT frame of its arguments and remembers the user name; as
  the parser cuts values at a colon, of the host argument \<open>host:port\<close> only the host arrives,
  and a user name or passcode arrives whole only without a colon (arguments of nearly \<open>2 ^ 31\<close>
  characters would overflow the parser's line index). With fewer than three
  arguments the command's behaviour is undefined.
\<close>

theorem login_frame:
  "(if 3 < length seglist then
      \<exists>p'. handleLogin seglist p = Inr (render_frame ''CONNECT''
          [(''accept-version'', ''1.2''), (''host'', seglist ! 1), (''login'', seglist ! 2),
           (''passcode'', seglist ! 3)] ''^@'', p') \<and>
        p' = p\<lparr>con := (con p)\<lparr>username := seglist ! 2\<rparr>\<rparr> \<and>
        ((\<forall>x \<in> {seglist ! 1, seglist ! 2, seglist ! 3}.
            x \<noteq> [] \<and> newline \<notin> set x \<and> int (length x) + 9 < int_max) \<longrightarrow>
          (\<exists>f. new_frame (fst (projr (handleLogin seglist p))) = Inr f \<and>
             frame_map f ''host'' = Some (header_value (seglist ! 1)) \<and>
             frame_map f ''login'' = Some (header_value (seglist ! 2)) \<and>
             frame_map f ''passcode'' = Some (header_value (seglist ! 3))))
    else handleLogin seglist p = Inl Undefined_Behaviour)"
proof (cases "3 < length seglist")
  case True
  let ?hs = "[(''accept-version'', ''1.2''), (''host'', seglist ! 1), (''login'', seglist ! 2),
    (''passcode'', seglist ! 3)]"
  from True have eq: "handleLogin seglist p =
      Inr (render_frame ''CONNECT'' ?hs ''^@'', p\<lparr>con := (con p)\<lparr>username := seglist ! 2\<rparr>\<rparr>)"
    using login_text [of "seglist ! 1" "seglist ! 2" "seglist ! 3"]
    by (simp add: handleLogin_def vec_at_def)
  have "\<exists>f. new_frame (render_frame ''CONNECT'' ?hs ''^@'') = Inr f \<and>
      frame_map f ''host'' = Some (header_value (seglist ! 1)) \<and>
      frame_map f ''login'' = Some (header_value (seglist ! 2)) \<and>
      frame_map f ''passcode'' = Some (header_value (seglist ! 3))"
    if "\<forall>x \<in> {seglist ! 1, seglist ! 2, seglist ! 3}.
        x \<noteq> [] \<and> newline \<notin> set x \<and> int (length x) + 9 < int_max"
    using that
    by (simp add: new_frame_render wf_header_def wf_command_def parsed_headers_def headers_map_def
        map_insert_apply short_line_def header_line_def int_max_def)
  with True eq show ?thesis by simp
next
  case False
  then show ?thesis by (auto simp: handleLogin_def vec_at_def Let_def rbind_def)
qed

theorem login_frame_witness:
  "\<exists>p'. handleLogin [''login'', ''1.1.1.1:2000'', ''meni'', ''films''] (new_protocol ''h'' 7777 ()) =
      Inr (render_frame ''CONNECT'' [(''accept-version'', ''1.2''), (''host'', ''1.1.1.1:2000''),
        (''login'', ''meni''), (''passcode'', ''films'')] ''^@'', p') \<and> username (con p') = ''meni''"
  using login_frame [of "[''login'', ''1.1.1.1:2000'', ''meni'', ''films'']" "new_protocol ''h'' 7777 ()"]
  by simp

text \<open>
  C30: A logout never has a defined outcome, in any state: the header text is a pointer sum
  that leaves the array of its literal. The same holds for the unused \<open>handleSend\<close>.
\<close>

theorem logout_undefined:
  "handleLogout seglist p = Inl Undefined_Behaviour \<and> handleSend seglist' = Inl Undefined_Behaviour"
  by (simp add: handleLogout_undefined handleSend_def lit_plus_def ptr_add_def c_str_def rbind_def)

end
