(* ===== verification/ServerMessages.thy ===== *)
theory ServerMessages
  imports Requests
begin

text \<open>
  What the client does with a message of the server (\<open>StompProtocol::processServerMessage\<close>):
  the acknowledgement of a request, the messages it cannot make sense of, and the ones it
  ignores.
\<close>

text \<open>
  A message as it reaches the client: the command line and the header lines. (The reading loop
  cuts the last character of what the server sends, which is the newline of the blank line.)
\<close>

definition head_text :: "string \<Rightarrow> header list \<Rightarrow> string" where
  "head_text cmd hs = cmd @ newline # render_headers hs"

definition receipt_text :: "int \<Rightarrow> string" where
  "receipt_text r = head_text ''RECEIPT'' [(''receipt-id'', to_string r)]"

lemma new_frame_head:
  assumes "wf_command cmd" "list_all wf_header hs"
  shows "new_frame (head_text cmd hs) = Inr \<lparr>currString = [], frame_map = parsed_headers cmd hs\<rparr>"
  using new_frame_headers [OF assms, of "[]"] by (simp add: head_text_def mapHeaders_end)

lemma wf_receipt: "wf_command ''RECEIPT''" "wf_command ''ERROR''"
  by (simp_all add: wf_command_def short_line_def int_max_def)

lemma receipt_frame:
  assumes "int_min \<le> r" "r \<le> int_max + 1"
  shows "new_frame (receipt_text r) =
     Inr \<lparr>currString = [], frame_map = [''StompCommand'' \<mapsto> ''RECEIPT'', ''receipt-id'' \<mapsto> to_string r]\<rparr>"
proof -
  have "parsed_headers ''RECEIPT'' [(''receipt-id'', to_string r)] =
      [''StompCommand'' \<mapsto> ''RECEIPT'', ''receipt-id'' \<mapsto> to_string r]"
    by (auto simp: parsed_headers_def headers_map_def fun_eq_iff map_add_def split: option.splits)
  then show ?thesis
    using new_frame_head [OF wf_receipt(1), of "[(''receipt-id'', to_string r)]"]
      length_to_string_int [OF assms]
    by (simp add: receipt_text_def wf_header_def short_line_def header_line_def int_max_def)
qed

text \<open>What is printed for the acknowledgement of a logged request.\<close>

fun request_entry :: "request \<Rightarrow> string" where
  "request_entry (Join ch) = ''SUBSCRIBE:'' @ ch"
| "request_entry (Leave ch) = ''UNSUBSCRIBE:'' @ ch"

fun ack_text :: "request \<Rightarrow> string" where
  "ack_text (Join ch) = ''Joined channel '' @ ch @ [newline, newline]"
| "ack_text (Leave ch) = ''Exited channel '' @ ch @ [newline, newline]"

lemma spec_run_requests:
  "snd (snd (spec_run rs l)) = snd l @ map request_entry rs"
proof (induction rs arbitrary: l)
  case (Cons r rs)
  then show ?case by (cases r; cases l) (simp_all add: Let_def case_prod_beta)
qed simp

lemma split_entry:
  assumes "ch \<noteq> []" "colon \<notin> set ch"
  shows "protocol_split (''SUBSCRIBE:'' @ ch) colon = [''SUBSCRIBE'', ch]"
    "protocol_split (''UNSUBSCRIBE:'' @ ch) colon = [''UNSUBSCRIBE'', ch]"
  using assms split_on_delim [of colon "''SUBSCRIBE''" ch] split_on_delim [of colon "''UNSUBSCRIBE''" ch]
  by (simp_all add: protocol_split_def split_on_no_delim)

lemma receipt_acknowledged:
  assumes "receiptToOriginalMsg (con p) r = Some (request_entry q)" "int_min \<le> r" "r \<le> int_max"
    and "request_channel q \<noteq> []" "colon \<notin> set (request_channel q)"
  shows "processServerMessage (receipt_text r) p = Inr (([], ack_text q), p)"
proof -
  have "acknowledge (protocol_split (request_entry q) colon) = Inr ([], ack_text q)"
    using assms(4,5) by (cases q) (simp_all add: split_entry [simplified] acknowledge_def)
  with assms(1-3) show ?thesis
    by (simp add: processServerMessage_def receipt_frame processReceipt_eq stoi_to_string)
qed

lemma processServerMessage_result:
  assumes "processServerMessage m p = Inr ((ret, out), p')"
  shows "p' = p \<and> (ret = [] \<or> ret = ''DISCONNECT'' \<and>
    (\<exists>r req. receiptToOriginalMsg (con p) r = Some req \<and> hd (protocol_split req colon) = ''DISCONNECT''))"
proof -
  from assms obtain f where f: "new_frame m = Inr f"
    by (auto simp: processServerMessage_def rbind_eq_Inr)
  consider "p' = p" "ret = []"
    | fm where "processReceipt fm p = Inr ((ret, out), p')"
    using assms f by (auto simp: processServerMessage_def case_prod_beta split: if_splits)
  then show ?thesis
  proof cases
    case 2
    then obtain r req where "receiptToOriginalMsg (con p) r = Some req" "p' = p"
      "acknowledge (protocol_split req colon) = Inr (ret, out)"
      by (auto simp: processReceipt_eq rbind_eq_Inr split: option.splits)
    moreover from this(3) have "ret = [] \<or> ret = ''DISCONNECT'' \<and> hd (protocol_split req colon) = ''DISCONNECT''"
      by (cases "protocol_split req colon") (auto simp: acknowledge_def rbind_eq_Inr split: if_splits)
    ultimately show ?thesis by blast
  qed simp
qed

section \<open>Properties\<close>

text \<open>
  C19: Requests and acknowledgements match up: after any sequence of join and exit commands in
  order from a fresh client, the server's receipt for the k-th request prints that the client
  joined or exited exactly the channel of the k-th request, and changes nothing, whenever the name
  of this channel is not empty and has no colon (the parser cuts it there); receipts may come in
  any order and any number of times.
\<close>

theorem receipts_match_requests:
  assumes "in_order rs []" "int (length rs) \<le> int_max" "k < length rs"
    and "colon \<notin> set (request_channel (rs ! k))" "request_channel (rs ! k) \<noteq> []"
  shows "\<exists>frames p'. run_lines (map request_line rs) (new_protocol h pt s) = Inr (frames, p') \<and>
    processServerMessage (receipt_text (int k)) p' = Inr (([], ack_text (rs ! k)), p')"
proof -
  obtain p' where p': "run_lines (map request_line rs) (new_protocol h pt s) =
      Inr (fst (spec_run rs ([], [])), p')"
    "session_log p' (fst (snd (spec_run rs ([], [])))) (snd (snd (spec_run rs ([], []))))"
    using run_lines_refines [of "new_protocol h pt s" "([], [])" rs] assms(1,2)
    by (auto simp: session_log_new)
  then have "receiptToOriginalMsg (con p') (int k) = Some (request_entry (rs ! k))"
    using assms(3) by (simp add: session_log_receipt [OF p'(2)] spec_run_requests)
  moreover have "int_min \<le> int k" "int k \<le> int_max"
    using assms(2,3) by (simp_all add: int_min_def int_max_def)
  ultimately have "processServerMessage (receipt_text (int k)) p' = Inr (([], ack_text (rs ! k)), p')"
    using assms(4,5) by (intro receipt_acknowledged)
  with p'(1) show ?thesis by blast
qed

theorem receipts_match_requests_witness:
  "\<exists>frames p'. run_lines (map request_line [Join ''a_b'', Leave ''a_b'']) (new_protocol ''h'' 7777 ()) =
      Inr (frames, p') \<and>
    processServerMessage (receipt_text (int 1)) p' =
      Inr (([], ack_text ([Join ''a_b'', Leave ''a_b''] ! 1)), p')"
  by (rule receipts_match_requests) (simp_all add: log_join_def int_max_def)

text \<open>
  A receipt for a request that was never made is undefined behaviour, a receipt frame
  without its header makes \<open>std::stoi\<close> throw, and so does one whose number does not fit an
  \<open>int\<close>: the client trusts the server's numbers.
\<close>

theorem bad_receipts_fail:
  assumes "session_log p chs reqs"
  shows "(int_min \<le> r \<and> r \<le> int_max \<and> \<not> (0 \<le> r \<and> r < int (length reqs)) \<longrightarrow>
      processServerMessage (receipt_text r) p = Inl Undefined_Behaviour) \<and>
    processServerMessage (head_text ''RECEIPT'' []) p = Inl Invalid_Argument \<and>
    processServerMessage (receipt_text (int_max + 1)) p = Inl Out_Of_Range"
proof (intro conjI impI)
  assume r: "int_min \<le> r \<and> r \<le> int_max \<and> \<not> (0 \<le> r \<and> r < int (length reqs))"
  then have "receiptToOriginalMsg (con p) r = None"
    using session_log_receipt [OF assms, of r] by (cases "receiptToOriginalMsg (con p) r") auto
  with r show "processServerMessage (receipt_text r) p = Inl Undefined_Behaviour"
    by (simp add: processServerMessage_def receipt_frame stoi_to_string processReceipt_eq)
next
  have "stoi [] = Inl Invalid_Argument" by (simp add: stoi_def)
  then show "processServerMessage (head_text ''RECEIPT'' []) p = Inl Invalid_Argument"
    using new_frame_head [OF wf_receipt(1), of "[]"]
    by (simp add: processServerMessage_def parsed_headers_def headers_map_def processReceipt_eq)
next
  show "processServerMessage (receipt_text (int_max + 1)) p = Inl Out_Of_Range"
    by (simp add: processServerMessage_def receipt_frame stoi_to_string processReceipt_eq int_min_def int_max_def)
qed

theorem bad_receipts_fail_witness:
  "processServerMessage (receipt_text 5) (new_protocol ''h'' 7777 ()) = Inl Undefined_Behaviour"
  using bad_receipts_fail [OF session_log_new, of 5 "''h''" 7777 "()"]
  by (simp add: int_min_def int_max_def)

text \<open>
  Every accepted message that is no receipt leaves the client as it is: a CONNECTED frame is
  announced to the user, and of all others, the reports and errors of the server included,
  nothing is shown and nothing is kept.
\<close>

theorem other_messages_ignored:
  assumes "new_frame m = Inr f" "frame_map f ''StompCommand'' = Some cmd" "cmd \<noteq> ''RECEIPT''"
  shows "processServerMessage m p =
    Inr (([], if cmd = ''CONNECTED'' then ''login successful'' @ [newline, newline] else []), p)"
  using assms by (simp add: processServerMessage_def Let_def)

end
