(* ===== verification/Reports.thy ===== *)
theory Reports
  imports Requests
begin

text \<open>
  The two commands about game events: the SEND frame of a report, and the summary of a game
  (\<open>StompProtocol::handleSummary\<close>), which the code computes and then drops.
\<close>

section \<open>What a report frame contains\<close>

text \<open>A reference definition of the body: one line per statistic that is shown.\<close>

definition stat_line :: "string \<Rightarrow> string \<Rightarrow> string" where
  "stat_line key v = ''   '' @ key @ '': '' @ v @ [newline]"

definition shown :: "(string \<rightharpoonup> string) \<Rightarrow> string \<Rightarrow> string" where
  "shown m key = (case m key of None \<Rightarrow> [] | Some v \<Rightarrow> stat_line key v)"

definition shown_from :: "(string \<rightharpoonup> string) \<Rightarrow> (string \<rightharpoonup> string) \<Rightarrow> string \<Rightarrow> string" where
  "shown_from m source key =
     (if m key = None then [] else stat_line key (case source key of None \<Rightarrow> [] | Some v \<Rightarrow> v))"

definition report_body :: "string \<Rightarrow> event \<Rightarrow> string" where
  "report_body user e =
     ''user: '' @ user @ [newline] @
     ''team a: '' @ team_a_name e @ [newline] @
     ''team b: '' @ team_b_name e @ [newline] @
     ''event name: '' @ ev_name e @ [newline] @
     ''time: '' @ to_string (ev_time e) @ [newline] @
     ''general game updates: '' @ [newline] @
       shown (game_updates e) ''active'' @ shown (game_updates e) ''before halftime'' @
     ''team a updates:'' @ [newline] @
       shown_from (team_a_updates e) (game_updates e) ''goals'' @ shown (game_updates e) ''possession'' @
     ''team b updates:'' @ [newline] @
       shown_from (team_b_updates e) (game_updates e) ''goals'' @ shown (game_updates e) ''possession'' @
     ''description: '' @ [newline] @ description e @ [newline] @ ''^@''"

text \<open>Each block of the code appends one shown line and may enter a default for the goals.\<close>

definition read_goals :: "(string \<rightharpoonup> string) \<Rightarrow> (string \<rightharpoonup> string) \<Rightarrow> (string \<rightharpoonup> string)" where
  "read_goals m gu = (if m ''goals'' = None then gu else snd (map_index [] gu ''goals''))"

lemma shown_blocks:
  "(if gu ''active'' \<noteq> None then
      let (v, gu) = map_index [] gu ''active'' in (r @ ''   active: '' @ v @ [newline], gu)
    else (r, gu)) = (r @ shown gu ''active'', gu)"
  "(if gu ''before halftime'' \<noteq> None then
      let (v, gu) = map_index [] gu ''before halftime'' in (r @ ''   before halftime: '' @ v @ [newline], gu)
    else (r, gu)) = (r @ shown gu ''before halftime'', gu)"
  "(if gu ''possession'' \<noteq> None then
      let (v, gu) = map_index [] gu ''possession'' in (r @ ''   possession: '' @ v @ [newline], gu)
    else (r, gu)) = (r @ shown gu ''possession'', gu)"
  "(if m ''goals'' \<noteq> None then
      let (v, gu) = map_index [] gu ''goals'' in (r @ ''   goals: '' @ v @ [newline], gu)
    else (r, gu)) = (r @ shown_from m gu ''goals'', read_goals m gu)"
  by (auto simp: shown_def shown_from_def stat_line_def read_goals_def map_index_def split: option.splits)

lemma read_goals_shown:
  "shown (read_goals m gu) ''possession'' = shown gu ''possession''"
  "shown_from m' (read_goals m gu) ''goals'' = shown_from m' gu ''goals''"
  by (auto simp: shown_def shown_from_def read_goals_def map_index_def split: option.splits)

lemma processEvent_text:
  "processEvent e p = render_frame ''SEND'' [(''destination'', CHR ''/'' # game_name e)]
     (report_body (username (con p)) e)"
  unfolding processEvent_def Let_def shown_blocks [unfolded Let_def] prod.case
  by (simp add: read_goals_shown report_body_def render_frame_def header_line_def game_name_def)

lemma report_header_wf:
  assumes "newline \<notin> set (game_name e)" "length (game_name e) < 2 ^ 30"
  shows "list_all wf_header [(''destination'', CHR ''/'' # game_name e)]"
  using assms by (simp add: wf_header_def short_line_def header_line_def int_max_def)

section \<open>When a summary is defined\<close>

lemma summary_events_eq:
  "summary_events es message =
     (if \<forall>e \<in> set es. ev_time e = 0 \<or> ev_time e = 1
      then Inr (message @ concat (map (\<lambda>e. drop (nat (ev_time e)) ''-'' @ ev_name e @ [newline, newline] @
        description e @ [newline, newline]) es))
      else Inl Undefined_Behaviour)"
proof (induction es arbitrary: message)
  case Nil
  then show ?case by simp
next
  case (Cons e es)
  have "lit_plus ''-'' (ev_time e) =
      (if ev_time e = 0 \<or> ev_time e = 1 then Inr (drop (nat (ev_time e)) ''-'')
       else Inl Undefined_Behaviour)"
    by (auto simp: lit_plus_eq)
  with Cons show ?case by simp
qed

definition summary_args_ok :: "string list \<Rightarrow> bool" where
  "summary_args_ok seglist \<longleftrightarrow>
     3 < length seglist \<and> 1 < length (protocol_split (seglist ! 1) (CHR ''_''))"

definition summary_events_of :: "string list \<Rightarrow> games \<Rightarrow> event list" where
  "summary_events_of seglist g =
     (let words = protocol_split (seglist ! 1) (CHR ''_'') in
      stored_events g (seglist ! 2) (words ! 0 @ ''_'' @ words ! 1))"

lemma rbind_unit: "rbind m (\<lambda>x. Inr ()) = (case m of Inl e \<Rightarrow> Inl e | Inr x \<Rightarrow> Inr ())"
  by (simp add: rbind_def)

lemma handleSummary_eq:
  "handleSummary seglist g =
     (if summary_args_ok seglist \<and> (\<forall>e \<in> set (summary_events_of seglist g). ev_time e = 0 \<or> ev_time e = 1)
      then Inr () else Inl Undefined_Behaviour)"
proof (cases "summary_args_ok seglist")
  case False
  then show ?thesis
    by (auto simp: handleSummary_def summary_message_def summary_args_ok_def vec_at_def Let_def rbind_def)
next
  case True
  then have len: "0 < length seglist" "1 < length seglist" "2 < length seglist" "3 < length seglist"
    "0 < length (protocol_split (seglist ! 1) (CHR ''_''))"
    "1 < length (protocol_split (seglist ! 1) (CHR ''_''))"
    by (auto simp: summary_args_ok_def simp del: length_greater_0_conv)
  obtain a b where gen: "summary_general (summary_events_of seglist g) = (a, b)" by fastforce
  obtain c d x y where teams: "summary_teams (summary_events_of seglist g) = (c, d, x, y)"
    by (metis prod_cases4)
  from len gen teams show ?thesis
    by (simp add: handleSummary_def summary_message_def summary_args_ok_def vec_at_def Let_def
        summary_events_of_def lit_plus_eq summary_events_eq rbind_unit del: length_greater_0_conv)
qed

section \<open>Properties\<close>

text \<open>
  A report does not carry the team statistics: two events that differ only in the values of
  their team updates, with goals present in both or in neither, are reported by the same text,
  because goals and possession are looked up in the general game updates.
\<close>

theorem report_ignores_team_values:
  assumes "e' = e\<lparr>team_a_updates := au, team_b_updates := bu\<rparr>"
    and "(au ''goals'' = None) = (team_a_updates e ''goals'' = None)"
    and "(bu ''goals'' = None) = (team_b_updates e ''goals'' = None)"
  shows "processEvent e' p = processEvent e p"
  using assms by (simp add: processEvent_text report_body_def shown_from_def game_name_def)

theorem report_ignores_team_values_witness:
  "processEvent (new_event ''a'' ''b'' ''goal'' 60 Map.empty [''goals'' \<mapsto> ''1'', ''possession'' \<mapsto> ''90%''] Map.empty [])
      (new_protocol ''h'' 7777 ()) =
   processEvent (new_event ''a'' ''b'' ''goal'' 60 Map.empty [''goals'' \<mapsto> ''7''] Map.empty [])
      (new_protocol ''h'' 7777 ())"
  by (rule report_ignores_team_values
      [where au = "[''goals'' \<mapsto> ''1'', ''possession'' \<mapsto> ''90%'']" and bu = Map.empty])
     (simp_all add: new_event_def)

text \<open>
  A report survives the client's own parser: for team names without a newline (and not gigabytes long) the frame is
  accepted, its destination is the channel of the game up to a colon, and its body is the report.
\<close>

theorem report_parses:
  assumes "newline \<notin> set (game_name e)" "length (game_name e) < 2 ^ 30"
  shows "\<exists>f. new_frame (processEvent e p) = Inr f \<and>
    frame_map f ''StompCommand'' = Some ''SEND'' \<and>
    frame_map f ''destination'' = Some (''/'' @ header_value (game_name e)) \<and>
    frame_map f ''FrameBody'' = Some (report_body (username (con p)) e)"
proof -
  have "report_body u e \<noteq> []" for u by (simp add: report_body_def)
  moreover have "header_value (CHR ''/'' # game_name e) = CHR ''/'' # header_value (game_name e)"
    by (simp add: header_value_def)
  ultimately show ?thesis
    using new_frame_render [OF _ report_header_wf [OF assms], of "''SEND''"]
    by (simp add: wf_command_def short_line_def int_max_def processEvent_text parsed_headers_def headers_map_def map_insert_apply)
qed

text \<open>
  C29: A summary command either has no effect at all or is undefined: it is defined exactly when
  it has its three arguments, its game name is split at underscores into two or more pieces, and
  every remembered event of the user and game has the time 0 or 1, since the time is used as an
  offset into a one-character literal.
\<close>

theorem summary_defined_iff:
  "handleSummary seglist g =
     (if 3 < length seglist \<and> 1 < length (protocol_split (seglist ! 1) (CHR ''_'')) \<and>
         (\<forall>e \<in> set (summary_events_of seglist g). ev_time e = 0 \<or> ev_time e = 1)
      then Inr () else Inl Undefined_Behaviour)"
  by (simp add: handleSummary_eq summary_args_ok_def)

theorem summary_defined_iff_witness:
  "handleSummary [''summary'', ''a_b'', ''meni'', ''out''] new_games = Inr () \<and>
    handleSummary [''summary'', ''a_b'', ''meni'', ''out''] (MapEventToGame ''meni''
      (new_event ''a'' ''b'' ''goal'' 60 Map.empty Map.empty Map.empty []) new_games) = Inl Undefined_Behaviour"
proof -
  have words: "protocol_split ''a_b'' (CHR ''_'') = [''a'', ''b'']"
    using split_on_delim [of "CHR ''_''" "''a''" "''b''"]
    by (simp add: protocol_split_def split_on_no_delim)
  show ?thesis
    using summary_defined_iff [of "[''summary'', ''a_b'', ''meni'', ''out'']"]
    by (simp add: words summary_events_of_def stored_events_eq MapEventToGame_entry new_games_def
        new_event_def game_name_def numeral_eq_Suc)
qed

end
