(* ===== verification/ClientLoops.thy ===== *)
theory ClientLoops
  imports ServerMessages Reports
begin

text \<open>
  The two reading loops of \<open>StompProtocol\<close>: commands from the keyboard, frames from the socket.
  A process is the protocol object together with the keyboard stream and the text printed so
  far. The event file parser is a parameter here; client/src/event.cpp provides it.
\<close>

section \<open>Processes and how a loop ends\<close>

record 's process =
  protocol :: "'s stomp_protocol"
  cin :: istream
  cout :: string

text \<open>
  A loop returns, or the process dies of a failure; \<open>Crashed\<close> keeps the process as it was at
  the failing statement. One turn of a loop goes on or ends it.
\<close>

datatype 'p outcome = Returned 'p | Crashed cpp_error 'p

datatype 'p turn = Again 'p | Ended "'p outcome"

definition print :: "string \<Rightarrow> 's process \<Rightarrow> 's process" where
  "print text w = w\<lparr>cout := cout w @ text @ [newline]\<rparr>"

definition the_socket :: "'s process \<Rightarrow> 's" where
  "the_socket w = socket (handler (protocol w))"

definition set_socket :: "'s \<Rightarrow> 's process \<Rightarrow> 's process" where
  "set_socket s w = w\<lparr>protocol := (protocol w)\<lparr>handler := (handler (protocol w))\<lparr>socket := s\<rparr>\<rparr>\<rparr>"

definition disconnected_text :: string where
  "disconnected_text = ''Disconnected. Exiting...'' @ [newline]"

section \<open>Commands from the keyboard\<close>

text \<open>
  The loop over the events of a report: only events of a subscribed game are recorded and sent,
  and a failed send leaves this loop but not the loop around it.
\<close>

fun report_events :: "'s socket_ops \<Rightarrow> event list \<Rightarrow> 's process \<Rightarrow> 's process option" where
  "report_events ops [] w = Some w"
| "report_events ops (e # es) w =
     (let p = protocol w; gamename = get_team_a_name e @ ''_'' @ get_team_b_name e in
      if channeltoUniqueID (con p) gamename \<noteq> None then
        let p = p\<lparr>game := MapEventToGame (username (con p)) e (game p)\<rparr>;
            msg = processEvent e p;
            w = w\<lparr>protocol := p\<rparr>
        in do {
             (ok, s) \<leftarrow> sendFrameAscii ops msg nul (the_socket w);
             if \<not> ok then Some (print disconnected_text (set_socket s w))
             else report_events ops es (set_socket s w)
           }
      else report_events ops es w)"

definition keyboard_command ::
    "'s socket_ops \<Rightarrow> (string \<Rightarrow> names_and_events result) \<Rightarrow> string \<Rightarrow> string list \<Rightarrow> 's process \<Rightarrow>
     's process turn option" where
  "keyboard_command ops parseEventsFile line seglist w =
     (if hd seglist = ''report'' then
        (case rbind (vec_at seglist 1) parseEventsFile of
           Inl e \<Rightarrow> Some (Ended (Crashed e w))
         | Inr afterParse \<Rightarrow> do { w \<leftarrow> report_events ops (ne_events afterParse) w; Some (Again w) })
      else if hd seglist = ''summary'' then
        (case handleSummary seglist (game (protocol w)) of
           Inl e \<Rightarrow> Some (Ended (Crashed e w))
         | Inr _ \<Rightarrow> Some (Again w))
      else
        (case processKeyboard line (protocol w) of
           Inl e \<Rightarrow> Some (Ended (Crashed e w))
         | Inr (msg, p) \<Rightarrow>
             let w = w\<lparr>protocol := p\<rparr> in
             do {
               (ok, s) \<leftarrow> sendFrameAscii ops msg nul (the_socket w);
               if \<not> ok then Some (Ended (Returned (print disconnected_text (set_socket s w))))
               else Some (Again (set_socket s w))
             }))"

definition already_text :: string where
  "already_text = ''Client already logged in, log out before trying again'' @ [newline]"

definition keyboard_turn ::
    "'s socket_ops \<Rightarrow> (string \<Rightarrow> names_and_events result) \<Rightarrow> 's process \<Rightarrow> 's process turn option" where
  "keyboard_turn ops parseEventsFile w =
     (let (buf, stream) = cin_getline 1024 (cin w);
          w = w\<lparr>cin := stream\<rparr>;
          line = string_of_buf buf;
          seglist = protocol_split line (CHR '' '')
      in case vec_at seglist 0 of
           Inl e \<Rightarrow> Some (Ended (Crashed e w))
         | Inr word \<Rightarrow>
             if word = ''login'' \<or> login (protocol w) then
               let w = (if word = ''login'' \<and> login (protocol w) then print already_text w
                        else w\<lparr>protocol := (protocol w)\<lparr>login := True\<rparr>\<rparr>)
               in keyboard_command ops parseEventsFile line seglist w
             else Some (Again w))"

partial_function (option) keyboard_loop ::
    "'s socket_ops \<Rightarrow> (string \<Rightarrow> names_and_events result) \<Rightarrow> 's process \<Rightarrow> 's process outcome option" where
  "keyboard_loop ops parseEventsFile w =
     do {
       t \<leftarrow> keyboard_turn ops parseEventsFile w;
       case t of
         Again w' \<Rightarrow> keyboard_loop ops parseEventsFile w'
       | Ended r \<Rightarrow> Some r
     }"

definition ReadfromKeyboard ::
    "'s socket_ops \<Rightarrow> (string \<Rightarrow> names_and_events result) \<Rightarrow> 's process \<Rightarrow> 's process outcome option" where
  "ReadfromKeyboard ops parseEventsFile w =
     keyboard_loop ops parseEventsFile (w\<lparr>protocol := (protocol w)\<lparr>login := False\<rparr>\<rparr>)"

section \<open>Frames from the socket\<close>

text \<open>
  \<open>answer.resize(len-1)\<close> cuts the last character, the length being converted to an \<open>int\<close>; for an
  empty frame, and for one whose length is a negative \<open>int\<close>, \<open>len-1\<close> becomes a size beyond
  the largest, for which \<open>resize\<close> throws.
\<close>

definition resize_answer :: "string \<Rightarrow> string result" where
  "resize_answer answer =
     (let len = to_int32 (int (length answer)) in
      if len = int_min then Inl Undefined_Behaviour
      else if len - 1 < 0 then Inl Length_Error
      else Inr (take (nat (len - 1)) answer))"

lemma resize_answer_Nil [simp]: "resize_answer [] = Inl Length_Error"
  by (simp add: resize_answer_def int_min_def int_max_def)

lemma resize_answer_snoc:
  assumes "length m < 2 ^ 31 - 1"
  shows "resize_answer (m @ [c]) = Inr m"
proof -
  have "to_int32 (int (length (m @ [c]))) = int (length m) + 1"
    using assms by (simp add: int_min_def int_max_def)
  then show ?thesis by (simp add: resize_answer_def int_min_def)
qed

definition socket_turn :: "'s socket_ops \<Rightarrow> 's process \<Rightarrow> 's process turn option" where
  "socket_turn ops w =
     do {
       ((ok, answer), s) \<leftarrow> getFrameAscii ops nul [] (the_socket w);
       let w = set_socket s w;
       if \<not> ok then Some (Ended (Returned (print disconnected_text w)))
       else
         (case rbind (resize_answer answer) (\<lambda>answer. processServerMessage answer (protocol w)) of
            Inl e \<Rightarrow> Some (Ended (Crashed e w))
          | Inr ((ret, out), p) \<Rightarrow>
              let w = w\<lparr>protocol := p, cout := cout w @ out\<rparr> in
              if ret = ''DISCONNECT'' then
                let (printed, h) = close ops (handler (protocol w));
                    w = w\<lparr>protocol := (protocol w)\<lparr>handler := h\<rparr>, cout := cout w @ printed\<rparr>
                in Some (Ended (Returned (print (''Exiting...'' @ [newline]) w)))
              else Some (Again w))
     }"

partial_function (option) ReadfromSocket :: "'s socket_ops \<Rightarrow> 's process \<Rightarrow> 's process outcome option" where
  "ReadfromSocket ops w =
     do {
       t \<leftarrow> socket_turn ops w;
       case t of
         Again w' \<Rightarrow> ReadfromSocket ops w'
       | Ended r \<Rightarrow> Some r
     }"

section \<open>Basic facts\<close>

lemma the_socket_set [simp]: "the_socket (set_socket s w) = s"
  by (simp add: the_socket_def set_socket_def)

lemma set_socket_fields [simp]:
  "cin (set_socket s w) = cin w" "cout (set_socket s w) = cout w"
  "con (protocol (set_socket s w)) = con (protocol w)"
  "game (protocol (set_socket s w)) = game (protocol w)"
  "login (protocol (set_socket s w)) = login (protocol w)"
  "proto_id (protocol (set_socket s w)) = proto_id (protocol w)"
  "recipt (protocol (set_socket s w)) = recipt (protocol w)"
  by (simp_all add: set_socket_def)

lemma print_fields [simp]:
  "cin (print t w) = cin w" "protocol (print t w) = protocol w" "the_socket (print t w) = the_socket w"
  "cout (print t w) = cout w @ t @ [newline]"
  by (simp_all add: print_def the_socket_def)

lemma vec_at_hd: "xs \<noteq> [] \<Longrightarrow> vec_at xs 0 = Inr (hd xs)"
  by (cases xs) simp_all

text \<open>One line of input, as the keyboard loop sees it.\<close>

definition typed :: "string \<Rightarrow> string \<Rightarrow> istream" where
  "typed line later = \<lparr>rest = line @ newline # later, good = True\<rparr>"

definition a_line :: "string \<Rightarrow> bool" where
  "a_line l \<longleftrightarrow> l \<noteq> [] \<and> newline \<notin> set l \<and> nul \<notin> set l \<and> length l < 1024"

abbreviation words_of :: "string \<Rightarrow> string list" where
  "words_of l \<equiv> protocol_split l (CHR '' '')"

lemma words_of_not_Nil [simp]: "l \<noteq> [] \<Longrightarrow> words_of l \<noteq> []"
  by (simp add: protocol_split_def)

lemma keyboard_turn_line:
  assumes "a_line l" "cin w = typed l later"
  shows "keyboard_turn ops parse w =
    (let w1 = w\<lparr>cin := \<lparr>rest = later, good = True\<rparr>\<rparr>; word = hd (words_of l) in
     if word = ''login'' \<or> login (protocol w) then
       keyboard_command ops parse l (words_of l)
         (if word = ''login'' \<and> login (protocol w) then print already_text w1
          else w1\<lparr>protocol := (protocol w)\<lparr>login := True\<rparr>\<rparr>)
     else Some (Again w1))"
  using assms
  by (simp add: keyboard_turn_def typed_def a_line_def cin_getline_line vec_at_hd Let_def)

lemma keyboard_turn_no_words:
  assumes "string_of_buf (fst (cin_getline 1024 (cin w))) = []"
  shows "keyboard_turn ops parse w =
    Some (Ended (Crashed Undefined_Behaviour (w\<lparr>cin := snd (cin_getline 1024 (cin w))\<rparr>)))"
  using assms by (simp add: keyboard_turn_def case_prod_beta protocol_split_def Let_def)

section \<open>Before the login\<close>

lemma keyboard_turn_locked:
  assumes "a_line l" "cin w = typed l later" "\<not> login (protocol w)" "hd (words_of l) \<noteq> ''login''"
  shows "keyboard_turn ops parse w = Some (Again (w\<lparr>cin := \<lparr>rest = later, good = True\<rparr>\<rparr>))"
  using keyboard_turn_line [OF assms(1,2), of ops parse] assms(3,4) by (simp add: Let_def)

lemma keyboard_loop_locked:
  assumes "\<forall>l \<in> set ls. a_line l \<and> hd (words_of l) \<noteq> ''login''" "\<not> login (protocol w)"
    and "cin w = \<lparr>rest = concat (map (\<lambda>l. l @ [newline]) ls), good = True\<rparr>"
  shows "keyboard_loop ops parse w =
    Some (Crashed Undefined_Behaviour (w\<lparr>cin := \<lparr>rest = [], good = False\<rparr>\<rparr>))"
  using assms
proof (induction ls arbitrary: w)
  case Nil
  then have "cin_getline 1024 (cin w) = ([], \<lparr>rest = [], good = False\<rparr>)"
    by (simp add: cin_getline_def)
  then show ?case
    using keyboard_turn_no_words [of w ops parse]
    by (subst keyboard_loop.simps) (simp add: string_of_buf_def)
next
  case (Cons l ls)
  let ?later = "concat (map (\<lambda>l. l @ [newline]) ls)"
  have "keyboard_turn ops parse w = Some (Again (w\<lparr>cin := \<lparr>rest = ?later, good = True\<rparr>\<rparr>))"
    using Cons.prems by (intro keyboard_turn_locked [of l w ?later]) (simp_all add: typed_def)
  moreover have "keyboard_loop ops parse (w\<lparr>cin := \<lparr>rest = ?later, good = True\<rparr>\<rparr>) =
      Some (Crashed Undefined_Behaviour (w\<lparr>cin := \<lparr>rest = [], good = False\<rparr>\<rparr>))"
    using Cons.IH [of "w\<lparr>cin := \<lparr>rest = ?later, good = True\<rparr>\<rparr>"] Cons.prems by simp
  ultimately show ?case by (subst keyboard_loop.simps) simp
qed

section \<open>The loops over any connection\<close>

context tcp_socket begin

lemma report_events_returns:
  "\<exists>w'. report_events ops es w = Some w' \<and> cin w' = cin w"
proof (induction es arbitrary: w)
  case Nil
  then show ?case by simp
next
  case (Cons e es)
  let ?w1 = "w\<lparr>protocol := (protocol w)\<lparr>game := MapEventToGame (username (con (protocol w))) e (game (protocol w))\<rparr>\<rparr>"
  obtain ok s' where "sendFrameAscii ops (processEvent e (protocol ?w1)) nul (the_socket ?w1) = Some (ok, s')"
    using sendFrameAscii_returns by metis
  with Cons.IH [of "set_socket s' ?w1"] Cons.IH [of w] show ?case
    by (cases ok) (simp_all add: Let_def)
qed

lemma keyboard_command_returns:
  "\<exists>t. keyboard_command ops parse line seglist w = Some t \<and> (\<forall>w'. t = Again w' \<longrightarrow> cin w' = cin w)"
proof -
  consider "hd seglist = ''report''" | "hd seglist = ''summary''"
    | "hd seglist \<noteq> ''report''" "hd seglist \<noteq> ''summary''" by blast
  then show ?thesis
  proof cases
    case 1
    show ?thesis
    proof (cases "rbind (vec_at seglist 1) parse")
      case (Inr ne)
      obtain w' where "report_events ops (ne_events ne) w = Some w'" "cin w' = cin w"
        using report_events_returns by blast
      with 1 Inr show ?thesis by (simp add: keyboard_command_def)
    qed (use 1 in \<open>simp add: keyboard_command_def\<close>)
  next
    case 2
    then show ?thesis
      by (cases "handleSummary seglist (game (protocol w))") (simp_all add: keyboard_command_def)
  next
    case 3
    show ?thesis
    proof (cases "processKeyboard line (protocol w)")
      case (Inr r)
      obtain msg p where "r = (msg, p)" by (cases r)
      moreover obtain ok s' where "sendFrameAscii ops msg nul (the_socket (w\<lparr>protocol := p\<rparr>)) = Some (ok, s')"
        using sendFrameAscii_returns by metis
      ultimately show ?thesis using 3 Inr by (cases ok) (simp_all add: keyboard_command_def Let_def)
    qed (use 3 in \<open>simp add: keyboard_command_def\<close>)
  qed
qed

lemma keyboard_turn_returns:
  "\<exists>t. keyboard_turn ops parse w = Some t \<and>
    (\<forall>w'. t = Again w' \<longrightarrow> istream_size (cin w') < istream_size (cin w))"
proof (cases "string_of_buf (fst (cin_getline 1024 (cin w))) = []")
  case True
  from keyboard_turn_no_words [OF this] show ?thesis by simp
next
  case False
  obtain buf stream where g: "cin_getline 1024 (cin w) = (buf, stream)" by fastforce
  with False have "good (cin w)" by (cases "good (cin w)") (auto simp: string_of_buf_def)
  with g have smaller: "istream_size stream < istream_size (cin w)"
    by (rule cin_getline_shrinks) simp
  let ?line = "string_of_buf buf"
  have "vec_at (words_of ?line) 0 = Inr (hd (words_of ?line))"
    using False g by (simp add: vec_at_hd)
  moreover have "\<exists>t. keyboard_command ops parse ?line (words_of ?line) w1 = Some t \<and>
      (\<forall>w'. t = Again w' \<longrightarrow> istream_size (cin w') < istream_size (cin w))" if "cin w1 = stream" for w1
    using keyboard_command_returns [of parse ?line "words_of ?line" w1] smaller that by auto
  ultimately show ?thesis using smaller by (simp add: keyboard_turn_def g Let_def)
qed

lemma keyboard_loop_returns: "\<exists>r. keyboard_loop ops parse w = Some r"
proof (induction "istream_size (cin w)" arbitrary: w rule: less_induct)
  case less
  obtain t where t: "keyboard_turn ops parse w = Some t"
    "\<And>w'. t = Again w' \<Longrightarrow> istream_size (cin w') < istream_size (cin w)"
    using keyboard_turn_returns by metis
  with less show ?case by (cases t) (subst keyboard_loop.simps, simp)+
qed

lemma socket_turn_returns:
  "\<exists>t. socket_turn ops w = Some t \<and>
    (\<forall>w'. t = Again w' \<longrightarrow> length (incoming (the_socket w')) < length (incoming (the_socket w)))"
proof -
  obtain ok answer s' where get: "getFrameAscii ops nul [] (the_socket w) = Some ((ok, answer), s')"
    "ok \<longrightarrow> length (incoming s') < length (incoming (the_socket w))"
    using getFrameAscii_returns [of nul "[]" "the_socket w"] by auto
  show ?thesis
  proof (cases "ok \<and> (\<exists>x. rbind (resize_answer answer)
      (\<lambda>answer. processServerMessage answer (protocol (set_socket s' w))) = Inr x)")
    case False
    with get show ?thesis
      by (cases "rbind (resize_answer answer) (\<lambda>answer. processServerMessage answer (protocol (set_socket s' w)))")
         (auto simp: socket_turn_def Let_def)
  next
    case True
    then obtain ret out p where r: "rbind (resize_answer answer)
        (\<lambda>answer. processServerMessage answer (protocol (set_socket s' w))) = Inr ((ret, out), p)"
      by auto
    then have "p = protocol (set_socket s' w)"
      by (auto simp: rbind_eq_Inr dest: processServerMessage_result)
    with True get r show ?thesis
      by (auto simp: socket_turn_def Let_def the_socket_def set_socket_def split: prod.split)
  qed
qed

lemma ReadfromSocket_returns: "\<exists>r. ReadfromSocket ops w = Some r"
proof (induction "length (incoming (the_socket w))" arbitrary: w rule: less_induct)
  case less
  obtain t where t: "socket_turn ops w = Some t"
    "\<And>w'. t = Again w' \<Longrightarrow> length (incoming (the_socket w')) < length (incoming (the_socket w))"
    using socket_turn_returns by metis
  with less show ?case by (cases t) (subst ReadfromSocket.simps, simp)+
qed

end

section \<open>The loops over a connection that stays open\<close>

text \<open>The events of a report that are sent: those of a channel with a subscription id.\<close>

definition subscribed :: "connections \<Rightarrow> event list \<Rightarrow> event list" where
  "subscribed c es = filter (\<lambda>e. channeltoUniqueID c (game_name e) \<noteq> None) es"

lemma processEvent_game [simp]: "processEvent e (p\<lparr>game := g\<rparr>) = processEvent e p"
  by (simp add: processEvent_text)

lemma processEvent_socket [simp]: "processEvent e (protocol (set_socket s w)) = processEvent e (protocol w)"
  by (simp add: processEvent_text)

context open_socket begin

lemma report_events_ok:
  assumes "writable (the_socket w)"
  shows "\<exists>w'. report_events ops es w = Some w' \<and> writable (the_socket w') \<and>
    outgoing (the_socket w') = outgoing (the_socket w) @
      concat (map (\<lambda>e. sent_part (processEvent e (protocol w)) @ [nul]) (subscribed (con (protocol w)) es)) \<and>
    game (protocol w') = record_all (map (Pair (username (con (protocol w)))) (subscribed (con (protocol w)) es))
      (game (protocol w)) \<and>
    con (protocol w') = con (protocol w) \<and> login (protocol w') = login (protocol w) \<and>
    cin w' = cin w \<and> cout w' = cout w"
  using assms
proof (induction es arbitrary: w)
  case Nil
  then show ?case by (simp add: subscribed_def record_all_def)
next
  case (Cons e es)
  show ?case
  proof (cases "channeltoUniqueID (con (protocol w)) (game_name e) = None")
    case True
    with Cons.IH [OF Cons.prems] show ?thesis
      by (simp add: subscribed_def game_name_def Let_def)
  next
    case False
    let ?u = "username (con (protocol w))"
    let ?w1 = "w\<lparr>protocol := (protocol w)\<lparr>game := MapEventToGame ?u e (game (protocol w))\<rparr>\<rparr>"
    have sock: "the_socket ?w1 = the_socket w" by (simp add: the_socket_def)
    obtain s' where s': "sendFrameAscii ops (processEvent e (protocol ?w1)) nul (the_socket w) = Some (True, s')"
      "writable s'" "outgoing s' = outgoing (the_socket w) @ sent_part (processEvent e (protocol ?w1)) @ [nul]"
      using sendFrameAscii_ok [OF Cons.prems] by blast
    let ?w2 = "set_socket s' ?w1"
    have step: "report_events ops (e # es) w = report_events ops es ?w2"
      using False s'(1) sock by (auto simp: game_name_def Let_def)
    have kept: "subscribed (con (protocol w)) (e # es) = e # subscribed (con (protocol w)) es"
      using False by (simp add: subscribed_def)
    have rec: "record_all ((?u, e) # rs) g = record_all rs (MapEventToGame ?u e g)" for rs g
      by (simp add: record_all_def)
    from Cons.IH [of ?w2] s'(2) show ?thesis
      unfolding step kept by (simp add: s'(3) rec)
  qed
qed

lemma keyboard_command_sends:
  assumes "writable (the_socket w)" "hd seglist \<noteq> ''report''" "hd seglist \<noteq> ''summary''"
    and "processKeyboard line (protocol w) = Inr (msg, p)"
  shows "\<exists>s'. keyboard_command ops parse line seglist w = Some (Again (set_socket s' (w\<lparr>protocol := p\<rparr>))) \<and>
    writable s' \<and> outgoing s' = outgoing (the_socket w) @ sent_part msg @ [nul] \<and> incoming s' = incoming (the_socket w)"
proof -
  from processKeyboard_untouched [OF assms(4)] have sock: "the_socket (w\<lparr>protocol := p\<rparr>) = the_socket w"
    by (simp add: untouched_def the_socket_def)
  obtain s' where "sendFrameAscii ops msg nul (the_socket w) = Some (True, s')" "writable s'"
    "outgoing s' = outgoing (the_socket w) @ sent_part msg @ [nul]" "incoming s' = incoming (the_socket w)"
    using sendFrameAscii_ok [OF assms(1)] by blast
  with assms(2-4) sock show ?thesis
    by (intro exI [of _ s']) (simp add: keyboard_command_def Let_def)
qed

lemma keyboard_command_open:
  assumes "writable (the_socket w)"
  shows "(\<exists>w'. keyboard_command ops parse line seglist w = Some (Again w') \<and> writable (the_socket w')) \<or>
    (\<exists>e w'. keyboard_command ops parse line seglist w = Some (Ended (Crashed e w')))"
proof -
  consider "hd seglist = ''report''" | "hd seglist = ''summary''"
    | "hd seglist \<noteq> ''report''" "hd seglist \<noteq> ''summary''" by blast
  then show ?thesis
  proof cases
    case 1
    show ?thesis
    proof (cases "rbind (vec_at seglist 1) parse")
      case (Inr ne)
      obtain w' where "report_events ops (ne_events ne) w = Some w'" "writable (the_socket w')"
        using report_events_ok [OF assms] by blast
      with 1 Inr show ?thesis by (simp add: keyboard_command_def)
    qed (use 1 in \<open>simp add: keyboard_command_def\<close>)
  next
    case 2
    with assms show ?thesis
      by (cases "handleSummary seglist (game (protocol w))") (simp_all add: keyboard_command_def)
  next
    case 3
    show ?thesis
    proof (cases "processKeyboard line (protocol w)")
      case (Inr r)
      then show ?thesis
        using keyboard_command_sends [OF assms 3, of line "fst r" "snd r" parse] by auto
    qed (use 3 in \<open>simp add: keyboard_command_def\<close>)
  qed
qed

lemma keyboard_turn_open:
  assumes "writable (the_socket w)"
  shows "(\<exists>w'. keyboard_turn ops parse w = Some (Again w') \<and> writable (the_socket w')) \<or>
    (\<exists>e w'. keyboard_turn ops parse w = Some (Ended (Crashed e w')))"
proof -
  obtain buf stream where g: "cin_getline 1024 (cin w) = (buf, stream)" by fastforce
  let ?line = "string_of_buf buf"
  have sock: "writable (the_socket (w\<lparr>cin := stream\<rparr>))"
    "writable (the_socket (print already_text (w\<lparr>cin := stream\<rparr>)))"
    "writable (the_socket (w\<lparr>cin := stream, protocol := (protocol w)\<lparr>login := True\<rparr>\<rparr>))"
    using assms by (simp_all add: the_socket_def)
  show ?thesis
  proof (cases "?line = []")
    case True
    with keyboard_turn_no_words [of w ops parse] g show ?thesis by simp
  next
    case False
    then have "vec_at (words_of ?line) 0 = Inr (hd (words_of ?line))" by (simp add: vec_at_hd)
    then show ?thesis
      using sock keyboard_command_open [OF sock(2)] keyboard_command_open [OF sock(3)]
      by (simp add: keyboard_turn_def g Let_def)
  qed
qed

lemma keyboard_loop_crashes:
  assumes "writable (the_socket w)"
  shows "\<exists>e w'. keyboard_loop ops parse w = Some (Crashed e w')"
  using assms
proof (induction "istream_size (cin w)" arbitrary: w rule: less_induct)
  case less
  from keyboard_turn_open [OF less.prems, of parse] show ?case
  proof (elim disjE exE conjE)
    fix w' assume t: "keyboard_turn ops parse w = Some (Again w')" and "writable (the_socket w')"
    moreover from t have "istream_size (cin w') < istream_size (cin w)"
      using keyboard_turn_returns [of parse w] by auto
    ultimately have "\<exists>e w''. keyboard_loop ops parse w' = Some (Crashed e w'')" by (intro less.hyps)
    with t show ?thesis by (subst keyboard_loop.simps) simp
  next
    fix e w' assume "keyboard_turn ops parse w = Some (Ended (Crashed e w'))"
    then show ?thesis by (subst keyboard_loop.simps) simp
  qed
qed

end

end
