(* ===== verification/Sessions.thy ===== *)
theory Sessions
  imports ClientLoops
begin

text \<open>
  What the two loops of the client do over whole inputs: the gate before the login, sessions of
  joins and exits, reports, and the stream of the server's frames.
\<close>

section \<open>Keyboard sessions\<close>

definition input_of :: "string list \<Rightarrow> istream" where
  "input_of ls = \<lparr>rest = concat (map (\<lambda>l. l @ [newline]) ls), good = True\<rparr>"

definition end_of_input :: istream where
  "end_of_input = \<lparr>rest = [], good = False\<rparr>"

lemma input_of_Cons: "input_of (l # ls) = typed l (rest (input_of ls))"
  by (simp add: input_of_def typed_def)

lemma rest_input [simp]: "\<lparr>rest = rest (input_of ls), good = True\<rparr> = input_of ls"
  by (simp add: input_of_def)

text \<open>The frames on the wire, each ended by its NUL.\<close>

definition wire_text :: "string list \<Rightarrow> string" where
  "wire_text fs = concat (map (\<lambda>f. f @ [nul]) fs)"

lemma wire_text_simps [simp]:
  "wire_text [] = []" "wire_text (f # fs) = f @ [nul] @ wire_text fs"
  by (simp_all add: wire_text_def)

lemma keyboard_loop_again:
  "keyboard_turn ops parse w = Some (Again w') \<Longrightarrow>
     keyboard_loop ops parse w = keyboard_loop ops parse w'"
  by (subst keyboard_loop.simps) simp

lemma keyboard_loop_end:
  assumes "cin w = input_of []"
  shows "keyboard_loop ops parse w = Some (Crashed Undefined_Behaviour (w\<lparr>cin := end_of_input\<rparr>))"
proof -
  have "cin_getline 1024 (cin w) = ([], end_of_input)"
    using assms by (simp add: cin_getline_def input_of_def end_of_input_def)
  then show ?thesis
    using keyboard_turn_no_words [of w ops parse]
    by (subst keyboard_loop.simps) (simp add: string_of_buf_def)
qed

lemma request_words:
  assumes "in_order (r # rs) chs"
  shows "hd (words_of (request_line r)) \<in> {''join'', ''exit''}"
proof (cases r)
  case (Join ch)
  with assms split_words [of "''join''" ch] show ?thesis by simp
next
  case (Leave ch)
  with assms split_words [of "''exit''" ch] show ?thesis by simp
qed

lemma session_log_set_socket [simp]:
  "session_log (protocol (set_socket s w)) chs reqs = session_log (protocol w) chs reqs"
  by (simp add: set_socket_def)

lemma login_already [simp]:
  "login (protocol w) \<Longrightarrow> w\<lparr>cin := c, protocol := (protocol w)\<lparr>login := True\<rparr>\<rparr> = w\<lparr>cin := c\<rparr>"
  by (cases w, cases "protocol w") simp

text \<open>The frames of typed commands are far shorter than the lengths an \<open>int\<close> can hold.\<close>

lemma index_of_le: "index_of ch chs \<le> length chs"
  by (simp add: index_of_def length_takeWhile_le)

lemma length_spec_frame:
  assumes "a_line (request_line r)" "int (length (fst (spec_step r l))) \<le> int_max"
    and "int (length (snd l)) \<le> int_max"
  shows "length (spec_frame r l) < 2 ^ 31"
proof -
  obtain chs reqs where l: "l = (chs, reqs)" by (cases l)
  have digits: "length (to_string (int k)) \<le> 11" if "int k \<le> int_max" for k
    using length_to_string_int [of "int k"] that by (simp add: int_min_def)
  show ?thesis
  proof (cases r)
    case (Join ch)
    with assms l index_of_le [of ch "log_join ch chs"]
    have "length ch < 1024" "int (index_of ch (log_join ch chs)) \<le> int_max" "int (length reqs) \<le> int_max"
      by (simp_all add: a_line_def)
    with Join l digits [of "index_of ch (log_join ch chs)"] digits [of "length reqs"] show ?thesis
      by (simp add: join_frame_def render_frame_def header_line_def)
  next
    case (Leave ch)
    with assms l index_of_le [of ch chs]
    have "int (index_of ch chs) \<le> int_max" "int (length reqs) \<le> int_max" by simp_all
    with Leave l digits [of "index_of ch chs"] digits [of "length reqs"] show ?thesis
      by (simp add: exit_frame_def render_frame_def header_line_def)
  qed
qed

context open_socket begin

lemma keyboard_turn_sends:
  assumes "writable (the_socket w)" "login (protocol w)" "a_line l" "cin w = typed l later"
    and "hd (words_of l) \<notin> {''login'', ''report'', ''summary''}"
    and "processKeyboard l (protocol w) = Inr (msg, p)" "length msg < 2 ^ 31"
  shows "\<exists>s'. keyboard_turn ops parse w = Some (Again (set_socket s'
        (w\<lparr>cin := \<lparr>rest = later, good = True\<rparr>, protocol := p\<rparr>))) \<and>
    writable s' \<and> outgoing s' = outgoing (the_socket w) @ msg @ [nul] \<and> incoming s' = incoming (the_socket w)"
proof -
  let ?w1 = "w\<lparr>cin := \<lparr>rest = later, good = True\<rparr>\<rparr>"
  have "keyboard_turn ops parse w = keyboard_command ops parse l (words_of l) ?w1"
    using keyboard_turn_line [OF assms(3,4), of ops parse] assms(2,5) by (simp add: Let_def)
  moreover have "the_socket ?w1 = the_socket w" by (simp add: the_socket_def)
  ultimately show ?thesis
    using keyboard_command_sends [of ?w1 "words_of l" l msg p parse] assms(1,5,6) sent_part_all [OF assms(7)] by simp
qed

lemma keyboard_requests:
  assumes "session_log (protocol w) (fst l) (snd l)" "in_order rs (fst l)"
    and "int (length (fst l) + length rs) \<le> int_max" "int (length (snd l) + length rs) \<le> int_max"
    and "\<forall>r \<in> set rs. a_line (request_line r)" "cin w = input_of (map request_line rs)"
    and "writable (the_socket w)" "login (protocol w)"
  shows "\<exists>w'. keyboard_loop ops parse w = Some (Crashed Undefined_Behaviour w') \<and>
    outgoing (the_socket w') = outgoing (the_socket w) @ wire_text (fst (spec_run rs l)) \<and>
    session_log (protocol w') (fst (snd (spec_run rs l))) (snd (snd (spec_run rs l))) \<and>
    cout w' = cout w"
  using assms
proof (induction rs arbitrary: w l)
  case Nil
  then show ?case
    using keyboard_loop_end [of w ops parse] by (simp add: the_socket_def)
next
  case (Cons r rs)
  have "int (length (fst l)) < int_max" "int (length (snd l)) < int_max"
    using Cons.prems(3,4) by simp_all
  with Cons.prems(1,2) obtain p1 where
    p1: "processKeyboard (request_line r) (protocol w) = Inr (spec_frame r l, p1)"
    "session_log p1 (fst (spec_step r l)) (snd (spec_step r l))" "in_order rs (fst (spec_step r l))"
    by (rule processKeyboard_request)
  have login1: "login p1" using processKeyboard_untouched [OF p1(1)] Cons.prems(8) by (simp add: untouched_def)
  have room: "int (length (fst (spec_step r l)) + length rs) \<le> int_max"
    "int (length (snd (spec_step r l)) + length rs) \<le> int_max"
    using Cons.prems(3,4) spec_step_lengths [of r l] by auto
  have "length (spec_frame r l) < 2 ^ 31"
    using room(1) Cons.prems(4,5) by (intro length_spec_frame) auto
  moreover have "hd (words_of (request_line r)) \<notin> {''login'', ''report'', ''summary''}"
    using request_words [OF Cons.prems(2)] by auto
  moreover note p1(1) Cons.prems(5-8)
  ultimately obtain s' where s': "keyboard_turn ops parse w = Some (Again (set_socket s'
        (w\<lparr>cin := input_of (map request_line rs), protocol := p1\<rparr>)))" "writable s'"
      "outgoing s' = outgoing (the_socket w) @ spec_frame r l @ [nul]"
    using keyboard_turn_sends [of w "request_line r" "rest (input_of (map request_line rs))" "spec_frame r l" p1 parse]
    by (auto simp: input_of_Cons)
  let ?w1 = "set_socket s' (w\<lparr>cin := input_of (map request_line rs), protocol := p1\<rparr>)"
  from room have "\<exists>w'. keyboard_loop ops parse ?w1 = Some (Crashed Undefined_Behaviour w') \<and>
    outgoing (the_socket w') = outgoing (the_socket ?w1) @ wire_text (fst (spec_run rs (spec_step r l))) \<and>
    session_log (protocol w') (fst (snd (spec_run rs (spec_step r l)))) (snd (snd (spec_run rs (spec_step r l)))) \<and>
    cout w' = cout ?w1"
    using p1(2,3) s'(2) login1 Cons.prems(5) by (intro Cons.IH) simp_all
  then show ?case
    using s'(3) by (simp add: keyboard_loop_again [OF s'(1)] Let_def case_prod_beta)
qed

end

text \<open>A login, and the report of a file.\<close>

definition a_word :: "string \<Rightarrow> bool" where
  "a_word x \<longleftrightarrow> x \<noteq> [] \<and> CHR '' '' \<notin> set x"

definition login_line :: "string \<Rightarrow> string \<Rightarrow> string \<Rightarrow> string" where
  "login_line h u pw = ''login '' @ h @ '' '' @ u @ '' '' @ pw"

definition connect_frame :: "string \<Rightarrow> string \<Rightarrow> string \<Rightarrow> string" where
  "connect_frame h u pw = render_frame ''CONNECT''
     [(''accept-version'', ''1.2''), (''host'', h), (''login'', u), (''passcode'', pw)] ''^@''"

lemma login_words:
  assumes "a_word h" "a_word u" "a_word pw"
  shows "words_of (login_line h u pw) = [''login'', h, u, pw]"
  using assms split_on_delim [of "CHR '' ''" "''login''"]
  by (simp add: login_line_def a_word_def protocol_split_def split_on_delim split_on_no_delim)

lemma length_connect_frame:
  assumes "a_line (login_line h u pw)"
  shows "length (connect_frame h u pw) < 2 ^ 31"
  using assms by (simp add: a_line_def login_line_def connect_frame_def render_frame_def header_line_def)

lemma processKeyboard_login:
  assumes "a_word h" "a_word u" "a_word pw"
  shows "processKeyboard (login_line h u pw) p =
    Inr (connect_frame h u pw, p\<lparr>con := (con p)\<lparr>username := u\<rparr>\<rparr>)"
  using login_text [of h u pw]
  by (simp add: processKeyboard_def login_words [OF assms] handleLogin_def connect_frame_def)

context open_socket begin

lemma keyboard_turn_login:
  assumes "writable (the_socket w)" "a_word h" "a_word u" "a_word pw" "a_line (login_line h u pw)"
    and "cin w = typed (login_line h u pw) later"
  shows "\<exists>w'. keyboard_turn ops parse w = Some (Again w') \<and> writable (the_socket w') \<and>
    outgoing (the_socket w') = outgoing (the_socket w) @ connect_frame h u pw @ [nul] \<and>
    con (protocol w') = (con (protocol w))\<lparr>username := u\<rparr> \<and> login (protocol w') \<and>
    proto_id (protocol w') = proto_id (protocol w) \<and> recipt (protocol w') = recipt (protocol w) \<and>
    cin w' = \<lparr>rest = later, good = True\<rparr> \<and>
    cout w' = (if login (protocol w) then cout w @ already_text @ [newline] else cout w)"
proof -
  let ?w1 = "w\<lparr>cin := \<lparr>rest = later, good = True\<rparr>\<rparr>"
  let ?w2 = "if login (protocol w) then print already_text ?w1
    else ?w1\<lparr>protocol := (protocol w)\<lparr>login := True\<rparr>\<rparr>"
  have fields: "the_socket ?w2 = the_socket w" "con (protocol ?w2) = con (protocol w)"
    "login (protocol ?w2)" "proto_id (protocol ?w2) = proto_id (protocol w)"
    "recipt (protocol ?w2) = recipt (protocol w)" "cin ?w2 = \<lparr>rest = later, good = True\<rparr>"
    "cout ?w2 = (if login (protocol w) then cout w @ already_text @ [newline] else cout w)"
    by (simp_all add: the_socket_def)
  have "keyboard_turn ops parse w =
      keyboard_command ops parse (login_line h u pw) [''login'', h, u, pw] ?w2"
    using keyboard_turn_line [OF assms(5,6), of ops parse] by (simp add: login_words [OF assms(2-4)] Let_def)
  moreover obtain s' where "keyboard_command ops parse (login_line h u pw) [''login'', h, u, pw] ?w2 =
      Some (Again (set_socket s' (?w2\<lparr>protocol := (protocol ?w2)\<lparr>con := (con (protocol ?w2))\<lparr>username := u\<rparr>\<rparr>\<rparr>)))"
    "writable s'" "outgoing s' = outgoing (the_socket ?w2) @ connect_frame h u pw @ [nul]"
    using keyboard_command_sends [of ?w2 "[''login'', h, u, pw]" "login_line h u pw" "connect_frame h u pw"
        "(protocol ?w2)\<lparr>con := (con (protocol ?w2))\<lparr>username := u\<rparr>\<rparr>" parse]
      fields(1) assms(1) processKeyboard_login [OF assms(2-4), of "protocol ?w2"]
      sent_part_all [OF length_connect_frame [OF assms(5)]] by auto
  ultimately show ?thesis
    using fields
    by (intro exI [of _ "set_socket s' (?w2\<lparr>protocol := (protocol ?w2)\<lparr>con := (con (protocol ?w2))\<lparr>username := u\<rparr>\<rparr>\<rparr>)"])
       (simp del: if_split)
qed

lemma keyboard_turn_report:
  assumes "writable (the_socket w)" "login (protocol w)" "a_line l" "cin w = typed l later"
    and "words_of l = ''report'' # file # args" "parse file = Inr ne"
    and short: "\<forall>e \<in> set (subscribed (con (protocol w)) (ne_events ne)). length (processEvent e (protocol w)) < 2 ^ 31"
  shows "\<exists>w'. keyboard_turn ops parse w = Some (Again w') \<and>
    outgoing (the_socket w') = outgoing (the_socket w) @
      wire_text (map (\<lambda>e. processEvent e (protocol w)) (subscribed (con (protocol w)) (ne_events ne))) \<and>
    game (protocol w') = record_all (map (Pair (username (con (protocol w))))
      (subscribed (con (protocol w)) (ne_events ne))) (game (protocol w)) \<and>
    con (protocol w') = con (protocol w) \<and> cin w' = \<lparr>rest = later, good = True\<rparr> \<and> cout w' = cout w"
proof -
  let ?w1 = "w\<lparr>cin := \<lparr>rest = later, good = True\<rparr>\<rparr>"
  have turn: "keyboard_turn ops parse w = keyboard_command ops parse l (words_of l) ?w1"
    using keyboard_turn_line [OF assms(3,4), of ops parse] assms(2,5) by (simp add: Let_def)
  have "writable (the_socket ?w1)" using assms(1) by (simp add: the_socket_def)
  have whole: "map (\<lambda>e. sent_part (processEvent e (protocol w)) @ [nul]) (subscribed (con (protocol w)) (ne_events ne)) =
      map (\<lambda>e. processEvent e (protocol w) @ [nul]) (subscribed (con (protocol w)) (ne_events ne))"
    using short by (intro map_cong refl) (simp add: sent_part_all)
  from \<open>writable (the_socket ?w1)\<close> report_events_ok [of ?w1 "ne_events ne"] show ?thesis
    unfolding turn wire_text_def
    by (auto simp: keyboard_command_def assms(5,6) the_socket_def comp_def whole)
qed

end

section \<open>The stream of the server's frames\<close>

text \<open>
  A message on the wire: the text, one more character (the client cuts it) and the NUL.
\<close>

definition delivered :: "(string \<times> char) list \<Rightarrow> string" where
  "delivered ms = concat (map (\<lambda>(m, c). m @ [c, nul]) ms)"

definition clean :: "string \<times> char \<Rightarrow> bool" where
  "clean mc \<longleftrightarrow> nul \<notin> set (fst mc) \<and> snd mc \<noteq> nul \<and> length (fst mc) < 2 ^ 31 - 1"

lemma processServerMessage_books:
  assumes "con p' = con p"
  shows "processServerMessage m p' = rbind (processServerMessage m p) (\<lambda>(r, _). Inr (r, p'))"
proof (cases "new_frame m")
  case (Inr f)
  obtain cmd fm where "map_index [] (frame_map f) ''StompCommand'' = (cmd, fm)" by fastforce
  then show ?thesis
    using assms Inr
    by (auto simp: processServerMessage_def processReceipt_eq rbind_def split: sum.splits option.splits)
qed (simp add: processServerMessage_def)

lemma processServerMessage_set_socket:
  "processServerMessage m (protocol w) = Inr ((ret, out), p) \<Longrightarrow>
     processServerMessage m (protocol (set_socket s w)) = Inr ((ret, out), protocol (set_socket s w))"
  using processServerMessage_books [of "protocol (set_socket s w)" "protocol w" m] by simp

lemma ReadfromSocket_again:
  "socket_turn ops w = Some (Again w') \<Longrightarrow> ReadfromSocket ops w = ReadfromSocket ops w'"
  by (subst ReadfromSocket.simps) simp

lemma ReadfromSocket_ended:
  "socket_turn ops w = Some (Ended r) \<Longrightarrow> ReadfromSocket ops w = Some r"
  by (subst ReadfromSocket.simps) simp

lemma receipt_text_clean: "nul \<notin> set (receipt_text r)"
  by (simp add: receipt_text_def head_text_def render_headers_def header_line_def)

lemma length_receipt_text:
  "int_min \<le> r \<Longrightarrow> r \<le> int_max \<Longrightarrow> length (receipt_text r) < 2 ^ 31 - 1"
  using length_to_string_int [of r]
  by (simp add: receipt_text_def head_text_def render_headers_def header_line_def)

lemma request_entry_kind: "hd (protocol_split (request_entry q) colon) \<noteq> ''DISCONNECT''"
  using split_on_delim [of colon "''SUBSCRIBE''"] split_on_delim [of colon "''UNSUBSCRIBE''"]
  by (cases q) (simp_all add: protocol_split_def)

text \<open>The process after a turn, whichever way the turn ends.\<close>

definition turn_process :: "'s process turn \<Rightarrow> 's process" where
  "turn_process t = (case t of Again w \<Rightarrow> w | Ended (Returned w) \<Rightarrow> w | Ended (Crashed e w) \<Rightarrow> w)"

lemma turn_process_simps [simp]:
  "turn_process (Again w) = w" "turn_process (Ended (Returned w)) = w"
  "turn_process (Ended (Crashed e w)) = w"
  by (simp_all add: turn_process_def)

text \<open>A turn of the socket loop changes nothing but the socket and what was printed.\<close>

lemma socket_turn_keeps:
  assumes "socket_turn ops w = Some t"
  shows "con (protocol (turn_process t)) = con (protocol w) \<and>
    proto_id (protocol (turn_process t)) = proto_id (protocol w) \<and>
    recipt (protocol (turn_process t)) = recipt (protocol w) \<and>
    login (protocol (turn_process t)) = login (protocol w) \<and>
    game (protocol (turn_process t)) = game (protocol w) \<and>
    cin (turn_process t) = cin w"
proof -
  from assms obtain ok answer s where get: "getFrameAscii ops nul [] (the_socket w) = Some ((ok, answer), s)"
    by (auto simp: socket_turn_def split: bind_splits)
  let ?r = "rbind (resize_answer answer) (\<lambda>answer. processServerMessage answer (protocol (set_socket s w)))"
  consider "\<not> ok" | e where "ok" "?r = Inl e" | ret out p where "ok" "?r = Inr ((ret, out), p)"
    by (metis old.sum.exhaust prod.exhaust)
  then show ?thesis
  proof cases
    case 3
    then have "p = protocol (set_socket s w)"
      by (auto simp: rbind_eq_Inr dest: processServerMessage_result)
    with 3 get assms show ?thesis
      by (auto simp: socket_turn_def Let_def split: if_splits prod.splits)
  qed (use get assms in \<open>auto simp: socket_turn_def Let_def\<close>)
qed

lemma session_log_cong:
  "con p' = con p \<Longrightarrow> proto_id p' = proto_id p \<Longrightarrow> recipt p' = recipt p \<Longrightarrow>
     session_log p' chs reqs = session_log p chs reqs"
  by (simp add: session_log_def id_table_def [abs_def] receipt_table_def [abs_def])

context tcp_socket begin

lemma socket_turn_message:
  assumes "incoming (the_socket w) = m @ c # nul # r" "clean (m, c)"
    and "processServerMessage m (protocol w) = Inr (([], out), p)"
  shows "\<exists>s'. socket_turn ops w = Some (Again ((set_socket s' w)\<lparr>cout := cout w @ out\<rparr>)) \<and>
    incoming s' = r \<and> outgoing s' = outgoing (the_socket w)"
proof -
  have "filter (\<lambda>c. c \<noteq> nul) (m @ [c]) = m @ [c]"
    using assms(2) by (auto simp: clean_def filter_id_conv)
  then obtain s' where s': "getFrameAscii ops nul [] (the_socket w) = Some ((True, m @ [c]), s')"
    "incoming s' = r" "outgoing s' = outgoing (the_socket w)"
    using getFrameAscii_ok [of "the_socket w" "m @ [c]" nul r "[]"] assms(1,2)
    by (auto simp: clean_def)
  then show ?thesis
    using processServerMessage_set_socket [OF assms(3), of s']
      resize_answer_snoc [of m c] assms(2)
    by (intro exI [of _ s']) (simp add: socket_turn_def clean_def Let_def)
qed

lemma socket_turn_closed:
  assumes "nul \<notin> set (incoming (the_socket w))"
  shows "\<exists>s'. socket_turn ops w = Some (Ended (Returned (print disconnected_text (set_socket s' w)))) \<and>
    incoming s' = []"
proof -
  obtain s' x where "getFrameAscii ops nul [] (the_socket w) = Some ((False, x), s')" "incoming s' = []"
    using getFrameAscii_closed [OF refl assms, of "[]"] by auto
  then show ?thesis by (intro exI [of _ s']) (simp add: socket_turn_def)
qed

lemma socket_stream:
  assumes "incoming (the_socket w) = delivered ms" "list_all clean ms"
    and "\<forall>mc \<in> set ms. \<exists>p. processServerMessage (fst mc) (protocol w) = Inr (([], out (fst mc)), p)"
  shows "\<exists>w'. ReadfromSocket ops w = Some (Returned w') \<and>
    cout w' = cout w @ concat (map (\<lambda>mc. out (fst mc)) ms) @ disconnected_text @ [newline] \<and>
    con (protocol w') = con (protocol w) \<and> game (protocol w') = game (protocol w) \<and>
    incoming (the_socket w') = []"
  using assms
proof (induction ms arbitrary: w)
  case Nil
  then have "nul \<notin> set (incoming (the_socket w))" by (simp add: delivered_def)
  from socket_turn_closed [OF this] obtain s' where
    "socket_turn ops w = Some (Ended (Returned (print disconnected_text (set_socket s' w))))" "incoming s' = []"
    by blast
  from ReadfromSocket_ended [OF this(1)] this(2) show ?case by simp
next
  case (Cons mc ms)
  obtain m c where mc: "mc = (m, c)" by (cases mc)
  from Cons.prems(3) mc obtain p where p: "processServerMessage m (protocol w) = Inr (([], out m), p)" by auto
  have "incoming (the_socket w) = m @ c # nul # delivered ms"
    using Cons.prems(1) mc by (simp add: delivered_def)
  from socket_turn_message [OF this _ p] Cons.prems(2) mc obtain s' where
    turn: "socket_turn ops w = Some (Again ((set_socket s' w)\<lparr>cout := cout w @ out m\<rparr>))"
    and s': "incoming s' = delivered ms"
    by auto
  let ?w1 = "(set_socket s' w)\<lparr>cout := cout w @ out m\<rparr>"
  have sock: "the_socket ?w1 = s'" by (simp add: the_socket_def set_socket_def)
  have "\<exists>p. processServerMessage (fst x) (protocol ?w1) = Inr (([], out (fst x)), p)" if "x \<in> set ms" for x
    using Cons.prems(3) that processServerMessage_set_socket [of "fst x" w _ _ _ s'] by fastforce
  then have "\<exists>w'. ReadfromSocket ops ?w1 = Some (Returned w') \<and>
      cout w' = cout ?w1 @ concat (map (\<lambda>mc. out (fst mc)) ms) @ disconnected_text @ [newline] \<and>
      con (protocol w') = con (protocol ?w1) \<and> game (protocol w') = game (protocol ?w1) \<and>
      incoming (the_socket w') = []"
    using Cons.prems(2) s' sock by (intro Cons.IH) simp_all
  then show ?case by (simp add: ReadfromSocket_again [OF turn] mc)
qed

lemma socket_turn_ends:
  assumes "\<forall>r req. receiptToOriginalMsg (con (protocol w)) r = Some req \<longrightarrow> (\<exists>q. req = request_entry q)"
    and "socket_turn ops w = Some t"
  shows "outgoing (the_socket (turn_process t)) = outgoing (the_socket w) \<and>
    (\<forall>w'. t = Ended (Returned w') \<longrightarrow> incoming (the_socket w') = [])"
proof -
  obtain ok answer s' where get: "getFrameAscii ops nul [] (the_socket w) = Some ((ok, answer), s')"
    "\<not> ok \<longrightarrow> incoming s' = []" "outgoing s' = outgoing (the_socket w)"
  proof (cases "nul \<in> set (incoming (the_socket w))")
    case True
    then obtain f r where "incoming (the_socket w) = f @ nul # r" "nul \<notin> set f" by (metis split_list_first)
    from getFrameAscii_ok [OF this, of "[]"] that show ?thesis by auto
  next
    case False
    from getFrameAscii_closed [OF refl this, of "[]"] that show ?thesis by auto
  qed
  let ?r = "rbind (resize_answer answer) (\<lambda>answer. processServerMessage answer (protocol (set_socket s' w)))"
  consider "\<not> ok" | e where "ok" "?r = Inl e" | ret out p where "ok" "?r = Inr ((ret, out), p)"
    by (metis old.sum.exhaust prod.exhaust)
  then show ?thesis
  proof cases
    case 3
    then have p: "p = protocol (set_socket s' w)" "ret = [] \<or>
        (\<exists>r req. receiptToOriginalMsg (con (protocol w)) r = Some req \<and> hd (protocol_split req colon) = ''DISCONNECT'')"
      by (auto simp: rbind_eq_Inr dest: processServerMessage_result)
    then have "ret = []" using assms(1) request_entry_kind by metis
    with 3 p(1) get assms(2) show ?thesis
      by (auto simp: socket_turn_def Let_def set_socket_def the_socket_def)
  qed (use get assms(2) in \<open>auto simp: socket_turn_def Let_def\<close>)
qed

end

section \<open>Properties\<close>

text \<open>The concrete processes of the witnesses.\<close>

definition wire_of :: "string list \<Rightarrow> wire" where
  "wire_of segments = \<lparr>inbox = segments, outbox = [], mtu = 3, opened = True\<rparr>"

definition fresh_process :: "'s \<Rightarrow> string list \<Rightarrow> 's process" where
  "fresh_process s ls = \<lparr>protocol = new_protocol ''127.0.0.1'' 7777 s, cin = input_of ls, cout = []\<rparr>"

lemma wire_of_simps [simp]:
  "opened (wire_of segs)" "outbox (wire_of segs) = []" "wire_incoming (wire_of segs) = concat segs"
  by (simp_all add: wire_of_def wire_incoming_def)

lemma fresh_process_simps [simp]:
  "the_socket (fresh_process s ls) = s" "cin (fresh_process s ls) = input_of ls"
  "cout (fresh_process s ls) = []" "protocol (fresh_process s ls) = new_protocol ''127.0.0.1'' 7777 s"
  by (simp_all add: fresh_process_def the_socket_def new_protocol_def new_connection_handler_def)

lemma new_protocol_simps [simp]:
  "con (new_protocol h pt s) = new_connections" "game (new_protocol h pt s) = new_games"
  "\<not> login (new_protocol h pt s)"
  by (simp_all add: new_protocol_def)



text \<open>
  C1: A whole session from a fresh client: after a login line and any sequence of join and exit
  lines in order, what went to the server is the CONNECT frame and then exactly the frames of
  the specification, in order and each ended by a NUL; nothing was printed, and the tables are
  the specified log when the input ends.
\<close>

theorem keyboard_session:
  assumes "open_socket ops incoming outgoing writable" "writable s"
    and "a_word h" "a_word u" "a_word pw" "a_line (login_line h u pw)"
    and "in_order rs []" "int (length rs) \<le> int_max" "\<forall>r \<in> set rs. a_line (request_line r)"
  shows "\<exists>w'. ReadfromKeyboard ops parse (fresh_process s (login_line h u pw # map request_line rs)) =
      Some (Crashed Undefined_Behaviour w') \<and>
    outgoing (the_socket w') = outgoing s @ wire_text (connect_frame h u pw # fst (spec_run rs ([], []))) \<and>
    session_log (protocol w') (fst (snd (spec_run rs ([], [])))) (snd (snd (spec_run rs ([], [])))) \<and>
    cout w' = []"
proof -
  let ?w = "fresh_process s (login_line h u pw # map request_line rs)"
  have start: "ReadfromKeyboard ops parse ?w = keyboard_loop ops parse ?w"
    by (simp add: ReadfromKeyboard_def fresh_process_def new_protocol_def)
  have "cin ?w = typed (login_line h u pw) (rest (input_of (map request_line rs)))"
    by (simp add: input_of_Cons)
  from open_socket.keyboard_turn_login [OF assms(1) _ assms(3-6) this, of parse] assms(2)
  obtain w1 where w1: "keyboard_turn ops parse ?w = Some (Again w1)" "writable (the_socket w1)"
    "outgoing (the_socket w1) = outgoing s @ connect_frame h u pw @ [nul]"
    "con (protocol w1) = new_connections\<lparr>username := u\<rparr>" "login (protocol w1)"
    "proto_id (protocol w1) = proto_id (protocol ?w)" "recipt (protocol w1) = recipt (protocol ?w)"
    "cin w1 = input_of (map request_line rs)" "cout w1 = []"
    by auto
  have "session_log (protocol w1) [] []"
    using w1(4,6,7)
    by (simp add: session_log_def id_table_def receipt_table_def new_connections_def new_protocol_def enumerates_def)
  with open_socket.keyboard_requests [OF assms(1), of w1 "([], [])" rs parse] assms(7-9) w1
  show ?thesis by (simp add: start keyboard_loop_again [OF w1(1)])
qed

theorem keyboard_session_witness:
  "\<exists>w'. ReadfromKeyboard wire_ops (\<lambda>f. Inl Json_Parse_Error) (fresh_process (wire_of [])
      (login_line ''stomp:7777'' ''meni'' ''films'' # map request_line [Join ''a_b'', Leave ''a_b''])) =
      Some (Crashed Undefined_Behaviour w') \<and>
    outbox (the_socket w') = wire_text [connect_frame ''stomp:7777'' ''meni'' ''films'',
      join_frame ''a_b'' 0 0, exit_frame 0 1] \<and> cout w' = []"
  using keyboard_session [OF wire_is_open_socket, of "wire_of []" "''stomp:7777''" "''meni''" "''films''"
      "[Join ''a_b'', Leave ''a_b'']" "\<lambda>f. Inl Json_Parse_Error"]
  by (auto simp: a_word_def a_line_def login_line_def log_join_def int_max_def index_of_def)

text \<open>
  A second login is announced as an error but carried out: the message is printed, and the
  CONNECT frame is sent and the user name replaced just as at the first login.
\<close>

theorem login_again:
  assumes "open_socket ops incoming outgoing writable" "writable (the_socket w)"
    and "a_word h" "a_word u" "a_word pw" "a_line (login_line h u pw)"
    and "cin w = typed (login_line h u pw) later"
  shows "\<exists>w'. keyboard_turn ops parse w = Some (Again w') \<and>
    outgoing (the_socket w') = outgoing (the_socket w) @ connect_frame h u pw @ [nul] \<and>
    con (protocol w') = (con (protocol w))\<lparr>username := u\<rparr> \<and> login (protocol w') \<and>
    cout w' = (if login (protocol w) then cout w @ already_text @ [newline] else cout w)"
  using open_socket.keyboard_turn_login [OF assms, of parse] by blast

text \<open>
  C20: The report command: of the events of the parsed file exactly those are sent whose game
  has an entry in the table of subscription ids (an exit does not remove one), in the order of
  the file and each as one frame, texts of \<open>2 ^ 31\<close> bytes or more apart; and what is remembered
  afterwards is what \<open>MapEventToGame\<close>, called for the user with each of these events in turn,
  makes of what was remembered before (of events never reported before that is the first alone).
  Events of other games are skipped, and nothing is printed.
\<close>

theorem report_command:
  assumes "open_socket ops incoming outgoing writable" "writable (the_socket w)" "login (protocol w)"
    and "a_line l" "cin w = typed l later" "words_of l = ''report'' # file # args" "parse file = Inr ne"
    and "\<forall>e \<in> set (subscribed (con (protocol w)) (ne_events ne)). length (processEvent e (protocol w)) < 2 ^ 31"
  shows "\<exists>w'. keyboard_turn ops parse w = Some (Again w') \<and>
    outgoing (the_socket w') = outgoing (the_socket w) @
      wire_text (map (\<lambda>e. processEvent e (protocol w)) (subscribed (con (protocol w)) (ne_events ne))) \<and>
    game (protocol w') = record_all (map (Pair (username (con (protocol w))))
      (subscribed (con (protocol w)) (ne_events ne))) (game (protocol w)) \<and>
    con (protocol w') = con (protocol w) \<and> cin w' = \<lparr>rest = later, good = True\<rparr> \<and> cout w' = cout w"
  by (rule open_socket.keyboard_turn_report [OF assms(1-6), where parse = parse, OF assms(7,8)])

definition sample_event :: event where
  "sample_event = new_event ''a'' ''b'' ''goal'' 60 Map.empty [''goals'' \<mapsto> ''1''] Map.empty ''go''"

definition other_event :: event where
  "other_event = new_event ''c'' ''d'' ''goal'' 60 Map.empty Map.empty Map.empty []"

definition later_event :: event where
  "later_event = new_event ''a'' ''b'' ''final'' 90 Map.empty Map.empty Map.empty []"

definition reporter :: "wire process" where
  "reporter = \<lparr>protocol = (new_protocol ''h'' 7777 (wire_of []))
     \<lparr>login := True, con := new_connections\<lparr>channeltoUniqueID := [''a_b'' \<mapsto> 0], username := ''meni''\<rparr>\<rparr>,
     cin = typed ''report ev.json'' [], cout = []\<rparr>"

theorem report_command_witness:
  "\<exists>w'. keyboard_turn wire_ops
      (\<lambda>f. Inr \<lparr>ne_team_a_name = ''a'', ne_team_b_name = ''b'', ne_events = [sample_event, other_event, later_event]\<rparr>)
      reporter = Some (Again w') \<and>
    outbox (the_socket w') =
      wire_text [processEvent sample_event (protocol reporter), processEvent later_event (protocol reporter)] \<and>
    stored_events (game (protocol w')) ''meni'' ''a_b'' = [sample_event]"
proof -
  let ?es = "[sample_event, other_event, later_event]"
  have words: "words_of ''report ev.json'' = [''report'', ''ev.json'']"
    using split_words [of "''report''" "''ev.json''"] by simp
  have sub: "subscribed (con (protocol reporter)) ?es = [sample_event, later_event]"
    by (simp add: subscribed_def reporter_def sample_event_def other_event_def later_event_def new_event_def
        game_name_def)
  have start: "opened (the_socket reporter)" "login (protocol reporter)" "cin reporter = typed ''report ev.json'' []"
    "outbox (the_socket reporter) = []" "username (con (protocol reporter)) = ''meni''"
    "game (protocol reporter) = new_games"
    by (simp_all add: reporter_def the_socket_def new_protocol_def new_connection_handler_def)
  have sixty: "length (to_string 60) \<le> 11" and ninety: "length (to_string 90) \<le> 11"
    by (rule length_to_string_int; simp add: int_min_def int_max_def)+
  have short: "length (processEvent e (protocol reporter)) < 2 ^ 31" if "e \<in> set [sample_event, later_event]" for e
    using that sixty ninety
    by (auto simp: processEvent_text render_frame_def header_line_def report_body_def shown_def shown_from_def
        stat_line_def sample_event_def later_event_def new_event_def game_name_def start(5))
  have "stored_events (record_all [(''meni'', sample_event), (''meni'', later_event)] new_games) ''meni'' ''a_b'' =
      [sample_event]"
    by (simp add: record_all_def stored_events_eq MapEventToGame_entry new_games_def game_name_def
        sample_event_def later_event_def new_event_def)
  then show ?thesis
    using report_command [OF wire_is_open_socket start(1,2) _ start(3) words,
        of "\<lambda>f. Inr \<lparr>ne_team_a_name = ''a'', ne_team_b_name = ''b'', ne_events = ?es\<rparr>"] start short
    by (auto simp: sub a_line_def)
qed

text \<open>
  A command line whose first word is none of the commands is not refused: once logged in, the
  client sends the empty frame, a lone NUL, and goes on in the same state.
\<close>

theorem unknown_command:
  assumes "open_socket ops incoming outgoing writable" "writable (the_socket w)" "login (protocol w)"
    and "a_line l" "cin w = typed l later"
    and "hd (words_of l) \<notin> {''login'', ''join'', ''exit'', ''logout'', ''report'', ''summary''}"
  shows "\<exists>w'. keyboard_turn ops parse w = Some (Again w') \<and>
    outgoing (the_socket w') = outgoing (the_socket w) @ [nul] \<and>
    con (protocol w') = con (protocol w) \<and> game (protocol w') = game (protocol w) \<and> cout w' = cout w"
proof -
  have "processKeyboard l (protocol w) = Inr ([], protocol w)"
    using assms(4,6) by (simp add: processKeyboard_def a_line_def vec_at_hd)
  from open_socket.keyboard_turn_sends [OF assms(1-5) _ this, of parse] assms(6) show ?thesis by auto
qed

text \<open>
  The keyboard loop always comes to an end, over any connection: every turn that goes on has
  consumed some of the input.
\<close>

theorem keyboard_returns:
  assumes "tcp_socket ops incoming outgoing"
  shows "\<exists>r. ReadfromKeyboard ops parse w = Some r"
  unfolding ReadfromKeyboard_def by (rule tcp_socket.keyboard_loop_returns [OF assms])

theorem keyboard_returns_witness:
  "\<exists>r. ReadfromKeyboard wire_ops (\<lambda>f. Inl Json_Parse_Error) (fresh_process (wire_of []) [''logout'']) = Some r"
  by (rule keyboard_returns [OF wire_is_tcp_socket])

text \<open>
  C33: While the connection accepts data there is no orderly way to end the keyboard loop: for
  every input the loop ends in a failure (a logout, a bad command, or at the latest the end of
  the input).
\<close>

theorem keyboard_ends_in_failure:
  assumes "open_socket ops incoming outgoing writable" "writable (the_socket w)"
  shows "\<exists>e w'. ReadfromKeyboard ops parse w = Some (Crashed e w')"
proof -
  have "writable (the_socket (w\<lparr>protocol := (protocol w)\<lparr>login := False\<rparr>\<rparr>))"
    using assms(2) by (simp add: the_socket_def)
  then show ?thesis
    unfolding ReadfromKeyboard_def by (rule open_socket.keyboard_loop_crashes [OF assms(1)])
qed

theorem keyboard_ends_in_failure_witness:
  "\<exists>e w'. ReadfromKeyboard wire_ops (\<lambda>f. Inl Json_Parse_Error)
    (fresh_process (wire_of []) [''login h u p'', ''logout'']) = Some (Crashed e w')"
  by (rule keyboard_ends_in_failure [OF wire_is_open_socket]) simp

text \<open>
  C18: The acknowledgements of a session are shown in the order they arrive: for a client whose
  log holds the given requests, any stream of receipts for them, in whatever segments it
  arrives, prints the matching line for each, and at the end of the connection the loop returns
  with the tables unchanged.
\<close>

theorem acknowledgements_shown:
  assumes "tcp_socket ops incoming outgoing" "session_log (protocol w) chs (map request_entry rs)"
    and "int (length rs) \<le> int_max" "\<forall>k \<in> set ks. k < length rs"
    and "\<forall>q \<in> set rs. request_channel q \<noteq> [] \<and> colon \<notin> set (request_channel q)"
    and "incoming (the_socket w) = delivered (map (\<lambda>k. (receipt_text (int k), newline)) ks)"
  shows "\<exists>w'. ReadfromSocket ops w = Some (Returned w') \<and>
    cout w' = cout w @ concat (map (\<lambda>k. ack_text (rs ! k)) ks) @ disconnected_text @ [newline] \<and>
    con (protocol w') = con (protocol w)"
proof -
  let ?ms = "map (\<lambda>k. (receipt_text (int k), newline)) ks"
  have ack: "processServerMessage (receipt_text (int k)) (protocol w) = Inr (([], ack_text (rs ! k)), protocol w)"
    if "k \<in> set ks" for k
  proof -
    from that assms(4) have k: "k < length rs" by blast
    then have "receiptToOriginalMsg (con (protocol w)) (int k) = Some (request_entry (rs ! k))"
      by (simp add: session_log_receipt [OF assms(2)])
    moreover have "int_min \<le> int k" "int k \<le> int_max"
      using k assms(3) by (simp_all add: int_min_def int_max_def)
    ultimately show ?thesis
      using k assms(5) by (intro receipt_acknowledged) simp_all
  qed
  have "length (receipt_text (int k)) < 2 ^ 31 - 1" if "k \<in> set ks" for k
    using that assms(3,4) by (intro length_receipt_text) (auto simp: int_min_def)
  then have clean: "list_all clean ?ms"
    by (simp add: list_all_iff clean_def receipt_text_clean)
  let ?f = "\<lambda>m. snd (fst (projr (processServerMessage m (protocol w))))"
  have "\<forall>mc \<in> set ?ms. \<exists>p. processServerMessage (fst mc) (protocol w) = Inr (([], ?f (fst mc)), p)"
    using ack by auto
  from tcp_socket.socket_stream [OF assms(1,6) clean this] obtain w' where
    "ReadfromSocket ops w = Some (Returned w')" "con (protocol w') = con (protocol w)"
    "cout w' = cout w @ concat (map (\<lambda>mc. ?f (fst mc)) ?ms) @ disconnected_text @ [newline]"
    by blast
  moreover have "map (\<lambda>mc. ?f (fst mc)) ?ms = map (\<lambda>k. ack_text (rs ! k)) ks"
    using ack by simp
  ultimately show ?thesis by (intro exI [of _ w'] conjI) (simp_all only:)
qed

theorem acknowledgements_shown_witness:
  "\<exists>w w'. session_log (protocol w) [''a_b''] [''SUBSCRIBE:a_b''] \<and>
    ReadfromSocket wire_ops w = Some (Returned w') \<and>
    cout w' = ''Joined channel a_b'' @ [newline, newline] @ disconnected_text @ [newline]"
proof -
  let ?s = "wire_of [receipt_text 0 @ [newline, nul]]"
  obtain p where p: "session_log p [''a_b''] [''SUBSCRIBE:a_b'']" "handler p = handler (new_protocol ''h'' 0 ?s)"
    using handleSubscribe_log [OF session_log_new [of "''h''" 0 ?s], of "[''join'', ''a_b'']" "''a_b''"]
    by (auto simp: log_join_def int_max_def)
  let ?w = "\<lparr>protocol = p, cin = input_of [], cout = []\<rparr>"
  have "the_socket ?w = ?s"
    using p(2) by (simp add: the_socket_def new_protocol_def new_connection_handler_def)
  then have "\<exists>w'. ReadfromSocket wire_ops ?w = Some (Returned w') \<and>
      cout w' = cout ?w @ concat (map (\<lambda>k. ack_text ([Join ''a_b''] ! k)) [0]) @ disconnected_text @ [newline] \<and>
      con (protocol w') = con (protocol ?w)"
    using p(1)
    by (intro acknowledgements_shown [OF wire_is_tcp_socket, where chs = "[''a_b'']"])
       (simp_all add: delivered_def int_max_def)
  then obtain w' where "ReadfromSocket wire_ops ?w = Some (Returned w')"
    "cout w' = ''Joined channel a_b'' @ [newline, newline] @ disconnected_text @ [newline]"
    by auto
  with p(1) show ?thesis by (intro exI [of _ ?w] exI [of _ w']) simp
qed

text \<open>
  C34: Over a connection that delivers finitely many bytes and then fails every read (as
  \<open>tcp_socket\<close> has it), the socket loop of a client whose log holds only requests to join and
  exit channels ends, and the client never closes the connection itself: the loop ends in a
  failure, or returns once nothing more can be received.
\<close>

theorem socket_loop_ends:
  assumes "tcp_socket ops incoming outgoing" "session_log (protocol w) chs (map request_entry rs)"
  shows "(\<exists>w'. ReadfromSocket ops w = Some (Returned w') \<and> incoming (the_socket w') = []) \<or>
    (\<exists>e w'. ReadfromSocket ops w = Some (Crashed e w'))"
  using assms(2)
proof (induction "length (incoming (the_socket w))" arbitrary: w rule: less_induct)
  case less
  obtain t where t: "socket_turn ops w = Some t"
    "\<And>w'. t = Again w' \<Longrightarrow> length (incoming (the_socket w')) < length (incoming (the_socket w))"
    using tcp_socket.socket_turn_returns [OF assms(1)] by metis
  have "\<forall>r req. receiptToOriginalMsg (con (protocol w)) r = Some req \<longrightarrow> (\<exists>q. req = request_entry q)"
    by (auto simp: session_log_receipt [OF less.prems])
  from tcp_socket.socket_turn_ends [OF assms(1) this t(1)]
  have closed: "\<And>w'. t = Ended (Returned w') \<Longrightarrow> incoming (the_socket w') = []" by blast
  show ?case
  proof (cases t)
    case (Again w')
    with t(1) socket_turn_keeps [OF t(1)] less.prems
    have "session_log (protocol w') chs (map request_entry rs)"
      using session_log_cong [of "protocol w'" "protocol w"] by simp
    with less.hyps [OF t(2) [OF Again] this] show ?thesis
      using t(1) Again by (simp add: ReadfromSocket_again)
  next
    case (Ended r)
    with t(1) closed show ?thesis by (cases r) (simp_all add: ReadfromSocket_ended)
  qed
qed

theorem socket_loop_ends_witness:
  "(\<exists>w'. ReadfromSocket wire_ops (fresh_process (wire_of [''RECE'']) []) = Some (Returned w') \<and>
      wire_incoming (the_socket w') = []) \<or>
    (\<exists>e w'. ReadfromSocket wire_ops (fresh_process (wire_of [''RECE'']) []) = Some (Crashed e w'))"
  by (rule socket_loop_ends [OF wire_is_tcp_socket, where chs = "[]" and rs = "[]"])
     (simp add: session_log_new)

text \<open>
  An empty frame, a lone NUL (the very frame this client sends for an unknown command),
  kills the client that receives it: the length wraps and \<open>std::string::resize\<close> throws.
\<close>

theorem empty_frame_kills:
  assumes "tcp_socket ops incoming outgoing" "incoming (the_socket w) = nul # later"
  shows "\<exists>w'. ReadfromSocket ops w = Some (Crashed Length_Error w')"
proof -
  obtain s' where "getFrameAscii ops nul [] (the_socket w) = Some ((True, []), s')"
    using tcp_socket.getFrameAscii_ok [OF assms(1), of "the_socket w" "[]" nul later "[]"] assms(2) by auto
  then have "socket_turn ops w = Some (Ended (Crashed Length_Error (set_socket s' w)))"
    by (simp add: socket_turn_def Let_def)
  from ReadfromSocket_ended [OF this] show ?thesis by blast
qed

end
