(* ===== verification/StompClient.thy ===== *)
theory StompClient
  imports Sessions
begin

text \<open>
  The program of client/src/StompClient.cpp: \<open>main\<close> connects, starts a thread that runs the
  keyboard loop, and itself runs the socket loop on the same protocol object. The program is a
  step relation that interleaves whole turns of the two loops; accesses of the two threads
  to the shared object within a turn, which the code does not synchronise, are not interleaved.
\<close>

section \<open>The program\<close>

text \<open>Where the keyboard thread is, and where the whole program is.\<close>

datatype keyboard_state = Keyboard_Starting | Keyboard_Reading | Keyboard_Done

datatype phase = Not_Started | Running keyboard_state | Finished int | Died cpp_error

type_synonym 's client = "'s process \<times> phase"

definition start :: "'s socket_ops \<Rightarrow> 's process \<Rightarrow> bool \<times> 's process" where
  "start ops w =
     (let ((ok, printed), h) = connect ops (handler (protocol w)) in
      (ok, w\<lparr>protocol := (protocol w)\<lparr>handler := h\<rparr>, cout := cout w @ printed\<rparr>))"

text \<open>
  Both loops return 0, which ends the enclosing \<open>while\<close>. When the socket loop returns, \<open>main\<close>
  returns as well and destroys the thread object; it was neither joined nor detached, whether
  or not the thread has ended, so its destructor calls \<open>std::terminate\<close>.
\<close>

inductive client_step ::
    "'s socket_ops \<Rightarrow> (string \<Rightarrow> names_and_events result) \<Rightarrow> 's client \<Rightarrow> 's client \<Rightarrow> bool"
  for ops parse where
  connected: "start ops w = (True, w') \<Longrightarrow>
    client_step ops parse (w, Not_Started) (w', Running Keyboard_Starting)"
| cannot_connect: "start ops w = (False, w') \<Longrightarrow>
    client_step ops parse (w, Not_Started) (w', Finished 0)"
| keyboard_starts:
    "client_step ops parse (w, Running Keyboard_Starting)
       (w\<lparr>protocol := (protocol w)\<lparr>login := False\<rparr>\<rparr>, Running Keyboard_Reading)"
| keyboard_goes_on: "keyboard_turn ops parse w = Some (Again w') \<Longrightarrow>
    client_step ops parse (w, Running Keyboard_Reading) (w', Running Keyboard_Reading)"
| keyboard_returned: "keyboard_turn ops parse w = Some (Ended (Returned w')) \<Longrightarrow>
    client_step ops parse (w, Running Keyboard_Reading) (w', Running Keyboard_Done)"
| keyboard_died: "keyboard_turn ops parse w = Some (Ended (Crashed e w')) \<Longrightarrow>
    client_step ops parse (w, Running Keyboard_Reading) (w', Died e)"
| socket_goes_on: "socket_turn ops w = Some (Again w') \<Longrightarrow>
    client_step ops parse (w, Running k) (w', Running k)"
| socket_returned: "socket_turn ops w = Some (Ended (Returned w')) \<Longrightarrow>
    client_step ops parse (w, Running k) (w', Died Terminate_Called)"
| socket_died: "socket_turn ops w = Some (Ended (Crashed e w')) \<Longrightarrow>
    client_step ops parse (w, Running k) (w', Died e)"

inductive_cases client_step_startE: "client_step ops parse (w, Not_Started) x"
inductive_cases client_step_runE: "client_step ops parse (w, Running k) x"
inductive_simps client_step_over [simp]:
  "client_step ops parse (w, Finished n) x" "client_step ops parse (w, Died e) x"

abbreviation client_run ::
    "'s socket_ops \<Rightarrow> (string \<Rightarrow> names_and_events result) \<Rightarrow> 's client \<Rightarrow> 's client \<Rightarrow> bool" where
  "client_run ops parse \<equiv> (client_step ops parse)\<^sup>*\<^sup>*"

text \<open>The global object of the program, with the host and port written into it.\<close>

definition client_init :: "'s \<Rightarrow> istream \<Rightarrow> 's client" where
  "client_init s input =
     (\<lparr>protocol = new_protocol ''127.0.0.1'' 7777 s, cin = input, cout = []\<rparr>, Not_Started)"

lemma cin_getline_size: "istream_size (snd (cin_getline n is)) \<le> istream_size is"
  by (auto simp: cin_getline_def istream_size_def Let_def)

section \<open>The books of every session\<close>

text \<open>
  What holds of the tables in any session, exits of unknown channels included: the receipts
  that were given out are the numbers below the counter, each for a join or an exit, and an id
  that was not given out can only be 0.
\<close>

definition books_ok :: "'s stomp_protocol \<Rightarrow> bool" where
  "books_ok p \<longleftrightarrow> 0 \<le> proto_id p \<and> 0 \<le> recipt p \<and>
     (\<forall>r. receiptToOriginalMsg (con p) r \<noteq> None \<longleftrightarrow> 0 \<le> r \<and> r < recipt p) \<and>
     (\<forall>r req. receiptToOriginalMsg (con p) r = Some req \<longrightarrow> (\<exists>q. req = request_entry q)) \<and>
     (\<forall>ch i. channeltoUniqueID (con p) ch = Some i \<longrightarrow> i = 0 \<or> 0 < i \<and> i < proto_id p)"

lemma books_ok_frame [simp]:
  "books_ok (p\<lparr>handler := h\<rparr>) = books_ok p" "books_ok (p\<lparr>login := b\<rparr>) = books_ok p"
  "books_ok (p\<lparr>game := g\<rparr>) = books_ok p"
  "books_ok (p\<lparr>con := (con p)\<lparr>username := u\<rparr>\<rparr>) = books_ok p"
  by (simp_all add: books_ok_def)

lemma books_ok_new [simp]: "books_ok (new_protocol h pt s)"
  by (simp add: books_ok_def new_protocol_def new_connections_def)

lemma take_receipt_books [book_intros]:
  assumes "books_ok p" "take_receipt (request_entry q) p = Inr p'"
  shows "books_ok p'"
proof -
  have "receiptToOriginalMsg (con p) (recipt p) = None"
    using assms(1) by (simp add: books_ok_def) (metis less_irrefl not_None_eq)
  then have "p' = p\<lparr>con := (con p)\<lparr>receiptToOriginalMsg :=
      (receiptToOriginalMsg (con p))(recipt p \<mapsto> request_entry q)\<rparr>, recipt := recipt p + 1\<rparr>"
    using assms(2) by (auto simp: take_receipt_def rbind_eq_Inr int_incr_eq_Inr Let_def)
  with assms(1) show ?thesis
    by (auto simp: books_ok_def)
qed

lemma register_channel_books [book_intros]:
  assumes "books_ok p" "channeltoUniqueID (con p) ch = None" "register_channel ch p = Inr p'"
  shows "books_ok p'"
proof -
  have "p' = p\<lparr>con := (con p)\<lparr>channeltoUniqueID := (channeltoUniqueID (con p))(ch \<mapsto> proto_id p)\<rparr>,
      proto_id := proto_id p + 1\<rparr>"
    using assms(2,3) by (auto simp: register_channel_def rbind_eq_Inr int_incr_eq_Inr Let_def)
  with assms(1) show ?thesis by (fastforce simp: books_ok_def)
qed

lemma enter_id_0_books [book_intros]:
  assumes "books_ok p"
  shows "books_ok (p\<lparr>con := (con p)\<lparr>channeltoUniqueID := snd (map_index 0 (channeltoUniqueID (con p)) ch)\<rparr>\<rparr>)"
  using assms by (auto simp: books_ok_def map_index_def split: option.splits)

lemma handleSubscribe_books:
  assumes "books_ok p" "handleSubscribe seglist p = Inr (m, p')"
  shows "books_ok p'"
proof -
  from assms(2) obtain ch where ch: "vec_at seglist 1 = Inr ch"
    by (auto simp: handleSubscribe_def rbind_eq_Inr Let_def)
  show ?thesis
  proof (cases "channeltoUniqueID (con p) ch")
    case None
    with assms(2) ch obtain p1 where "register_channel ch p = Inr p1"
      "take_receipt (request_entry (Join ch)) p1 = Inr p'"
      by (auto simp: handleSubscribe_def rbind_eq_Inr Let_def)
    with assms(1) None show ?thesis by (blast intro: book_intros)
  next
    case (Some i)
    with assms(2) ch have "take_receipt (request_entry (Join ch)) p = Inr p'"
      by (auto simp: handleSubscribe_def rbind_eq_Inr Let_def)
    with assms(1) show ?thesis by (rule take_receipt_books)
  qed
qed

lemma handleUnSubscribe_books:
  assumes "books_ok p" "handleUnSubscribe seglist p = Inr (m, p')"
  shows "books_ok p'"
proof -
  from assms(2) obtain ch where "take_receipt (request_entry (Leave ch))
      (p\<lparr>con := (con p)\<lparr>channeltoUniqueID := snd (map_index 0 (channeltoUniqueID (con p)) ch)\<rparr>\<rparr>) = Inr p'"
    by (auto simp: handleUnSubscribe_def rbind_eq_Inr Let_def case_prod_beta)
  with enter_id_0_books [OF assms(1)] show ?thesis by (rule take_receipt_books)
qed

lemma handleLogin_books:
  "books_ok p \<Longrightarrow> handleLogin seglist p = Inr (m, p') \<Longrightarrow> books_ok p'"
  by (auto simp: handleLogin_def rbind_eq_Inr Let_def)

lemma processKeyboard_books:
  assumes "books_ok p" "processKeyboard l p = Inr (m, p')"
  shows "books_ok p'"
  using assms(2) handleLogin_books [OF assms(1)] handleSubscribe_books [OF assms(1)]
    handleUnSubscribe_books [OF assms(1)] assms(1)
  by (blast elim: processKeyboard_cases)

lemma report_events_keeps:
  "report_events ops es w = Some w' \<Longrightarrow> con (protocol w') = con (protocol w) \<and>
     proto_id (protocol w') = proto_id (protocol w) \<and> recipt (protocol w') = recipt (protocol w) \<and>
     login (protocol w') = login (protocol w)"
proof (induction es arbitrary: w)
  case (Cons e es)
  show ?case
  proof (cases "channeltoUniqueID (con (protocol w)) (get_team_a_name e @ ''_'' @ get_team_b_name e) = None")
    case False
    let ?w1 = "w\<lparr>protocol := (protocol w)\<lparr>game := MapEventToGame (username (con (protocol w))) e (game (protocol w))\<rparr>\<rparr>"
    from Cons.prems False obtain ok s where
      "sendFrameAscii ops (processEvent e (protocol ?w1)) nul (the_socket ?w1) = Some (ok, s)"
      "(if \<not> ok then Some (print disconnected_text (set_socket s ?w1))
        else report_events ops es (set_socket s ?w1)) = Some w'"
      by (auto simp: Let_def simp del: processEvent_game split: bind_splits)
    then show ?thesis using Cons.IH [of "set_socket s ?w1"] by (auto split: if_splits)
  qed (use Cons in \<open>simp add: Let_def\<close>)
qed simp

lemma books_ok_cong:
  "con p' = con p \<Longrightarrow> proto_id p' = proto_id p \<Longrightarrow> recipt p' = recipt p \<Longrightarrow> books_ok p' = books_ok p"
  by (simp add: books_ok_def)

lemma keyboard_command_cases:
  assumes "keyboard_command ops parse line seglist w = Some t"
  obtains e where "t = Ended (Crashed e w)"
  | es w' where "report_events ops es w = Some w'" "t = Again w'"
  | "t = Again w"
  | m p ok s where "processKeyboard line (protocol w) = Inr (m, p)"
      "sendFrameAscii ops m nul (the_socket w) = Some (ok, s)"
      "turn_process t = set_socket s (w\<lparr>protocol := p\<rparr>) \<or>
       turn_process t = print disconnected_text (set_socket s (w\<lparr>protocol := p\<rparr>))"
proof -
  consider "hd seglist = ''report''" | "hd seglist = ''summary''"
    | "hd seglist \<noteq> ''report''" "hd seglist \<noteq> ''summary''" by blast
  then show ?thesis
  proof cases
    case 1
    with assms that(1,2) show ?thesis
      by (cases "rbind (vec_at seglist 1) parse") (auto simp: keyboard_command_def split: bind_splits)
  next
    case 2
    with assms that(1,3) show ?thesis
      by (cases "handleSummary seglist (game (protocol w))") (auto simp: keyboard_command_def)
  next
    case 3
    show ?thesis
    proof (cases "processKeyboard line (protocol w)")
      case (Inl e)
      with assms 3 that(1) show ?thesis by (auto simp: keyboard_command_def)
    next
      case (Inr r)
      obtain m p where r: "r = (m, p)" by (cases r)
      then have "handler p = handler (protocol w)"
        using Inr processKeyboard_untouched by (auto simp: untouched_def)
      then have "the_socket (w\<lparr>protocol := p\<rparr>) = the_socket w" by (simp add: the_socket_def)
      with assms 3 Inr r that(4) show ?thesis
        by (auto simp: keyboard_command_def Let_def split: bind_splits if_splits)
    qed
  qed
qed

lemma keyboard_turn_cases:
  assumes "keyboard_turn ops parse w = Some t"
  obtains "protocol (turn_process t) = protocol w" "cin (turn_process t) = snd (cin_getline 1024 (cin w))"
  | w1 line where "keyboard_command ops parse line (words_of line) w1 = Some t"
      "protocol w1 = (protocol w)\<lparr>login := True\<rparr>" "cin w1 = snd (cin_getline 1024 (cin w))"
proof -
  obtain buf stream where g: "cin_getline 1024 (cin w) = (buf, stream)" by fastforce
  let ?line = "string_of_buf buf"
  let ?w1 = "if hd (words_of ?line) = ''login'' \<and> login (protocol w)
    then print already_text (w\<lparr>cin := stream\<rparr>)
    else w\<lparr>cin := stream, protocol := (protocol w)\<lparr>login := True\<rparr>\<rparr>"
  show ?thesis
  proof (cases "?line = []")
    case True
    with assms keyboard_turn_no_words [of w ops parse] g that(1) show ?thesis by auto
  next
    case False
    then have word: "vec_at (words_of ?line) 0 = Inr (hd (words_of ?line))" by (simp add: vec_at_hd)
    show ?thesis
    proof (cases "hd (words_of ?line) = ''login'' \<or> login (protocol w)")
      case True
      with assms word have "keyboard_command ops parse ?line (words_of ?line) ?w1 = Some t"
        by (auto simp: keyboard_turn_def g Let_def split: if_split_asm)
      moreover have "protocol ?w1 = (protocol w)\<lparr>login := True\<rparr>"
        by (cases "protocol w") auto
      moreover have "cin ?w1 = snd (cin_getline 1024 (cin w))" by (simp add: g)
      ultimately show ?thesis by (rule that(2))
    next
      case False
      with assms word that(1) show ?thesis by (auto simp: keyboard_turn_def g Let_def)
    qed
  qed
qed

lemma keyboard_command_books:
  assumes "keyboard_command ops parse line seglist w = Some t" "books_ok (protocol w)"
  shows "books_ok (protocol (turn_process t))"
  using assms(1)
proof (cases rule: keyboard_command_cases)
  case (2 es w')
  with report_events_keeps [OF 2(1)] assms(2) show ?thesis
    using books_ok_cong [of "protocol w'" "protocol w"] by simp
next
  case (4 m p ok s)
  then have "books_ok p" using assms(2) processKeyboard_books by blast
  with 4(3) show ?thesis by (auto simp: set_socket_def)
qed (use assms(2) in simp_all)

lemma keyboard_command_login:
  assumes "keyboard_command ops parse line seglist w = Some t"
  shows "login (protocol (turn_process t)) = login (protocol w)"
  using assms
proof (cases rule: keyboard_command_cases)
  case (2 es w')
  with report_events_keeps [OF 2(1)] show ?thesis by simp
next
  case (4 m p ok s)
  then have "login p = login (protocol w)"
    using processKeyboard_untouched by (auto simp: untouched_def)
  with 4(3) show ?thesis by auto
qed simp_all

lemma keyboard_turn_books:
  assumes "keyboard_turn ops parse w = Some t" "books_ok (protocol w)"
  shows "books_ok (protocol (turn_process t))"
  using assms(1)
  by (cases rule: keyboard_turn_cases) (use assms(2) keyboard_command_books in \<open>fastforce+\<close>)

lemma keyboard_turn_gate:
  assumes "keyboard_turn ops parse w = Some t" "\<not> login (protocol (turn_process t))"
  shows "protocol (turn_process t) = protocol w"
  using assms(1)
  by (cases rule: keyboard_turn_cases) (use assms(2) keyboard_command_login in \<open>fastforce+\<close>)

lemma socket_turn_books:
  "socket_turn ops w = Some t \<Longrightarrow> books_ok (protocol w) \<Longrightarrow> books_ok (protocol (turn_process t))"
  using socket_turn_keeps [of ops w t] books_ok_cong by metis

section \<open>Invariants of the program\<close>

lemma client_step_books:
  assumes "client_step ops parse x y" "books_ok (protocol (fst x))"
  shows "books_ok (protocol (fst y))"
  using assms
proof cases
  case (keyboard_goes_on w w')
  with assms(2) keyboard_turn_books [OF keyboard_goes_on(3)] show ?thesis by simp
next
  case (keyboard_returned w w')
  with assms(2) keyboard_turn_books [OF keyboard_returned(3)] show ?thesis by simp
next
  case (keyboard_died w e w')
  with assms(2) keyboard_turn_books [OF keyboard_died(3)] show ?thesis by simp
next
  case (socket_goes_on w w' k)
  with assms(2) socket_turn_books [OF socket_goes_on(3)] show ?thesis by simp
next
  case (socket_returned w w' k)
  with assms(2) socket_turn_books [OF socket_returned(3)] show ?thesis by simp
next
  case (socket_died w e w' k)
  with assms(2) socket_turn_books [OF socket_died(3)] show ?thesis by simp
qed (auto simp: start_def Let_def case_prod_beta)

lemma client_run_books:
  assumes "client_run ops parse x y" "books_ok (protocol (fst x))"
  shows "books_ok (protocol (fst y))"
  using assms by (induction rule: rtranclp_induct) (auto intro: client_step_books)

text \<open>
  Every step of the running program consumes input of the keyboard or of the connection, or
  ends one of the loops.
\<close>

definition run_size :: "('s \<Rightarrow> string) \<Rightarrow> 's client \<Rightarrow> nat" where
  "run_size incoming x = (case snd x of
       Running k \<Rightarrow> istream_size (cin (fst x)) + length (incoming (the_socket (fst x))) +
         (case k of Keyboard_Starting \<Rightarrow> 3 | Keyboard_Reading \<Rightarrow> 2 | Keyboard_Done \<Rightarrow> 1)
     | _ \<Rightarrow> 0)"

text \<open>
  Before the login of a keyboard loop nothing has been sent; the socket loop never sends.
\<close>

context tcp_socket begin

lemma socket_turn_silent:
  "socket_turn ops w = Some t \<Longrightarrow> books_ok (protocol w) \<Longrightarrow>
     outgoing (the_socket (turn_process t)) = outgoing (the_socket w)"
  using socket_turn_ends [of w t] by (simp add: books_ok_def)

lemma keyboard_turn_silent:
  "keyboard_turn ops parse w = Some t \<Longrightarrow> \<not> login (protocol (turn_process t)) \<Longrightarrow>
     the_socket (turn_process t) = the_socket w \<and> \<not> login (protocol w)"
  using keyboard_turn_gate [of ops parse w t] by (simp add: the_socket_def)

lemma client_step_silent:
  assumes "client_step ops parse x y" "snd x \<noteq> Not_Started" "books_ok (protocol (fst x))"
    and "snd x = Running Keyboard_Starting \<Longrightarrow> \<not> login (protocol (fst x))"
    and "\<not> login (protocol (fst y))"
  shows "outgoing (the_socket (fst y)) = outgoing (the_socket (fst x)) \<and> \<not> login (protocol (fst x)) \<and>
    snd y \<noteq> Not_Started"
  using assms(1)
proof cases
  case (keyboard_goes_on w w')
  with assms(5) keyboard_turn_silent [OF keyboard_goes_on(3)] show ?thesis by simp
next
  case (keyboard_returned w w')
  with assms(5) keyboard_turn_silent [OF keyboard_returned(3)] show ?thesis by simp
next
  case (keyboard_died w e w')
  with assms(5) keyboard_turn_silent [OF keyboard_died(3)] show ?thesis by simp
next
  case (socket_goes_on w w' k)
  with assms(3,5) socket_turn_silent [OF socket_goes_on(3)] socket_turn_keeps [OF socket_goes_on(3)]
  show ?thesis by simp
next
  case (socket_returned w w' k)
  with assms(3,5) socket_turn_silent [OF socket_returned(3)] socket_turn_keeps [OF socket_returned(3)]
  show ?thesis by simp
next
  case (socket_died w e w' k)
  with assms(3,5) socket_turn_silent [OF socket_died(3)] socket_turn_keeps [OF socket_died(3)]
  show ?thesis by simp
qed (use assms(2,4) in \<open>auto simp: the_socket_def\<close>)

lemma report_events_socket:
  "report_events ops es w = Some w' \<Longrightarrow> incoming (the_socket w') = incoming (the_socket w) \<and> cin w' = cin w"
proof (induction es arbitrary: w)
  case (Cons e es)
  show ?case
  proof (cases "channeltoUniqueID (con (protocol w)) (get_team_a_name e @ ''_'' @ get_team_b_name e) = None")
    case False
    let ?w1 = "w\<lparr>protocol := (protocol w)\<lparr>game := MapEventToGame (username (con (protocol w))) e (game (protocol w))\<rparr>\<rparr>"
    have sock: "the_socket ?w1 = the_socket w" by (simp add: the_socket_def)
    from Cons.prems False obtain ok s where
      send: "sendFrameAscii ops (processEvent e (protocol ?w1)) nul (the_socket w) = Some (ok, s)"
      and rest: "(if \<not> ok then Some (print disconnected_text (set_socket s ?w1))
        else report_events ops es (set_socket s ?w1)) = Some w'"
      by (auto simp: Let_def sock simp del: processEvent_game split: bind_splits)
    from send have "incoming s = incoming (the_socket w)"
      using sendFrameAscii_returns [of "processEvent e (protocol ?w1)" nul "the_socket w"] by auto
    then show ?thesis using Cons.IH [of "set_socket s ?w1"] rest by (auto split: if_splits)
  qed (use Cons in \<open>simp add: Let_def\<close>)
qed simp

lemma keyboard_command_socket:
  assumes "keyboard_command ops parse line seglist w = Some t"
  shows "incoming (the_socket (turn_process t)) = incoming (the_socket w) \<and> cin (turn_process t) = cin w"
  using assms
proof (cases rule: keyboard_command_cases)
  case (2 es w')
  with report_events_socket [OF 2(1)] show ?thesis by simp
next
  case (4 m p ok s)
  then have "incoming s = incoming (the_socket w)"
    using sendFrameAscii_returns [of m nul "the_socket w"] by auto
  with 4(3) show ?thesis by auto
qed simp_all

lemma keyboard_turn_socket:
  assumes "keyboard_turn ops parse w = Some t"
  shows "incoming (the_socket (turn_process t)) = incoming (the_socket w) \<and>
    istream_size (cin (turn_process t)) \<le> istream_size (cin w)"
  using assms
proof (cases rule: keyboard_turn_cases)
  case 1
  then show ?thesis by (simp add: the_socket_def cin_getline_size)
next
  case (2 w1 line)
  with keyboard_command_socket [OF 2(1)] show ?thesis
    by (simp add: the_socket_def cin_getline_size)
qed

lemma client_step_shrinks:
  assumes "client_step ops parse x y" "snd x \<noteq> Not_Started"
  shows "run_size incoming y < run_size incoming x"
  using assms(1)
proof cases
  case (keyboard_goes_on w w')
  moreover have "istream_size (cin w') < istream_size (cin w)"
    using keyboard_turn_returns [of parse w] keyboard_goes_on(3) by auto
  ultimately show ?thesis
    using keyboard_turn_socket [OF keyboard_goes_on(3)] by (simp add: run_size_def)
next
  case (keyboard_returned w w')
  with keyboard_turn_socket [OF keyboard_returned(3)] show ?thesis by (simp add: run_size_def)
next
  case (socket_goes_on w w' k)
  moreover have "length (incoming (the_socket w')) < length (incoming (the_socket w))"
    using socket_turn_returns [of w] socket_goes_on(3) by auto
  ultimately show ?thesis
    using socket_turn_keeps [OF socket_goes_on(3)] by (simp add: run_size_def)
qed (use assms(2) in \<open>auto simp: run_size_def the_socket_def split: keyboard_state.splits\<close>)

lemma running_has_step: "\<exists>y. client_step ops parse (w, Running k) y"
proof -
  obtain t where t: "socket_turn ops w = Some t" using socket_turn_returns by blast
  show ?thesis
  proof (cases t)
    case (Again w')
    with t show ?thesis by (blast intro: socket_goes_on)
  next
    case (Ended r)
    with t show ?thesis by (cases r) (blast intro: socket_returned socket_died)+
  qed
qed

end

section \<open>Properties\<close>

lemma client_step_from_running:
  "client_step ops parse x y \<Longrightarrow> snd x \<noteq> Not_Started \<Longrightarrow> (\<exists>k. snd y = Running k) \<or> (\<exists>e. snd y = Died e)"
  by (cases rule: client_step.cases) auto

lemma client_run_from_running:
  assumes "client_run ops parse (w, Running k) x"
  shows "(\<exists>k'. snd x = Running k') \<or> (\<exists>e. snd x = Died e)"
  using assms
proof (induction rule: rtranclp_induct)
  case (step y z)
  then show ?case using client_step_from_running [of ops parse y z] by auto
qed simp

lemma starting_logged_out:
  assumes "client_run ops parse (w, Running Keyboard_Starting) x" "snd x = Running Keyboard_Starting"
  shows "login (protocol (fst x)) = login (protocol w)"
  using assms
proof (induction rule: rtranclp_induct)
  case (step y z)
  have "snd y \<noteq> Not_Started" using client_run_from_running [OF step.hyps(1)] by auto
  with step.hyps(2) step.prems have "snd y = Running Keyboard_Starting \<and>
      login (protocol (fst z)) = login (protocol (fst y))"
    by (cases rule: client_step.cases) (auto dest: socket_turn_keeps)
  with step.IH show ?case by simp
qed simp

text \<open>
  C16: In every session, for every input, server and connection, and for every interleaving of
  the two threads: the receipts that were given out are the numbers below the counter and
  each stands for a join or an exit, and the ids in the table are below the next id (or 0).
\<close>

theorem program_books:
  assumes "client_run ops parse (client_init s input) x"
  shows "books_ok (protocol (fst x))"
  using client_run_books [OF assms] by (simp add: client_init_def)

theorem program_books_witness:
  "\<exists>w. client_run wire_ops (\<lambda>f. Inl Json_Parse_Error) (client_init (wire_of []) (input_of [''logout'']))
      (w, Running Keyboard_Starting) \<and> books_ok (protocol w)"
proof -
  obtain w where "start wire_ops (fst (client_init (wire_of []) (input_of [''logout'']))) = (True, w)"
    by (simp add: start_def connect_def Let_def)
  then have "client_run wire_ops (\<lambda>f. Inl Json_Parse_Error) (client_init (wire_of []) (input_of [''logout'']))
      (w, Running Keyboard_Starting)"
    by (auto simp: client_init_def intro: connected)
  with program_books [OF this] show ?thesis by auto
qed

text \<open>
  C17: No frame leaves the client before a login: as long as the login flag is down in the
  program after the connection is made, nothing has been handed to the connection, whatever
  was typed or received and however the threads interleave.
\<close>

theorem nothing_sent_before_login:
  assumes "tcp_socket ops incoming outgoing" "books_ok (protocol w)" "\<not> login (protocol w)"
    and "client_run ops parse (w, Running Keyboard_Starting) x" "\<not> login (protocol (fst x))"
  shows "outgoing (the_socket (fst x)) = outgoing (the_socket w)"
  using assms(4,5)
proof (induction rule: rtranclp_induct)
  case (step y z)
  have books: "books_ok (protocol (fst y))" using client_run_books [OF step.hyps(1)] assms(2) by simp
  have running: "snd y \<noteq> Not_Started" using client_run_from_running [OF step.hyps(1)] by auto
  have "\<not> login (protocol (fst y))" if "snd y = Running Keyboard_Starting"
    using starting_logged_out [OF step.hyps(1) that] assms(3) by simp
  from tcp_socket.client_step_silent [OF assms(1) step.hyps(2) running books this step.prems] step.IH
  show ?case by simp
qed simp

theorem nothing_sent_before_login_witness:
  "\<exists>w'. client_run wire_ops (\<lambda>f. Inl Json_Parse_Error)
      (fst (client_init (wire_of []) (input_of [''join a_b''])), Running Keyboard_Starting)
      (w', Running Keyboard_Reading) \<and> rest (cin w') = [] \<and> outbox (the_socket w') = []"
proof -
  let ?parse = "\<lambda>f :: string. Inl Json_Parse_Error :: names_and_events result"
  let ?w = "fst (client_init (wire_of []) (input_of [''join a_b'']))"
  let ?w1 = "?w\<lparr>protocol := (protocol ?w)\<lparr>login := False\<rparr>\<rparr>"
  let ?w2 = "?w1\<lparr>cin := \<lparr>rest = [], good = True\<rparr>\<rparr>"
  have "keyboard_turn wire_ops ?parse ?w1 = Some (Again ?w2)"
    using split_words [of "''join''" "''a_b''"]
    by (intro keyboard_turn_locked [of "''join a_b''"])
       (simp_all add: client_init_def input_of_def typed_def a_line_def)
  then have run: "client_run wire_ops ?parse (?w, Running Keyboard_Starting) (?w2, Running Keyboard_Reading)"
    using keyboard_starts [of wire_ops ?parse ?w] keyboard_goes_on [of wire_ops ?parse ?w1 ?w2]
    by (meson converse_rtranclp_into_rtranclp r_into_rtranclp)
  have sock: "the_socket ?w = wire_of []"
    by (simp add: client_init_def the_socket_def new_protocol_def new_connection_handler_def)
  from nothing_sent_before_login [OF wire_is_tcp_socket _ _ run] sock
  have "outbox (the_socket ?w2) = []" by (simp add: client_init_def)
  with run show ?thesis by (intro exI [of _ ?w2]) simp
qed

text \<open>
  C15: Once connected, the program always comes to an end, after a number of steps bounded by the
  input and the data of the server, and it never ends normally: every execution that cannot
  go on has died, at the latest when \<open>main\<close> destroys the thread it never joined.
\<close>

theorem program_always_dies:
  assumes "tcp_socket ops incoming outgoing"
  shows "\<exists>n. \<forall>m x. (client_step ops parse ^^ m) (w, Running k) x \<longrightarrow>
    m \<le> n \<and> ((\<forall>y. \<not> client_step ops parse x y) \<longrightarrow> (\<exists>e. snd x = Died e))"
proof (intro exI [of _ "run_size incoming (w, Running k)"] allI impI conjI)
  fix m x assume run: "(client_step ops parse ^^ m) (w, Running k) x"
  then have reach: "client_run ops parse (w, Running k) x" by (rule relpowp_imp_rtranclp)
  from run have "m + run_size incoming x \<le> run_size incoming (w, Running k)"
  proof (induction m arbitrary: x)
    case (Suc m)
    then obtain y where y: "(client_step ops parse ^^ m) (w, Running k) y" "client_step ops parse y x" by auto
    then have "snd y \<noteq> Not_Started"
      using client_run_from_running relpowp_imp_rtranclp by fastforce
    with Suc.IH [OF y(1)] tcp_socket.client_step_shrinks [OF assms y(2)] show ?case by simp
  qed simp
  then show "m \<le> run_size incoming (w, Running k)" by simp
  show "\<exists>e. snd x = Died e" if "\<forall>y. \<not> client_step ops parse x y"
    using client_run_from_running [OF reach] that tcp_socket.running_has_step [OF assms]
    by (metis prod.collapse)
qed

theorem program_always_dies_witness:
  "\<exists>n. \<forall>m x. (client_step wire_ops (\<lambda>f. Inl Json_Parse_Error) ^^ m)
      (fst (client_init (wire_of [''CONNECTED'']) (input_of [''login h u p''])), Running Keyboard_Starting) x \<longrightarrow>
    m \<le> n \<and> ((\<forall>y. \<not> client_step wire_ops (\<lambda>f. Inl Json_Parse_Error) x y) \<longrightarrow> (\<exists>e. snd x = Died e))"
  by (rule program_always_dies [OF wire_is_tcp_socket])

text \<open>
  The program exits normally only when it could not connect: a reachable normal exit is the
  one step from the start, with exit code 0 and the books untouched.
\<close>

theorem normal_exit_only_unconnected:
  assumes "client_run ops parse (client_init s input) (w, Finished n)"
  shows "n = 0 \<and> start ops (fst (client_init s input)) = (False, w) \<and>
    con (protocol w) = new_connections \<and> cin w = input"
proof -
  have "client_run ops parse (client_init s input) x \<Longrightarrow> snd x = Finished n \<Longrightarrow>
      n = 0 \<and> start ops (fst (client_init s input)) = (False, fst x)" for x
  proof (induction rule: rtranclp_induct)
    case base
    then show ?case by (simp add: client_init_def)
  next
    case (step y z)
    from step.hyps(2) step.prems obtain v where v: "y = (v, Not_Started)" "n = 0" "start ops v = (False, fst z)"
      by (cases rule: client_step.cases) auto
    from step.hyps(1) v(1) have "y = client_init s input"
      by (induction rule: rtranclp_induct) (auto elim: client_step.cases)
    with v show ?case by simp
  qed
  from this [OF assms] have w: "n = 0" "start ops (fst (client_init s input)) = (False, w)" by auto
  then show ?thesis
    by (auto simp: start_def client_init_def Let_def case_prod_beta)
qed

theorem normal_exit_only_unconnected_witness:
  "\<exists>w. client_run (wire_ops\<lparr>sock_connect := \<lambda>s. (True, s)\<rparr>) (\<lambda>f. Inl Json_Parse_Error)
      (client_init (wire_of []) (input_of [])) (w, Finished 0) \<and>
    cout w = ''Starting connect to 127.0.0.1:'' @ to_string 7777 @ [newline] \<and> con (protocol w) = new_connections"
proof -
  let ?ops = "wire_ops\<lparr>sock_connect := \<lambda>s. (True, s)\<rparr>"
  obtain w where w: "start ?ops (fst (client_init (wire_of []) (input_of []))) = (False, w)"
    "cout w = ''Starting connect to 127.0.0.1:'' @ to_string 7777 @ [newline]"
    by (simp add: start_def connect_def client_init_def new_protocol_def new_connection_handler_def Let_def)
  then have "client_run ?ops (\<lambda>f. Inl Json_Parse_Error) (client_init (wire_of []) (input_of [])) (w, Finished 0)"
    by (auto simp: client_init_def intro: cannot_connect)
  with normal_exit_only_unconnected [OF this] w(2) show ?thesis by blast
qed

end
