(* ===== verification/EchoClient.thy ===== *)
theory EchoClient
  imports ClientLoops
begin

text \<open>
  The program of client/src/echoClient.cpp: a client that sends each line of the keyboard to a
  server and prints the line that comes back, until it is \<open>bye\<close>. It uses the line functions
  of \<open>ConnectionHandler\<close>. Texts for
  \<open>std::cerr\<close> are left out.
\<close>

section \<open>The code\<close>

record 's echo =
  e_handler :: "'s connection_handler"
  e_cin :: istream
  e_cout :: string

definition e_print :: "string \<Rightarrow> 's echo \<Rightarrow> 's echo" where
  "e_print text w = w\<lparr>e_cout := e_cout w @ text @ [newline]\<rparr>"

definition e_set_socket :: "'s \<Rightarrow> 's echo \<Rightarrow> 's echo" where
  "e_set_socket s w = w\<lparr>e_handler := (e_handler w)\<lparr>socket := s\<rparr>\<rparr>"

definition echo_turn :: "'s socket_ops \<Rightarrow> 's echo \<Rightarrow> 's echo turn option" where
  "echo_turn ops w =
     (let (buf, stream) = cin_getline 1024 (e_cin w);
          w = w\<lparr>e_cin := stream\<rparr>;
          line = string_of_buf buf;
          len = to_int32 (int (length line))
      in do {
        (ok, s) \<leftarrow> sendLine ops line (socket (e_handler w));
        let w = e_set_socket s w;
        if \<not> ok then Some (Ended (Returned (e_print disconnected_text w)))
        else do {
          let w = e_print (''Sent '' @ to_string (len + 1) @ '' bytes to server'') w;
          ((ok, answer), s) \<leftarrow> getLine ops [] (socket (e_handler w));
          let w = e_set_socket s w;
          if \<not> ok then Some (Ended (Returned (e_print disconnected_text w)))
          else
            let len = to_int32 (int (length answer)) in
            (case resize_answer answer of
               Inl e \<Rightarrow> Some (Ended (Crashed e w))
             | Inr answer \<Rightarrow>
                 let w = e_print (''Reply: '' @ answer @ '' '' @ to_string len @ '' bytes '' @ [newline]) w in
                 if answer = ''bye'' then Some (Ended (Returned (e_print (''Exiting...'' @ [newline]) w)))
                 else Some (Again w))
        }
      })"

partial_function (option) echo_loop :: "'s socket_ops \<Rightarrow> 's echo \<Rightarrow> 's echo outcome option" where
  "echo_loop ops w =
     do {
       t \<leftarrow> echo_turn ops w;
       case t of Again w' \<Rightarrow> echo_loop ops w' | Ended r \<Rightarrow> Some r
     }"

text \<open>
  \<open>atoi\<close> gives 0 without digits and is undefined out of range; the port is cut to a \<open>short\<close>.
\<close>

definition atoi :: "string \<Rightarrow> int result" where
  "atoi s = (case stoi s of
       Inr i \<Rightarrow> Inr i
     | Inl e \<Rightarrow> if e = Invalid_Argument then Inr 0 else Inl Undefined_Behaviour)"

definition to_short :: "int \<Rightarrow> int" where
  "to_short i = (i + 2 ^ 15) mod 2 ^ 16 - 2 ^ 15"

text \<open>The exit code of the program, and what is left of the process; None while it runs forever.\<close>

definition echo_main :: "'s socket_ops \<Rightarrow> string list \<Rightarrow> 's \<Rightarrow> istream \<Rightarrow> (int \<times> 's echo outcome) option" where
  "echo_main ops argv s input =
     (let w = \<lparr>e_handler = new_connection_handler [] 0 s, e_cin = input, e_cout = []\<rparr> in
      if length argv < 3 then Some (-1, Returned w)
      else
        (case atoi (argv ! 2) of
           Inl e \<Rightarrow> Some (-1, Crashed e w)
         | Inr n \<Rightarrow>
             let ((ok, printed), h) = connect ops (new_connection_handler (argv ! 1) (to_short n) s);
                 w = w\<lparr>e_handler := h, e_cout := printed\<rparr>
             in if \<not> ok then Some (1, Returned w)
                else do { r \<leftarrow> echo_loop ops w; Some (0, r) }))"

section \<open>Lemmas\<close>

lemma e_simps [simp]:
  "e_handler (e_print t w) = e_handler w" "e_cin (e_print t w) = e_cin w"
  "e_cout (e_print t w) = e_cout w @ t @ [newline]"
  "e_cin (e_set_socket s w) = e_cin w" "e_cout (e_set_socket s w) = e_cout w"
  "socket (e_handler (e_set_socket s w)) = s"
  by (simp_all add: e_print_def e_set_socket_def)

lemma echo_loop_again: "echo_turn ops w = Some (Again w') \<Longrightarrow> echo_loop ops w = echo_loop ops w'"
  by (subst echo_loop.simps) simp

lemma echo_loop_ended: "echo_turn ops w = Some (Ended r) \<Longrightarrow> echo_loop ops w = Some r"
  by (subst echo_loop.simps) simp

context tcp_socket begin

text \<open>
  A received line always holds its newline, so for lines below \<open>2 ^ 31\<close> the length never wraps.
\<close>

lemma getLine_result:
  "\<exists>ok answer s'. getLine ops [] s = Some ((ok, answer), s') \<and> (ok \<longrightarrow> answer \<noteq> [] \<and> length answer \<le> length (incoming s)) \<and>
     (ok \<longrightarrow> length (incoming s') < length (incoming s))"
proof (cases "newline \<in> set (incoming s)")
  case True
  then obtain f r where fr: "incoming s = f @ newline # r" "newline \<notin> set f" by (metis split_list_first)
  from getFrameAscii_ok [OF fr, of "[]"] obtain s' where
    "getLine ops [] s = Some ((True, filter (\<lambda>c. c \<noteq> nul) (f @ [newline])), s')" "incoming s' = r"
    by (auto simp: getLine_def)
  moreover have "length (filter (\<lambda>c. c \<noteq> nul) f) \<le> length f + length r"
    by (rule le_trans [OF length_filter_le]) simp
  ultimately show ?thesis using fr(1)
    by (intro exI [of _ True] exI [of _ "filter (\<lambda>c. c \<noteq> nul) (f @ [newline])"] exI [of _ s']) simp
next
  case False
  from getFrameAscii_closed [OF refl False, of "[]"] show ?thesis by (auto simp: getLine_def)
qed

lemma echo_turn_result:
  assumes small: "length (incoming (socket (e_handler w))) < 2 ^ 31"
  shows "\<exists>t. echo_turn ops w = Some t \<and> (\<forall>e w'. t \<noteq> Ended (Crashed e w')) \<and>
    (\<forall>w'. t = Again w' \<longrightarrow>
       length (incoming (socket (e_handler w'))) < length (incoming (socket (e_handler w))))"
proof -
  obtain buf stream where g: "cin_getline 1024 (e_cin w) = (buf, stream)" by fastforce
  obtain ok s where s: "sendLine ops (string_of_buf buf) (socket (e_handler w)) = Some (ok, s)"
    "incoming s = incoming (socket (e_handler w))"
    using sendFrameAscii_returns [of "string_of_buf buf" newline "socket (e_handler w)"]
    by (auto simp: sendLine_def)
  obtain ok' answer s' where s': "getLine ops [] s = Some ((ok', answer), s')" "ok' \<longrightarrow> answer \<noteq> []"
    "ok' \<longrightarrow> length answer \<le> length (incoming s)" "ok' \<longrightarrow> length (incoming s') < length (incoming s)"
    using getLine_result [of s] by blast
  show ?thesis
  proof (cases "ok \<and> ok'")
    case False
    with s s' show ?thesis by (cases ok; cases ok') (auto simp: echo_turn_def g Let_def)
  next
    case True
    with s'(2,3) s(2) small have "answer \<noteq> []" "length answer < 2 ^ 31" by simp_all
    then have "\<exists>a. resize_answer answer = Inr a"
      using resize_answer_snoc [of "butlast answer" "last answer"] by simp
    with True s s' show ?thesis by (auto simp: echo_turn_def g Let_def)
  qed
qed

lemma echo_loop_returns:
  assumes "length (incoming (socket (e_handler w))) < 2 ^ 31"
  shows "\<exists>w'. echo_loop ops w = Some (Returned w')"
  using assms
proof (induction "length (incoming (socket (e_handler w)))" arbitrary: w rule: less_induct)
  case less
  obtain t where t: "echo_turn ops w = Some t" "\<And>e w'. t \<noteq> Ended (Crashed e w')"
    "\<And>w'. t = Again w' \<Longrightarrow> length (incoming (socket (e_handler w'))) < length (incoming (socket (e_handler w)))"
    using echo_turn_result [OF less.prems] by metis
  show ?case
  proof (cases t)
    case (Again w')
    with less.hyps [OF t(3) [OF Again]] t(1) t(3) [OF Again] less.prems show ?thesis by (simp add: echo_loop_again)
  next
    case (Ended r)
    with t(1,2) show ?thesis by (cases r) (auto simp: echo_loop_ended)
  qed
qed

end

text \<open>What is printed for one line that comes back as it was sent.\<close>

definition transcript :: "string \<Rightarrow> string" where
  "transcript l = ''Sent '' @ to_string (int (length l) + 1) @ '' bytes to server'' @ [newline] @
     ''Reply: '' @ l @ '' '' @ to_string (int (length l) + 1) @ '' bytes '' @ [newline, newline]"

definition echo_line :: "string \<Rightarrow> bool" where
  "echo_line l \<longleftrightarrow> newline \<notin> set l \<and> nul \<notin> set l \<and> length l < 1024"

definition lines_text :: "string list \<Rightarrow> string" where
  "lines_text ls = concat (map (\<lambda>l. l @ [newline]) ls)"

lemma lines_text_simps [simp]:
  "lines_text [] = []" "lines_text (l # ls) = l @ [newline] @ lines_text ls"
  by (simp_all add: lines_text_def)

context open_socket begin

lemma echo_turn_echoed:
  assumes "writable (socket (e_handler w))" "echo_line l"
    and "e_cin w = \<lparr>rest = l @ newline # later, good = True\<rparr>"
    and "incoming (socket (e_handler w)) = l @ newline # r"
  shows "\<exists>w'. echo_turn ops w =
      Some (if l = ''bye'' then Ended (Returned (e_print (''Exiting...'' @ [newline]) w')) else Again w') \<and>
    writable (socket (e_handler w')) \<and> incoming (socket (e_handler w')) = r \<and>
    outgoing (socket (e_handler w')) = outgoing (socket (e_handler w)) @ l @ [newline] \<and>
    e_cin w' = \<lparr>rest = later, good = True\<rparr> \<and> e_cout w' = e_cout w @ transcript l"
proof -
  from assms(2,3) have g: "cin_getline 1024 (e_cin w) = (l, \<lparr>rest = later, good = True\<rparr>)"
    by (simp add: echo_line_def cin_getline_line)
  have line: "string_of_buf l = l" using assms(2) by (simp add: echo_line_def)
  obtain s where s: "sendLine ops l (socket (e_handler w)) = Some (True, s)" "writable s"
    "outgoing s = outgoing (socket (e_handler w)) @ l @ [newline]" "incoming s = l @ newline # r"
    using sendFrameAscii_ok [OF assms(1), of l newline] assms(2,4) sent_part_all [of l]
    by (auto simp: sendLine_def echo_line_def)
  have "filter (\<lambda>c. c \<noteq> nul) (l @ [newline]) = l @ [newline]"
    using assms(2) by (auto simp: echo_line_def filter_id_conv)
  then obtain s' where s': "getLine ops [] s = Some ((True, l @ [newline]), s')" "incoming s' = r"
    "outgoing s' = outgoing s" "writable s'"
    using getFrameAscii_ok [OF s(4), of "[]"] getFrameAscii_writable [OF s(4) _ s(2)] assms(2)
    by (auto simp: getLine_def echo_line_def)
  let ?w0 = "e_set_socket s (w\<lparr>e_cin := \<lparr>rest = later, good = True\<rparr>\<rparr>)"
  let ?w1 = "e_set_socket s' (e_print (''Sent '' @ to_string (int (length l) + 1) @ '' bytes to server'') ?w0)"
  let ?w2 = "e_print (''Reply: '' @ l @ '' '' @ to_string (int (length l) + 1) @ '' bytes '' @ [newline]) ?w1"
  have "echo_turn ops w =
      Some (if l = ''bye'' then Ended (Returned (e_print (''Exiting...'' @ [newline]) ?w2)) else Again ?w2)"
    using s(1) s'(1) resize_answer_snoc [of l newline] assms(2)
    by (simp add: echo_turn_def g line Let_def echo_line_def int_min_def int_max_def add.commute)
  then show ?thesis
    using s s' by (intro exI [of _ ?w2]) (simp add: transcript_def)
qed

lemma echo_loop_dialogue:
  assumes "writable (socket (e_handler w))" "list_all echo_line ls" "''bye'' \<notin> set ls"
    and "e_cin w = \<lparr>rest = lines_text (ls @ [''bye'']) @ later, good = True\<rparr>"
    and "incoming (socket (e_handler w)) = lines_text (ls @ [''bye'']) @ r"
  shows "\<exists>w'. echo_loop ops w = Some (Returned w') \<and>
    outgoing (socket (e_handler w')) = outgoing (socket (e_handler w)) @ lines_text (ls @ [''bye'']) \<and>
    e_cout w' = e_cout w @ concat (map transcript (ls @ [''bye''])) @ ''Exiting...'' @ [newline, newline] \<and>
    e_cin w' = \<lparr>rest = later, good = True\<rparr> \<and> incoming (socket (e_handler w')) = r"
  using assms
proof (induction ls arbitrary: w)
  case Nil
  have "echo_line ''bye''" by (simp add: echo_line_def)
  from echo_turn_echoed [OF Nil.prems(1) this, of later r] Nil.prems(4,5) obtain w' where
    "echo_turn ops w = Some (Ended (Returned (e_print (''Exiting...'' @ [newline]) w')))"
    "incoming (socket (e_handler w')) = r"
    "outgoing (socket (e_handler w')) = outgoing (socket (e_handler w)) @ ''bye'' @ [newline]"
    "e_cin w' = \<lparr>rest = later, good = True\<rparr>" "e_cout w' = e_cout w @ transcript ''bye''"
    by auto
  then show ?case
    using echo_loop_ended [of ops w] by (intro exI [of _ "e_print (''Exiting...'' @ [newline]) w'"]) simp
next
  case (Cons l ls)
  have l: "echo_line l" "l \<noteq> ''bye''" using Cons.prems(2,3) by auto
  from echo_turn_echoed [OF Cons.prems(1) l(1), of "lines_text (ls @ [''bye'']) @ later" "lines_text (ls @ [''bye'']) @ r"]
    Cons.prems(4,5) l(2) obtain w1 where
    w1: "echo_turn ops w = Some (Again w1)" "writable (socket (e_handler w1))"
    "incoming (socket (e_handler w1)) = lines_text (ls @ [''bye'']) @ r"
    "outgoing (socket (e_handler w1)) = outgoing (socket (e_handler w)) @ l @ [newline]"
    "e_cin w1 = \<lparr>rest = lines_text (ls @ [''bye'']) @ later, good = True\<rparr>" "e_cout w1 = e_cout w @ transcript l"
    by auto
  from Cons.IH [OF w1(2) _ _ w1(5,3)] Cons.prems(2,3) w1(4,6) show ?case
    by (simp add: echo_loop_again [OF w1(1)])
qed

end

section \<open>Properties\<close>

text \<open>
  The echo client always comes to an orderly end, whatever the keyboard does, and whatever the
  server sends in fewer than \<open>2 ^ 31\<close> bytes: with a port that is a number in range it returns
  one of its exit codes, and no received line can make the truncation of the reply fail.
\<close>

theorem echo_returns:
  assumes "tcp_socket ops incoming outgoing" "3 \<le> length argv \<longrightarrow> atoi (argv ! 2) = Inr n"
    and "length (incoming (snd (sock_connect ops s))) < 2 ^ 31"
  shows "\<exists>code w. echo_main ops argv s input = Some (code, Returned w) \<and> code \<in> {-1, 0, 1}"
proof -
  have run: "\<exists>w'. echo_loop ops w = Some (Returned w')" if "socket (e_handler w) = snd (sock_connect ops s)" for w
    using tcp_socket.echo_loop_returns [OF assms(1), of w] assms(3) that by simp
  obtain error s' where c: "sock_connect ops s = (error, s')" by fastforce
  show ?thesis
  proof (cases "length argv < 3 \<or> error")
    case True
    with assms(2) c show ?thesis
      by (auto simp: echo_main_def connect_def new_connection_handler_def Let_def)
  next
    case False
    let ?h = "\<lparr>host = argv ! 1, port = to_short n, socket = s'\<rparr>"
    let ?w = "\<lparr>e_handler = ?h, e_cin = input,
      e_cout = ''Starting connect to '' @ argv ! 1 @ '':'' @ to_string (to_short n) @ [newline]\<rparr>"
    obtain w' where "echo_loop ops ?w = Some (Returned w')" using run [of ?w] c by auto
    with False assms(2) c show ?thesis
      by (auto simp: echo_main_def connect_def new_connection_handler_def Let_def)
  qed
qed

text \<open>
  The dialogue with a server that answers every line with the same line: all lines up to and
  including the first \<open>bye\<close> are sent, each is shown with its reply and both byte counts, and
  the client exits after it, leaving the later input unread.
\<close>

theorem echo_dialogue:
  assumes "open_socket ops incoming outgoing writable" "writable (socket (e_handler w))"
    and "list_all echo_line ls" "''bye'' \<notin> set ls"
    and "e_cin w = \<lparr>rest = lines_text (ls @ [''bye'']) @ later, good = True\<rparr>"
    and "incoming (socket (e_handler w)) = lines_text (ls @ [''bye'']) @ r"
  shows "\<exists>w'. echo_loop ops w = Some (Returned w') \<and>
    outgoing (socket (e_handler w')) = outgoing (socket (e_handler w)) @ lines_text (ls @ [''bye'']) \<and>
    e_cout w' = e_cout w @ concat (map transcript (ls @ [''bye''])) @ ''Exiting...'' @ [newline, newline] \<and>
    e_cin w' = \<lparr>rest = later, good = True\<rparr> \<and> incoming (socket (e_handler w')) = r"
  by (rule open_socket.echo_loop_dialogue [OF assms])

theorem echo_dialogue_witness:
  "\<exists>w'. echo_loop wire_ops
      \<lparr>e_handler = new_connection_handler ''h'' 1 \<lparr>inbox = [''hi'' @ [newline, CHR ''b''], ''ye'' @ [newline]],
         outbox = [], mtu = 2, opened = True\<rparr>,
       e_cin = \<lparr>rest = ''hi'' @ [newline] @ ''bye'' @ [newline], good = True\<rparr>, e_cout = []\<rparr> = Some (Returned w') \<and>
    outbox (socket (e_handler w')) = ''hi'' @ [newline] @ ''bye'' @ [newline] \<and>
    e_cout w' = transcript ''hi'' @ transcript ''bye'' @ ''Exiting...'' @ [newline, newline]"
  using echo_dialogue [OF wire_is_open_socket, of
      "\<lparr>e_handler = new_connection_handler ''h'' 1 \<lparr>inbox = [''hi'' @ [newline, CHR ''b''], ''ye'' @ [newline]],
         outbox = [], mtu = 2, opened = True\<rparr>,
       e_cin = \<lparr>rest = ''hi'' @ [newline] @ ''bye'' @ [newline], good = True\<rparr>, e_cout = []\<rparr>" "[''hi'']" "[]" "[]"]
  by (auto simp: new_connection_handler_def wire_incoming_def echo_line_def)

end
