(* ===== verification/Json.thy ===== *)
theory Json
  imports Cpp_Strings "HOL-Library.List_Lexorder" "HOL-Library.Char_ord"
begin

text \<open>
  The values of the JSON library client/include/json.hpp (\<open>nlohmann::json\<close>) as far as the event
  file reader uses them: the value type, member access, iteration, and conversion to \<open>int\<close>
  and \<open>std::string\<close>. An object is a \<open>std::map\<close> and so a list sorted by its keys; keys compare
  bytewise. Floating-point numbers are a type of their own whose operations (the C library's
  \<open>strtod\<close>, the conversion to \<open>int\<close>, the library's text for a double) are parameters.
\<close>

section \<open>Values\<close>

datatype 'd json =
    JNull
  | JObject "(string \<times> 'd json) list"
  | JArray "'d json list"
  | JString string
  | JBoolean bool
  | JInteger int
  | JUnsigned int
  | JFloat 'd

datatype value_t =
  V_null | V_object | V_array | V_string | V_boolean | V_number_integer | V_number_unsigned | V_number_float

fun json_type :: "'d json \<Rightarrow> value_t" where
  "json_type JNull = V_null"
| "json_type (JObject m) = V_object"
| "json_type (JArray vs) = V_array"
| "json_type (JString s) = V_string"
| "json_type (JBoolean b) = V_boolean"
| "json_type (JInteger i) = V_number_integer"
| "json_type (JUnsigned i) = V_number_unsigned"
| "json_type (JFloat d) = V_number_float"

definition is_null :: "'d json \<Rightarrow> bool" where
  "is_null j \<longleftrightarrow> json_type j = V_null"

definition is_object :: "'d json \<Rightarrow> bool" where
  "is_object j \<longleftrightarrow> json_type j = V_object"

definition is_array :: "'d json \<Rightarrow> bool" where
  "is_array j \<longleftrightarrow> json_type j = V_array"

definition is_string :: "'d json \<Rightarrow> bool" where
  "is_string j \<longleftrightarrow> json_type j = V_string"

text \<open>What the code uses of \<open>double\<close>.\<close>

record 'd double_ops =
  dbl_zero :: 'd
  strtod :: "string \<Rightarrow> 'd"
  isfinite :: "'d \<Rightarrow> bool"
  dbl_to_int :: "'d \<Rightarrow> int result"
  dbl_to_chars :: "'d \<Rightarrow> string"

section \<open>The members of an object\<close>

text \<open>\<open>std::map::emplace\<close> keeps an existing member; \<open>operator[]\<close> then gives a reference to it.\<close>

fun obj_emplace :: "string \<Rightarrow> 'd json \<Rightarrow> (string \<times> 'd json) list \<Rightarrow> (string \<times> 'd json) list" where
  "obj_emplace k v [] = [(k, v)]"
| "obj_emplace k v ((k', v') # m) =
     (if k < k' then (k, v) # (k', v') # m
      else if k = k' then (k', v') # m
      else (k', v') # obj_emplace k v m)"

fun obj_assign :: "string \<Rightarrow> 'd json \<Rightarrow> (string \<times> 'd json) list \<Rightarrow> (string \<times> 'd json) list" where
  "obj_assign k v [] = []"
| "obj_assign k v ((k', v') # m) = (if k = k' then (k, v) # m else (k', v') # obj_assign k v m)"

definition obj_find :: "string \<Rightarrow> (string \<times> 'd json) list \<Rightarrow> 'd json" where
  "obj_find k m = (case map_of m k of Some v \<Rightarrow> v | None \<Rightarrow> JNull)"

text \<open>
  \<open>operator[]\<close> with a key on a value that is not constant: null becomes an empty object, a
  missing member is entered as null, any other value throws. The results are the member and
  the changed value.
\<close>

definition json_index :: "'d json \<Rightarrow> string \<Rightarrow> ('d json \<times> 'd json) result" where
  "json_index j key =
     (let j = (if is_null j then JObject [] else j) in
      case j of
        JObject m \<Rightarrow> let m = obj_emplace key JNull m in Inr (obj_find key m, JObject m)
      | _ \<Rightarrow> Inl Json_Type_Error)"

section \<open>Conversions\<close>

text \<open>
  Reading an \<open>int\<close> takes any number or boolean; a 64-bit integer is cut to 32 bits.
\<close>

fun get_int :: "'d double_ops \<Rightarrow> 'd json \<Rightarrow> int result" where
  "get_int fo (JUnsigned i) = Inr (to_int32 i)"
| "get_int fo (JInteger i) = Inr (to_int32 i)"
| "get_int fo (JFloat d) = dbl_to_int fo d"
| "get_int fo (JBoolean b) = Inr (if b then 1 else 0)"
| "get_int fo _ = Inl Json_Type_Error"

fun get_string :: "'d json \<Rightarrow> string result" where
  "get_string (JString s) = Inr s"
| "get_string _ = Inl Json_Type_Error"

section \<open>Iteration\<close>

text \<open>
  An iterator holds its container and a position: an index into an array or an object, or the
  position 0 (the value itself) or 1 (past it) of a primitive value. For null both ends are
  past the end.
\<close>

definition json_length :: "'d json \<Rightarrow> nat" where
  "json_length j = (case j of JObject m \<Rightarrow> length m | JArray vs \<Rightarrow> length vs | _ \<Rightarrow> 1)"

record 'd iter_impl =
  m_object :: "'d json"
  m_it :: nat

definition set_begin :: "'d json \<Rightarrow> 'd iter_impl" where
  "set_begin j = \<lparr>m_object = j, m_it = (if is_null j then 1 else 0)\<rparr>"

definition set_end :: "'d json \<Rightarrow> 'd iter_impl" where
  "set_end j = \<lparr>m_object = j, m_it = json_length j\<rparr>"

definition iter_deref :: "'d iter_impl \<Rightarrow> 'd json result" where
  "iter_deref it =
     (case m_object it of
        JObject m \<Rightarrow> if m_it it \<noteq> length m then Inr (snd (m ! m_it it)) else Inl Abort_Called
      | JArray vs \<Rightarrow> if m_it it \<noteq> length vs then Inr (vs ! m_it it) else Inl Abort_Called
      | JNull \<Rightarrow> Inl Json_Invalid_Iterator
      | j \<Rightarrow> if m_it it = 0 then Inr j else Inl Json_Invalid_Iterator)"

definition iter_next :: "'d iter_impl \<Rightarrow> 'd iter_impl" where
  "iter_next it = it\<lparr>m_it := Suc (m_it it)\<rparr>"

definition iter_key :: "'d iter_impl \<Rightarrow> string result" where
  "iter_key it =
     (case m_object it of JObject m \<Rightarrow> Inr (fst (m ! m_it it)) | _ \<Rightarrow> Inl Json_Invalid_Iterator)"

text \<open>
  A loop runs until its iterator equals the end iterator of the same container. The second
  test never holds, since iterators start at or before the end and move by one; it makes
  the loops total functions.
\<close>

definition at_end :: "'d iter_impl \<Rightarrow> bool" where
  "at_end it \<longleftrightarrow> m_it it = m_it (set_end (m_object it)) \<or> m_it it > m_it (set_end (m_object it))"

text \<open>
  \<open>items()\<close> pairs the iterator with an index, whose decimal text is the key of an array element
  and is kept until the index has changed. The key of a primitive value is empty.
\<close>

record 'd iteration_proxy_value =
  anchor :: "'d iter_impl"
  array_index :: nat
  array_index_last :: nat
  array_index_str :: string

definition proxy_begin :: "'d json \<Rightarrow> 'd iteration_proxy_value" where
  "proxy_begin container =
     \<lparr>anchor = set_begin container, array_index = 0, array_index_last = 0, array_index_str = ''0''\<rparr>"

definition proxy_next :: "'d iteration_proxy_value \<Rightarrow> 'd iteration_proxy_value" where
  "proxy_next p = p\<lparr>anchor := iter_next (anchor p), array_index := array_index p + 1\<rparr>"

definition proxy_key :: "'d iteration_proxy_value \<Rightarrow> (string \<times> 'd iteration_proxy_value) result" where
  "proxy_key p =
     (case m_object (anchor p) of
        JArray vs \<Rightarrow>
          let p = (if array_index p \<noteq> array_index_last p
                   then p\<lparr>array_index_str := to_string (int (array_index p)),
                          array_index_last := array_index p\<rparr>
                   else p)
          in Inr (array_index_str p, p)
      | JObject m \<Rightarrow> rbind (iter_key (anchor p)) (\<lambda>k. Inr (k, p))
      | _ \<Rightarrow> Inr ([], p))"

definition proxy_value :: "'d iteration_proxy_value \<Rightarrow> 'd json result" where
  "proxy_value p = iter_deref (anchor p)"

section \<open>Lemmas\<close>

text \<open>What the loops over a value see: its elements, and its items with their keys.\<close>

definition json_elements :: "'d json \<Rightarrow> 'd json list" where
  "json_elements j =
     (case j of JNull \<Rightarrow> [] | JObject m \<Rightarrow> List.map snd m | JArray vs \<Rightarrow> vs | _ \<Rightarrow> [j])"

definition json_items :: "'d json \<Rightarrow> (string \<times> 'd json) list" where
  "json_items j =
     (case j of
        JNull \<Rightarrow> []
      | JObject m \<Rightarrow> m
      | JArray vs \<Rightarrow> List.map (\<lambda>(i, v). (to_string (int i), v)) (enumerate 0 vs)
      | _ \<Rightarrow> [([], j)])"

lemma iter_positions:
  "m_object (set_begin j) = j" "m_object (iter_next it) = m_object it"
  "m_it (iter_next it) = Suc (m_it it)"
  "at_end it \<longleftrightarrow> json_length (m_object it) \<le> m_it it"
  by (auto simp: set_begin_def set_end_def iter_next_def at_end_def)

lemma elements_from_begin: "drop (m_it (set_begin j)) (json_elements j) = json_elements j"
  by (cases j) (simp_all add: set_begin_def is_null_def json_elements_def)

lemma iter_deref_inside:
  assumes "\<not> at_end it" "m_object it = JNull \<longrightarrow> 0 < m_it it"
  shows "m_it it < length (json_elements (m_object it))"
    and "iter_deref it = Inr (json_elements (m_object it) ! m_it it)"
  using assms by (auto simp: iter_positions json_length_def json_elements_def iter_deref_def
      split: json.splits)

lemma at_end_elements:
  assumes "m_object it = JNull \<longrightarrow> 0 < m_it it"
  shows "at_end it \<longleftrightarrow> length (json_elements (m_object it)) \<le> m_it it"
  using assms by (auto simp: iter_positions json_length_def json_elements_def split: json.splits)

text \<open>The text kept in a proxy is the text of the index it was made for.\<close>

definition proxy_ok :: "'d iteration_proxy_value \<Rightarrow> bool" where
  "proxy_ok p \<longleftrightarrow> array_index_str p = to_string (int (array_index_last p)) \<and>
     (m_object (anchor p) = JNull \<longrightarrow> 0 < m_it (anchor p)) \<and>
     (m_object (anchor p) \<noteq> JNull \<longrightarrow> array_index p = m_it (anchor p))"

lemma json_items_snd: "List.map snd (json_items j) = json_elements j"
proof -
  have "List.map snd (List.map (\<lambda>(i, v). (to_string (int i), v)) (enumerate n vs)) = vs" for n vs
    by (induction vs arbitrary: n) auto
  then show ?thesis by (cases j) (simp_all add: json_items_def json_elements_def)
qed

lemma json_items_length: "length (json_items j) = length (json_elements j)"
  by (metis json_items_snd length_map)

lemma nat_digits_0: "nat_digits 0 = ''0''"
  by code_simp

lemma proxy_begin_ok: "proxy_ok (proxy_begin j)"
  by (cases j) (auto simp: proxy_ok_def proxy_begin_def set_begin_def is_null_def to_string_def nat_digits_0)

lemma proxy_next_ok: "proxy_ok p \<Longrightarrow> proxy_ok (proxy_next p)"
  by (auto simp: proxy_ok_def proxy_next_def iter_next_def)

lemma proxy_item:
  assumes "proxy_ok p" "\<not> at_end (anchor p)"
  obtains p' where
    "proxy_value p = Inr (snd (json_items (m_object (anchor p)) ! m_it (anchor p)))"
    "proxy_key p = Inr (fst (json_items (m_object (anchor p)) ! m_it (anchor p)), p')"
    "proxy_ok p'" "anchor p' = anchor p"
proof -
  have null: "m_object (anchor p) = JNull \<longrightarrow> 0 < m_it (anchor p)"
    using assms(1) by (simp add: proxy_ok_def)
  note i = iter_deref_inside [OF assms(2) null]
  have "proxy_value p = Inr (snd (json_items (m_object (anchor p)) ! m_it (anchor p)))"
    using i by (simp add: proxy_value_def json_items_snd [symmetric])
  moreover have "\<exists>p'. proxy_key p = Inr (fst (json_items (m_object (anchor p)) ! m_it (anchor p)), p') \<and>
      proxy_ok p' \<and> anchor p' = anchor p"
    using assms(1) i(1) by (auto simp: proxy_key_def proxy_ok_def json_items_def json_elements_def
        iter_key_def Let_def nth_enumerate_eq split: json.splits)
  ultimately show ?thesis using that by blast
qed

lemma obj_emplace_present:
  "k \<in> fst ` set m \<Longrightarrow> sorted (map fst m) \<Longrightarrow> obj_emplace k v m = m"
proof (induction m)
  case (Cons kv m)
  obtain k' v' where kv: "kv = (k', v')" by (cases kv)
  show ?case
  proof (cases "k = k'")
    case False
    with Cons.prems kv have "k \<in> fst ` set m" "k' \<le> k" by auto
    with False Cons kv show ?thesis by auto
  qed (simp add: kv)
qed simp

lemma obj_emplace_last:
  "(\<And>k'. k' \<in> fst ` set m \<Longrightarrow> k' < k) \<Longrightarrow> obj_emplace k v m = m @ [(k, v)]"
proof (induction m)
  case (Cons kv m)
  obtain k' v' where kv: "kv = (k', v')" by (cases kv)
  have "k' < k" using Cons.prems [of k'] kv by simp
  then have "\<not> k < k'" "k \<noteq> k'" by auto
  with Cons kv show ?case by auto
qed simp

lemma obj_assign_last:
  "(\<And>k'. k' \<in> fst ` set m \<Longrightarrow> k' < k) \<Longrightarrow> obj_assign k v (m @ [(k, w)]) = m @ [(k, v)]"
proof (induction m)
  case (Cons kv m)
  obtain k' v' where kv: "kv = (k', v')" by (cases kv)
  have "k' < k" using Cons.prems [of k'] kv by simp
  then have "\<not> k < k'" "k \<noteq> k'" by auto
  with Cons kv show ?case by auto
qed simp

lemma json_index_present:
  assumes "map_of m k = Some v" "sorted (map fst m)"
  shows "json_index (JObject m) k = Inr (v, JObject m)"
proof -
  from assms(1) have "k \<in> fst ` set m" by (metis domI dom_map_of_conv_image_fst)
  with assms show ?thesis
    by (simp add: json_index_def is_null_def obj_emplace_present obj_find_def)
qed

lemma obj_emplace_keys: "fst ` set (obj_emplace k v m) = insert k (fst ` set m)"
  by (induction k v m rule: obj_emplace.induct) auto

lemma obj_emplace_sorted:
  "sorted (map fst m) \<Longrightarrow> distinct (map fst m) \<Longrightarrow>
     sorted (map fst (obj_emplace k v m)) \<and> distinct (map fst (obj_emplace k v m))"
proof (induction m)
  case (Cons kv m)
  obtain k' v' where kv: "kv = (k', v')" by (cases kv)
  have ne: "k \<noteq> k' \<Longrightarrow> \<not> k < k' \<Longrightarrow> k' < k" by auto
  from Cons kv ne show ?case
    using obj_emplace_keys [of k v m] by (auto simp: image_iff)
qed simp

end
