(* ===== verification/Json_Lexer.thy ===== *)
theory Json_Lexer
  imports Json "HOL-Library.Word"
begin

unbundle bit_operations_syntax

text \<open>
  The class \<open>lexer\<close> of client/include/json.hpp over the adapter \<open>input_stream_adapter\<close>: reading
  and putting back bytes, scanning strings, numbers, literals and comments. The bytes of the
  file are a list; \<open>None\<close> in \<open>current\<close> is end of file. The locale is the C locale, which the
  program never changes, so the decimal point is a dot.
\<close>

section \<open>State\<close>

datatype token_type =
    Uninitialized | Literal_True | Literal_False | Literal_Null
  | Value_String | Value_Unsigned | Value_Integer | Value_Float
  | Begin_Array | Begin_Object | End_Array | End_Object
  | Name_Separator | Value_Separator | Parse_Error | End_Of_Input | Literal_Or_Value

record position_t =
  chars_read_total :: nat
  chars_read_current_line :: nat
  lines_read :: nat

record 'd lexer =
  ia :: string
  ignore_comments :: bool
  current :: "char option"
  next_unget :: bool
  position :: position_t
  token_string :: string
  token_buffer :: string
  error_message :: string
  value_integer :: int
  value_unsigned :: int
  value_float :: 'd
  decimal_point_char :: char
  aborted :: bool

text \<open>
  \<open>aborted\<close> is no member of the class: it is set by an assertion that fails, and stays set. What a
  lexer does after that has no meaning; the parser turns the flag into \<open>Assertion_Failed\<close>.
\<close>

definition new_lexer :: "'d double_ops \<Rightarrow> string \<Rightarrow> bool \<Rightarrow> 'd lexer" where
  "new_lexer fo adapter comments =
     \<lparr>ia = adapter, ignore_comments = comments, current = None, next_unget = False,
      position = \<lparr>chars_read_total = 0, chars_read_current_line = 0, lines_read = 0\<rparr>,
      token_string = [], token_buffer = [], error_message = [], value_integer = 0,
      value_unsigned = 0, value_float = dbl_zero fo, decimal_point_char = CHR ''.'', aborted = False\<rparr>"

definition json_assert :: "bool \<Rightarrow> 'd lexer \<Rightarrow> 'd lexer" where
  "json_assert b lx = lx\<lparr>aborted := aborted lx \<or> \<not> b\<rparr>"

lemma json_assert_fields [simp]:
  "ia (json_assert b lx) = ia lx" "ignore_comments (json_assert b lx) = ignore_comments lx"
  "current (json_assert b lx) = current lx" "next_unget (json_assert b lx) = next_unget lx"
  "position (json_assert b lx) = position lx" "token_string (json_assert b lx) = token_string lx"
  "token_buffer (json_assert b lx) = token_buffer lx" "error_message (json_assert b lx) = error_message lx"
  "value_integer (json_assert b lx) = value_integer lx" "value_unsigned (json_assert b lx) = value_unsigned lx"
  "value_float (json_assert b lx) = value_float lx"
  "decimal_point_char (json_assert b lx) = decimal_point_char lx"
  "aborted (json_assert b lx) \<longleftrightarrow> aborted lx \<or> \<not> b"
  by (simp_all add: json_assert_def)

lemma json_assert_True [simp]: "json_assert True lx = lx"
  by (simp add: json_assert_def)

abbreviation byte :: "char \<Rightarrow> nat" where "byte c \<equiv> of_char c"
abbreviation quote_char :: char where "quote_char \<equiv> CHR 0x22"
abbreviation backslash :: char where "backslash \<equiv> CHR 0x5C"
abbreviation carriage_return :: char where "carriage_return \<equiv> CHR 0x0D"

section \<open>Input management\<close>

text \<open>\<open>to_char_type\<close> cuts an \<open>int\<close> to a byte, which makes end of file (-1) the byte 255.\<close>

definition to_char_type :: "char option \<Rightarrow> char" where
  "to_char_type c = (case c of None \<Rightarrow> CHR 0xFF | Some c \<Rightarrow> c)"

definition get_character :: "string \<Rightarrow> char option \<times> string" where
  "get_character sb = (case sb of [] \<Rightarrow> (None, []) | c # cs \<Rightarrow> (Some c, cs))"

definition reset :: "'d lexer \<Rightarrow> 'd lexer" where
  "reset lx = lx\<lparr>token_buffer := [], token_string := [to_char_type (current lx)]\<rparr>"

definition count_char :: "position_t \<Rightarrow> position_t" where
  "count_char p = p\<lparr>chars_read_total := chars_read_total p + 1,
     chars_read_current_line := chars_read_current_line p + 1\<rparr>"

definition get :: "'d lexer \<Rightarrow> 'd lexer" where
  "get lx =
     (let lx = lx\<lparr>position := count_char (position lx)\<rparr>;
          lx = (if next_unget lx then lx\<lparr>next_unget := False\<rparr>
                else case get_character (ia lx) of (c, sb) \<Rightarrow> lx\<lparr>current := c, ia := sb\<rparr>);
          lx = (case current lx of None \<Rightarrow> lx
                | Some c \<Rightarrow> lx\<lparr>token_string := token_string lx @ [c]\<rparr>)
      in if current lx = Some newline
         then lx\<lparr>position := (position lx)\<lparr>lines_read := lines_read (position lx) + 1,
                                        chars_read_current_line := 0\<rparr>\<rparr>
         else lx)"

definition unget :: "'d lexer \<Rightarrow> 'd lexer" where
  "unget lx =
     (let p = position lx;
          p = p\<lparr>chars_read_total := chars_read_total p - 1\<rparr>;
          p = (if chars_read_current_line p = 0
               then if lines_read p > 0 then p\<lparr>lines_read := lines_read p - 1\<rparr> else p
               else p\<lparr>chars_read_current_line := chars_read_current_line p - 1\<rparr>);
          lx = lx\<lparr>next_unget := True, position := p\<rparr>
      in if current lx \<noteq> None
         then let lx = json_assert (token_string lx \<noteq> []) lx
              in lx\<lparr>token_string := butlast (token_string lx)\<rparr>
         else lx)"

definition add :: "char \<Rightarrow> 'd lexer \<Rightarrow> 'd lexer" where
  "add c lx = lx\<lparr>token_buffer := token_buffer lx @ [c]\<rparr>"

definition add_current :: "'d lexer \<Rightarrow> 'd lexer" where
  "add_current lx = add (to_char_type (current lx)) lx"

definition fail :: "string \<Rightarrow> 'd lexer \<Rightarrow> bool \<times> 'd lexer" where
  "fail msg lx = (False, lx\<lparr>error_message := msg\<rparr>)"

definition parse_failure :: "string \<Rightarrow> 'd lexer \<Rightarrow> token_type \<times> 'd lexer" where
  "parse_failure msg lx = (Parse_Error, lx\<lparr>error_message := msg\<rparr>)"

text \<open>What is still to be read, a byte put back included; every successful \<open>get\<close> shortens it.\<close>

definition pending :: "'d lexer \<Rightarrow> string" where
  "pending lx =
     (if next_unget lx then (case current lx of None \<Rightarrow> [] | Some c \<Rightarrow> [c]) else []) @ ia lx"

abbreviation remaining :: "'d lexer \<Rightarrow> nat" where
  "remaining lx \<equiv> length (pending lx)"

lemma pending_json_assert [simp]: "pending (json_assert b lx) = pending lx"
  by (simp add: pending_def)

lemma get_fields:
  "current (get lx) = (if next_unget lx then current lx else fst (get_character (ia lx)))"
  "ia (get lx) = (if next_unget lx then ia lx else snd (get_character (ia lx)))"
  "next_unget (get lx) = False"
  "token_buffer (get lx) = token_buffer lx"
  "ignore_comments (get lx) = ignore_comments lx"
  "chars_read_total (position (get lx)) = chars_read_total (position lx) + 1"
  by (simp_all add: get_def count_char_def Let_def split: option.split prod.split)

lemma unget_fields:
  "current (unget lx) = current lx" "ia (unget lx) = ia lx" "next_unget (unget lx) = True"
  "token_buffer (unget lx) = token_buffer lx" "ignore_comments (unget lx) = ignore_comments lx"
  "chars_read_total (position (unget lx)) = chars_read_total (position lx) - 1"
  by (simp_all add: unget_def Let_def)

lemma get_shortens: "current (get lx) = Some c \<Longrightarrow> remaining (get lx) < remaining lx"
  by (auto simp: pending_def get_fields get_character_def split: list.splits if_splits)

lemma get_le: "remaining (get lx) \<le> remaining lx"
  by (simp add: pending_def get_fields get_character_def split: list.split)

lemma unget_get_le: "remaining (unget (get lx)) \<le> remaining lx"
  by (simp add: pending_def get_fields unget_fields get_character_def split: list.split)

lemma pending_add [simp]: "pending (add c lx) = pending lx"
  by (simp add: add_def pending_def)

lemma pending_add_current [simp]: "pending (add_current lx) = pending lx"
  by (simp add: add_current_def)

lemma pending_error_message [simp]: "pending (lx\<lparr>error_message := msg\<rparr>) = pending lx"
  by (simp add: pending_def)

lemma pending_fail [simp]: "pending (snd (fail msg lx)) = pending lx" "fst (fail msg lx) = False"
  by (simp_all add: fail_def pending_def)

section \<open>Strings\<close>

definition hex_digit :: "char \<Rightarrow> nat option" where
  "hex_digit c =
     (let b = byte c in
      if 0x30 \<le> b \<and> b \<le> 0x39 then Some (b - 0x30)
      else if 0x41 \<le> b \<and> b \<le> 0x46 then Some (b - 0x37)
      else if 0x61 \<le> b \<and> b \<le> 0x66 then Some (b - 0x57)
      else None)"

fun codepoint_loop :: "nat list \<Rightarrow> nat \<Rightarrow> 'd lexer \<Rightarrow> nat option \<times> 'd lexer" where
  "codepoint_loop [] codepoint lx = (Some codepoint, lx)"
| "codepoint_loop (factor # factors) codepoint lx =
     (let lx = get lx in
      case current lx of
        None \<Rightarrow> (None, lx)
      | Some c \<Rightarrow>
          (case hex_digit c of
             None \<Rightarrow> (None, lx)
           | Some d \<Rightarrow> codepoint_loop factors (codepoint + push_bit factor d) lx))"

text \<open>The result -1 of the code is \<open>None\<close> here.\<close>

definition get_codepoint :: "'d lexer \<Rightarrow> nat option \<times> 'd lexer" where
  "get_codepoint lx =
     (case codepoint_loop [12, 8, 4, 0] 0 (json_assert (current lx = Some (CHR ''u'')) lx) of
        (None, lx) \<Rightarrow> (None, lx)
      | (Some codepoint, lx) \<Rightarrow> (Some codepoint, json_assert (codepoint \<le> 0xFFFF) lx))"

definition utf8_error :: string where
  "utf8_error = ''invalid string: ill-formed UTF-8 byte''"

fun range_loop :: "(nat \<times> nat) list \<Rightarrow> 'd lexer \<Rightarrow> bool \<times> 'd lexer" where
  "range_loop [] lx = (True, lx)"
| "range_loop ((lo, hi) # ranges) lx =
     (let lx = get lx in
      case current lx of
        None \<Rightarrow> fail utf8_error lx
      | Some c \<Rightarrow>
          if lo \<le> byte c \<and> byte c \<le> hi then range_loop ranges (add_current lx)
          else fail utf8_error lx)"

text \<open>The list of the code holds the bounds of the ranges one after the other.\<close>

definition next_byte_in_range :: "(nat \<times> nat) list \<Rightarrow> 'd lexer \<Rightarrow> bool \<times> 'd lexer" where
  "next_byte_in_range ranges lx =
     range_loop ranges (add_current
       (json_assert (2 * length ranges = 2 \<or> 2 * length ranges = 4 \<or> 2 * length ranges = 6) lx))"

definition simple_escape :: "char \<Rightarrow> char option" where
  "simple_escape c =
     (if c = quote_char then Some quote_char
      else if c = backslash then Some backslash
      else if c = CHR ''/'' then Some (CHR ''/'')
      else if c = CHR ''b'' then Some (CHR 0x08)
      else if c = CHR ''f'' then Some (CHR 0x0C)
      else if c = CHR ''n'' then Some newline
      else if c = CHR ''r'' then Some carriage_return
      else if c = CHR ''t'' then Some (CHR 0x09)
      else None)"

text \<open>The UTF-8 bytes of a code point, which the calculation before has made a proper one.\<close>

definition add_codepoint :: "nat \<Rightarrow> 'd lexer \<Rightarrow> 'd lexer" where
  "add_codepoint codepoint lx =
     (let lx = json_assert (codepoint \<le> 0x10FFFF) lx in
      if codepoint < 0x80 then add (char_of codepoint) lx
      else if codepoint \<le> 0x7FF then
        add (char_of (0x80 OR (codepoint AND 0x3F)))
          (add (char_of (0xC0 OR drop_bit 6 codepoint)) lx)
      else if codepoint \<le> 0xFFFF then
        add (char_of (0x80 OR (codepoint AND 0x3F)))
          (add (char_of (0x80 OR (drop_bit 6 codepoint AND 0x3F)))
            (add (char_of (0xE0 OR drop_bit 12 codepoint)) lx))
      else
        add (char_of (0x80 OR (codepoint AND 0x3F)))
          (add (char_of (0x80 OR (drop_bit 6 codepoint AND 0x3F)))
            (add (char_of (0x80 OR (drop_bit 12 codepoint AND 0x3F)))
              (add (char_of (0xF0 OR drop_bit 18 codepoint)) lx))))"

definition apostrophe_u :: string where
  "apostrophe_u = [CHR 0x27, backslash, CHR ''u'', CHR 0x27]"

definition codepoint_error :: string where
  "codepoint_error = ''invalid string: '' @ apostrophe_u @ '' must be followed by 4 hex digits''"

definition high_surrogate_error :: string where
  "high_surrogate_error =
     ''invalid string: surrogate U+D800..U+DBFF must be followed by U+DC00..U+DFFF''"

definition low_surrogate_error :: string where
  "low_surrogate_error =
     ''invalid string: surrogate U+DC00..U+DFFF must follow U+D800..U+DBFF''"

definition scan_low_surrogate :: "nat \<Rightarrow> 'd lexer \<Rightarrow> bool \<times> 'd lexer" where
  "scan_low_surrogate codepoint1 lx =
     (let lx = get lx in
      if current lx \<noteq> Some backslash then fail high_surrogate_error lx
      else let lx = get lx in
      if current lx \<noteq> Some (CHR ''u'') then fail high_surrogate_error lx
      else case get_codepoint lx of
        (None, lx) \<Rightarrow> fail codepoint_error lx
      | (Some codepoint2, lx) \<Rightarrow>
          if 0xDC00 \<le> codepoint2 \<and> codepoint2 \<le> 0xDFFF
          then (True, add_codepoint (push_bit 10 codepoint1 + codepoint2 - 0x35FDC00) lx)
          else fail high_surrogate_error lx)"

definition scan_unicode_escape :: "'d lexer \<Rightarrow> bool \<times> 'd lexer" where
  "scan_unicode_escape lx =
     (case get_codepoint lx of
        (None, lx) \<Rightarrow> fail codepoint_error lx
      | (Some codepoint1, lx) \<Rightarrow>
          if 0xD800 \<le> codepoint1 \<and> codepoint1 \<le> 0xDBFF then scan_low_surrogate codepoint1 lx
          else if 0xDC00 \<le> codepoint1 \<and> codepoint1 \<le> 0xDFFF then fail low_surrogate_error lx
          else (True, add_codepoint codepoint1 lx))"

definition scan_escape :: "'d lexer \<Rightarrow> bool \<times> 'd lexer" where
  "scan_escape lx =
     (let lx = get lx in
      case current lx of
        None \<Rightarrow> fail ''invalid string: forbidden character after backslash'' lx
      | Some c \<Rightarrow>
          (case simple_escape c of
             Some b \<Rightarrow> (True, add b lx)
           | None \<Rightarrow>
               if c = CHR ''u'' then scan_unicode_escape lx
               else fail ''invalid string: forbidden character after backslash'' lx))"

text \<open>The message for a control character names it and its escape sequences.\<close>

definition control_names :: "string list" where
  "control_names =
     [''NUL'', ''SOH'', ''STX'', ''ETX'', ''EOT'', ''ENQ'', ''ACK'', ''BEL'',
      ''BS'', ''HT'', ''LF'', ''VT'', ''FF'', ''CR'', ''SO'', ''SI'',
      ''DLE'', ''DC1'', ''DC2'', ''DC3'', ''DC4'', ''NAK'', ''SYN'', ''ETB'',
      ''CAN'', ''EM'', ''SUB'', ''ESC'', ''FS'', ''GS'', ''RS'', ''US'']"

definition hex_upper :: "nat \<Rightarrow> char" where
  "hex_upper n = ''0123456789ABCDEF'' ! n"

definition control_message :: "char \<Rightarrow> string" where
  "control_message c =
     (let b = byte c; code = [CHR ''0'', CHR ''0'', hex_upper (b div 16), hex_upper (b mod 16)]
      in ''invalid string: control character U+'' @ code @ '' ('' @ control_names ! b @
         '') must be escaped to '' @ [backslash, CHR ''u''] @ code @
         (if b = 0x08 then '' or '' @ [backslash, CHR ''b'']
          else if b = 0x09 then '' or '' @ [backslash, CHR ''t'']
          else if b = 0x0A then '' or '' @ [backslash, CHR ''n'']
          else if b = 0x0C then '' or '' @ [backslash, CHR ''f'']
          else if b = 0x0D then '' or '' @ [backslash, CHR ''r'']
          else []))"

text \<open>The first byte of a sequence fixes the ranges of the bytes after it.\<close>

definition scan_utf8 :: "char \<Rightarrow> 'd lexer \<Rightarrow> bool \<times> 'd lexer" where
  "scan_utf8 c lx =
     (let b = byte c in
      if 0xC2 \<le> b \<and> b \<le> 0xDF then next_byte_in_range [(0x80, 0xBF)] lx
      else if b = 0xE0 then next_byte_in_range [(0xA0, 0xBF), (0x80, 0xBF)] lx
      else if 0xE1 \<le> b \<and> b \<le> 0xEC \<or> b = 0xEE \<or> b = 0xEF then
        next_byte_in_range [(0x80, 0xBF), (0x80, 0xBF)] lx
      else if b = 0xED then next_byte_in_range [(0x80, 0x9F), (0x80, 0xBF)] lx
      else if b = 0xF0 then next_byte_in_range [(0x90, 0xBF), (0x80, 0xBF), (0x80, 0xBF)] lx
      else if 0xF1 \<le> b \<and> b \<le> 0xF3 then
        next_byte_in_range [(0x80, 0xBF), (0x80, 0xBF), (0x80, 0xBF)] lx
      else if b = 0xF4 then next_byte_in_range [(0x80, 0x8F), (0x80, 0xBF), (0x80, 0xBF)] lx
      else fail utf8_error lx)"

definition scan_ascii :: "char \<Rightarrow> 'd lexer \<Rightarrow> bool \<times> 'd lexer" where
  "scan_ascii c lx =
     (if byte c \<le> 0x1F then fail (control_message c) lx else (True, add_current lx))"

definition scan_character :: "char \<Rightarrow> 'd lexer \<Rightarrow> bool \<times> 'd lexer" where
  "scan_character c lx =
     (if c = backslash then scan_escape lx
      else if byte c \<le> 0x7F then scan_ascii c lx
      else scan_utf8 c lx)"

lemma codepoint_loop_le: "remaining (snd (codepoint_loop fs cp lx)) \<le> remaining lx"
proof (induction fs cp lx rule: codepoint_loop.induct)
  case (2 f fs cp lx)
  show ?case
  proof (cases "current (get lx)")
    case None
    then show ?thesis by (simp add: get_le)
  next
    case (Some c)
    note IH = "2.IH" [OF refl Some]
    show ?thesis
      using IH get_le [of lx] Some by (auto simp: Let_def split: option.split intro: order_trans)
  qed
qed simp

lemma range_loop_le: "remaining (snd (range_loop rs lx)) \<le> remaining lx"
proof (induction rs lx rule: range_loop.induct)
  case (2 lo hi rs lx)
  show ?case
  proof (cases "current (get lx)")
    case None
    then show ?thesis by (simp add: get_le)
  next
    case (Some c)
    note IH = "2.IH" [OF refl Some]
    show ?thesis
      using IH get_le [of lx] Some by (auto simp: Let_def intro: order_trans)
  qed
qed simp

lemma next_byte_in_range_le: "remaining (snd (next_byte_in_range rs lx)) \<le> remaining lx"
  unfolding next_byte_in_range_def by (rule order_trans [OF range_loop_le]) simp

lemma pending_add_codepoint [simp]: "pending (add_codepoint cp lx) = pending lx"
  by (simp add: add_codepoint_def Let_def)

lemma get_codepoint_le: "remaining (snd (get_codepoint lx)) \<le> remaining lx"
  using codepoint_loop_le [of "[12, 8, 4, 0]" 0 "json_assert (current lx = Some (CHR ''u'')) lx"]
  by (auto simp: get_codepoint_def split: prod.split option.split)

lemma scan_low_surrogate_le: "remaining (snd (scan_low_surrogate cp lx)) \<le> remaining lx"
proof -
  have "remaining (snd (get_codepoint (get (get lx)))) \<le> remaining lx"
    by (meson get_codepoint_le get_le order_trans)
  then show ?thesis
    using get_le [of lx] get_le [of "get lx"]
    by (auto simp: scan_low_surrogate_def Let_def split: prod.split option.split)
qed

lemma scan_unicode_escape_le: "remaining (snd (scan_unicode_escape lx)) \<le> remaining lx"
  using get_codepoint_le [of lx] order_trans [OF scan_low_surrogate_le]
  by (auto simp: scan_unicode_escape_def split: prod.split option.split)

lemma scan_escape_le: "remaining (snd (scan_escape lx)) \<le> remaining lx"
  using get_le [of lx] scan_unicode_escape_le [of "get lx"]
  by (auto simp: scan_escape_def Let_def split: option.split)

lemma scan_character_le: "remaining (snd (scan_character c lx)) \<le> remaining lx"
  by (simp add: scan_character_def scan_ascii_def scan_utf8_def Let_def scan_escape_le
      next_byte_in_range_le)

function scan_string_loop :: "'d lexer \<Rightarrow> token_type \<times> 'd lexer" where
  "scan_string_loop lx =
     (let lx = get lx in
      case current lx of
        None \<Rightarrow> parse_failure ''invalid string: missing closing quote'' lx
      | Some c \<Rightarrow>
          if c = quote_char then (Value_String, lx)
          else case scan_character c lx of
            (ok, lx) \<Rightarrow> if ok then scan_string_loop lx else (Parse_Error, lx))"
  by pat_completeness auto
termination
proof (relation "measure remaining", goal_cases)
  case (2 lx x c ok y)
  then show ?case
    using get_shortens [of lx c] scan_character_le [of c "get lx"]
    by (metis in_measure order_le_less_trans snd_conv)
qed simp

definition scan_string :: "'d lexer \<Rightarrow> token_type \<times> 'd lexer" where
  "scan_string lx =
     (let lx = reset lx in scan_string_loop (json_assert (current lx = Some quote_char) lx))"

section \<open>Comments\<close>

function skip_line_comment :: "'d lexer \<Rightarrow> 'd lexer" where
  "skip_line_comment lx =
     (let lx = get lx in
      case current lx of
        None \<Rightarrow> lx
      | Some c \<Rightarrow>
          if c = newline \<or> c = carriage_return \<or> c = nul then lx else skip_line_comment lx)"
  by pat_completeness auto
termination
  by (relation "measure remaining") (auto intro: get_shortens)

definition unclosed_comment :: string where
  "unclosed_comment = ''invalid comment; missing closing '' @ [CHR 0x27, CHR ''*'', CHR ''/'', CHR 0x27]"

function skip_block_comment :: "'d lexer \<Rightarrow> bool \<times> 'd lexer" where
  "skip_block_comment lx =
     (let lx = get lx in
      case current lx of
        None \<Rightarrow> fail unclosed_comment lx
      | Some c \<Rightarrow>
          if c = nul then fail unclosed_comment lx
          else if c = CHR ''*'' then
            let lx = get lx in
            if current lx = Some (CHR ''/'') then (True, lx) else skip_block_comment (unget lx)
          else skip_block_comment lx)"
  by pat_completeness auto
termination
proof (relation "measure remaining", goal_cases)
  case (2 lx x c y)
  then show ?case
    using get_shortens [of lx c] unget_get_le [of "get lx"] by simp
next
  case (3 lx x c)
  then show ?case using get_shortens [of lx c] by simp
qed simp

definition scan_comment :: "'d lexer \<Rightarrow> bool \<times> 'd lexer" where
  "scan_comment lx =
     (let lx = get lx in
      if current lx = Some (CHR ''/'') then (True, skip_line_comment lx)
      else if current lx = Some (CHR ''*'') then skip_block_comment lx
      else fail (''invalid comment; expecting '' @ [CHR 0x27, CHR ''/'', CHR 0x27] @ '' or ''
                 @ [CHR 0x27, CHR ''*'', CHR 0x27] @ '' after '' @ [CHR 0x27, CHR ''/'', CHR 0x27]) lx)"

declare scan_string_loop.simps [simp del] skip_line_comment.simps [simp del]
  skip_block_comment.simps [simp del]

lemma scan_string_loop_le: "remaining (snd (scan_string_loop lx)) \<le> remaining lx"
proof (induction lx rule: scan_string_loop.induct)
  case (1 lx)
  show ?case
  proof (cases "current (get lx)")
    case None
    then show ?thesis
      by (subst scan_string_loop.simps) (simp add: get_le parse_failure_def)
  next
    case (Some c)
    obtain ok lx' where sc: "scan_character c (get lx) = (ok, lx')" by fastforce
    have "remaining lx' \<le> remaining lx"
      using scan_character_le [of c "get lx"] get_le [of lx] sc by simp
    then show ?thesis
      using "1.IH" [OF refl Some _ sc [symmetric]] Some sc get_le [of lx]
      by (subst scan_string_loop.simps) (auto simp: Let_def intro: order_trans)
  qed
qed

lemma skip_line_comment_le: "remaining (skip_line_comment lx) \<le> remaining lx"
proof (induction lx rule: skip_line_comment.induct)
  case (1 lx)
  show ?case
    using "1.IH" get_le [of lx]
    by (subst skip_line_comment.simps) (auto simp: Let_def split: option.split intro: order_trans)
qed

lemma skip_block_comment_le: "remaining (snd (skip_block_comment lx)) \<le> remaining lx"
proof (induction lx rule: skip_block_comment.induct)
  case (1 lx)
  show ?case
  proof (cases "current (get lx)")
    case None
    then show ?thesis by (subst skip_block_comment.simps) (simp add: get_le)
  next
    case (Some c)
    note IH = "1.IH" [OF refl Some]
    have "remaining (get (get lx)) \<le> remaining lx" "remaining (unget (get (get lx))) \<le> remaining lx"
      using get_le [of lx] get_le [of "get lx"] unget_get_le [of "get lx"] by linarith+
    then show ?thesis
      using IH get_le [of lx] Some
      by (subst skip_block_comment.simps) (auto simp: Let_def intro: order_trans)
  qed
qed

lemma scan_comment_le: "remaining (snd (scan_comment lx)) \<le> remaining lx"
  using get_le [of lx] skip_line_comment_le [of "get lx"] skip_block_comment_le [of "get lx"]
  by (auto simp: scan_comment_def Let_def)

section \<open>Numbers\<close>

text \<open>
  One definition per label of the state machine, from the last state to the first. The C
  conversions fail (\<open>errno\<close>) outside 64 bits; the number is then read as a double.
\<close>

definition strtoull :: "string \<Rightarrow> int option" where
  "strtoull s = (let x = int (digits_val s) in if x < 2 ^ 64 then Some x else None)"

definition strtoll :: "string \<Rightarrow> int option" where
  "strtoll s =
     (let x = (if s \<noteq> [] \<and> hd s = CHR ''-'' then - int (digits_val (tl s)) else int (digits_val s))
      in if - (2 ^ 63) \<le> x \<and> x < 2 ^ 63 then Some x else None)"

text \<open>
  Where the conversions stop reading (\<open>endptr\<close>, as an index): behind the longest beginning of the
  text that is a number. For \<open>strtod\<close> this is a decimal numeral; \<open>token_buffer\<close> holds digits, signs,
  the decimal point and the exponent letter only, so no hexadecimal number, infinity or NaN.
\<close>

definition sign_length :: "string \<Rightarrow> nat" where
  "sign_length s = (if s \<noteq> [] \<and> hd s \<in> {CHR ''+'', CHR ''-''} then 1 else 0)"

definition integer_end :: "string \<Rightarrow> nat" where
  "integer_end s =
     (let spaces = length (takeWhile is_space s);
          t = drop spaces s;
          ds = takeWhile is_digit (drop (sign_length t) t)
      in if ds = [] then 0 else spaces + sign_length t + length ds)"

definition fraction_length :: "char \<Rightarrow> string \<Rightarrow> nat" where
  "fraction_length point s =
     (if s \<noteq> [] \<and> hd s = point then 1 + length (takeWhile is_digit (tl s)) else 0)"

definition exponent_length :: "string \<Rightarrow> nat" where
  "exponent_length s =
     (if s \<noteq> [] \<and> hd s \<in> {CHR ''e'', CHR ''E''} then
        (let sg = sign_length (tl s); ds = takeWhile is_digit (drop sg (tl s))
         in if ds = [] then 0 else 1 + sg + length ds)
      else 0)"

definition strtod_end :: "string \<Rightarrow> nat" where
  "strtod_end s =
     (let sg = length (takeWhile is_space s) + sign_length (dropWhile is_space s);
          t = drop sg s;
          whole = length (takeWhile is_digit t);
          fraction = fraction_length (CHR ''.'') (drop whole t)
      in if whole = 0 \<and> fraction \<le> 1 then 0
         else sg + whole + fraction + exponent_length (drop (whole + fraction) t))"

definition float_token :: "'d double_ops \<Rightarrow> 'd lexer \<Rightarrow> token_type \<times> 'd lexer" where
  "float_token fo lx =
     (let lx = lx\<lparr>value_float := strtod fo (token_buffer lx)\<rparr>
      in (Value_Float, json_assert (strtod_end (token_buffer lx) = length (token_buffer lx)) lx))"

definition scan_number_done :: "'d double_ops \<Rightarrow> token_type \<Rightarrow> 'd lexer \<Rightarrow> token_type \<times> 'd lexer" where
  "scan_number_done fo number_type lx =
     (let lx = unget lx in
      if number_type = Value_Unsigned then
        let lx = json_assert (integer_end (token_buffer lx) = length (token_buffer lx)) lx in
        (case strtoull (token_buffer lx) of
           Some x \<Rightarrow> (Value_Unsigned, lx\<lparr>value_unsigned := x\<rparr>)
         | None \<Rightarrow> float_token fo lx)
      else if number_type = Value_Integer then
        let lx = json_assert (integer_end (token_buffer lx) = length (token_buffer lx)) lx in
        (case strtoll (token_buffer lx) of
           Some x \<Rightarrow> (Value_Integer, lx\<lparr>value_integer := x\<rparr>)
         | None \<Rightarrow> float_token fo lx)
      else float_token fo lx)"

definition digit_next :: "'d lexer \<Rightarrow> bool" where
  "digit_next lx \<longleftrightarrow> (case current lx of None \<Rightarrow> False | Some c \<Rightarrow> is_digit c)"

function scan_number_any2 :: "'d double_ops \<Rightarrow> token_type \<Rightarrow> 'd lexer \<Rightarrow> token_type \<times> 'd lexer" where
  "scan_number_any2 fo number_type lx =
     (let lx = get lx in
      if digit_next lx then scan_number_any2 fo number_type (add_current lx)
      else scan_number_done fo number_type lx)"
  by pat_completeness auto
termination
  by (relation "measure (\<lambda>(_, _, lx). remaining lx)")
    (auto simp: digit_next_def split: option.splits intro: get_shortens)

definition scan_number_sign :: "'d double_ops \<Rightarrow> token_type \<Rightarrow> 'd lexer \<Rightarrow> token_type \<times> 'd lexer" where
  "scan_number_sign fo number_type lx =
     (let lx = get lx in
      if digit_next lx then scan_number_any2 fo number_type (add_current lx)
      else parse_failure ''invalid number; expected digit after exponent sign'' lx)"

definition exponent_error :: string where
  "exponent_error = ''invalid number; expected '' @ [CHR 0x27, CHR ''+'', CHR 0x27] @ '', ''
     @ [CHR 0x27, CHR ''-'', CHR 0x27] @ '', or digit after exponent''"

definition scan_number_exponent :: "'d double_ops \<Rightarrow> 'd lexer \<Rightarrow> token_type \<times> 'd lexer" where
  "scan_number_exponent fo lx =
     (let number_type = Value_Float; lx = get lx in
      if current lx = Some (CHR ''+'') \<or> current lx = Some (CHR ''-'')
      then scan_number_sign fo number_type (add_current lx)
      else if digit_next lx then scan_number_any2 fo number_type (add_current lx)
      else parse_failure exponent_error lx)"

definition exponent_next :: "'d lexer \<Rightarrow> bool" where
  "exponent_next lx \<longleftrightarrow> current lx = Some (CHR ''e'') \<or> current lx = Some (CHR ''E'')"

function scan_number_decimal2 :: "'d double_ops \<Rightarrow> token_type \<Rightarrow> 'd lexer \<Rightarrow> token_type \<times> 'd lexer" where
  "scan_number_decimal2 fo number_type lx =
     (let lx = get lx in
      if digit_next lx then scan_number_decimal2 fo number_type (add_current lx)
      else if exponent_next lx then scan_number_exponent fo (add_current lx)
      else scan_number_done fo number_type lx)"
  by pat_completeness auto
termination
  by (relation "measure (\<lambda>(_, _, lx). remaining lx)")
    (auto simp: digit_next_def split: option.splits intro: get_shortens)

definition scan_number_decimal1 :: "'d double_ops \<Rightarrow> 'd lexer \<Rightarrow> token_type \<times> 'd lexer" where
  "scan_number_decimal1 fo lx =
     (let number_type = Value_Float; lx = get lx in
      if digit_next lx then scan_number_decimal2 fo number_type (add_current lx)
      else parse_failure (''invalid number; expected digit after ''
                          @ [CHR 0x27, CHR ''.'', CHR 0x27]) lx)"

function scan_number_any1 :: "'d double_ops \<Rightarrow> token_type \<Rightarrow> 'd lexer \<Rightarrow> token_type \<times> 'd lexer" where
  "scan_number_any1 fo number_type lx =
     (let lx = get lx in
      if digit_next lx then scan_number_any1 fo number_type (add_current lx)
      else if current lx = Some (CHR ''.'')
      then scan_number_decimal1 fo (add (decimal_point_char lx) lx)
      else if exponent_next lx then scan_number_exponent fo (add_current lx)
      else scan_number_done fo number_type lx)"
  by pat_completeness auto
termination
  by (relation "measure (\<lambda>(_, _, lx). remaining lx)")
    (auto simp: digit_next_def split: option.splits intro: get_shortens)

definition scan_number_zero :: "'d double_ops \<Rightarrow> token_type \<Rightarrow> 'd lexer \<Rightarrow> token_type \<times> 'd lexer" where
  "scan_number_zero fo number_type lx =
     (let lx = get lx in
      if current lx = Some (CHR ''.'')
      then scan_number_decimal1 fo (add (decimal_point_char lx) lx)
      else if exponent_next lx then scan_number_exponent fo (add_current lx)
      else scan_number_done fo number_type lx)"

definition scan_number_minus :: "'d double_ops \<Rightarrow> 'd lexer \<Rightarrow> token_type \<times> 'd lexer" where
  "scan_number_minus fo lx =
     (let number_type = Value_Integer; lx = get lx in
      if current lx = Some (CHR ''0'') then scan_number_zero fo number_type (add_current lx)
      else if digit_next lx then scan_number_any1 fo number_type (add_current lx)
      else parse_failure (''invalid number; expected digit after ''
                          @ [CHR 0x27, CHR ''-'', CHR 0x27]) lx)"

text \<open>
  The first byte is a minus sign or a digit: the default of the switch asserts that it is not
  reached, and would go on with the label after it.
\<close>

definition scan_number :: "'d double_ops \<Rightarrow> 'd lexer \<Rightarrow> token_type \<times> 'd lexer" where
  "scan_number fo lx =
     (let lx = reset lx; number_type = Value_Unsigned in
      if current lx = Some (CHR ''-'') then scan_number_minus fo (add_current lx)
      else if current lx = Some (CHR ''0'') then scan_number_zero fo number_type (add_current lx)
      else if digit_next lx then scan_number_any1 fo number_type (add_current lx)
      else scan_number_minus fo (json_assert False lx))"

declare scan_number_any2.simps [simp del] scan_number_decimal2.simps [simp del]
  scan_number_any1.simps [simp del]

section \<open>Literals and the scanner\<close>

fun scan_literal_loop :: "string \<Rightarrow> token_type \<Rightarrow> 'd lexer \<Rightarrow> token_type \<times> 'd lexer" where
  "scan_literal_loop [] return_type lx = (return_type, lx)"
| "scan_literal_loop (c # cs) return_type lx =
     (let lx = get lx in
      if to_char_type (current lx) \<noteq> c then parse_failure ''invalid literal'' lx
      else scan_literal_loop cs return_type lx)"

definition scan_literal :: "string \<Rightarrow> token_type \<Rightarrow> 'd lexer \<Rightarrow> token_type \<times> 'd lexer" where
  "scan_literal literal_text return_type lx =
     scan_literal_loop (tl literal_text) return_type
       (json_assert (to_char_type (current lx) = hd literal_text) lx)"

definition skip_bom :: "'d lexer \<Rightarrow> bool \<times> 'd lexer" where
  "skip_bom lx =
     (let lx = get lx in
      if current lx = Some (CHR 0xEF) then
        let lx = get lx in
        if current lx \<noteq> Some (CHR 0xBB) then (False, lx)
        else let lx = get lx in (current lx = Some (CHR 0xBF), lx)
      else (True, unget lx))"

definition is_json_space :: "char \<Rightarrow> bool" where
  "is_json_space c \<longleftrightarrow> c = CHR '' '' \<or> c = CHR 0x09 \<or> c = newline \<or> c = carriage_return"

function skip_whitespace :: "'d lexer \<Rightarrow> 'd lexer" where
  "skip_whitespace lx =
     (let lx = get lx in
      case current lx of
        None \<Rightarrow> lx
      | Some c \<Rightarrow> if is_json_space c then skip_whitespace lx else lx)"
  by pat_completeness auto
termination
  by (relation "measure remaining") (auto intro: get_shortens)

declare skip_whitespace.simps [simp del]

lemma skip_whitespace_le: "remaining (skip_whitespace lx) \<le> remaining lx"
proof (induction lx rule: skip_whitespace.induct)
  case (1 lx)
  show ?case
    using "1.IH" get_le [of lx]
    by (subst skip_whitespace.simps) (auto simp: Let_def split: option.split intro: order_trans)
qed

lemma skip_whitespace_shortens:
  "current (skip_whitespace lx) = Some c \<Longrightarrow> remaining (skip_whitespace lx) < remaining lx"
proof (induction lx rule: skip_whitespace.induct)
  case (1 lx)
  show ?case
  proof (cases "current (get lx)")
    case None
    with "1.prems" show ?thesis by (simp add: skip_whitespace.simps [of lx])
  next
    case (Some d)
    then show ?thesis
      using "1.IH" [OF refl Some] "1.prems" get_shortens [OF Some]
      by (auto simp: skip_whitespace.simps [of lx] Let_def split: if_splits)
  qed
qed

function skip_comments :: "'d lexer \<Rightarrow> bool \<times> 'd lexer" where
  "skip_comments lx =
     (if ignore_comments lx \<and> current lx = Some (CHR ''/'') then
        case scan_comment lx of
          (ok, lx) \<Rightarrow> if ok then skip_comments (skip_whitespace lx) else (False, lx)
      else (True, lx))"
  by pat_completeness auto
termination
proof (relation "measure (\<lambda>lx. if current lx = None then 0 else Suc (remaining lx))", goal_cases)
  case (2 lx ok y)
  then have "remaining y \<le> remaining lx" by (metis scan_comment_le snd_conv)
  with 2 show ?case
    using skip_whitespace_shortens [of y] by fastforce
qed simp

declare skip_comments.simps [simp del]

definition scan_token :: "'d double_ops \<Rightarrow> 'd lexer \<Rightarrow> token_type \<times> 'd lexer" where
  "scan_token fo lx =
     (case current lx of
        None \<Rightarrow> (End_Of_Input, lx)
      | Some c \<Rightarrow>
          if c = CHR ''['' then (Begin_Array, lx)
          else if c = CHR '']'' then (End_Array, lx)
          else if c = CHR ''{'' then (Begin_Object, lx)
          else if c = CHR ''}'' then (End_Object, lx)
          else if c = CHR '':'' then (Name_Separator, lx)
          else if c = CHR '','' then (Value_Separator, lx)
          else if c = CHR ''t'' then scan_literal ''true'' Literal_True lx
          else if c = CHR ''f'' then scan_literal ''false'' Literal_False lx
          else if c = CHR ''n'' then scan_literal ''null'' Literal_Null lx
          else if c = quote_char then scan_string lx
          else if c = CHR ''-'' \<or> is_digit c then scan_number fo lx
          else if c = nul then (End_Of_Input, lx)
          else parse_failure ''invalid literal'' lx)"

definition scan_after_bom :: "'d double_ops \<Rightarrow> 'd lexer \<Rightarrow> token_type \<times> 'd lexer" where
  "scan_after_bom fo lx =
     (case skip_comments (skip_whitespace lx) of
        (ok, lx) \<Rightarrow> if ok then scan_token fo lx else (Parse_Error, lx))"

definition scan :: "'d double_ops \<Rightarrow> 'd lexer \<Rightarrow> token_type \<times> 'd lexer" where
  "scan fo lx =
     (if chars_read_total (position lx) = 0 then
        case skip_bom lx of
          (ok, lx) \<Rightarrow>
            if ok then scan_after_bom fo lx
            else parse_failure ''invalid BOM; must be 0xEF 0xBB 0xBF if given'' lx
      else scan_after_bom fo lx)"

text \<open>The text of the last token, control characters written out, for error messages.\<close>

definition get_token_string :: "'d lexer \<Rightarrow> string" where
  "get_token_string lx =
     concat (List.map (\<lambda>c. if byte c \<le> 0x1F
                 then ''<U+'' @ [CHR ''0'', CHR ''0'', hex_upper (byte c div 16), hex_upper (byte c mod 16)]
                      @ ''>''
                 else [c]) (token_string lx))"

section \<open>Every scan shortens the input\<close>

lemma pending_parse_failure [simp]:
  "pending (snd (parse_failure msg lx)) = pending lx" "fst (parse_failure msg lx) = Parse_Error"
  by (simp_all add: parse_failure_def)

lemma pending_reset [simp]: "pending (reset lx) = pending lx"
  by (simp add: reset_def pending_def)

lemma pending_number_values [simp]:
  "pending (lx\<lparr>value_unsigned := x\<rparr>) = pending lx"
  "pending (lx\<lparr>value_integer := x\<rparr>) = pending lx"
  "pending (lx\<lparr>value_float := d\<rparr>) = pending lx"
  by (simp_all add: pending_def)

lemma scan_number_done_le: "remaining (snd (scan_number_done fo nt (get lx))) \<le> remaining lx"
  using unget_get_le [of lx]
  by (simp add: scan_number_done_def float_token_def Let_def split: option.split)

named_theorems scan_bounds \<open>no scan function lengthens the input\<close>

lemma scan_number_any2_le [scan_bounds]: "remaining (snd (scan_number_any2 fo nt lx)) \<le> remaining lx"
proof (induction fo nt lx rule: scan_number_any2.induct)
  case (1 fo nt lx)
  then show ?case
    using get_le [of lx] scan_number_done_le [of fo nt lx]
    by (subst scan_number_any2.simps) (auto simp: Let_def intro: order_trans)
qed

lemma scan_number_sign_le [scan_bounds]: "remaining (snd (scan_number_sign fo nt lx)) \<le> remaining lx"
  using get_le [of lx] scan_number_any2_le [of fo nt "add_current (get lx)"]
  by (simp add: scan_number_sign_def Let_def)

lemma scan_number_exponent_le [scan_bounds]: "remaining (snd (scan_number_exponent fo lx)) \<le> remaining lx"
  using get_le [of lx] scan_number_any2_le [of fo Value_Float "add_current (get lx)"]
    scan_number_sign_le [of fo Value_Float "add_current (get lx)"]
  by (simp add: scan_number_exponent_def Let_def)

lemma scan_number_decimal2_le [scan_bounds]:
  "remaining (snd (scan_number_decimal2 fo nt lx)) \<le> remaining lx"
proof (induction fo nt lx rule: scan_number_decimal2.induct)
  case (1 fo nt lx)
  then show ?case
    using get_le [of lx] scan_number_done_le [of fo nt lx]
      scan_number_exponent_le [of fo "add_current (get lx)"]
    by (subst scan_number_decimal2.simps) (auto simp: Let_def intro: order_trans)
qed

lemma scan_number_decimal1_le [scan_bounds]: "remaining (snd (scan_number_decimal1 fo lx)) \<le> remaining lx"
  using get_le [of lx] scan_number_decimal2_le [of fo Value_Float "add_current (get lx)"]
  by (simp add: scan_number_decimal1_def Let_def)

lemma scan_number_any1_le [scan_bounds]: "remaining (snd (scan_number_any1 fo nt lx)) \<le> remaining lx"
proof (induction fo nt lx rule: scan_number_any1.induct)
  case (1 fo nt lx)
  then show ?case
    using get_le [of lx] scan_number_done_le [of fo nt lx]
      scan_number_exponent_le [of fo "add_current (get lx)"]
      scan_number_decimal1_le [of fo "add (decimal_point_char (get lx)) (get lx)"]
    by (subst scan_number_any1.simps) (auto simp: Let_def intro: order_trans)
qed

lemma scan_number_zero_le [scan_bounds]: "remaining (snd (scan_number_zero fo nt lx)) \<le> remaining lx"
  using get_le [of lx] scan_number_done_le [of fo nt lx]
    scan_number_exponent_le [of fo "add_current (get lx)"]
    scan_number_decimal1_le [of fo "add (decimal_point_char (get lx)) (get lx)"]
  by (simp add: scan_number_zero_def Let_def)

lemma scan_number_minus_le [scan_bounds]: "remaining (snd (scan_number_minus fo lx)) \<le> remaining lx"
  using get_le [of lx] scan_number_zero_le [of fo Value_Integer "add_current (get lx)"]
    scan_number_any1_le [of fo Value_Integer "add_current (get lx)"]
  by (simp add: scan_number_minus_def Let_def)

lemma scan_number_le [scan_bounds]: "remaining (snd (scan_number fo lx)) \<le> remaining lx"
  using scan_number_minus_le [of fo "add_current (reset lx)"] scan_number_minus_le [of fo "json_assert False (reset lx)"]
    scan_number_zero_le [of fo Value_Unsigned "add_current (reset lx)"]
    scan_number_any1_le [of fo Value_Unsigned "add_current (reset lx)"]
  by (simp add: scan_number_def Let_def)

lemma scan_literal_loop_le: "remaining (snd (scan_literal_loop cs t lx)) \<le> remaining lx"
proof (induction cs t lx rule: scan_literal_loop.induct)
  case (2 c cs t lx)
  then show ?case using get_le [of lx] by (auto simp: Let_def intro: order_trans)
qed simp

lemma scan_literal_le [scan_bounds]: "remaining (snd (scan_literal cs t lx)) \<le> remaining lx"
  unfolding scan_literal_def by (rule order_trans [OF scan_literal_loop_le]) simp

lemma scan_string_le [scan_bounds]: "remaining (snd (scan_string lx)) \<le> remaining lx"
  unfolding scan_string_def Let_def by (rule order_trans [OF scan_string_loop_le]) simp

lemma scan_token_le: "remaining (snd (scan_token fo lx)) \<le> remaining lx"
  by (simp add: scan_token_def scan_bounds split: option.split)

lemma skip_comments_le: "remaining (snd (skip_comments lx)) \<le> remaining lx"
proof (induction lx rule: skip_comments.induct)
  case (1 lx)
  obtain ok y where sc: "scan_comment lx = (ok, y)" by fastforce
  have "remaining y \<le> remaining lx" "remaining (skip_whitespace y) \<le> remaining y"
    using scan_comment_le [of lx] sc skip_whitespace_le [of y] by simp_all
  with "1.IH" [OF _ sc [symmetric]] sc show ?case
    by (subst skip_comments.simps) auto
qed

lemma skip_comments_shortens:
  "skip_comments lx = (True, y) \<Longrightarrow> current y \<noteq> None \<Longrightarrow> y = lx \<or> remaining y < remaining lx"
proof (induction lx rule: skip_comments.induct)
  case (1 lx)
  show ?case
  proof (cases "ignore_comments lx \<and> current lx = Some (CHR ''/'')")
    case False
    with "1.prems"(1) have "y = lx" by (subst (asm) skip_comments.simps) auto
    then show ?thesis ..
  next
    case True
    obtain ok z where sc: "scan_comment lx = (ok, z)" by fastforce
    with True "1.prems"(1) have ok: ok and rec: "skip_comments (skip_whitespace z) = (True, y)"
      by (subst (asm) skip_comments.simps, simp split: if_splits)+
    have "remaining z \<le> remaining lx" using scan_comment_le [of lx] sc by simp
    with "1.IH" [OF True sc [symmetric] ok rec "1.prems"(2)] "1.prems"(2)
    show ?thesis
      using skip_whitespace_le [of z] skip_whitespace_shortens [of z] by fastforce
  qed
qed

lemma skip_bom_le: "remaining (snd (skip_bom lx)) \<le> remaining lx"
proof -
  have "remaining (get (get (get lx))) \<le> remaining lx"
    by (meson get_le order_trans)
  moreover have "remaining (get (get lx)) \<le> remaining lx"
    by (meson get_le order_trans)
  ultimately show ?thesis
    using unget_get_le [of lx] by (simp add: skip_bom_def Let_def)
qed

lemma scan_after_bom_le: "remaining (snd (scan_after_bom fo lx)) \<le> remaining lx"
proof -
  obtain ok y where sc: "skip_comments (skip_whitespace lx) = (ok, y)" by fastforce
  then have "remaining y \<le> remaining lx"
    using skip_comments_le [of "skip_whitespace lx"] skip_whitespace_le [of lx] by simp
  then show ?thesis
    using scan_token_le [of fo y] sc by (simp add: scan_after_bom_def)
qed

lemma scan_after_bom_shortens:
  assumes "fst (scan_after_bom fo lx) \<notin> {Parse_Error, End_Of_Input}"
  shows "remaining (snd (scan_after_bom fo lx)) < remaining lx"
proof -
  obtain ok y where sc: "skip_comments (skip_whitespace lx) = (ok, y)" by fastforce
  with assms have ok and "fst (scan_token fo y) \<noteq> End_Of_Input"
    by (auto simp: scan_after_bom_def split: if_splits)
  then have "current y \<noteq> None" by (cases "current y") (simp_all add: scan_token_def)
  then have "remaining y < remaining lx"
    using skip_comments_shortens [of "skip_whitespace lx" y] sc skip_whitespace_shortens [of lx]
      skip_whitespace_le [of lx] \<open>ok\<close> by auto
  then show ?thesis
    using scan_token_le [of fo y] sc \<open>ok\<close> by (simp add: scan_after_bom_def)
qed

lemma scan_le: "remaining (snd (scan fo lx)) \<le> remaining lx"
  using skip_bom_le [of lx] order_trans [OF scan_after_bom_le]
  by (auto simp: scan_def scan_after_bom_le split: prod.split)

lemma scan_shortens:
  assumes "fst (scan fo lx) \<notin> {Parse_Error, End_Of_Input}"
  shows "remaining (snd (scan fo lx)) < remaining lx"
proof (cases "chars_read_total (position lx) = 0")
  case False
  with assms show ?thesis using scan_after_bom_shortens [of fo lx] by (simp add: scan_def)
next
  case True
  obtain ok y where sb: "skip_bom lx = (ok, y)" by fastforce
  with assms True have ok by (auto simp: scan_def split: if_splits)
  with assms True sb have "remaining (snd (scan_after_bom fo y)) < remaining y"
    by (intro scan_after_bom_shortens) (simp add: scan_def)
  then show ?thesis
    using skip_bom_le [of lx] sb True \<open>ok\<close> by (simp add: scan_def)
qed

end
