(* ===== verification/Json_Dump.thy ===== *)
theory Json_Dump
  imports Json_Lexer
begin

unbundle bit_operations_syntax

text \<open>
  The class \<open>serializer\<close> of client/include/json.hpp and \<open>basic_json::dump\<close>: JSON text of a
  value, with and without indentation. The output adapter appends to a string. The fixed-size
  buffers have their sizes, and an access outside them is undefined behaviour. A failed
  \<open>JSON_ASSERT\<close> is the value \<open>Abort_Called\<close>; the assertions of \<open>dump\<close> that an iterator has reached
  the last member or element hold by the recursion over the list and are not written. The
  locale is the C locale.
\<close>

section \<open>State\<close>

datatype error_handler_t = Strict | Replace | Ignore

record serializer =
  outp :: string
  number_buffer :: string
  indent_char :: char
  indent_string :: string
  error_handler :: error_handler_t

definition new_serializer :: "string \<Rightarrow> char \<Rightarrow> error_handler_t \<Rightarrow> serializer" where
  "new_serializer s ichar handler =
     \<lparr>outp = s, number_buffer = replicate 64 nul, indent_char = ichar,
      indent_string = replicate 512 ichar, error_handler = handler\<rparr>"

definition write_characters :: "string \<Rightarrow> serializer \<Rightarrow> serializer" where
  "write_characters cs s = s\<lparr>outp := outp s @ cs\<rparr>"

section \<open>The UTF-8 decoder\<close>

definition utf8d :: "nat list" where
  "utf8d =
    [0, 0, 0, 0, 0, 0, 0, 0, 0, 0, 0, 0, 0, 0, 0, 0, 0, 0, 0, 0, 0, 0, 0, 0, 0, 0, 0, 0, 0, 0, 0, 0,
     0, 0, 0, 0, 0, 0, 0, 0, 0, 0, 0, 0, 0, 0, 0, 0, 0, 0, 0, 0, 0, 0, 0, 0, 0, 0, 0, 0, 0, 0, 0, 0,
     0, 0, 0, 0, 0, 0, 0, 0, 0, 0, 0, 0, 0, 0, 0, 0, 0, 0, 0, 0, 0, 0, 0, 0, 0, 0, 0, 0, 0, 0, 0, 0,
     0, 0, 0, 0, 0, 0, 0, 0, 0, 0, 0, 0, 0, 0, 0, 0, 0, 0, 0, 0, 0, 0, 0, 0, 0, 0, 0, 0, 0, 0, 0, 0,
     1, 1, 1, 1, 1, 1, 1, 1, 1, 1, 1, 1, 1, 1, 1, 1, 9, 9, 9, 9, 9, 9, 9, 9, 9, 9, 9, 9, 9, 9, 9, 9,
     7, 7, 7, 7, 7, 7, 7, 7, 7, 7, 7, 7, 7, 7, 7, 7, 7, 7, 7, 7, 7, 7, 7, 7, 7, 7, 7, 7, 7, 7, 7, 7,
     8, 8, 2, 2, 2, 2, 2, 2, 2, 2, 2, 2, 2, 2, 2, 2, 2, 2, 2, 2, 2, 2, 2, 2, 2, 2, 2, 2, 2, 2, 2, 2,
     0xA, 0x3, 0x3, 0x3, 0x3, 0x3, 0x3, 0x3, 0x3, 0x3, 0x3, 0x3, 0x3, 0x4, 0x3, 0x3,
     0xB, 0x6, 0x6, 0x6, 0x5, 0x8, 0x8, 0x8, 0x8, 0x8, 0x8, 0x8, 0x8, 0x8, 0x8, 0x8,
     0x0, 0x1, 0x2, 0x3, 0x5, 0x8, 0x7, 0x1, 0x1, 0x1, 0x4, 0x6, 0x1, 0x1, 0x1, 0x1,
     1, 1, 1, 1, 1, 1, 1, 1, 1, 1, 1, 1, 1, 1, 1, 1, 1, 0, 1, 1, 1, 1, 1, 0, 1, 0, 1, 1, 1, 1, 1, 1,
     1, 2, 1, 1, 1, 1, 1, 2, 1, 2, 1, 1, 1, 1, 1, 1, 1, 1, 1, 1, 1, 1, 1, 2, 1, 1, 1, 1, 1, 1, 1, 1,
     1, 2, 1, 1, 1, 1, 1, 1, 1, 2, 1, 1, 1, 1, 1, 1, 1, 1, 1, 1, 1, 1, 1, 3, 1, 3, 1, 1, 1, 1, 1, 1,
     1, 3, 1, 1, 1, 1, 1, 3, 1, 3, 1, 1, 1, 1, 1, 1, 1, 3, 1, 1, 1, 1, 1, 1, 1, 1, 1, 1, 1, 1, 1, 1]"

definition decode :: "nat \<Rightarrow> 32 word \<Rightarrow> nat \<Rightarrow> (nat \<times> 32 word) result" where
  "decode state codep b =
     (if \<not> b < length utf8d then Inl Abort_Called
      else
        let type = utf8d ! b;
            codep = (if state \<noteq> 0 then (of_nat b AND 0x3F) OR push_bit 6 codep
                     else drop_bit type 0xFF AND of_nat b);
            index = 256 + state * 16 + type
        in if \<not> index < 400 then Inl Abort_Called else Inr (utf8d ! index, codep))"

section \<open>Strings\<close>

text \<open>
  The local variables of \<open>dump_escaped\<close>. \<open>buffer\<close> is the part of \<open>string_buffer\<close> written so
  far, so its length is \<open>bytes\<close>.
\<close>

record escape_state =
  ser :: serializer
  codepoint :: "32 word"
  state :: nat
  buffer :: string
  bytes_after_last_accept :: nat
  undumped_chars :: nat

abbreviation buffer_size :: nat where "buffer_size \<equiv> 512"

definition put :: "string \<Rightarrow> escape_state \<Rightarrow> escape_state result" where
  "put cs es =
     (if length (buffer es) + length cs \<le> buffer_size then Inr (es\<lparr>buffer := buffer es @ cs\<rparr>)
      else Inl Undefined_Behaviour)"

text \<open>\<open>snprintf\<close> also writes a NUL, which the next write_characters overwrites.\<close>

definition put_formatted :: "string \<Rightarrow> escape_state \<Rightarrow> escape_state result" where
  "put_formatted cs es =
     (if length (buffer es) + length cs + 1 \<le> buffer_size then Inr (es\<lparr>buffer := buffer es @ cs\<rparr>)
      else Inl Undefined_Behaviour)"

definition hex_lower :: "nat \<Rightarrow> char" where
  "hex_lower n = ''0123456789abcdef'' ! n"

definition u_escape :: "16 word \<Rightarrow> string" where
  "u_escape w =
     (let n = unat w in
      [backslash, CHR ''u'', hex_lower (n div 4096), hex_lower (n div 256 mod 16),
       hex_lower (n div 16 mod 16), hex_lower (n mod 16)])"

definition flush :: "escape_state \<Rightarrow> escape_state" where
  "flush es =
     (if buffer_size - length (buffer es) < 13
      then es\<lparr>ser := write_characters (buffer es) (ser es), buffer := []\<rparr> else es)"

definition put_codepoint :: "bool \<Rightarrow> char \<Rightarrow> escape_state \<Rightarrow> escape_state result" where
  "put_codepoint ensure_ascii c es =
     (let cp = codepoint es in
      if cp = 0x08 then put [backslash, CHR ''b''] es
      else if cp = 0x09 then put [backslash, CHR ''t''] es
      else if cp = 0x0A then put [backslash, CHR ''n''] es
      else if cp = 0x0C then put [backslash, CHR ''f''] es
      else if cp = 0x0D then put [backslash, CHR ''r''] es
      else if cp = 0x22 then put [backslash, quote_char] es
      else if cp = 0x5C then put [backslash, backslash] es
      else if cp \<le> 0x1F \<or> ensure_ascii \<and> cp \<ge> 0x7F then
        if cp \<le> 0xFFFF then put_formatted (u_escape (ucast cp)) es
        else put_formatted (u_escape (ucast (0xD7C0 + drop_bit 10 cp)) @
                            u_escape (ucast (0xDC00 + (cp AND 0x3FF)))) es
      else put [c] es)"

definition accept_byte :: "bool \<Rightarrow> char \<Rightarrow> escape_state \<Rightarrow> escape_state result" where
  "accept_byte ensure_ascii c es =
     rbind (put_codepoint ensure_ascii c es) (\<lambda>es.
       let es = flush es in
       Inr (es\<lparr>bytes_after_last_accept := length (buffer es), undumped_chars := 0\<rparr>))"

definition replacement :: "bool \<Rightarrow> string" where
  "replacement ensure_ascii =
     (if ensure_ascii then backslash # ''ufffd'' else [CHR 0xEF, CHR 0xBF, CHR 0xBD])"

text \<open>The result says whether the byte is read again.\<close>

definition reject_byte :: "bool \<Rightarrow> escape_state \<Rightarrow> (bool \<times> escape_state) result" where
  "reject_byte ensure_ascii es =
     (if error_handler (ser es) = Strict then Inl Json_Type_Error
      else
        let again = (undumped_chars es > 0);
            es = es\<lparr>buffer := take (bytes_after_last_accept es) (buffer es)\<rparr> in
        rbind (if error_handler (ser es) = Replace then
                 rbind (put (replacement ensure_ascii) es) (\<lambda>es.
                   let es = flush es in Inr (es\<lparr>bytes_after_last_accept := length (buffer es)\<rparr>))
               else Inr es) (\<lambda>es.
          Inr (again, es\<lparr>undumped_chars := 0, state := 0\<rparr>)))"

definition incomplete_byte :: "bool \<Rightarrow> char \<Rightarrow> escape_state \<Rightarrow> escape_state result" where
  "incomplete_byte ensure_ascii c es =
     rbind (if ensure_ascii then Inr es else put [c] es) (\<lambda>es.
       Inr (es\<lparr>undumped_chars := undumped_chars es + 1\<rparr>))"

definition escape_step :: "bool \<Rightarrow> char \<Rightarrow> escape_state \<Rightarrow> (bool \<times> escape_state) result" where
  "escape_step ensure_ascii c es =
     rbind (decode (state es) (codepoint es) (byte c)) (\<lambda>(st, cp).
       let es = es\<lparr>state := st, codepoint := cp\<rparr> in
       if st = 0 then rbind (accept_byte ensure_ascii c es) (\<lambda>es. Inr (False, es))
       else if st = 1 then reject_byte ensure_ascii es
       else rbind (incomplete_byte ensure_ascii c es) (\<lambda>es. Inr (False, es)))"

lemma reject_byte_undumped:
  "reject_byte ea es = Inr (again, es') \<Longrightarrow> again = (undumped_chars es > 0) \<and> undumped_chars es' = 0"
  by (auto simp: reject_byte_def Let_def rbind_eq_Inr split: if_splits)

lemma escape_step_again:
  "escape_step ea c es = Inr (True, es') \<Longrightarrow> undumped_chars es > 0 \<and> undumped_chars es' = 0"
  by (auto simp: escape_step_def Let_def rbind_eq_Inr split: prod.splits if_splits
      dest!: reject_byte_undumped)

function escape_loop :: "bool \<Rightarrow> string \<Rightarrow> escape_state \<Rightarrow> escape_state result" where
  "escape_loop ensure_ascii [] es = Inr es"
| "escape_loop ensure_ascii (c # cs) es =
     (case escape_step ensure_ascii c es of
        Inl e \<Rightarrow> Inl e
      | Inr (again, es') \<Rightarrow> escape_loop ensure_ascii (if again then c # cs else cs) es')"
  by pat_completeness auto
termination
proof (relation "measure (\<lambda>(_, s, es). 2 * length s + (if undumped_chars es > 0 then 1 else 0))",
    goal_cases)
  case (2 ea c cs es p again es')
  then show ?case using escape_step_again [of ea c es es'] by (cases again) auto
qed simp

definition escape_finish :: "bool \<Rightarrow> escape_state \<Rightarrow> serializer result" where
  "escape_finish ensure_ascii es =
     (if state es = 0 then
        Inr (if length (buffer es) > 0 then write_characters (buffer es) (ser es) else ser es)
      else
        let accepted = take (bytes_after_last_accept es) (buffer es) in
        case error_handler (ser es) of
          Strict \<Rightarrow> Inl Json_Type_Error
        | Ignore \<Rightarrow> Inr (write_characters accepted (ser es))
        | Replace \<Rightarrow> Inr (write_characters (replacement ensure_ascii) (write_characters accepted (ser es))))"

definition dump_escaped :: "string \<Rightarrow> bool \<Rightarrow> serializer \<Rightarrow> serializer result" where
  "dump_escaped s ensure_ascii o_ser =
     rbind (escape_loop ensure_ascii s
             \<lparr>ser = o_ser, codepoint = 0, state = 0, buffer = [], bytes_after_last_accept = 0,
              undumped_chars = 0\<rparr>)
       (escape_finish ensure_ascii)"

section \<open>Numbers\<close>

function count_digits_loop :: "nat \<Rightarrow> nat \<Rightarrow> nat" where
  "count_digits_loop x n_digits =
     (if x < 10 then n_digits
      else if x < 100 then n_digits + 1
      else if x < 1000 then n_digits + 2
      else if x < 10000 then n_digits + 3
      else count_digits_loop (x div 10000) (n_digits + 4))"
  by pat_completeness auto
termination by (relation "measure fst") auto

declare count_digits_loop.simps [simp del]

definition count_digits :: "nat \<Rightarrow> nat" where
  "count_digits x = count_digits_loop x 1"

definition remove_sign :: "int \<Rightarrow> nat result" where
  "remove_sign x =
     (if \<not> (x < 0 \<and> x < 2 ^ 63 - 1) then Inl Abort_Called else Inr (nat (- (x + 1)) + 1))"

definition digits_to_99 :: "string list" where
  "digits_to_99 = map (\<lambda>n. [digit_char (n div 10), digit_char (n mod 10)]) [0..<100]"

text \<open>The buffer is filled from its end, two digits at a time.\<close>

function fill_digits :: "nat \<Rightarrow> nat \<Rightarrow> string \<Rightarrow> string" where
  "fill_digits abs_value ptr buf =
     (if abs_value \<ge> 100 then
        let digits = digits_to_99 ! (abs_value mod 100) in
        fill_digits (abs_value div 100) (ptr - 2)
          (buf[ptr - 1 := digits ! 1, ptr - 2 := digits ! 0])
      else if abs_value \<ge> 10 then
        let digits = digits_to_99 ! abs_value in
        buf[ptr - 1 := digits ! 1, ptr - 2 := digits ! 0]
      else buf[ptr - 1 := char_of (48 + abs_value)])"
  by pat_completeness auto
termination by (relation "measure fst") auto

declare fill_digits.simps [simp del]

definition dump_integer :: "int \<Rightarrow> serializer \<Rightarrow> serializer result" where
  "dump_integer x s =
     (if x = 0 then Inr (write_characters ''0'' s)
      else
        rbind (if x < 0 then
                 rbind (remove_sign x) (\<lambda>abs_value.
                   Inr ((number_buffer s)[0 := CHR ''-''], abs_value, 1 + count_digits abs_value))
               else Inr (number_buffer s, nat x, count_digits (nat x)))
          (\<lambda>(buf, abs_value, n_chars).
            if \<not> n_chars < length buf - 1 then Inl Abort_Called
            else
              let buf = fill_digits abs_value n_chars buf in
              Inr (write_characters (take n_chars buf) (s\<lparr>number_buffer := buf\<rparr>))))"

definition dump_float :: "'d double_ops \<Rightarrow> 'd \<Rightarrow> serializer \<Rightarrow> serializer" where
  "dump_float fo x s = (if \<not> isfinite fo x then write_characters ''null'' s else write_characters (dbl_to_chars fo x) s)"

section \<open>Values\<close>

definition write_indent :: "nat \<Rightarrow> serializer \<Rightarrow> serializer result" where
  "write_indent n s =
     (if n \<le> length (indent_string s) + 1
      then Inr (write_characters (take n (indent_string s @ [nul])) s)
      else Inl Undefined_Behaviour)"

definition grow_indent :: "nat \<Rightarrow> serializer \<Rightarrow> serializer" where
  "grow_indent new_indent s =
     (if length (indent_string s) < new_indent
      then s\<lparr>indent_string := indent_string s @ replicate (length (indent_string s)) (CHR '' '')\<rparr>
      else s)"

definition open_container :: "char \<Rightarrow> bool \<Rightarrow> nat \<Rightarrow> serializer \<Rightarrow> serializer" where
  "open_container c pretty_print new_indent s =
     (if pretty_print then grow_indent new_indent (write_characters [c, newline] s)
      else write_characters [c] s)"

definition close_container :: "char \<Rightarrow> bool \<Rightarrow> nat \<Rightarrow> serializer \<Rightarrow> serializer result" where
  "close_container c pretty_print current_indent s =
     (if pretty_print then
        rbind (write_indent current_indent (write_characters [newline] s)) (\<lambda>s.
          Inr (write_characters [c] s))
      else Inr (write_characters [c] s))"

definition begin_element :: "bool \<Rightarrow> nat \<Rightarrow> serializer \<Rightarrow> serializer result" where
  "begin_element pretty_print new_indent s =
     (if pretty_print then write_indent new_indent s else Inr s)"

definition separator :: "bool \<Rightarrow> string" where
  "separator pretty_print = (if pretty_print then [CHR '','', newline] else '','')"

definition dump_string :: "string \<Rightarrow> bool \<Rightarrow> serializer \<Rightarrow> serializer result" where
  "dump_string t ensure_ascii s =
     rbind (dump_escaped t ensure_ascii (write_characters [quote_char] s)) (\<lambda>s.
       Inr (write_characters [quote_char] s))"

text \<open>The indentation is an \<open>unsigned int\<close>, whose sum wraps around.\<close>

definition inner_indent :: "bool \<Rightarrow> nat \<Rightarrow> nat \<Rightarrow> nat" where
  "inner_indent pretty_print indent_step current_indent =
     (if pretty_print then (current_indent + indent_step) mod 2 ^ 32 else current_indent)"

fun dump :: "'d double_ops \<Rightarrow> 'd json \<Rightarrow> bool \<Rightarrow> bool \<Rightarrow> nat \<Rightarrow> nat \<Rightarrow> serializer \<Rightarrow> serializer result"
  and dump_members :: "'d double_ops \<Rightarrow> (string \<times> 'd json) list \<Rightarrow> bool \<Rightarrow> bool \<Rightarrow> nat \<Rightarrow> nat \<Rightarrow>
    serializer \<Rightarrow> serializer result"
  and dump_elements :: "'d double_ops \<Rightarrow> 'd json list \<Rightarrow> bool \<Rightarrow> bool \<Rightarrow> nat \<Rightarrow> nat \<Rightarrow>
    serializer \<Rightarrow> serializer result" where
  "dump fo (JObject m) pp ea indent_step current_indent s =
     (if m = [] then Inr (write_characters ''{}'' s)
      else let new_indent = inner_indent pp indent_step current_indent in
        rbind (dump_members fo m pp ea indent_step new_indent (open_container (CHR ''{'') pp new_indent s))
          (close_container (CHR ''}'') pp current_indent))"
| "dump fo (JArray vs) pp ea indent_step current_indent s =
     (if vs = [] then Inr (write_characters ''[]'' s)
      else let new_indent = inner_indent pp indent_step current_indent in
        rbind (dump_elements fo vs pp ea indent_step new_indent (open_container (CHR ''['') pp new_indent s))
          (close_container (CHR '']'') pp current_indent))"
| "dump fo (JString t) pp ea indent_step current_indent s = dump_string t ea s"
| "dump fo (JBoolean b) pp ea indent_step current_indent s =
     Inr (write_characters (if b then ''true'' else ''false'') s)"
| "dump fo (JInteger i) pp ea indent_step current_indent s = dump_integer i s"
| "dump fo (JUnsigned i) pp ea indent_step current_indent s = dump_integer i s"
| "dump fo (JFloat d) pp ea indent_step current_indent s = Inr (dump_float fo d s)"
| "dump fo JNull pp ea indent_step current_indent s = Inr (write_characters ''null'' s)"
| "dump_members fo [] pp ea indent_step new_indent s = Inr s"
| "dump_members fo ((k, v) # m) pp ea indent_step new_indent s =
     rbind (begin_element pp new_indent s) (\<lambda>s.
     rbind (dump_string k ea s) (\<lambda>s.
     rbind (dump fo v pp ea indent_step new_indent
              (write_characters (if pp then '': '' else '':'') s)) (\<lambda>s.
     if m = [] then Inr s
     else dump_members fo m pp ea indent_step new_indent (write_characters (separator pp) s))))"
| "dump_elements fo [] pp ea indent_step new_indent s = Inr s"
| "dump_elements fo (v # vs) pp ea indent_step new_indent s =
     rbind (begin_element pp new_indent s) (\<lambda>s.
     rbind (dump fo v pp ea indent_step new_indent s) (\<lambda>s.
     if vs = [] then Inr s
     else dump_elements fo vs pp ea indent_step new_indent (write_characters (separator pp) s)))"

text \<open>\<open>basic_json::dump\<close>; its default arguments are an indent of -1, blanks, no \<open>ensure_ascii\<close>, \<open>strict\<close>.\<close>

definition json_dump_with :: "'d double_ops \<Rightarrow> 'd json \<Rightarrow> int \<Rightarrow> char \<Rightarrow> bool \<Rightarrow> error_handler_t \<Rightarrow>
    string result" where
  "json_dump_with fo v indent ichar ensure_ascii handler =
     rbind (if indent \<ge> 0
            then dump fo v True ensure_ascii (nat indent) 0 (new_serializer [] ichar handler)
            else dump fo v False ensure_ascii 0 0 (new_serializer [] ichar handler))
       (\<lambda>s. Inr (outp s))"

definition json_dump :: "'d double_ops \<Rightarrow> 'd json \<Rightarrow> string result" where
  "json_dump fo v = json_dump_with fo v (- 1) (CHR '' '') False Strict"

end
