(* ===== verification/Utf8.thy ===== *)
theory Utf8
  imports Json_Lexer
begin

unbundle bit_operations_syntax

text \<open>
  Well-formed UTF-8, by the table of byte ranges of the Unicode standard, and the proof that
  every string the lexer accepts is well-formed, whether its characters are written directly
  or as escapes.
\<close>

section \<open>Well-formed byte sequences\<close>

text \<open>The ranges of the bytes that follow a first byte.\<close>

definition utf8_tail :: "nat \<Rightarrow> (nat \<times> nat) list option" where
  "utf8_tail b =
     (if b \<le> 0x7F then Some []
      else if 0xC2 \<le> b \<and> b \<le> 0xDF then Some [(0x80, 0xBF)]
      else if b = 0xE0 then Some [(0xA0, 0xBF), (0x80, 0xBF)]
      else if 0xE1 \<le> b \<and> b \<le> 0xEC \<or> b = 0xEE \<or> b = 0xEF then Some [(0x80, 0xBF), (0x80, 0xBF)]
      else if b = 0xED then Some [(0x80, 0x9F), (0x80, 0xBF)]
      else if b = 0xF0 then Some [(0x90, 0xBF), (0x80, 0xBF), (0x80, 0xBF)]
      else if 0xF1 \<le> b \<and> b \<le> 0xF3 then Some [(0x80, 0xBF), (0x80, 0xBF), (0x80, 0xBF)]
      else if b = 0xF4 then Some [(0x80, 0x8F), (0x80, 0xBF), (0x80, 0xBF)]
      else None)"

fun in_ranges :: "(nat \<times> nat) list \<Rightarrow> string \<Rightarrow> bool" where
  "in_ranges [] [] = True"
| "in_ranges ((lo, hi) # rs) (c # cs) = (lo \<le> byte c \<and> byte c \<le> hi \<and> in_ranges rs cs)"
| "in_ranges _ _ = False"

function valid_utf8 :: "string \<Rightarrow> bool" where
  "valid_utf8 [] = True"
| "valid_utf8 (c # cs) =
     (case utf8_tail (byte c) of
        None \<Rightarrow> False
      | Some rs \<Rightarrow> in_ranges rs (take (length rs) cs) \<and> valid_utf8 (drop (length rs) cs))"
  by pat_completeness auto
termination by (relation "measure length") (auto simp: less_Suc_eq_le)

lemma in_ranges_length: "in_ranges rs us \<Longrightarrow> length us = length rs"
  by (induction rs us rule: in_ranges.induct) auto

lemma valid_utf8_seq:
  "utf8_tail (byte c) = Some rs \<Longrightarrow> in_ranges rs us \<Longrightarrow> valid_utf8 (c # us @ cs) = valid_utf8 cs"
  using in_ranges_length [of rs us] by simp

lemma valid_utf8_ascii: "byte c \<le> 0x7F \<Longrightarrow> valid_utf8 (c # cs) = valid_utf8 cs"
  by (simp add: utf8_tail_def)

lemma valid_utf8_induct [consumes 1, case_names Nil Seq]:
  assumes "valid_utf8 s" "P []"
    and "\<And>c rs us cs. utf8_tail (byte c) = Some rs \<Longrightarrow> in_ranges rs us \<Longrightarrow> valid_utf8 cs \<Longrightarrow>
           P cs \<Longrightarrow> P (c # us @ cs)"
  shows "P s"
  using assms(1)
proof (induction s rule: valid_utf8.induct)
  case (2 c cs)
  then obtain rs where rs: "utf8_tail (byte c) = Some rs" "in_ranges rs (take (length rs) cs)"
      "valid_utf8 (drop (length rs) cs)"
    by (auto split: option.splits)
  from assms(3) [OF rs "2.IH" [OF rs(1,3)]] show ?case by simp
qed (rule assms(2))

lemma valid_utf8_append: "valid_utf8 s \<Longrightarrow> valid_utf8 (s @ t) = valid_utf8 t"
proof (induction s rule: valid_utf8_induct)
  case (Seq c rs us cs)
  then show ?case using valid_utf8_seq [of c rs us "cs @ t"] by simp
qed simp

section \<open>The bytes of a code point\<close>

lemma or_high_low: "x < 2 ^ k \<Longrightarrow> (2 ^ k * m) OR x = 2 ^ k * m + (x :: nat)"
proof -
  assume x: "x < 2 ^ k"
  have "\<not> bit (push_bit k m) n \<or> \<not> bit x n" for n
  proof (cases "k \<le> n")
    case True
    then have "x < 2 ^ n" using x by (meson order_less_le_trans one_le_numeral power_increasing)
    then show ?thesis by (simp add: bit_iff_odd)
  qed (simp add: bit_push_bit_iff)
  then have "push_bit k m + x = push_bit k m OR x" by (rule disjunctive_add)
  then show ?thesis by (simp add: push_bit_eq_mult mult.commute)
qed

lemma low_bits: "(x :: nat) AND 0x3F = x mod 64"
  using take_bit_eq_mask [of 6 x] by (simp add: take_bit_eq_mod mask_eq_exp_minus_1)

lemma or_leads:
  "x < 64 \<Longrightarrow> 0x80 OR x = 0x80 + (x :: nat)" "x < 32 \<Longrightarrow> 0xC0 OR x = 0xC0 + (x :: nat)"
  "x < 16 \<Longrightarrow> 0xE0 OR x = 0xE0 + (x :: nat)" "x < 8 \<Longrightarrow> 0xF0 OR x = 0xF0 + (x :: nat)"
  using or_high_low [of x 6 2] or_high_low [of x 5 6] or_high_low [of x 4 14] or_high_low [of x 3 30]
  by simp_all

definition encode_codepoint :: "nat \<Rightarrow> string" where
  "encode_codepoint cp =
     (if cp < 0x80 then [char_of cp]
      else if cp \<le> 0x7FF then [char_of (0xC0 + cp div 64), char_of (0x80 + cp mod 64)]
      else if cp \<le> 0xFFFF then
        [char_of (0xE0 + cp div 4096), char_of (0x80 + cp div 64 mod 64), char_of (0x80 + cp mod 64)]
      else
        [char_of (0xF0 + cp div 262144), char_of (0x80 + cp div 4096 mod 64),
         char_of (0x80 + cp div 64 mod 64), char_of (0x80 + cp mod 64)])"

lemma byte_char_of [simp]: "n < 256 \<Longrightarrow> byte (char_of n) = n"
  by simp

lemma token_buffer_add [simp]: "token_buffer (add c lx) = token_buffer lx @ [c]"
  by (simp add: add_def)

lemma add_codepoint_encode:
  assumes "cp \<le> 0x10FFFF"
  shows "token_buffer (add_codepoint cp lx) = token_buffer lx @ encode_codepoint cp"
proof -
  have b: "cp \<le> 0x7FF \<Longrightarrow> cp div 64 < 32" "cp \<le> 0xFFFF \<Longrightarrow> cp div 4096 < 16" "cp div 262144 < 8"
    using assms by (auto simp: div_less_iff_less_mult)
  show ?thesis
    by (simp add: add_codepoint_def encode_codepoint_def low_bits or_leads b drop_bit_eq_div)
qed

lemma valid_encode_codepoint:
  assumes "cp \<le> 0x10FFFF" "\<not> (0xD800 \<le> cp \<and> cp \<le> 0xDFFF)"
  shows "valid_utf8 (encode_codepoint cp)"
proof -
  consider "cp < 0x80" | "0x80 \<le> cp" "cp \<le> 0x7FF" | "0x800 \<le> cp" "cp \<le> 0xFFFF" | "0x10000 \<le> cp"
    by linarith
  then show ?thesis
  proof cases
    case 1
    then show ?thesis by (simp add: encode_codepoint_def utf8_tail_def)
  next
    case 2
    then have "2 \<le> cp div 64" "cp div 64 < 32" by linarith+
    with 2 show ?thesis by (simp add: encode_codepoint_def utf8_tail_def)
  next
    case 3
    let ?h = "cp div 4096" and ?m = "cp div 64 mod 64"
    have q: "cp div 64 = 64 * ?h + ?m" by (simp add: div_mult2_eq [of cp 64 64, simplified])
    have "32 \<le> cp div 64" "cp div 64 < 1024" using 3 by linarith+
    moreover have "cp \<le> 0xD7FF \<or> 0xE000 \<le> cp" using assms(2) by linarith
    then have "cp div 64 < 864 \<or> 896 \<le> cp div 64"
      using div_le_mono [of cp "0xD7FF" 64] div_le_mono [of "0xE000" cp 64] by linarith
    ultimately have "?h < 16" "?h = 0 \<Longrightarrow> 32 \<le> ?m" "?h = 13 \<Longrightarrow> ?m < 32"
      using q by linarith+
    moreover have "cp mod 64 \<le> 63" "?m \<le> 63" by (simp_all add: less_Suc_eq_le [symmetric])
    moreover from \<open>?h < 16\<close> consider "?h = 0" | "0 < ?h" "?h \<le> 12" | "?h = 13" | "?h = 14" | "?h = 15"
      by linarith
    then have "valid_utf8 [char_of (0xE0 + ?h), char_of (0x80 + ?m), char_of (0x80 + cp mod 64)]"
      using calculation by cases (simp_all add: utf8_tail_def less_Suc_eq_le [symmetric])
    with 3 show ?thesis by (simp add: encode_codepoint_def)
  next
    case 4
    let ?h = "cp div 262144" and ?m = "cp div 4096 mod 64"
    have q: "cp div 4096 = 64 * ?h + ?m" by (simp add: div_mult2_eq [of cp 4096 64, simplified])
    have "16 \<le> cp div 4096" "cp div 4096 \<le> 271"
      using 4 assms(1) div_le_mono [of cp "0x10FFFF" 4096] by linarith+
    then have "?h \<le> 4" "?h = 0 \<Longrightarrow> 16 \<le> ?m" "?h = 4 \<Longrightarrow> ?m < 16"
      using q by linarith+
    moreover from \<open>?h \<le> 4\<close> consider "?h = 0" | "0 < ?h" "?h \<le> 3" | "?h = 4"
      by linarith
    then have "valid_utf8 [char_of (0xF0 + ?h), char_of (0x80 + ?m), char_of (0x80 + cp div 64 mod 64),
        char_of (0x80 + cp mod 64)]"
      using calculation by cases (simp_all add: utf8_tail_def less_Suc_eq_le [symmetric])
    with 4 show ?thesis by (simp add: encode_codepoint_def)
  qed
qed

section \<open>What the lexer accepts as a string\<close>

lemma hex_digit_less: "hex_digit c = Some d \<Longrightarrow> d < 16"
  by (auto simp: hex_digit_def Let_def split: if_splits)

lemma codepoint_loop_less:
  "codepoint_loop fs cp lx = (Some r, lx') \<Longrightarrow> r \<le> cp + (\<Sum>f\<leftarrow>fs. 15 * 2 ^ f)"
proof (induction fs cp lx rule: codepoint_loop.induct)
  case (2 f fs cp lx)
  from "2.prems" obtain c d where c: "current (get lx) = Some c" and d: "hex_digit c = Some d"
    and "codepoint_loop fs (cp + push_bit f d) (get lx) = (Some r, lx')"
    by (auto simp: Let_def split: option.splits)
  then have "r \<le> cp + push_bit f d + (\<Sum>f\<leftarrow>fs. 15 * 2 ^ f)"
    using "2.IH" [OF refl c d] by blast
  moreover have "push_bit f d \<le> 15 * 2 ^ f"
    using hex_digit_less [OF d] by (simp add: push_bit_eq_mult)
  ultimately show ?case by simp
qed simp

lemma get_codepoint_loop:
  assumes "get_codepoint lx = (r, lx')"
  obtains b z where "codepoint_loop [12, 8, 4, 0] 0 (json_assert (current lx = Some (CHR ''u'')) lx) = (r, z)"
    "lx' = json_assert b z"
proof -
  obtain r' z where l: "codepoint_loop [12, 8, 4, 0] 0 (json_assert (current lx = Some (CHR ''u'')) lx) = (r', z)"
    by (rule prod.exhaust)
  have "r = r' \<and> (\<exists>b. lx' = json_assert b z)"
  proof (cases r')
    case None
    with l assms have "r = r'" "lx' = json_assert True z"
      by (simp_all add: get_codepoint_def del: codepoint_loop.simps)
    then show ?thesis by blast
  next
    case (Some cp)
    with l assms have "r = r'" "lx' = json_assert (cp \<le> 0xFFFF) z"
      by (simp_all add: get_codepoint_def del: codepoint_loop.simps)
    then show ?thesis by blast
  qed
  with l that show thesis by blast
qed

lemma get_codepoint_less: "get_codepoint lx = (Some cp, lx') \<Longrightarrow> cp \<le> 0xFFFF"
proof (erule get_codepoint_loop)
  fix b and z :: "'a lexer"
  assume "codepoint_loop [12, 8, 4, 0] 0 (json_assert (current lx = Some (CHR ''u'')) lx) = (Some cp, z)"
  from codepoint_loop_less [OF this] show "cp \<le> 0xFFFF" by simp
qed

lemma codepoint_loop_buffer: "token_buffer (snd (codepoint_loop fs cp lx)) = token_buffer lx"
proof (induction fs cp lx rule: codepoint_loop.induct)
  case (2 f fs cp lx)
  show ?case
    using "2.IH" [OF refl] by (auto simp: Let_def get_fields split: option.split)
qed simp

lemma get_codepoint_buffer: "get_codepoint lx = (r, lx') \<Longrightarrow> token_buffer lx' = token_buffer lx"
proof (erule get_codepoint_loop)
  fix b and z :: "'a lexer"
  assume "codepoint_loop [12, 8, 4, 0] 0 (json_assert (current lx = Some (CHR ''u'')) lx) = (r, z)" "lx' = json_assert b z"
  with codepoint_loop_buffer [of "[12, 8, 4, 0]" 0 "json_assert (current lx = Some (CHR ''u'')) lx"]
  show "token_buffer lx' = token_buffer lx" by (simp del: codepoint_loop.simps)
qed

lemma scan_low_surrogate_valid:
  assumes "scan_low_surrogate cp1 lx = (True, lx')" "0xD800 \<le> cp1" "cp1 \<le> 0xDBFF"
  shows "\<exists>u. token_buffer lx' = token_buffer lx @ u \<and> valid_utf8 u"
proof -
  obtain cp2 z where g: "get_codepoint (get (get lx)) = (Some cp2, z)"
    and cp2: "0xDC00 \<le> cp2" "cp2 \<le> 0xDFFF"
    and lx': "lx' = add_codepoint (push_bit 10 cp1 + cp2 - 0x35FDC00) z"
    using assms(1)
    by (auto simp: scan_low_surrogate_def fail_def Let_def split: prod.splits option.splits if_splits)
  let ?cp = "push_bit 10 cp1 + cp2 - 0x35FDC00"
  have "0x10000 \<le> ?cp" "?cp \<le> 0x10FFFF"
    using assms(2,3) cp2 by (simp_all add: push_bit_eq_mult)
  then have "token_buffer lx' = token_buffer lx @ encode_codepoint ?cp" "valid_utf8 (encode_codepoint ?cp)"
    using lx' get_codepoint_buffer [OF g] by (simp_all add: add_codepoint_encode get_fields valid_encode_codepoint)
  then show ?thesis by blast
qed

lemma scan_unicode_escape_valid:
  assumes "scan_unicode_escape lx = (True, lx')"
  shows "\<exists>u. token_buffer lx' = token_buffer lx @ u \<and> valid_utf8 u"
proof -
  obtain cp z where g: "get_codepoint lx = (Some cp, z)"
    using assms by (auto simp: scan_unicode_escape_def fail_def split: prod.splits option.splits)
  note b = get_codepoint_buffer [OF g] get_codepoint_less [OF g]
  show ?thesis
  proof (cases "0xD800 \<le> cp \<and> cp \<le> 0xDBFF")
    case True
    with assms g have "scan_low_surrogate cp z = (True, lx')" by (simp add: scan_unicode_escape_def)
    with True b show ?thesis using scan_low_surrogate_valid [of cp z lx'] by simp
  next
    case False
    with assms g have "lx' = add_codepoint cp z" "\<not> (0xD800 \<le> cp \<and> cp \<le> 0xDFFF)"
      by (auto simp: scan_unicode_escape_def fail_def split: if_splits)
    with b show ?thesis by (intro exI [of _ "encode_codepoint cp"])
        (simp add: add_codepoint_encode valid_encode_codepoint)
  qed
qed

lemma simple_escape_ascii: "simple_escape c = Some b \<Longrightarrow> byte b \<le> 0x7F"
  by (auto simp: simple_escape_def split: if_splits)

lemma scan_escape_valid:
  assumes "scan_escape lx = (True, lx')"
  shows "\<exists>u. token_buffer lx' = token_buffer lx @ u \<and> valid_utf8 u"
proof -
  from assms consider b where "lx' = add b (get lx)" "byte b \<le> 0x7F"
    | "scan_unicode_escape (get lx) = (True, lx')"
    by (auto simp: scan_escape_def fail_def Let_def split: option.splits if_splits
        dest: simple_escape_ascii)
  then show ?thesis
  proof cases
    case 1
    then show ?thesis by (intro exI [of _ "[b]"]) (simp add: get_fields utf8_tail_def)
  next
    case 2
    from scan_unicode_escape_valid [OF this] show ?thesis by (simp add: get_fields)
  qed
qed

lemma range_loop_valid:
  "range_loop rs lx = (True, lx') \<Longrightarrow> \<exists>us. token_buffer lx' = token_buffer lx @ us \<and> in_ranges rs us"
proof (induction rs lx rule: range_loop.induct)
  case (2 lo hi rs lx)
  from "2.prems" obtain c where c: "current (get lx) = Some c" "lo \<le> byte c \<and> byte c \<le> hi"
    and r: "range_loop rs (add_current (get lx)) = (True, lx')"
    by (auto simp: Let_def fail_def split: option.splits if_splits)
  from "2.IH" [OF refl c r] obtain us where
    "token_buffer lx' = token_buffer lx @ c # us" "in_ranges rs us"
    using c(1) by (auto simp: add_current_def to_char_type_def get_fields)
  with c(2) show ?case by (intro exI [of _ "c # us"]) simp
qed auto

lemma scan_utf8_tail:
  "\<not> byte c \<le> 0x7F \<Longrightarrow> scan_utf8 c lx =
     (case utf8_tail (byte c) of None \<Rightarrow> fail utf8_error lx | Some rs \<Rightarrow> next_byte_in_range rs lx)"
  by (simp add: scan_utf8_def utf8_tail_def Let_def)

lemma scan_character_valid:
  assumes "scan_character c lx = (True, lx')" "current lx = Some c"
  shows "\<exists>u. token_buffer lx' = token_buffer lx @ u \<and> valid_utf8 u"
proof -
  have cur: "token_buffer (add_current lx) = token_buffer lx @ [c]"
    using assms(2) by (simp add: add_current_def to_char_type_def)
  consider "scan_escape lx = (True, lx')" | "lx' = add_current lx" "byte c \<le> 0x7F"
    | rs where "utf8_tail (byte c) = Some rs" "next_byte_in_range rs lx = (True, lx')"
  proof -
    consider "c = backslash" | "c \<noteq> backslash" "byte c \<le> 0x7F" | "c \<noteq> backslash" "\<not> byte c \<le> 0x7F"
      by blast
    then show thesis
    proof cases
      case 1
      with assms(1) have "scan_escape lx = (True, lx')" by (simp add: scan_character_def)
      then show thesis by (rule that(1))
    next
      case 2
      with assms(1) have "lx' = add_current lx"
        by (simp add: scan_character_def scan_ascii_def fail_def split: if_splits)
      with 2 show thesis by (intro that(2))
    next
      case 3
      with assms(1) have "scan_utf8 c lx = (True, lx')" by (simp add: scan_character_def)
      with 3 show thesis
        using that(3) by (cases "utf8_tail (byte c)") (simp_all add: scan_utf8_tail fail_def)
    qed
  qed
  then show ?thesis
  proof cases
    case 1
    then show ?thesis by (rule scan_escape_valid)
  next
    case 2
    with cur show ?thesis by (intro exI [of _ "[c]"]) (simp add: utf8_tail_def)
  next
    case (3 rs)
    then obtain us where "token_buffer lx' = token_buffer lx @ c # us" "in_ranges rs us"
      using range_loop_valid [of rs _ lx'] cur by (fastforce simp: next_byte_in_range_def add_current_def to_char_type_def)
    with 3(1) show ?thesis
      using valid_utf8_seq [of c rs us "[]"] by (intro exI [of _ "c # us"]) simp
  qed
qed

lemma scan_string_loop_valid:
  "scan_string_loop lx = (Value_String, lx') \<Longrightarrow>
     \<exists>u. token_buffer lx' = token_buffer lx @ u \<and> valid_utf8 u"
proof (induction lx rule: scan_string_loop.induct)
  case (1 lx)
  from "1.prems" obtain c where c: "current (get lx) = Some c"
    by (subst (asm) scan_string_loop.simps)
      (auto simp: parse_failure_def Let_def split: option.splits)
  show ?case
  proof (cases "c = quote_char")
    case True
    with "1.prems" c have "lx' = get lx"
      by (subst (asm) scan_string_loop.simps) simp
    then show ?thesis by (simp add: get_fields)
  next
    case False
    obtain ok y where s: "scan_character c (get lx) = (ok, y)" by fastforce
    with "1.prems" c False have ok: ok and r: "scan_string_loop y = (Value_String, lx')"
      by (subst (asm) scan_string_loop.simps; simp split: if_splits)+
    from scan_character_valid [of c "get lx" y] s ok c obtain u where
      u: "token_buffer y = token_buffer lx @ u" "valid_utf8 u" by (auto simp: get_fields)
    from "1.IH" [OF refl c False s [symmetric] ok r] obtain v where
      "token_buffer lx' = token_buffer y @ v" "valid_utf8 v" by blast
    with u show ?thesis by (intro exI [of _ "u @ v"]) (simp add: valid_utf8_append)
  qed
qed

lemma scan_string_valid:
  assumes "scan_string lx = (Value_String, lx')"
  shows "valid_utf8 (token_buffer lx')"
  using scan_string_loop_valid [of "json_assert (current lx = Some quote_char) (reset lx)" lx'] assms
  by (auto simp: scan_string_def reset_def Let_def)

end
