(* ===== verification/Utf8_Decoder.thy ===== *)
theory Utf8_Decoder
  imports Json_Dump Utf8
begin

unbundle bit_operations_syntax

text \<open>
  The table-driven UTF-8 automaton of the serializer accepts every well-formed string, and the
  code point it reports lies outside ASCII exactly for the sequences of several bytes, so that
  \<open>dump_escaped\<close> escapes nothing but ASCII.
\<close>

section \<open>The table\<close>

definition byte_class :: "nat \<Rightarrow> nat" where
  "byte_class b =
     (if b \<le> 0x7F then 0 else if b \<le> 0x8F then 1 else if b \<le> 0x9F then 9 else if b \<le> 0xBF then 7
      else if b \<le> 0xC1 then 8 else if b \<le> 0xDF then 2 else if b = 0xE0 then 10
      else if b = 0xED then 4 else if b \<le> 0xEF then 3 else if b = 0xF0 then 11
      else if b \<le> 0xF3 then 6 else if b = 0xF4 then 5 else 8)"

lemma utf8d_classes: "map byte_class [0..<256] = take 256 utf8d"
  by code_simp

lemma utf8d_class: "b < 256 \<Longrightarrow> utf8d ! b = byte_class b"
  using arg_cong [OF utf8d_classes, of "\<lambda>l. l ! b"] by simp

definition state_row :: "nat \<Rightarrow> nat list" where
  "state_row s = map (\<lambda>t. utf8d ! (256 + s * 16 + t)) [0..<12]"

lemma state_rows:
  "state_row 0 = [0, 1, 2, 3, 5, 8, 7, 1, 1, 1, 4, 6]"
  "state_row 2 = [1, 0, 1, 1, 1, 1, 1, 0, 1, 0, 1, 1]"
  "state_row 3 = [1, 2, 1, 1, 1, 1, 1, 2, 1, 2, 1, 1]"
  "state_row 4 = [1, 1, 1, 1, 1, 1, 1, 2, 1, 1, 1, 1]"
  "state_row 5 = [1, 2, 1, 1, 1, 1, 1, 1, 1, 2, 1, 1]"
  "state_row 6 = [1, 1, 1, 1, 1, 1, 1, 3, 1, 3, 1, 1]"
  "state_row 7 = [1, 3, 1, 1, 1, 1, 1, 3, 1, 3, 1, 1]"
  "state_row 8 = [1, 3, 1, 1, 1, 1, 1, 1, 1, 1, 1, 1]"
  by code_simp+

lemma byte_class_less: "byte_class b < 12"
  by (simp add: byte_class_def)

lemma length_utf8d: "length utf8d = 400"
  by code_simp

lemma state_row_nth: "t < 12 \<Longrightarrow> state_row s ! t = utf8d ! (256 + s * 16 + t)"
  by (simp add: state_row_def)

text \<open>Neither assertion of \<open>decode\<close> fails in the states the table has a row for.\<close>

lemma decode_defined:
  assumes "b < 256" "s \<le> 8"
  shows "decode s cp b =
    Inr (state_row s ! byte_class b,
         if s \<noteq> 0 then (of_nat b AND 0x3F) OR push_bit 6 cp
         else drop_bit (byte_class b) 0xFF AND of_nat b)"
proof -
  have "256 + s * 16 + byte_class b < 400" using byte_class_less [of b] assms(2) by linarith
  then show ?thesis
    using assms(1) byte_class_less [of b]
    by (simp add: decode_def length_utf8d utf8d_class state_row_nth Let_def)
qed

lemma next_state:
  assumes "decode s cp b = Inr (s', cp')" "b < 256"
  shows "s' = state_row s ! byte_class b"
  using assms byte_class_less [of b]
  by (auto simp: decode_def state_row_nth utf8d_class Let_def split: if_splits)

section \<open>States and what they wait for\<close>

definition state_tail :: "nat \<Rightarrow> (nat \<times> nat) list option" where
  "state_tail s =
     (if s = 0 then Some []
      else if s = 2 then Some [(0x80, 0xBF)]
      else if s = 3 then Some [(0x80, 0xBF), (0x80, 0xBF)]
      else if s = 4 then Some [(0xA0, 0xBF), (0x80, 0xBF)]
      else if s = 5 then Some [(0x80, 0x9F), (0x80, 0xBF)]
      else if s = 6 then Some [(0x90, 0xBF), (0x80, 0xBF), (0x80, 0xBF)]
      else if s = 7 then Some [(0x80, 0xBF), (0x80, 0xBF), (0x80, 0xBF)]
      else if s = 8 then Some [(0x80, 0x8F), (0x80, 0xBF), (0x80, 0xBF)]
      else None)"

text \<open>Bounds on the code point collected so far, which keep the final one out of ASCII.\<close>

definition cp_ok :: "nat \<Rightarrow> nat \<Rightarrow> bool" where
  "cp_ok s k \<longleftrightarrow>
     (s = 2 \<longrightarrow> 2 \<le> k \<and> k < 2 ^ 16) \<and> (s = 3 \<longrightarrow> 1 \<le> k \<and> k < 2 ^ 10) \<and> (s = 4 \<longrightarrow> k = 0) \<and>
     (s = 5 \<longrightarrow> k = 13) \<and> (s = 6 \<longrightarrow> k = 0) \<and> (s = 7 \<longrightarrow> 1 \<le> k \<and> k \<le> 3) \<and> (s = 8 \<longrightarrow> k = 4) \<and>
     (s = 0 \<longrightarrow> 0x80 \<le> k \<and> k < 2 ^ 22)"

lemma utf8_tail_cases:
  assumes "utf8_tail b = Some rs"
  obtains (ascii) "b \<le> 0x7F" "rs = []"
  | (two) "0xC2 \<le> b" "b \<le> 0xDF" "rs = [(0x80, 0xBF)]"
  | (E0) "b = 0xE0" "rs = [(0xA0, 0xBF), (0x80, 0xBF)]"
  | (three) "0xE1 \<le> b \<and> b \<le> 0xEC \<or> b = 0xEE \<or> b = 0xEF" "rs = [(0x80, 0xBF), (0x80, 0xBF)]"
  | (ED) "b = 0xED" "rs = [(0x80, 0x9F), (0x80, 0xBF)]"
  | (F0) "b = 0xF0" "rs = [(0x90, 0xBF), (0x80, 0xBF), (0x80, 0xBF)]"
  | (four) "0xF1 \<le> b" "b \<le> 0xF3" "rs = [(0x80, 0xBF), (0x80, 0xBF), (0x80, 0xBF)]"
  | (F4) "b = 0xF4" "rs = [(0x80, 0x8F), (0x80, 0xBF), (0x80, 0xBF)]"
  using assms that unfolding utf8_tail_def
  by (simp only: option.inject option.distinct split: if_split_asm)

lemma lead_state:
  assumes "utf8_tail b = Some rs"
  shows "state_tail (state_row 0 ! byte_class b) = Some rs"
  using assms
proof (cases b rule: utf8_tail_cases)
  case three
  then show ?thesis by (elim disjE) (simp_all add: byte_class_def state_rows state_tail_def)
qed (simp_all add: byte_class_def state_rows state_tail_def)

lemma state_tail_Cons:
  "state_tail s = Some (r # rs) \<Longrightarrow> s = 2 \<or> s = 3 \<or> s = 4 \<or> s = 5 \<or> s = 6 \<or> s = 7 \<or> s = 8"
  by (simp add: state_tail_def split: if_splits)

lemma cont_class:
  assumes "state_tail s = Some ((lo, hi) # rs)" "lo \<le> b" "b \<le> hi"
  shows "0x80 \<le> b \<and> b \<le> 0xBF"
  using state_tail_Cons [OF assms(1)] assms by (elim disjE) (simp_all add: state_tail_def)

lemma byte_class_cont:
  assumes "0x80 \<le> b" "b \<le> 0xBF"
  obtains "b \<le> 0x8F" "byte_class b = 1" | "0x90 \<le> b" "b \<le> 0x9F" "byte_class b = 9"
    | "0xA0 \<le> b" "byte_class b = 7"
proof -
  consider "b \<le> 0x8F" | "0x90 \<le> b" "b \<le> 0x9F" | "0xA0 \<le> b" by linarith
  then show thesis
    by cases (use assms that in \<open>simp_all add: byte_class_def\<close>)
qed

lemma cont_state:
  assumes "state_tail s = Some ((lo, hi) # rs)" "lo \<le> b" "b \<le> hi"
  shows "state_tail (state_row s ! byte_class b) = Some rs"
proof -
  from cont_class [OF assms] have "0x80 \<le> b" "b \<le> 0xBF" by auto
  then show ?thesis
    by (cases b rule: byte_class_cont; use state_tail_Cons [OF assms(1)] assms in
        \<open>elim disjE; simp add: state_tail_def state_rows\<close>)
qed

lemma mod_offset:
  fixes b :: nat
  assumes "n dvd c" "c \<le> b" "b < c + n"
  shows "b mod n = b - c"
  using assms by (intro mod_nat_eqI) auto

lemma mask_and: "mask n AND b = b mod 2 ^ n" for b :: nat
  by (simp add: take_bit_eq_mask [symmetric] and.commute [of "mask n"] take_bit_eq_mod)

lemma lead_masks:
  "63 AND b = b mod 64" "31 AND b = b mod 32" "3 AND b = b mod 4" for b :: nat
  using mask_and [of 6 b] mask_and [of 5 b] mask_and [of 2 b]
  by (simp_all add: mask_eq_exp_minus_1)

lemma lead_cp:
  assumes "0x80 \<le> b" "utf8_tail b = Some rs"
  shows "cp_ok (state_row 0 ! byte_class b) (drop_bit (byte_class b) 255 AND b)"
  using assms(2)
proof (cases b rule: utf8_tail_cases)
  case two
  then have "b mod 64 = b - 0xC0" by (intro mod_offset) auto
  with two show ?thesis by (simp add: byte_class_def state_rows cp_ok_def lead_masks; intro conjI; linarith?)
next
  case three
  then have "b mod 32 = b - 0xE0" by (intro mod_offset) auto
  with three show ?thesis by (elim disjE conjE; simp add: byte_class_def state_rows cp_ok_def lead_masks; linarith?)
next
  case four
  then have "b mod 4 = b - 0xF0" by (intro mod_offset) auto
  with four show ?thesis by (simp add: byte_class_def state_rows cp_ok_def lead_masks; intro conjI; linarith?)
qed (use assms(1) in \<open>simp_all add: byte_class_def state_rows cp_ok_def lead_masks\<close>)

lemma cont_cp:
  assumes "state_tail s = Some ((lo, hi) # rs)" "lo \<le> b" "b \<le> hi" "cp_ok s k"
  shows "cp_ok (state_row s ! byte_class b) (64 * k + b mod 64)"
proof -
  from cont_class [OF assms(1-3)] have b: "0x80 \<le> b" "b \<le> 0xBF" by auto
  then have m: "b mod 64 = b - 0x80" by (intro mod_offset) auto
  from b show ?thesis
    by (cases b rule: byte_class_cont; use state_tail_Cons [OF assms(1)] assms b m in
        \<open>elim disjE; auto simp: state_tail_def state_rows cp_ok_def\<close>)
qed

lemma cp_ok_bound: "state_tail s = Some rs \<Longrightarrow> cp_ok s k \<Longrightarrow> k < 2 ^ 22"
  by (auto simp: state_tail_def cp_ok_def split: if_splits)

section \<open>The decoder\<close>

lemma drop_bit_255: "drop_bit t (0xFF :: 32 word) = of_nat (drop_bit t 0xFF)"
proof (rule word_unat_eq_iff [THEN iffD2])
  have "drop_bit t 255 \<le> (255 :: nat)" by (simp add: drop_bit_eq_div)
  then show "unat (drop_bit t (0xFF :: 32 word)) = unat (of_nat (drop_bit t 0xFF) :: 32 word)"
    by (simp add: unat_drop_bit_eq unat_of_nat)
qed

lemma decode_lead:
  assumes "b < 256"
  shows "decode 0 cp b = Inr (state_row 0 ! byte_class b, of_nat (drop_bit (byte_class b) 255 AND b))"
  using decode_defined [OF assms, of 0 cp] by (simp add: of_nat_and_eq drop_bit_255)

lemma decode_cont:
  assumes "state_tail s = Some ((lo, hi) # rs)" "lo \<le> b" "b \<le> hi"
  shows "decode s (of_nat k) b = Inr (state_row s ! byte_class b, of_nat (64 * k + b mod 64))"
proof -
  have s: "s \<noteq> 0" "s \<le> 8" using state_tail_Cons [OF assms(1)] by auto
  have b: "b < 256" using cont_class [OF assms] by simp
  have "(of_nat b AND 0x3F) OR push_bit 6 (of_nat k :: 32 word) = of_nat ((b AND 0x3F) OR push_bit 6 k)"
    by (simp add: of_nat_or_eq of_nat_and_eq of_nat_push_bit)
  also have "(b AND 0x3F) OR push_bit 6 k = 64 * k + b mod 64"
    using or_high_low [of "b mod 64" 6 k] by (simp add: low_bits push_bit_eq_mult or.commute mult.commute)
  finally show ?thesis
    using decode_defined [OF b s(2), of "of_nat k"] s(1) by simp
qed

end
