(* ===== verification/Json_Text.thy ===== *)
theory Json_Text
  imports Utf8_Decoder
begin

text \<open>
  What the serializer writes without indentation: a reference definition of the JSON text of a
  value, and the proof that the buffers, the digit pairs and the UTF-8 automaton of the
  serializer produce it.
\<close>

section \<open>Integers\<close>

lemma nat_digits_small: "n < 10 \<Longrightarrow> nat_digits n = [digit_char n]"
  by (subst nat_digits.simps) simp

lemma nat_digits_step: "10 \<le> n \<Longrightarrow> nat_digits n = nat_digits (n div 10) @ [digit_char (n mod 10)]"
  by (subst nat_digits.simps) simp

lemma nat_digits_pair:
  assumes "100 \<le> n"
  shows "nat_digits n = nat_digits (n div 100) @ digits_to_99 ! (n mod 100)"
proof -
  have "n div 10 mod 10 = n mod 100 div 10" "n mod 10 = n mod 100 mod 10"
    by (simp_all add: mod_mult2_eq [of n 10 10, simplified] mod_mod_cancel)
  with assms show ?thesis
    by (simp add: nat_digits_step [of n] nat_digits_step [of "n div 10"] digits_to_99_def
        div_mult2_eq [of n 10 10, simplified])
qed

lemma nat_digits_two: "10 \<le> n \<Longrightarrow> n < 100 \<Longrightarrow> nat_digits n = digits_to_99 ! n"
  by (simp add: nat_digits_step [of n] nat_digits_small digits_to_99_def)

lemma digits_to_99_pair:
  "n < 100 \<Longrightarrow> digits_to_99 ! n = [digits_to_99 ! n ! 0, digits_to_99 ! n ! 1]"
  by (simp add: digits_to_99_def)

lemma count_digits_loop: "count_digits_loop x (Suc k) = k + length (nat_digits x)"
proof (induction x "Suc k" arbitrary: k rule: count_digits_loop.induct)
  case (1 x)
  consider "x < 10" | "10 \<le> x" "x < 100" | "100 \<le> x" "x < 1000" | "1000 \<le> x" "x < 10000" | "10000 \<le> x"
    by linarith
  then show ?case
  proof cases
    case 5
    then have "length (nat_digits x) = 4 + length (nat_digits (x div 10000))"
      by (simp add: nat_digits_step div_mult2_eq [symmetric])
    with 5 "1.hyps" [of "k + 4"] show ?thesis
      by (simp add: count_digits_loop.simps [of x])
  qed (simp_all add: count_digits_loop.simps [of x] nat_digits_step nat_digits_small)
qed

lemma count_digits: "count_digits x = length (nat_digits x)"
  using count_digits_loop [of x 0] by (simp add: count_digits_def)

lemma write_pair:
  assumes "2 \<le> ptr" "ptr \<le> length buf"
  shows "take ptr (buf[ptr - 1 := b, ptr - 2 := a]) = take (ptr - 2) buf @ [a, b]"
    and "drop ptr (buf[ptr - 1 := b, ptr - 2 := a]) = drop ptr buf"
    and "drop (ptr - 2) (buf[ptr - 1 := b, ptr - 2 := a]) = a # b # drop ptr buf"
proof -
  obtain pre x y post where buf: "buf = pre @ x # y # post" "length pre = ptr - 2"
  proof -
    have "drop (ptr - 2) buf = buf ! (ptr - 2) # buf ! (ptr - 1) # drop ptr buf"
      using assms by (simp add: Cons_nth_drop_Suc [symmetric] numeral_2_eq_2 Suc_diff_Suc)
    then show thesis
      using that [of "take (ptr - 2) buf"] assms by (metis append_take_drop_id diff_le_self
          length_take min.absorb2 order_trans)
  qed
  have p: "ptr = length pre + 2" using buf(2) assms(1) by simp
  show "take ptr (buf[ptr - 1 := b, ptr - 2 := a]) = take (ptr - 2) buf @ [a, b]"
    "drop ptr (buf[ptr - 1 := b, ptr - 2 := a]) = drop ptr buf"
    "drop (ptr - 2) (buf[ptr - 1 := b, ptr - 2 := a]) = a # b # drop ptr buf"
    by (simp_all add: buf(1) p list_update_append)
qed

lemma fill_digits:
  "ptr = off + length (nat_digits n) \<Longrightarrow> ptr \<le> length buf \<Longrightarrow>
     take ptr (fill_digits n ptr buf) = take off buf @ nat_digits n \<and>
     drop ptr (fill_digits n ptr buf) = drop ptr buf"
proof (induction n ptr buf rule: fill_digits.induct)
  case (1 n ptr buf)
  let ?p = "digits_to_99 ! (n mod 100)"
  let ?b = "buf[ptr - 1 := ?p ! 1, ptr - 2 := ?p ! 0]"
  note wp = write_pair [of ptr buf "?p ! 1" "?p ! 0"] "1.prems"
  have p: "?p = [?p ! 0, ?p ! 1]" by (rule digits_to_99_pair) simp
  then have two: "length ?p = 2" by (metis length_Cons list.size(3) numeral_2_eq_2)
  consider "n < 10" | "10 \<le> n" "n < 100" | "100 \<le> n" by linarith
  then show ?case
  proof cases
    case 1
    with "1.prems" show ?thesis
      by (simp add: fill_digits.simps [of n] nat_digits_small digit_char_def
          take_Suc_conv_app_nth)
  next
    case 2
    with wp p two show ?thesis
      by (simp add: fill_digits.simps [of n] nat_digits_two Let_def)
  next
    case 3
    let ?R = "fill_digits (n div 100) (ptr - 2) ?b"
    have len: "length (nat_digits n) = length (nat_digits (n div 100)) + 2"
      using 3 two by (simp add: nat_digits_pair [of n])
    have IH: "take (ptr - 2) ?R = take off ?b @ nat_digits (n div 100)"
      "drop (ptr - 2) ?R = drop (ptr - 2) ?b"
      using "1.IH" [OF 3 refl] "1.prems" len by auto
    have ptr: "ptr = (ptr - 2) + 2" "2 \<le> ptr" using len "1.prems" by simp_all
    have dr: "drop (ptr - 2) ?R = ?p @ drop ptr buf"
      using IH(2) wp ptr(2) p by simp
    have "take ptr ?R = take (ptr - 2) ?R @ take 2 (drop (ptr - 2) ?R)"
      by (metis ptr(1) take_add)
    also have "\<dots> = take off buf @ nat_digits n"
      unfolding IH(1) dr using len "1.prems" two 3 by (simp add: nat_digits_pair [of n])
    finally have t: "take ptr ?R = take off buf @ nat_digits n" .
    have "drop ptr ?R = drop 2 (drop (ptr - 2) ?R)"
      unfolding drop_drop using ptr(2) by (simp only: le_add_diff_inverse)
    also have "\<dots> = drop ptr buf"
      unfolding dr using two by simp
    finally show ?thesis
      using t 3 by (simp add: fill_digits.simps [of n] Let_def)
  qed
qed

lemma length_fill_digits [simp]: "length (fill_digits n ptr buf) = length buf"
proof (induction n ptr buf rule: fill_digits.induct)
  case (1 n ptr buf)
  then show ?case by (subst fill_digits.simps) (simp add: Let_def)
qed

lemma length_nat_digits_less: "n < 10 ^ k \<Longrightarrow> 0 < k \<Longrightarrow> length (nat_digits n) \<le> k"
proof (induction k arbitrary: n)
  case (Suc k)
  show ?case
  proof (cases "n < 10")
    case False
    with Suc.prems have "n div 10 < 10 ^ k" "0 < k" by (cases k; simp add: less_mult_imp_div_less)+
    with Suc.IH [of "n div 10"] False show ?thesis by (simp add: nat_digits_step)
  qed (simp add: nat_digits_small)
qed simp

lemma length_nat_digits_64: "n < 2 ^ 64 \<Longrightarrow> length (nat_digits n) \<le> 20"
  by (rule length_nat_digits_less) simp_all

lemma digit_char_0: "digit_char 0 = CHR ''0''"
  by code_simp

lemma dump_integer_eq:
  assumes "- (2 ^ 63) \<le> x" "x < 2 ^ 64" "length (number_buffer s) = 64"
  obtains b where "length b = 64"
    and "dump_integer x s = Inr (write_characters (to_string x) (s\<lparr>number_buffer := b\<rparr>))"
proof -
  consider "x = 0" | "x < 0" | "0 < x" by linarith
  then show thesis
  proof cases
    case 1
    with that [of "number_buffer s"] assms(3) show thesis
      by (simp add: dump_integer_def to_string_def nat_digits_small digit_char_0)
  next
    case 2
    let ?n = "nat (- x)"
    have rs: "remove_sign x = Inr ?n" using 2 by (simp add: remove_sign_def)
    have len: "1 + length (nat_digits ?n) < 63"
    proof -
      have "?n < 2 ^ 64" using assms(1) by simp
      then show ?thesis using length_nat_digits_64 [of ?n] by simp
    qed
    let ?b = "(number_buffer s)[0 := CHR ''-'']"
    let ?r = "fill_digits ?n (1 + length (nat_digits ?n)) ?b"
    have f: "take (1 + length (nat_digits ?n)) ?r = take 1 ?b @ nat_digits ?n"
      "drop (1 + length (nat_digits ?n)) ?r = drop (1 + length (nat_digits ?n)) ?b"
      using fill_digits [of "1 + length (nat_digits ?n)" 1 ?n ?b] len assms(3) by simp_all
    have "length ?r = 64"
      using assms(3) by simp
    moreover have "take 1 ?b = ''-''"
      using assms(3) by (cases "number_buffer s") simp_all
    ultimately show thesis
      using that [of ?r] 2 f rs len assms(3)
      by (simp add: dump_integer_def to_string_def count_digits Let_def)
  next
    case 3
    let ?n = "nat x"
    have len: "length (nat_digits ?n) < 63"
    proof -
      have "?n < 2 ^ 64" using assms(2) 3 by simp
      then show ?thesis using length_nat_digits_64 [of ?n] by simp
    qed
    let ?b = "number_buffer s"
    let ?r = "fill_digits ?n (length (nat_digits ?n)) ?b"
    have f: "take (length (nat_digits ?n)) ?r = nat_digits ?n"
      "drop (length (nat_digits ?n)) ?r = drop (length (nat_digits ?n)) ?b"
      using fill_digits [of "length (nat_digits ?n)" 0 ?n ?b] len assms(3) by simp_all
    have "length ?r = 64"
      using assms(3) by simp
    then show thesis
      using that [of ?r] 3 f len assms(3)
      by (simp add: dump_integer_def to_string_def count_digits Let_def)
  qed
qed

section \<open>Strings\<close>

definition escape_char :: "char \<Rightarrow> string" where
  "escape_char c =
     (let b = byte c in
      if b = 0x08 then [backslash, CHR ''b'']
      else if b = 0x09 then [backslash, CHR ''t'']
      else if b = 0x0A then [backslash, CHR ''n'']
      else if b = 0x0C then [backslash, CHR ''f'']
      else if b = 0x0D then [backslash, CHR ''r'']
      else if b = 0x22 then [backslash, quote_char]
      else if b = 0x5C then [backslash, backslash]
      else if b \<le> 0x1F then u_escape (of_nat b)
      else [c])"

definition escape_text :: "string \<Rightarrow> string" where
  "escape_text s = concat (List.map escape_char s)"

lemma escape_text_simps [simp]:
  "escape_text [] = []"
  "escape_text (c # s) = escape_char c @ escape_text s"
  "escape_text (s @ t) = escape_text s @ escape_text t"
  by (simp_all add: escape_text_def)

lemma escape_char_high: "0x80 \<le> byte c \<Longrightarrow> escape_char c = [c]"
  by (simp add: escape_char_def)

text \<open>
  The state of \<open>dump_escaped\<close> between two characters: the automaton accepts, the buffer has room
  for one more character, and output and buffer together hold the text \<open>t\<close>.
\<close>

definition between_chars :: "serializer \<Rightarrow> string \<Rightarrow> escape_state \<Rightarrow> bool" where
  "between_chars s0 t es \<longleftrightarrow>
     state es = 0 \<and> length (buffer es) \<le> 499 \<and>
     (\<exists>p. ser es = write_characters p s0 \<and> t = p @ buffer es)"

text \<open>Inside a character of several bytes, whose bytes so far are at the end of the buffer.\<close>

definition within_char :: "serializer \<Rightarrow> string \<Rightarrow> (nat \<times> nat) list \<Rightarrow> escape_state \<Rightarrow> bool" where
  "within_char s0 t rs es \<longleftrightarrow>
     (\<exists>k. codepoint es = of_nat k \<and> cp_ok (state es) k) \<and> state_tail (state es) = Some rs \<and>
     length (buffer es) + length rs \<le> 503 \<and>
     (\<exists>p. ser es = write_characters p s0 \<and> t = p @ buffer es)"

lemma write_characters_append [simp]:
  "write_characters b (write_characters a s) = write_characters (a @ b) s"
  by (simp add: write_characters_def)

lemma unat_of_nat_32: "n < 2 ^ 32 \<Longrightarrow> unat (of_nat n :: 32 word) = n"
  by (simp add: unat_of_nat)

lemma put_codepoint_unat:
  "put_codepoint False c es =
     (let n = unat (codepoint es) in
      if n = 0x08 then put [backslash, CHR ''b''] es
      else if n = 0x09 then put [backslash, CHR ''t''] es
      else if n = 0x0A then put [backslash, CHR ''n''] es
      else if n = 0x0C then put [backslash, CHR ''f''] es
      else if n = 0x0D then put [backslash, CHR ''r''] es
      else if n = 0x22 then put [backslash, quote_char] es
      else if n = 0x5C then put [backslash, backslash] es
      else if n \<le> 0x1F then put_formatted (u_escape (of_nat n)) es
      else put [c] es)"
proof -
  let ?w = "codepoint es"
  have eq: "?w = 0x08 \<longleftrightarrow> unat ?w = 0x08" "?w = 0x09 \<longleftrightarrow> unat ?w = 0x09" "?w = 0x0A \<longleftrightarrow> unat ?w = 0x0A"
    "?w = 0x0C \<longleftrightarrow> unat ?w = 0x0C" "?w = 0x0D \<longleftrightarrow> unat ?w = 0x0D" "?w = 0x22 \<longleftrightarrow> unat ?w = 0x22"
    "?w = 0x5C \<longleftrightarrow> unat ?w = 0x5C"
    by (simp_all add: word_unat_eq_iff)
  have le: "?w \<le> 0x1F \<longleftrightarrow> unat ?w \<le> 0x1F" "?w \<le> 0xFFFF \<longleftrightarrow> unat ?w \<le> 0xFFFF"
    by (simp_all add: word_le_nat_alt)
  show ?thesis
    unfolding put_codepoint_def Let_def eq le by (simp add: of_nat_unat)
qed

lemma put_codepoint_ascii:
  assumes "length (buffer es) \<le> 499" "codepoint es = of_nat (byte c)" "byte c \<le> 0x7F"
  shows "put_codepoint False c es = Inr (es\<lparr>buffer := buffer es @ escape_char c\<rparr>)"
proof -
  have u: "unat (codepoint es) = byte c" using assms(2,3) by (simp add: unat_of_nat_32)
  have p: "length cs \<le> 6 \<Longrightarrow> put cs es = Inr (es\<lparr>buffer := buffer es @ cs\<rparr>)"
    "length cs \<le> 6 \<Longrightarrow> put_formatted cs es = Inr (es\<lparr>buffer := buffer es @ cs\<rparr>)" for cs
    using assms(1) by (simp_all add: put_def put_formatted_def)
  have "length (u_escape w) = 6" for w by (simp add: u_escape_def Let_def)
  then show ?thesis
    unfolding put_codepoint_unat escape_char_def Let_def u by (simp add: p)
qed

lemma put_codepoint_high:
  assumes "0x80 \<le> unat (codepoint es)"
  shows "put_codepoint False c es = put [c] es"
  using assms by (simp add: put_codepoint_unat)

lemma accept_between:
  assumes "put_codepoint False c es = Inr es'" "ser es' = write_characters p s0"
    "t = p @ buffer es'" "state es' = 0" "length (buffer es') \<le> 512"
  shows "\<exists>es''. accept_byte False c es = Inr es'' \<and> between_chars s0 t es''"
  using assms
  by (auto simp: accept_byte_def between_chars_def flush_def write_characters_def Let_def)

lemma step_ascii:
  assumes "between_chars s0 t es" "byte c \<le> 0x7F"
  shows "\<exists>es'. escape_step False c es = Inr (False, es') \<and> between_chars s0 (t @ escape_char c) es'"
proof -
  obtain p where b: "state es = 0" "length (buffer es) \<le> 499" "ser es = write_characters p s0"
    "t = p @ buffer es" using assms(1) by (auto simp: between_chars_def)
  have bc: "byte_class (byte c) = 0" using assms(2) by (simp add: byte_class_def)
  have "255 AND byte c = byte c" using mask_and [of 8 "byte c"] assms(2) by (simp add: mask_eq_exp_minus_1)
  then have d: "decode 0 (codepoint es) (byte c) = Inr (0, of_nat (byte c))"
    using decode_lead [of "byte c" "codepoint es"] bc assms(2) by (simp add: state_rows)
  let ?es = "es\<lparr>state := 0, codepoint := of_nat (byte c)\<rparr>"
  have len: "length (escape_char c) \<le> 6" by (simp add: escape_char_def u_escape_def Let_def)
  have "\<exists>es''. accept_byte False c ?es = Inr es'' \<and> between_chars s0 (t @ escape_char c) es''"
    using put_codepoint_ascii [of ?es c] assms(2) b len
    by (intro accept_between [of c ?es "?es\<lparr>buffer := buffer es @ escape_char c\<rparr>" p]) auto
  then show ?thesis using d b(1) by (auto simp: escape_step_def)
qed

lemma step_lead:
  assumes "between_chars s0 t es" "0x80 \<le> byte c" "utf8_tail (byte c) = Some rs"
  shows "\<exists>es'. escape_step False c es = Inr (False, es') \<and> within_char s0 (t @ [c]) rs es'"
proof -
  obtain p where b: "state es = 0" "length (buffer es) \<le> 499" "ser es = write_characters p s0"
    "t = p @ buffer es" using assms(1) by (auto simp: between_chars_def)
  have lt: "byte c < 256" by simp
  let ?s = "state_row 0 ! byte_class (byte c)"
  let ?k = "drop_bit (byte_class (byte c)) 255 AND byte c"
  have st: "state_tail ?s = Some rs" "cp_ok ?s ?k"
    by (rule lead_state [OF assms(3)], rule lead_cp [OF assms(2,3)])
  have rs: "length rs \<le> 3" "rs \<noteq> []"
    using assms(2,3) by (auto simp: utf8_tail_def split: if_splits)
  then have s: "?s \<noteq> 0" "?s \<noteq> 1"
    using st(1) state_tail_Cons [of ?s] by (cases rs; fastforce)+
  show ?thesis
    using b rs(1) st s decode_lead [OF lt, of "codepoint es"]
    by (auto simp: escape_step_def incomplete_byte_def put_def within_char_def)
qed

lemma step_cont:
  assumes "within_char s0 t ((lo, hi) # r # rs) es" "lo \<le> byte c" "byte c \<le> hi"
  shows "\<exists>es'. escape_step False c es = Inr (False, es') \<and> within_char s0 (t @ [c]) (r # rs) es'"
proof -
  obtain p k where w: "codepoint es = of_nat k" "cp_ok (state es) k"
    "state_tail (state es) = Some ((lo, hi) # r # rs)" "length (buffer es) + length rs + 2 \<le> 503"
    "ser es = write_characters p s0" "t = p @ buffer es"
    using assms(1) by (auto simp: within_char_def)
  note d = decode_cont [OF w(3) assms(2,3), of k]
  note st = cont_state [OF w(3) assms(2,3)] cont_cp [OF w(3) assms(2,3) w(2)]
  have s: "state_row (state es) ! byte_class (byte c) \<noteq> 0" "state_row (state es) ! byte_class (byte c) \<noteq> 1"
    using state_tail_Cons [OF st(1)] by auto
  define k' where "k' = 64 * k + byte c mod 64"
  show ?thesis
    using w d [folded k'_def] st [folded k'_def] s by (auto simp: escape_step_def incomplete_byte_def put_def within_char_def)
qed

lemma step_last:
  assumes "within_char s0 t [(lo, hi)] es" "lo \<le> byte c" "byte c \<le> hi"
  shows "\<exists>es'. escape_step False c es = Inr (False, es') \<and> between_chars s0 (t @ [c]) es'"
proof -
  obtain p k where w: "codepoint es = of_nat k" "cp_ok (state es) k"
    "state_tail (state es) = Some [(lo, hi)]" "length (buffer es) + 1 \<le> 503"
    "ser es = write_characters p s0" "t = p @ buffer es"
    using assms(1) by (auto simp: within_char_def)
  note d = decode_cont [OF w(3) assms(2,3), of k]
  note st = cont_state [OF w(3) assms(2,3)] cont_cp [OF w(3) assms(2,3) w(2)]
  have s: "state_row (state es) ! byte_class (byte c) = 0"
    using st(1) by (auto simp: state_tail_def split: if_splits)
  define k' where "k' = 64 * k + byte c mod 64"
  let ?es = "es\<lparr>state := 0, codepoint := of_nat k'\<rparr>"
  have "0x80 \<le> k'" "k' < 2 ^ 22" using st(2) s by (auto simp: cp_ok_def k'_def)
  then have "0x80 \<le> unat (codepoint ?es)" by (simp add: unat_of_nat_32)
  then have "put_codepoint False c ?es = Inr (?es\<lparr>buffer := buffer es @ [c]\<rparr>)"
    using put_codepoint_high [of ?es c] w(4) by (simp add: put_def)
  then have "\<exists>es''. accept_byte False c ?es = Inr es'' \<and> between_chars s0 (t @ [c]) es''"
    using w by (intro accept_between [of c ?es "?es\<lparr>buffer := buffer es @ [c]\<rparr>" p]) auto
  then show ?thesis using d s w(1) by (auto simp: escape_step_def k'_def [symmetric])
qed

lemma utf8_tail_high: "utf8_tail b = Some rs \<Longrightarrow> r \<in> set rs \<Longrightarrow> 0x80 \<le> fst r"
  by (erule utf8_tail_cases) auto

lemma in_ranges_high:
  "in_ranges rs us \<Longrightarrow> (\<And>r. r \<in> set rs \<Longrightarrow> 0x80 \<le> fst r) \<Longrightarrow> c \<in> set us \<Longrightarrow> 0x80 \<le> byte c"
  by (induction rs us rule: in_ranges.induct) fastforce+

lemma escape_text_high: "(\<And>c. c \<in> set us \<Longrightarrow> 0x80 \<le> byte c) \<Longrightarrow> escape_text us = us"
  by (induction us) (simp_all add: escape_char_high)

lemma escape_loop_step:
  "escape_step ea c es = Inr (False, es') \<Longrightarrow> escape_loop ea (c # cs) es = escape_loop ea cs es'"
  by simp

declare escape_loop.simps(2) [simp del]

lemma escape_loop_tail:
  "within_char s0 t rs es \<Longrightarrow> in_ranges rs us \<Longrightarrow> rs \<noteq> [] \<Longrightarrow>
     \<exists>es'. escape_loop False (us @ cs) es = escape_loop False cs es' \<and> between_chars s0 (t @ us) es'"
proof (induction rs us arbitrary: t es rule: in_ranges.induct)
  case (2 lo hi rs c us)
  then have r: "lo \<le> byte c" "byte c \<le> hi" "in_ranges rs us" by auto
  show ?case
  proof (cases rs)
    case Nil
    with r(3) have "us = []" by (cases us) auto
    with Nil step_last [of s0 t lo hi es c] "2.prems"(1) r show ?thesis
      by (auto dest: escape_loop_step)
  next
    case (Cons r' rs')
    then obtain es' where e: "escape_step False c es = Inr (False, es')" "within_char s0 (t @ [c]) rs es'"
      using step_cont [of s0 t lo hi r' rs' es c] "2.prems"(1) r by auto
    from "2.IH" [OF e(2) r(3)] Cons obtain es'' where
      "escape_loop False (us @ cs) es' = escape_loop False cs es''" "between_chars s0 ((t @ [c]) @ us) es''"
      by auto
    with escape_loop_step [OF e(1)] show ?thesis by auto
  qed
qed auto

lemma escape_loop_valid:
  "valid_utf8 s \<Longrightarrow> between_chars s0 t es \<Longrightarrow>
     \<exists>es'. escape_loop False s es = Inr es' \<and> between_chars s0 (t @ escape_text s) es'"
proof (induction s arbitrary: t es rule: valid_utf8_induct)
  case Nil
  then show ?case by simp
next
  case (Seq c rs us cs)
  note high = in_ranges_high [OF Seq.hyps(2) utf8_tail_high [OF Seq.hyps(1)]]
  have "\<exists>es'. escape_loop False (c # us @ cs) es = escape_loop False cs es' \<and>
      between_chars s0 (t @ escape_char c @ us) es'"
  proof (cases "byte c \<le> 0x7F")
    case True
    then have "us = []" using Seq.hyps(1,2) by (cases us) (auto simp: utf8_tail_def)
    with step_ascii [OF Seq.prems True] show ?thesis by (auto dest: escape_loop_step)
  next
    case False
    then have c: "0x80 \<le> byte c" by simp
    obtain es1 where e: "escape_step False c es = Inr (False, es1)" "within_char s0 (t @ [c]) rs es1"
      using step_lead [OF Seq.prems c Seq.hyps(1)] by blast
    have "rs \<noteq> []" using False Seq.hyps(1) by (auto elim: utf8_tail_cases)
    from escape_loop_tail [OF e(2) Seq.hyps(2) this, of cs] escape_loop_step [OF e(1)]
    show ?thesis using escape_char_high [OF c] by auto
  qed
  then obtain es1 where e1: "escape_loop False (c # us @ cs) es = escape_loop False cs es1"
    "between_chars s0 (t @ escape_char c @ us) es1" by blast
  have "escape_text (c # us @ cs) = escape_char c @ us @ escape_text cs"
    using escape_text_high [of us] high by simp
  with e1(1) Seq.IH [OF e1(2)] show ?case by auto
qed

lemma dump_escaped_valid:
  assumes "valid_utf8 s"
  shows "dump_escaped s False o_ser = Inr (write_characters (escape_text s) o_ser)"
proof -
  have [simp]: "write_characters [] o_ser = o_ser" by (simp add: write_characters_def)
  let ?es = "\<lparr>ser = o_ser, codepoint = 0, state = 0, buffer = [], bytes_after_last_accept = 0,
    undumped_chars = 0\<rparr>"
  have "between_chars o_ser [] ?es" by (auto simp: between_chars_def)
  from escape_loop_valid [OF assms this] obtain es where
    e: "escape_loop False s ?es = Inr es" "between_chars o_ser (escape_text s) es" by auto
  then show ?thesis
    by (auto simp: dump_escaped_def escape_finish_def between_chars_def)
qed

section \<open>Values\<close>

fun json_text :: "'d double_ops \<Rightarrow> 'd json \<Rightarrow> string"
  and members_text :: "'d double_ops \<Rightarrow> (string \<times> 'd json) list \<Rightarrow> string"
  and elements_text :: "'d double_ops \<Rightarrow> 'd json list \<Rightarrow> string" where
  "json_text fo JNull = ''null''"
| "json_text fo (JBoolean b) = (if b then ''true'' else ''false'')"
| "json_text fo (JInteger i) = to_string i"
| "json_text fo (JUnsigned i) = to_string i"
| "json_text fo (JFloat d) = (if isfinite fo d then dbl_to_chars fo d else ''null'')"
| "json_text fo (JString s) = quote_char # escape_text s @ [quote_char]"
| "json_text fo (JArray vs) = CHR ''['' # elements_text fo vs @ '']''"
| "json_text fo (JObject m) = CHR ''{'' # members_text fo m @ ''}''"
| "members_text fo [] = []"
| "members_text fo ((k, v) # m) =
     quote_char # escape_text k @ quote_char # CHR '':'' # json_text fo v @
     (if m = [] then [] else CHR '','' # members_text fo m)"
| "elements_text fo [] = []"
| "elements_text fo (v # vs) =
     json_text fo v @ (if vs = [] then [] else CHR '','' # elements_text fo vs)"

text \<open>The values of the library's types: 64-bit integers, strings of well-formed UTF-8.\<close>

fun json_valid :: "'d json \<Rightarrow> bool"
  and members_valid :: "(string \<times> 'd json) list \<Rightarrow> bool"
  and elements_valid :: "'d json list \<Rightarrow> bool" where
  "json_valid (JInteger i) = (- (2 ^ 63) \<le> i \<and> i < 2 ^ 63)"
| "json_valid (JUnsigned i) = (0 \<le> i \<and> i < 2 ^ 64)"
| "json_valid (JString s) = valid_utf8 s"
| "json_valid (JArray vs) = elements_valid vs"
| "json_valid (JObject m) = members_valid m"
| "json_valid JNull = True"
| "json_valid (JBoolean b) = True"
| "json_valid (JFloat d) = True"
| "members_valid [] = True"
| "members_valid ((k, v) # m) = (valid_utf8 k \<and> json_valid v \<and> members_valid m)"
| "elements_valid [] = True"
| "elements_valid (v # vs) = (json_valid v \<and> elements_valid vs)"

definition wrote :: "string \<Rightarrow> serializer \<Rightarrow> serializer result \<Rightarrow> bool" where
  "wrote t s r \<longleftrightarrow>
     (\<exists>b. length b = 64 \<and> r = Inr (write_characters t (s\<lparr>number_buffer := b\<rparr>)))"

lemma wrote_refl: "length (number_buffer s) = 64 \<Longrightarrow> wrote t s (Inr (write_characters t s))"
  unfolding wrote_def by (rule exI [of _ "number_buffer s"]) simp

lemma wrote_rbind:
  assumes "wrote t s r" "\<And>s'. length (number_buffer s') = 64 \<Longrightarrow> wrote u s' (f s')"
  shows "wrote (t @ u) s (rbind r f)"
proof -
  obtain b where b: "length b = 64" "r = Inr (write_characters t (s\<lparr>number_buffer := b\<rparr>))"
    using assms(1) by (auto simp: wrote_def)
  with assms(2) [of "write_characters t (s\<lparr>number_buffer := b\<rparr>)"] show ?thesis
    by (auto simp: wrote_def write_characters_def)
qed

lemma wrote_after: "wrote u (write_characters t s) r \<Longrightarrow> wrote (t @ u) s r"
  by (auto simp: wrote_def write_characters_def)

lemma wrote_nothing: "length (number_buffer s) = 64 \<Longrightarrow> wrote [] s (Inr s)"
  using wrote_refl [of s "[]"] by (simp add: write_characters_def)

lemma number_buffer_write [simp]: "number_buffer (write_characters t s) = number_buffer s"
  by (simp add: write_characters_def)

lemma wrote_string:
  assumes "valid_utf8 t" "length (number_buffer s) = 64"
  shows "wrote (quote_char # escape_text t @ [quote_char]) s (dump_string t False s)"
  using assms wrote_refl [of s "quote_char # escape_text t @ [quote_char]"]
  by (simp add: dump_string_def dump_escaped_valid)

lemma wrote_integer:
  assumes "- (2 ^ 63) \<le> i" "i < 2 ^ 64" "length (number_buffer s) = 64"
  shows "wrote (to_string i) s (dump_integer i s)"
  using dump_integer_eq [OF assms] by (metis wrote_def)

lemma dump_wrote:
  "json_valid v \<Longrightarrow> length (number_buffer s) = 64 \<Longrightarrow>
     wrote (json_text fo v) s (dump fo v False False step cur s)"
  "members_valid m \<Longrightarrow> length (number_buffer s) = 64 \<Longrightarrow>
     wrote (members_text fo m) s (dump_members fo m False False step cur s)"
  "elements_valid vs \<Longrightarrow> length (number_buffer s) = 64 \<Longrightarrow>
     wrote (elements_text fo vs) s (dump_elements fo vs False False step cur s)"
proof (induction fo v and fo m and fo vs arbitrary: s and s and s
    rule: json_text_members_text_elements_text.induct)
  case (3 fo i)
  then show ?case by (simp add: wrote_integer)
next
  case (4 fo i)
  then show ?case by (simp add: wrote_integer)
next
  case (6 fo t)
  then show ?case by (simp add: wrote_string)
next
  case (7 fo vs)
  have "wrote (elements_text fo vs @ '']'') (write_characters ''['' s)
     (rbind (dump_elements fo vs False False step cur (write_characters ''['' s))
       (close_container (CHR '']'') False cur))"
    by (rule wrote_rbind [OF "7.IH"])
      (use 7 in \<open>auto simp: close_container_def intro: wrote_refl\<close>)
  from wrote_after [OF this] show ?case
    using wrote_refl [OF "7.prems"(2)]
    by (simp add: inner_indent_def open_container_def Let_def)
next
  case (8 fo m)
  have "wrote (members_text fo m @ ''}'') (write_characters ''{'' s)
     (rbind (dump_members fo m False False step cur (write_characters ''{'' s))
       (close_container (CHR ''}'') False cur))"
    by (rule wrote_rbind [OF "8.IH"])
      (use 8 in \<open>auto simp: close_container_def intro: wrote_refl\<close>)
  from wrote_after [OF this] show ?case
    using wrote_refl [OF "8.prems"(2)]
    by (simp add: inner_indent_def open_container_def Let_def)
next
  case (10 fo k v m)
  let ?rest = "\<lambda>s. if m = [] then Inr s
    else dump_members fo m False False step cur (write_characters (separator False) s)"
  have rest: "wrote (if m = [] then [] else CHR '','' # members_text fo m) s' (?rest s')"
    if "length (number_buffer s') = 64" for s'
    using "10.IH"(2) [of "write_characters (separator False) s'"] "10.prems"(1) that
      wrote_after [of _ "separator False" s'] by (auto simp: separator_def wrote_nothing)
  have v: "wrote ('':'' @ json_text fo v) s' (dump fo v False False step cur (write_characters '':'' s'))"
    if "length (number_buffer s') = 64" for s'
    by (rule wrote_after) (use "10.IH"(1) "10.prems"(1) that in simp)
  have "wrote (('':'' @ json_text fo v) @ (if m = [] then [] else CHR '','' # members_text fo m)) s'
      (rbind (dump fo v False False step cur (write_characters '':'' s')) ?rest)"
    if "length (number_buffer s') = 64" for s'
    by (rule wrote_rbind [OF v [OF that] rest])
  then show ?case
    using wrote_rbind [OF wrote_string [of k s], of _ "\<lambda>s. rbind (dump fo v False False step cur
      (write_characters '':'' s)) ?rest"] "10.prems" by (simp add: begin_element_def)
next
  case (12 fo v vs)
  let ?rest = "\<lambda>s. if vs = [] then Inr s
    else dump_elements fo vs False False step cur (write_characters (separator False) s)"
  have rest: "wrote (if vs = [] then [] else CHR '','' # elements_text fo vs) s' (?rest s')"
    if "length (number_buffer s') = 64" for s'
    using "12.IH"(2) [of "write_characters (separator False) s'"] "12.prems"(1) that
      wrote_after [of _ "separator False" s'] by (auto simp: separator_def wrote_nothing)
  from "12.prems" show ?case
    using wrote_rbind [OF "12.IH"(1) rest, of s] by (simp add: begin_element_def)
qed (auto simp: dump_float_def wrote_refl wrote_def write_characters_def)

lemma json_dump_text:
  assumes "json_valid v"
  shows "json_dump fo v = Inr (json_text fo v)"
  using dump_wrote(1) [OF assms, of "new_serializer [] (CHR '' '') Strict" fo 0 0]
  by (auto simp: json_dump_def json_dump_with_def new_serializer_def wrote_def write_characters_def)

section \<open>Properties\<close>

text \<open>
  The integer writer, which fills a buffer of 64 bytes from its end two digits at a time,
  appends the decimal text of every number of 64 bits, the smallest one included, leaves a
  buffer of the same size, and fails none of its assertions.
\<close>

theorem integer_text:
  assumes "- (2 ^ 63) \<le> x" "x < 2 ^ 64" "length (number_buffer s) = 64"
  shows "\<exists>s'. dump_integer x s = Inr s' \<and> outp s' = outp s @ to_string x \<and> length (number_buffer s') = 64"
  by (rule dump_integer_eq [OF assms]) (simp add: write_characters_def)

theorem integer_text_witness:
  "\<exists>s'. dump_integer (- (2 ^ 63)) (new_serializer [] (CHR '' '') Strict) = Inr s' \<and>
     outp s' = ''-9223372036854775808''"
proof -
  have digits: "digit_char 1 = CHR ''1''" "digit_char (Suc 0) = CHR ''1''" "digit_char 2 = CHR ''2''"
    "digit_char 3 = CHR ''3''" "digit_char 4 = CHR ''4''" "digit_char 5 = CHR ''5''" "digit_char 6 = CHR ''6''"
    "digit_char 7 = CHR ''7''" "digit_char 8 = CHR ''8''" "digit_char 9 = CHR ''9''"
    by code_simp+
  have "to_string (- (2 ^ 63)) = ''-9223372036854775808''"
    by (simp add: to_string_def nat_digits.simps digits digit_char_0)
  then show ?thesis
    using integer_text [of "- (2 ^ 63)" "new_serializer [] (CHR '' '') Strict"]
    by (auto simp: new_serializer_def)
qed

end
