(* ===== verification/Json_Tokens.thy ===== *)
theory Json_Tokens
  imports Utf8
begin

text \<open>
  The lexer seen from outside: a grammar of the texts of each token, with white space between the
  tokens, and the proof that the scanner of the code delivers exactly the tokens of such a text.
\<close>

section \<open>Reading byte by byte\<close>

definition reads :: "'d lexer \<Rightarrow> string \<Rightarrow> bool" where
  "reads lx s \<longleftrightarrow> pending lx = s \<and> (next_unget lx \<and> current lx = None \<longrightarrow> ia lx = []) \<and>
     \<not> ignore_comments lx \<and> decimal_point_char lx = CHR ''.''"

lemma get_decimal [simp]: "decimal_point_char (get lx) = decimal_point_char lx"
  by (simp add: get_def count_char_def Let_def split: option.split prod.split)

lemma unget_decimal [simp]: "decimal_point_char (unget lx) = decimal_point_char lx"
  by (simp add: unget_def Let_def)

lemma reads_get: "reads lx (c # s) \<Longrightarrow> current (get lx) = Some c \<and> reads (get lx) s"
  by (auto simp: reads_def pending_def get_fields get_character_def
      split: if_splits option.splits list.splits)

lemma reads_get_eof: "reads lx [] \<Longrightarrow> current (get lx) = None \<and> reads (get lx) []"
  by (auto simp: reads_def pending_def get_fields get_character_def
      split: if_splits option.splits list.splits)

lemma reads_unget: "reads lx s \<Longrightarrow> reads (unget (get lx)) s"
  by (auto simp: reads_def pending_def get_fields unget_fields get_character_def
      split: if_splits option.splits list.splits)

lemma reads_json_assert [simp]: "reads (json_assert b lx) s = reads lx s"
  by (simp add: reads_def)

lemma reads_add [simp]: "reads (add c lx) s = reads lx s"
  by (simp add: reads_def add_def pending_def)

lemma reads_add_current [simp]: "reads (add_current lx) s = reads lx s"
  by (simp add: add_current_def)

lemma reads_add_codepoint [simp]: "reads (add_codepoint cp lx) s = reads lx s"
  by (simp add: add_codepoint_def Let_def)

lemma reads_reset [simp]: "reads (reset lx) s = reads lx s"
  by (simp add: reads_def reset_def pending_def)

lemma reads_values [simp]:
  "reads (lx\<lparr>value_unsigned := x\<rparr>) s = reads lx s"
  "reads (lx\<lparr>value_integer := x\<rparr>) s = reads lx s"
  "reads (lx\<lparr>value_float := d\<rparr>) s = reads lx s"
  by (simp_all add: reads_def pending_def)

lemma reads_new: "reads (new_lexer fo s False) s"
  by (simp add: reads_def new_lexer_def pending_def)

lemma token_buffer_add_current: "current lx = Some c \<Longrightarrow> token_buffer (add_current lx) = token_buffer lx @ [c]"
  by (simp add: add_current_def to_char_type_def)

lemma current_reset [simp]: "current (reset lx) = current lx"
  by (simp add: reset_def)

lemma current_add_current [simp]: "current (add_current lx) = current lx"
  by (simp add: add_current_def add_def)

lemma current_add [simp]: "current (add c lx) = current lx"
  by (simp add: add_def)

section \<open>String literals\<close>

definition hex4 :: "string \<Rightarrow> nat option" where
  "hex4 h =
     (case List.map hex_digit h of
        [Some a, Some b, Some c, Some d] \<Rightarrow> Some (4096 * a + 256 * b + 16 * c + d)
      | _ \<Rightarrow> None)"

text \<open>The first argument is the text between the quotes, the second the string it stands for.\<close>

inductive literal :: "string \<Rightarrow> string \<Rightarrow> bool" where
  Empty: "literal [] []"
| Plain: "0x20 \<le> byte c \<Longrightarrow> c \<noteq> quote_char \<Longrightarrow> c \<noteq> backslash \<Longrightarrow> utf8_tail (byte c) = Some rs \<Longrightarrow>
    in_ranges rs us \<Longrightarrow> literal l s \<Longrightarrow> literal (c # us @ l) (c # us @ s)"
| Simple: "simple_escape c = Some b \<Longrightarrow> literal l s \<Longrightarrow> literal (backslash # c # l) (b # s)"
| Unicode: "hex4 h = Some cp \<Longrightarrow> cp < 0xD800 \<or> 0xDFFF < cp \<Longrightarrow> literal l s \<Longrightarrow>
    literal (backslash # CHR ''u'' # h @ l) (encode_codepoint cp @ s)"
| Surrogates: "hex4 h1 = Some cp1 \<Longrightarrow> 0xD800 \<le> cp1 \<Longrightarrow> cp1 \<le> 0xDBFF \<Longrightarrow>
    hex4 h2 = Some cp2 \<Longrightarrow> 0xDC00 \<le> cp2 \<Longrightarrow> cp2 \<le> 0xDFFF \<Longrightarrow> literal l s \<Longrightarrow>
    literal (backslash # CHR ''u'' # h1 @ backslash # CHR ''u'' # h2 @ l)
      (encode_codepoint (0x400 * (cp1 - 0xD800) + (cp2 - 0xDC00) + 0x10000) @ s)"

definition advances :: "'d lexer \<Rightarrow> string \<Rightarrow> string \<Rightarrow> 'd lexer \<Rightarrow> bool" where
  "advances lx u r lx' \<longleftrightarrow> reads lx' r \<and> token_buffer lx' = token_buffer lx @ u"

lemma hex4_cases:
  assumes "hex4 h = Some cp"
  obtains a b c d x y z w where "h = [a, b, c, d]" "hex_digit a = Some x" "hex_digit b = Some y"
    "hex_digit c = Some z" "hex_digit d = Some w" "cp = 4096 * x + 256 * y + 16 * z + w"
  using assms by (auto simp: hex4_def split: list.splits option.splits)

lemma hex4_less: "hex4 h = Some cp \<Longrightarrow> cp \<le> 0xFFFF"
  by (erule hex4_cases) (auto dest!: hex_digit_less)

lemma codepoint_loop_step:
  assumes "reads lx (c # r)" "hex_digit c = Some d"
  shows "codepoint_loop (f # fs) cp lx = codepoint_loop fs (cp + push_bit f d) (get lx)"
    and "reads (get lx) r" "token_buffer (get lx) = token_buffer lx"
  using reads_get [OF assms(1)] assms(2) by (simp_all add: get_fields)

declare codepoint_loop.simps(2) [simp del]

lemma get_codepoint_reads:
  assumes "hex4 h = Some cp" "reads lx (h @ r)"
  shows "\<exists>lx'. get_codepoint lx = (Some cp, lx') \<and> advances lx [] r lx'"
proof -
  from assms(1) obtain a b c d x y z w where h: "h = [a, b, c, d]" and
    d: "hex_digit a = Some x" "hex_digit b = Some y" "hex_digit c = Some z" "hex_digit d = Some w" and
    cp: "cp = 4096 * x + 256 * y + 16 * z + w"
    by (rule hex4_cases)
  let ?lx = "json_assert (current lx = Some (CHR ''u'')) lx"
  have 0: "reads ?lx (a # b # c # d # r)" using assms(2) h by simp
  note 1 = codepoint_loop_step [OF 0 d(1)]
  note 2 = codepoint_loop_step [OF 1(2) d(2)]
  note 3 = codepoint_loop_step [OF 2(2) d(3)]
  note 4 = codepoint_loop_step [OF 3(2) d(4)]
  have "get_codepoint lx = (Some cp, json_assert (cp \<le> 0xFFFF) (get (get (get (get ?lx)))))"
    unfolding get_codepoint_def 1(1) 2(1) 3(1) 4(1) by (simp add: cp push_bit_eq_mult algebra_simps)
  with 4 3 2 1 show ?thesis by (simp add: advances_def)
qed

lemma range_loop_reads:
  "in_ranges rs us \<Longrightarrow> reads lx (us @ r) \<Longrightarrow> \<exists>lx'. range_loop rs lx = (True, lx') \<and> advances lx us r lx'"
proof (induction rs us arbitrary: lx rule: in_ranges.induct)
  case (2 lo hi rs c us)
  from "2.prems" have g: "current (get lx) = Some c" "reads (get lx) (us @ r)"
    using reads_get [of lx c "us @ r"] by auto
  from "2.IH" [of "add_current (get lx)"] "2.prems"(1) g show ?case
    by (auto simp: Let_def advances_def token_buffer_add_current get_fields)
qed (auto simp: advances_def)

lemma scan_escape_simple:
  assumes "simple_escape c = Some b" "reads lx (c # r)"
  shows "\<exists>lx'. scan_escape lx = (True, lx') \<and> advances lx [b] r lx'"
  using reads_get [OF assms(2)] assms(1)
  by (simp add: scan_escape_def advances_def get_fields)

lemma scan_escape_u:
  assumes "reads lx (CHR ''u'' # r)"
  shows "scan_escape lx = scan_unicode_escape (get lx)"
  using reads_get [OF assms] by (simp add: scan_escape_def simple_escape_def)

lemma scan_escape_unicode:
  assumes "hex4 h = Some cp" "cp < 0xD800 \<or> 0xDFFF < cp" "reads lx (CHR ''u'' # h @ r)"
  shows "\<exists>lx'. scan_escape lx = (True, lx') \<and> advances lx (encode_codepoint cp) r lx'"
proof -
  from reads_get [OF assms(3)] have "reads (get lx) (h @ r)" by simp
  from get_codepoint_reads [OF assms(1) this] obtain lx' where
    "get_codepoint (get lx) = (Some cp, lx')" "advances (get lx) [] r lx'" by blast
  then show ?thesis
    using assms(2) hex4_less [OF assms(1)]
    by (auto simp: scan_escape_u [OF assms(3)] scan_unicode_escape_def advances_def
        add_codepoint_encode get_fields)
qed

lemma scan_escape_surrogates:
  assumes "hex4 h1 = Some cp1" "0xD800 \<le> cp1" "cp1 \<le> 0xDBFF"
    "hex4 h2 = Some cp2" "0xDC00 \<le> cp2" "cp2 \<le> 0xDFFF"
    "reads lx (CHR ''u'' # h1 @ backslash # CHR ''u'' # h2 @ r)"
  shows "\<exists>lx'. scan_escape lx = (True, lx') \<and>
    advances lx (encode_codepoint (0x400 * (cp1 - 0xD800) + (cp2 - 0xDC00) + 0x10000)) r lx'"
proof -
  from reads_get [OF assms(7)] have "reads (get lx) (h1 @ backslash # CHR ''u'' # h2 @ r)" by simp
  from get_codepoint_reads [OF assms(1) this] obtain lx1 where
    1: "get_codepoint (get lx) = (Some cp1, lx1)" "advances (get lx) [] (backslash # CHR ''u'' # h2 @ r) lx1"
    by blast
  then have 2: "current (get lx1) = Some backslash" "reads (get lx1) (CHR ''u'' # h2 @ r)"
    using reads_get [of lx1 backslash "CHR ''u'' # h2 @ r"] by (auto simp: advances_def)
  then have 3: "current (get (get lx1)) = Some (CHR ''u'')" "reads (get (get lx1)) (h2 @ r)"
    using reads_get [of "get lx1" "CHR ''u''"] by simp_all
  from get_codepoint_reads [OF assms(4) 3(2)] obtain lx2 where
    4: "get_codepoint (get (get lx1)) = (Some cp2, lx2)" "advances (get (get lx1)) [] r lx2" by blast
  have cp: "push_bit 10 cp1 + cp2 - 0x35FDC00 = 0x400 * (cp1 - 0xD800) + (cp2 - 0xDC00) + 0x10000"
    "push_bit 10 cp1 + cp2 - 0x35FDC00 \<le> 0x10FFFF"
    using assms(2,3,5,6) by (simp_all add: push_bit_eq_mult)
  show ?thesis
    using 1 2 3 4 assms(2,3,5,6) cp
    by (auto simp: scan_escape_u [OF assms(7)] scan_unicode_escape_def scan_low_surrogate_def
        advances_def add_codepoint_encode get_fields Let_def)
qed

lemma scan_character_plain:
  assumes "0x20 \<le> byte c" "c \<noteq> backslash" "utf8_tail (byte c) = Some rs" "in_ranges rs us"
    "current lx = Some c" "reads lx (us @ r)"
  shows "\<exists>lx'. scan_character c lx = (True, lx') \<and> advances lx (c # us) r lx'"
proof (cases "byte c \<le> 0x7F")
  case True
  with assms(3) have "rs = []" by (simp add: utf8_tail_def)
  with assms(4) have "us = []" by (cases us) simp_all
  with True assms show ?thesis
    by (simp add: scan_character_def scan_ascii_def advances_def token_buffer_add_current)
next
  case False
  let ?lx = "json_assert (2 * length rs = 2 \<or> 2 * length rs = 4 \<or> 2 * length rs = 6) lx"
  have "reads (add_current ?lx) (us @ r)" using assms(6) by simp
  from range_loop_reads [OF assms(4) this] obtain lx' where
    "range_loop rs (add_current ?lx) = (True, lx')" "advances (add_current ?lx) us r lx'" by blast
  with False assms show ?thesis
    by (simp add: scan_character_def scan_utf8_tail next_byte_in_range_def advances_def
        token_buffer_add_current)
qed

lemma scan_string_loop_char:
  assumes "current (get lx) = Some c" "c \<noteq> quote_char" "scan_character c (get lx) = (True, lx1)"
  shows "scan_string_loop lx = scan_string_loop lx1"
  using assms by (subst scan_string_loop.simps) simp

lemma scan_character_backslash: "scan_character backslash lx = scan_escape lx"
  by (simp add: scan_character_def)

lemma scan_string_loop_literal:
  "literal l s \<Longrightarrow> reads lx (l @ quote_char # r) \<Longrightarrow>
     \<exists>lx'. scan_string_loop lx = (Value_String, lx') \<and> advances lx s r lx'"
proof (induction arbitrary: lx rule: literal.induct)
  case Empty
  from reads_get [of lx quote_char r] Empty show ?case
    by (subst scan_string_loop.simps) (simp add: advances_def get_fields)
next
  case (Plain c rs us l s)
  from reads_get [of lx c] Plain.prems have g: "current (get lx) = Some c"
    "reads (get lx) (us @ l @ quote_char # r)" by simp_all
  from scan_character_plain [OF Plain.hyps(1,3,4,5) g] obtain lx1 where
    1: "scan_character c (get lx) = (True, lx1)" "advances (get lx) (c # us) (l @ quote_char # r) lx1" by blast
  with Plain.IH [of lx1] scan_string_loop_char [OF g(1) Plain.hyps(2) 1(1)] show ?case
    by (auto simp: advances_def get_fields)
next
  case (Simple c b l s)
  from reads_get [of lx backslash] Simple.prems have g: "current (get lx) = Some backslash"
    "reads (get lx) (c # l @ quote_char # r)" by simp_all
  from scan_escape_simple [OF Simple.hyps(1) g(2)] obtain lx1 where
    1: "scan_character backslash (get lx) = (True, lx1)" "advances (get lx) [b] (l @ quote_char # r) lx1"
    by (auto simp: scan_character_backslash)
  with Simple.IH [of lx1] scan_string_loop_char [OF g(1) _ 1(1)] show ?case
    by (auto simp: advances_def get_fields)
next
  case (Unicode h cp l s)
  from reads_get [of lx backslash] Unicode.prems have g: "current (get lx) = Some backslash"
    "reads (get lx) (CHR ''u'' # h @ l @ quote_char # r)" by simp_all
  from scan_escape_unicode [OF Unicode.hyps(1,2) g(2)] obtain lx1 where
    1: "scan_character backslash (get lx) = (True, lx1)"
      "advances (get lx) (encode_codepoint cp) (l @ quote_char # r) lx1"
    by (auto simp: scan_character_backslash)
  with Unicode.IH [of lx1] scan_string_loop_char [OF g(1) _ 1(1)] show ?case
    by (auto simp: advances_def get_fields)
next
  case (Surrogates h1 cp1 h2 cp2 l s)
  from reads_get [of lx backslash] Surrogates.prems have g: "current (get lx) = Some backslash"
    "reads (get lx) (CHR ''u'' # h1 @ backslash # CHR ''u'' # h2 @ l @ quote_char # r)" by simp_all
  from scan_escape_surrogates [OF Surrogates.hyps(1-6) g(2)] obtain lx1 where
    1: "scan_character backslash (get lx) = (True, lx1)"
      "advances (get lx) (encode_codepoint (0x400 * (cp1 - 0xD800) + (cp2 - 0xDC00) + 0x10000))
         (l @ quote_char # r) lx1"
    by (auto simp: scan_character_backslash)
  with Surrogates.IH [of lx1] scan_string_loop_char [OF g(1) _ 1(1)] show ?case
    by (auto simp: advances_def get_fields)
qed

lemma scan_string_literal:
  assumes "literal l s" "reads lx (l @ quote_char # r)"
  shows "\<exists>lx'. scan_string lx = (Value_String, lx') \<and> reads lx' r \<and> token_buffer lx' = s"
  using scan_string_loop_literal [OF assms(1), of "json_assert (current lx = Some quote_char) (reset lx)" r] assms(2)
  by (auto simp: scan_string_def Let_def advances_def) (simp add: reset_def)

section \<open>Tokens and their texts\<close>

text \<open>
  A number with a fraction or an exponent, or one of more than 64 bits, is a token with its text:
  its value is what the C library reads from it.
\<close>

datatype tok = Fixed token_type | Str string | Uns int | Neg int | Flt string

fun tok_type :: "tok \<Rightarrow> token_type" where
  "tok_type (Fixed t) = t"
| "tok_type (Str s) = Value_String"
| "tok_type (Uns i) = Value_Unsigned"
| "tok_type (Neg i) = Value_Integer"
| "tok_type (Flt s) = Value_Float"

fun fixed_text :: "token_type \<Rightarrow> string" where
  "fixed_text Begin_Array = ''[''"
| "fixed_text End_Array = '']''"
| "fixed_text Begin_Object = ''{''"
| "fixed_text End_Object = ''}''"
| "fixed_text Name_Separator = '':''"
| "fixed_text Value_Separator = '',''"
| "fixed_text Literal_True = ''true''"
| "fixed_text Literal_False = ''false''"
| "fixed_text Literal_Null = ''null''"
| "fixed_text _ = []"

text \<open>A number reaches up to the first byte that cannot continue it.\<close>

definition ends_number :: "string \<Rightarrow> bool" where
  "ends_number r \<longleftrightarrow> r = [] \<or> (\<not> is_digit (hd r) \<and> hd r \<notin> {CHR ''.'', CHR ''e'', CHR ''E''})"

definition digit_run :: "string \<Rightarrow> bool" where
  "digit_run ds \<longleftrightarrow> ds \<noteq> [] \<and> list_all is_digit ds"

text \<open>What may follow the digits before the point.\<close>

definition exponent_lexeme :: "string \<Rightarrow> bool" where
  "exponent_lexeme u \<longleftrightarrow> u \<noteq> [] \<and> hd u \<in> {CHR ''e'', CHR ''E''} \<and>
     (digit_run (tl u) \<or> tl u \<noteq> [] \<and> hd (tl u) \<in> {CHR ''+'', CHR ''-''} \<and> digit_run (tl (tl u)))"

definition number_tail :: "string \<Rightarrow> bool" where
  "number_tail u \<longleftrightarrow>
     (if u \<noteq> [] \<and> hd u = CHR ''.''
      then digit_run (takeWhile is_digit (tl u)) \<and>
        (dropWhile is_digit (tl u) = [] \<or> exponent_lexeme (dropWhile is_digit (tl u)))
      else exponent_lexeme u)"

inductive tok_text :: "tok \<Rightarrow> string \<Rightarrow> string \<Rightarrow> bool" where
  Fixed: "fixed_text t \<noteq> [] \<Longrightarrow> tok_text (Fixed t) (fixed_text t) r"
| Str: "literal l s \<Longrightarrow> tok_text (Str s) (quote_char # l @ [quote_char]) r"
| Uns: "int n < 2 ^ 64 \<Longrightarrow> ends_number r \<Longrightarrow> tok_text (Uns (int n)) (nat_digits n) r"
| Neg: "int n \<le> 2 ^ 63 \<Longrightarrow> ends_number r \<Longrightarrow>
    tok_text (Neg (- int n)) (CHR ''-'' # nat_digits n) r"
| Flt: "number_tail u \<Longrightarrow> ends_number r \<Longrightarrow> tok_text (Flt (nat_digits n @ u)) (nat_digits n @ u) r"
| Flt_minus: "number_tail u \<Longrightarrow> ends_number r \<Longrightarrow>
    tok_text (Flt (CHR ''-'' # nat_digits n @ u)) (CHR ''-'' # nat_digits n @ u) r"
| Big: "2 ^ 64 \<le> int n \<Longrightarrow> ends_number r \<Longrightarrow> tok_text (Flt (nat_digits n)) (nat_digits n) r"
| Big_minus: "2 ^ 63 < int n \<Longrightarrow> ends_number r \<Longrightarrow>
    tok_text (Flt (CHR ''-'' # nat_digits n)) (CHR ''-'' # nat_digits n) r"

text \<open>A text of a token sequence: before every token, and at the end, any white space.\<close>

inductive spaced :: "tok list \<Rightarrow> string \<Rightarrow> bool" where
  End: "(\<forall>c \<in> set w. is_json_space c) \<Longrightarrow> spaced [] w"
| Tok: "(\<forall>c \<in> set w. is_json_space c) \<Longrightarrow> tok_text t u r \<Longrightarrow> spaced ts r \<Longrightarrow> spaced (t # ts) (w @ u @ r)"

text \<open>The scanner delivers a token with its value.\<close>

definition scans :: "'d double_ops \<Rightarrow> 'd lexer \<Rightarrow> tok \<Rightarrow> 'd lexer \<Rightarrow> bool" where
  "scans fo lx t lx' \<longleftrightarrow> scan fo lx = (tok_type t, lx') \<and>
     (case t of Fixed _ \<Rightarrow> True | Str s \<Rightarrow> token_buffer lx' = s
      | Uns i \<Rightarrow> value_unsigned lx' = i | Neg i \<Rightarrow> value_integer lx' = i
      | Flt s \<Rightarrow> value_float lx' = strtod fo s)"

fun delivers :: "'d double_ops \<Rightarrow> 'd lexer \<Rightarrow> tok list \<Rightarrow> bool" where
  "delivers fo lx [] = True"
| "delivers fo lx (t # ts) = (\<exists>lx'. scans fo lx t lx' \<and> delivers fo lx' ts)"

lemma skip_whitespace_reads:
  "\<forall>c \<in> set w. is_json_space c \<Longrightarrow> \<not> is_json_space c \<Longrightarrow> reads lx (w @ c # r) \<Longrightarrow>
     current (skip_whitespace lx) = Some c \<and> reads (skip_whitespace lx) r"
proof (induction w arbitrary: lx)
  case Nil
  with reads_get [of lx c r] show ?case by (subst (1 2) skip_whitespace.simps) simp
next
  case (Cons d w)
  then have "current (get lx) = Some d" "reads (get lx) (w @ c # r)"
    using reads_get [of lx d "w @ c # r"] by auto
  with Cons.IH [of "get lx"] Cons.prems show ?case
    by (subst (1 2) skip_whitespace.simps) simp
qed

lemma skip_whitespace_eof:
  "\<forall>c \<in> set w. is_json_space c \<Longrightarrow> reads lx w \<Longrightarrow>
     current (skip_whitespace lx) = None \<and> reads (skip_whitespace lx) []"
proof (induction w arbitrary: lx)
  case Nil
  with reads_get_eof [of lx] show ?case by (subst (1 2) skip_whitespace.simps) simp
next
  case (Cons d w)
  then have "current (get lx) = Some d" "reads (get lx) w"
    using reads_get [of lx d w] by auto
  with Cons.IH [of "get lx"] Cons.prems show ?case
    by (subst (1 2) skip_whitespace.simps) simp
qed

lemma skip_comments_off: "\<not> ignore_comments lx \<Longrightarrow> skip_comments lx = (True, lx)"
  by (subst skip_comments.simps) simp

lemma scan_bom:
  assumes "reads lx s" "s = [] \<or> hd s \<noteq> CHR 0xEF"
  shows "\<exists>lx'. reads lx' s \<and> scan fo lx = scan_after_bom fo lx'"
proof (cases "chars_read_total (position lx) = 0")
  case False
  with assms(1) show ?thesis by (auto simp: scan_def)
next
  case True
  have "current (get lx) \<noteq> Some (CHR 0xEF)"
    using assms reads_get [of lx "hd s" "tl s"] reads_get_eof [of lx] by (cases s) auto
  then have "skip_bom lx = (True, unget (get lx))" by (simp add: skip_bom_def)
  with True reads_unget [OF assms(1)] show ?thesis by (auto simp: scan_def)
qed

lemma reads_no_comments: "reads lx s \<Longrightarrow> \<not> ignore_comments lx"
  by (simp add: reads_def)

lemma scan_first:
  assumes "\<forall>c \<in> set w. is_json_space c" "\<not> is_json_space c" "c \<noteq> CHR 0xEF" "reads lx (w @ c # r)"
  shows "\<exists>lx'. current lx' = Some c \<and> reads lx' r \<and> scan fo lx = scan_token fo lx'"
proof -
  have "\<not> is_json_space (CHR 0xEF)" by (simp add: is_json_space_def)
  then have "w @ c # r = [] \<or> hd (w @ c # r) \<noteq> CHR 0xEF"
    using assms(1,3) by (cases w) auto
  from scan_bom [OF assms(4) this] obtain lx' where
    l: "reads lx' (w @ c # r)" "scan fo lx = scan_after_bom fo lx'" by blast
  with skip_whitespace_reads [OF assms(1,2) l(1)] show ?thesis
    by (auto simp: scan_after_bom_def skip_comments_off reads_no_comments)
qed

lemma scan_end:
  assumes "\<forall>c \<in> set w. is_json_space c" "reads lx w"
  shows "\<exists>lx'. scan fo lx = (End_Of_Input, lx') \<and> reads lx' []"
proof -
  have "\<not> is_json_space (CHR 0xEF)" by (simp add: is_json_space_def)
  then have "w = [] \<or> hd w \<noteq> CHR 0xEF" using assms(1) by (cases w) auto
  from scan_bom [OF assms(2) this] obtain lx' where
    l: "reads lx' w" "scan fo lx = scan_after_bom fo lx'" by blast
  with skip_whitespace_eof [OF assms(1) l(1)] show ?thesis
    by (auto simp: scan_after_bom_def skip_comments_off reads_no_comments scan_token_def)
qed

lemma scan_literal_loop_reads:
  "reads lx (cs @ r) \<Longrightarrow> \<exists>lx'. scan_literal_loop cs t lx = (t, lx') \<and> reads lx' r"
proof (induction cs arbitrary: lx)
  case (Cons c cs)
  with reads_get [of lx c "cs @ r"] Cons.IH [of "get lx"] show ?case
    by (simp add: to_char_type_def Let_def)
qed simp

lemma digits_end:
  "reads lx r \<Longrightarrow> ends_number r \<Longrightarrow>
     \<not> digit_next (get lx) \<and> \<not> exponent_next (get lx) \<and> current (get lx) \<noteq> Some (CHR ''.'')"
  using reads_get_eof [of lx] reads_get [of lx "hd r" "tl r"]
  by (cases r) (auto simp: ends_number_def digit_next_def exponent_next_def)

lemma hd_nat_digits: "0 < n \<Longrightarrow> hd (nat_digits n) \<noteq> CHR ''0''"
proof (induction n rule: nat_digits.induct)
  case (1 n)
  have d: "digit_char n \<noteq> CHR ''0''" if "n < 10"
  proof
    assume "digit_char n = CHR ''0''"
    then have "digit_val (digit_char n) = 0" by (simp add: digit_val_def)
    with that "1.prems" show False by simp
  qed
  show ?case
  proof (cases "n < 10")
    case True
    with d show ?thesis by (simp add: nat_digits.simps [of n])
  next
    case False
    with 1 show ?thesis by (simp add: nat_digits.simps [of n])
  qed
qed

lemma nat_digits_split:
  obtains "n = 0" "nat_digits n = ''0''"
  | d ds where "0 < n" "nat_digits n = d # ds" "d \<noteq> CHR ''0''" "is_digit d" "\<forall>c \<in> set ds. is_digit c"
proof (cases "n = 0")
  case True
  with that(1) nat_digits_0 show thesis by simp
next
  case False
  then have "hd (nat_digits n) \<noteq> CHR ''0''" using hd_nat_digits by simp
  with False that(2) nat_digits_is_digit [of _ n] show thesis
    by (cases "nat_digits n") auto
qed

lemma first_digit: "nat_digits n = d # ds \<Longrightarrow> is_digit d"
  using nat_digits_is_digit [of d n] by simp

lemma is_digit_not_minus: "is_digit d \<Longrightarrow> d \<noteq> CHR ''-''"
  using is_digit_not_special by blast

text \<open>Both kinds of numbers, the tail of a floating-point number may be empty.\<close>

definition finishes :: "'d double_ops \<Rightarrow> token_type \<times> 'd lexer \<Rightarrow> token_type \<Rightarrow> string \<Rightarrow> string \<Rightarrow> bool" where
  "finishes fo res nt u r \<longleftrightarrow>
     (\<exists>lx1. res = scan_number_done fo nt (get lx1) \<and> reads lx1 r \<and> token_buffer lx1 = u)"

lemma digit_run_Cons: "digit_run ds \<longleftrightarrow> (\<exists>d ds'. ds = d # ds' \<and> is_digit d \<and> list_all is_digit ds')"
  by (cases ds) (auto simp: digit_run_def)

lemma scan_number_any2_reads:
  "list_all is_digit ds \<Longrightarrow> ends_number r \<Longrightarrow> reads lx (ds @ r) \<Longrightarrow>
     finishes fo (scan_number_any2 fo nt lx) nt (token_buffer lx @ ds) r"
proof (induction ds arbitrary: lx)
  case Nil
  with digits_end [of lx r] show ?case
    unfolding finishes_def by (intro exI [of _ lx]) (subst scan_number_any2.simps, simp)
next
  case (Cons d ds)
  then have g: "current (get lx) = Some d" "reads (get lx) (ds @ r)"
    using reads_get [of lx d "ds @ r"] by auto
  then have "scan_number_any2 fo nt lx = scan_number_any2 fo nt (add_current (get lx))"
    using Cons.prems(1) by (subst scan_number_any2.simps) (simp add: digit_next_def)
  with Cons.IH [of "add_current (get lx)"] Cons.prems g show ?case
    by (simp add: token_buffer_add_current get_fields)
qed

text \<open>The exponent, its letter already read.\<close>

lemma scan_number_exponent_reads:
  assumes "exponent_lexeme (x # u)" "ends_number r" "reads lx (u @ r)"
  shows "finishes fo (scan_number_exponent fo lx) Value_Float (token_buffer lx @ u) r"
proof -
  consider (plain) d ds where "u = d # ds" "is_digit d" "list_all is_digit ds"
    | (signed) sg d ds where "u = sg # d # ds" "sg \<in> {CHR ''+'', CHR ''-''}" "is_digit d" "list_all is_digit ds"
    using assms(1) by (cases u) (auto simp: exponent_lexeme_def digit_run_Cons)
  then show ?thesis
  proof cases
    case plain
    then have g: "current (get lx) = Some d" "reads (add_current (get lx)) (ds @ r)"
      using reads_get [of lx d "ds @ r"] assms(3) by auto
    have "d \<noteq> CHR ''+''" "d \<noteq> CHR ''-''" using plain(2) by (auto simp: is_digit_def)
    with g plain have "scan_number_exponent fo lx = scan_number_any2 fo Value_Float (add_current (get lx))"
      by (simp add: scan_number_exponent_def digit_next_def Let_def)
    with scan_number_any2_reads [OF plain(3) assms(2) g(2), of fo Value_Float] plain(1) g(1) show ?thesis
      by (simp add: token_buffer_add_current get_fields)
  next
    case signed
    then have g: "current (get lx) = Some sg" "reads (add_current (get lx)) (d # ds @ r)"
      using reads_get [of lx sg "d # ds @ r"] assms(3) by auto
    let ?lx = "add_current (get lx)"
    have h: "current (get ?lx) = Some d" "reads (add_current (get ?lx)) (ds @ r)"
      using reads_get [OF g(2)] by auto
    have "scan_number_exponent fo lx = scan_number_any2 fo Value_Float (add_current (get ?lx))"
      using g h signed by (auto simp: scan_number_exponent_def scan_number_sign_def digit_next_def Let_def)
    with scan_number_any2_reads [OF signed(4) assms(2) h(2), of fo Value_Float] signed(1) g(1) h(1) show ?thesis
      by (simp add: token_buffer_add_current get_fields)
  qed
qed

lemma exponent_lexeme_first: "exponent_lexeme u \<Longrightarrow> \<exists>x u'. u = x # u' \<and> x \<in> {CHR ''e'', CHR ''E''}"
  by (cases u) (auto simp: exponent_lexeme_def)

lemma scan_number_decimal2_reads:
  "list_all is_digit ds \<Longrightarrow> u = [] \<or> exponent_lexeme u \<Longrightarrow> ends_number r \<Longrightarrow> reads lx (ds @ u @ r) \<Longrightarrow>
     finishes fo (scan_number_decimal2 fo Value_Float lx) Value_Float (token_buffer lx @ ds @ u) r"
proof (induction ds arbitrary: lx)
  case Nil
  show ?case
  proof (cases "u = []")
    case True
    with Nil digits_end [of lx r] show ?thesis
      unfolding finishes_def by (intro exI [of _ lx]) (subst scan_number_decimal2.simps, simp)
  next
    case False
    with Nil.prems(2) exponent_lexeme_first obtain x u' where
      u: "u = x # u'" "exponent_lexeme (x # u')" "x \<in> {CHR ''e'', CHR ''E''}" by blast
    with Nil.prems(4) reads_get [of lx x "u' @ r"] have g: "current (get lx) = Some x"
      "reads (add_current (get lx)) (u' @ r)" by auto
    have "\<not> is_digit x" using u(3) by (auto simp: is_digit_def)
    with g u(3) have "scan_number_decimal2 fo Value_Float lx = scan_number_exponent fo (add_current (get lx))"
      by (subst scan_number_decimal2.simps) (auto simp: digit_next_def exponent_next_def)
    with scan_number_exponent_reads [OF u(2) Nil.prems(3) g(2), of fo] u(1) g(1) show ?thesis
      by (simp add: token_buffer_add_current get_fields)
  qed
next
  case (Cons d ds)
  then have g: "current (get lx) = Some d" "reads (get lx) (ds @ u @ r)"
    using reads_get [of lx d "ds @ u @ r"] by auto
  then have "scan_number_decimal2 fo Value_Float lx = scan_number_decimal2 fo Value_Float (add_current (get lx))"
    using Cons.prems(1) by (subst scan_number_decimal2.simps) (simp add: digit_next_def)
  with Cons.IH [of "add_current (get lx)"] Cons.prems g show ?case
    by (simp add: token_buffer_add_current get_fields)
qed

text \<open>The tail, which decides the kind of the number.\<close>

definition tail_type :: "token_type \<Rightarrow> string \<Rightarrow> token_type" where
  "tail_type nt u = (if u = [] then nt else Value_Float)"

lemma scan_number_decimal1_reads:
  assumes "digit_run ds" "u = [] \<or> exponent_lexeme u" "ends_number r" "reads lx (ds @ u @ r)"
  shows "finishes fo (scan_number_decimal1 fo lx) Value_Float (token_buffer lx @ ds @ u) r"
proof -
  from assms(1) obtain d ds' where ds: "ds = d # ds'" "is_digit d" "list_all is_digit ds'"
    by (auto simp: digit_run_Cons)
  with assms(4) reads_get [of lx d "ds' @ u @ r"] have g: "current (get lx) = Some d"
    "reads (add_current (get lx)) (ds' @ u @ r)" by auto
  with ds(2) have "scan_number_decimal1 fo lx = scan_number_decimal2 fo Value_Float (add_current (get lx))"
    by (simp add: scan_number_decimal1_def digit_next_def Let_def)
  with scan_number_decimal2_reads [OF ds(3) assms(2,3) g(2), of fo] ds(1) g(1) show ?thesis
    by (simp add: token_buffer_add_current get_fields)
qed

lemma number_tail_cases:
  assumes "number_tail u"
  obtains (point) ds w where "u = CHR ''.'' # ds @ w" "digit_run ds" "w = [] \<or> exponent_lexeme w"
    | (exponent) "exponent_lexeme u"
proof (cases "u \<noteq> [] \<and> hd u = CHR ''.''")
  case True
  then have "u = CHR ''.'' # takeWhile is_digit (tl u) @ dropWhile is_digit (tl u)" by (cases u) simp_all
  moreover from True assms have "digit_run (takeWhile is_digit (tl u)) \<and>
      (dropWhile is_digit (tl u) = [] \<or> exponent_lexeme (dropWhile is_digit (tl u)))"
    unfolding number_tail_def by meson
  ultimately show thesis using point by blast
next
  case False
  with assms have "exponent_lexeme u" unfolding number_tail_def by meson
  then show thesis by (rule exponent)
qed

lemma scan_number_zero_tail:
  assumes "u = [] \<or> number_tail u" "ends_number r" "reads lx (u @ r)"
  shows "\<not> digit_next (get lx)"
    and "finishes fo (scan_number_zero fo nt lx) (tail_type nt u) (token_buffer lx @ u) r"
proof -
  have *: "\<not> digit_next (get lx) \<and> finishes fo (scan_number_zero fo nt lx) (tail_type nt u) (token_buffer lx @ u) r"
  proof (cases "u = []")
    case True
    with assms digits_end [of lx r] show ?thesis
      unfolding finishes_def by (auto simp: scan_number_zero_def tail_type_def Let_def intro!: exI [of _ lx])
  next
    case False
    with assms(1) have "number_tail u" by simp
    then show ?thesis
    proof (cases rule: number_tail_cases)
      case (point ds w)
      with assms(3) reads_get [of lx "CHR ''.''" "ds @ w @ r"] have g: "current (get lx) = Some (CHR ''.'')"
        "reads (add (CHR ''.'') (get lx)) (ds @ w @ r)" by auto
      have dp: "decimal_point_char (get lx) = CHR ''.''" using assms(3) by (simp add: reads_def)
      have "scan_number_zero fo nt lx = scan_number_decimal1 fo (add (CHR ''.'') (get lx))"
        using g(1) dp by (simp add: scan_number_zero_def Let_def del: get_decimal)
      with scan_number_decimal1_reads [OF point(2,3) assms(2) g(2), of fo] point(1) g(1) show ?thesis
        by (simp add: add_def get_fields tail_type_def digit_next_def is_digit_def)
    next
      case exponent
      then obtain x u' where u: "u = x # u'" "x \<in> {CHR ''e'', CHR ''E''}" using exponent_lexeme_first by blast
      with assms(3) reads_get [of lx x "u' @ r"] have g: "current (get lx) = Some x"
        "reads (add_current (get lx)) (u' @ r)" by auto
      have "scan_number_zero fo nt lx = scan_number_exponent fo (add_current (get lx))"
        using g(1) u(2) by (auto simp: scan_number_zero_def exponent_next_def Let_def)
      moreover have "\<not> digit_next (get lx)" using g(1) u(2) by (auto simp: digit_next_def is_digit_def)
      ultimately show ?thesis
        using scan_number_exponent_reads [OF exponent [unfolded u(1)] assms(2) g(2), of fo] u(1) g(1)
        by (simp add: token_buffer_add_current get_fields tail_type_def)
    qed
  qed
  show "\<not> digit_next (get lx)"
    and "finishes fo (scan_number_zero fo nt lx) (tail_type nt u) (token_buffer lx @ u) r"
    using * by blast+
qed

lemma scan_number_any1_zero: "\<not> digit_next (get lx) \<Longrightarrow> scan_number_any1 fo nt lx = scan_number_zero fo nt lx"
  by (subst scan_number_any1.simps) (simp add: scan_number_zero_def Let_def)

lemma scan_number_any1_tail:
  "list_all is_digit ds \<Longrightarrow> u = [] \<or> number_tail u \<Longrightarrow> ends_number r \<Longrightarrow> reads lx (ds @ u @ r) \<Longrightarrow>
     finishes fo (scan_number_any1 fo nt lx) (tail_type nt u) (token_buffer lx @ ds @ u) r"
proof (induction ds arbitrary: lx)
  case Nil
  with scan_number_zero_tail(1) [of u r lx] scan_number_zero_tail(2) [of u r lx fo nt] show ?case by (simp add: scan_number_any1_zero)
next
  case (Cons d ds)
  then have g: "current (get lx) = Some d" "reads (get lx) (ds @ u @ r)"
    using reads_get [of lx d "ds @ u @ r"] by auto
  then have "scan_number_any1 fo nt lx = scan_number_any1 fo nt (add_current (get lx))"
    using Cons.prems(1) by (subst scan_number_any1.simps) (simp add: digit_next_def)
  with Cons.IH [of "add_current (get lx)"] Cons.prems g show ?case
    by (simp add: token_buffer_add_current get_fields)
qed

lemma scan_number_digits:
  assumes "current lx = Some d" "nat_digits n = d # ds" "reads lx (ds @ u @ r)"
    "u = [] \<or> number_tail u" "ends_number r"
  shows "finishes fo (if d = CHR ''0'' then scan_number_zero fo nt (add_current lx)
             else scan_number_any1 fo nt (add_current lx)) (tail_type nt u) (token_buffer lx @ nat_digits n @ u) r"
proof (cases n rule: nat_digits_split)
  case 1
  with assms show ?thesis
    using scan_number_zero_tail(2) [OF assms(4,5), of "add_current lx"] by (simp add: token_buffer_add_current)
next
  case (2 d' ds')
  with assms show ?thesis
    using scan_number_any1_tail [of ds u r "add_current lx" fo nt]
    by (auto simp: token_buffer_add_current list_all_iff)
qed

lemma scan_number_plain:
  assumes "current lx = Some d" "nat_digits n = d # ds" "reads lx (ds @ u @ r)"
    "u = [] \<or> number_tail u" "ends_number r"
  shows "finishes fo (scan_number fo lx) (tail_type Value_Unsigned u) (nat_digits n @ u) r"
proof -
  have d: "is_digit d" "d \<noteq> CHR ''-''"
    using first_digit [OF assms(2)] is_digit_not_minus by auto
  have "token_buffer (reset lx) = []" by (simp add: reset_def)
  moreover have "finishes fo (if d = CHR ''0'' then scan_number_zero fo Value_Unsigned (add_current (reset lx))
      else scan_number_any1 fo Value_Unsigned (add_current (reset lx)))
      (tail_type Value_Unsigned u) (token_buffer (reset lx) @ nat_digits n @ u) r"
    by (rule scan_number_digits) (use assms in simp_all)
  moreover have "scan_number fo lx = (if d = CHR ''0'' then scan_number_zero fo Value_Unsigned (add_current (reset lx))
      else scan_number_any1 fo Value_Unsigned (add_current (reset lx)))"
    using assms(1) d by (auto simp: scan_number_def digit_next_def Let_def)
  ultimately show ?thesis by simp
qed

lemma scan_number_signed:
  assumes "current lx = Some (CHR ''-'')" "reads lx (nat_digits n @ u @ r)"
    "u = [] \<or> number_tail u" "ends_number r"
  shows "finishes fo (scan_number fo lx) (tail_type Value_Integer u) (CHR ''-'' # nat_digits n @ u) r"
proof -
  let ?lx = "add_current (reset lx)"
  have c: "current (reset lx) = Some (CHR ''-'')" "token_buffer ?lx = ''-''" "reads ?lx (nat_digits n @ u @ r)"
    using assms(1,2) by (simp_all add: token_buffer_add_current) (simp add: reset_def)
  obtain d ds where dd: "nat_digits n = d # ds" by (cases "nat_digits n") auto
  with c(3) reads_get [of ?lx d "ds @ u @ r"] have g: "current (get ?lx) = Some d" "reads (get ?lx) (ds @ u @ r)"
    by auto
  have d: "is_digit d" using first_digit [OF dd] .
  from scan_number_digits [OF g(1) dd g(2) assms(3,4), of fo Value_Integer] c(2)
  have "finishes fo (if d = CHR ''0'' then scan_number_zero fo Value_Integer (add_current (get ?lx))
      else scan_number_any1 fo Value_Integer (add_current (get ?lx)))
      (tail_type Value_Integer u) (CHR ''-'' # nat_digits n @ u) r"
    by (simp add: get_fields)
  moreover have "scan_number fo lx = (if d = CHR ''0'' then scan_number_zero fo Value_Integer (add_current (get ?lx))
      else scan_number_any1 fo Value_Integer (add_current (get ?lx)))"
    using c(1) g(1) d by (auto simp: scan_number_def scan_number_minus_def digit_next_def Let_def)
  ultimately show ?thesis by simp
qed

text \<open>What is stored at the end.\<close>

lemma finishes_unsigned:
  assumes "finishes fo res Value_Unsigned (nat_digits n) r"
  shows "\<exists>lx'. reads lx' r \<and> (if int n < 2 ^ 64 then res = (Value_Unsigned, lx') \<and> value_unsigned lx' = int n
     else res = (Value_Float, lx') \<and> value_float lx' = strtod fo (nat_digits n))"
proof -
  from assms obtain lx1 where 1: "res = scan_number_done fo Value_Unsigned (get lx1)" "reads lx1 r"
    "token_buffer lx1 = nat_digits n" by (auto simp: finishes_def)
  with reads_unget [OF 1(2)] show ?thesis
    by (cases "int n < 2 ^ 64") (simp_all add: scan_number_done_def unget_fields get_fields strtoull_def float_token_def Let_def)
qed

lemma finishes_integer:
  assumes "finishes fo res Value_Integer (CHR ''-'' # nat_digits n) r"
  shows "\<exists>lx'. reads lx' r \<and> (if int n \<le> 2 ^ 63 then res = (Value_Integer, lx') \<and> value_integer lx' = - int n
     else res = (Value_Float, lx') \<and> value_float lx' = strtod fo (CHR ''-'' # nat_digits n))"
proof -
  from assms obtain lx1 where 1: "res = scan_number_done fo Value_Integer (get lx1)" "reads lx1 r"
    "token_buffer lx1 = CHR ''-'' # nat_digits n" by (auto simp: finishes_def)
  with reads_unget [OF 1(2)] show ?thesis
    by (cases "int n \<le> 2 ^ 63") (simp_all add: scan_number_done_def unget_fields get_fields strtoll_def float_token_def Let_def)
qed

lemma finishes_float:
  assumes "finishes fo res Value_Float u r"
  shows "\<exists>lx'. reads lx' r \<and> res = (Value_Float, lx') \<and> value_float lx' = strtod fo u"
proof -
  from assms obtain lx1 where 1: "res = scan_number_done fo Value_Float (get lx1)" "reads lx1 r"
    "token_buffer lx1 = u" by (auto simp: finishes_def)
  with reads_unget [OF 1(2)] show ?thesis
    by (simp add: scan_number_done_def unget_fields get_fields float_token_def Let_def)
qed

lemma scan_token_fixed:
  "fixed_text ty = c # cs \<Longrightarrow> current lx = Some c \<Longrightarrow> scan_token fo lx = scan_literal_loop cs ty lx"
  by (cases ty) (auto simp: scan_token_def scan_literal_def to_char_type_def)

lemma scan_token_digit:
  assumes "current lx = Some c" "is_digit c"
  shows "scan_token fo lx = scan_number fo lx"
proof -
  have "c \<notin> set ''[]{}:,tfn''" "c \<noteq> quote_char" using assms(2) by (auto simp: is_digit_def)
  with assms show ?thesis by (simp add: scan_token_def)
qed

lemma fixed_text_first: "fixed_text ty = c # cs \<Longrightarrow> \<not> is_json_space c \<and> c \<noteq> CHR 0xEF"
  by (cases ty) (auto simp: is_json_space_def)

lemma number_tail_not_Nil: "number_tail u \<Longrightarrow> u \<noteq> []"
  by (auto simp: exponent_lexeme_def elim: number_tail_cases)

lemma scan_plain_text:
  assumes "\<forall>c \<in> set w. is_json_space c" "reads lx (w @ nat_digits n @ u @ r)" "u = [] \<or> number_tail u" "ends_number r"
  shows "finishes fo (scan fo lx) (tail_type Value_Unsigned u) (nat_digits n @ u) r"
proof -
  obtain d ds where dd: "nat_digits n = d # ds" by (cases "nat_digits n") auto
  have d: "is_digit d" using first_digit [OF dd] .
  then have n: "\<not> is_json_space d" "d \<noteq> CHR 0xEF" by (auto simp: is_digit_def is_json_space_def)
  from scan_first [OF assms(1) n, of lx "ds @ u @ r" fo] assms(2) dd obtain lx1 where
    1: "current lx1 = Some d" "reads lx1 (ds @ u @ r)" "scan fo lx = scan_token fo lx1" by auto
  from scan_number_plain [OF 1(1) dd 1(2) assms(3,4), of fo] show ?thesis
    by (simp add: 1(3) scan_token_digit [OF 1(1) d])
qed

lemma scan_signed_text:
  assumes "\<forall>c \<in> set w. is_json_space c" "reads lx (w @ CHR ''-'' # nat_digits n @ u @ r)"
    "u = [] \<or> number_tail u" "ends_number r"
  shows "finishes fo (scan fo lx) (tail_type Value_Integer u) (CHR ''-'' # nat_digits n @ u) r"
proof -
  have n: "\<not> is_json_space (CHR ''-'')" "CHR ''-'' \<noteq> CHR 0xEF" by (simp_all add: is_json_space_def)
  from scan_first [OF assms(1) n assms(2), of fo] obtain lx1 where
    1: "current lx1 = Some (CHR ''-'')" "reads lx1 (nat_digits n @ u @ r)" "scan fo lx = scan_token fo lx1"
    by auto
  have "scan_token fo lx1 = scan_number fo lx1"
    using 1(1) by (simp add: scan_token_def)
  with scan_number_signed [OF 1(1,2) assms(3,4), of fo] show ?thesis by (simp add: 1(3))
qed

lemma scan_tok:
  assumes "tok_text t u r" "\<forall>c \<in> set w. is_json_space c" "reads lx (w @ u @ r)"
  shows "\<exists>lx'. scans fo lx t lx' \<and> reads lx' r"
  using assms
proof (cases rule: tok_text.cases)
  case (Fixed ty)
  then obtain c cs where c: "fixed_text ty = c # cs" by (cases "fixed_text ty") auto
  note n = fixed_text_first [OF c, THEN conjunct1] fixed_text_first [OF c, THEN conjunct2]
  from scan_first [OF assms(2) n, of lx "cs @ r" fo] Fixed(1,2) assms(3) c obtain lx1 where
    1: "current lx1 = Some c" "reads lx1 (cs @ r)" "scan fo lx = scan_token fo lx1" by auto
  with scan_token_fixed [OF c 1(1), of fo] scan_literal_loop_reads [OF 1(2), of ty] Fixed(1)
  show ?thesis by (auto simp: scans_def)
next
  case (Str l s)
  have "\<not> is_json_space quote_char" by (simp add: is_json_space_def)
  from scan_first [OF assms(2) this _ , of lx "l @ quote_char # r" fo] Str assms(3) obtain lx1 where
    "current lx1 = Some quote_char" "reads lx1 (l @ quote_char # r)" "scan fo lx = scan_token fo lx1"
    by auto
  with scan_string_literal [OF Str(3), of lx1 r] Str(1) show ?thesis
    by (auto simp: scans_def scan_token_def is_digit_def)
next
  case (Uns n)
  with scan_plain_text [OF assms(2), of lx n "[]" r fo] assms(3) finishes_unsigned
  show ?thesis by (fastforce simp: scans_def tail_type_def)
next
  case (Neg n)
  with scan_signed_text [OF assms(2), of lx n "[]" r fo] assms(3) finishes_integer
  show ?thesis by (fastforce simp: scans_def tail_type_def)
next
  case (Flt v n)
  then have "v \<noteq> []" using number_tail_not_Nil by auto
  with Flt scan_plain_text [OF assms(2), of lx n v r fo] assms(3) finishes_float
  show ?thesis by (fastforce simp: scans_def tail_type_def)
next
  case (Flt_minus v n)
  then have "v \<noteq> []" using number_tail_not_Nil by auto
  with Flt_minus scan_signed_text [OF assms(2), of lx n v r fo] assms(3) finishes_float
  show ?thesis by (fastforce simp: scans_def tail_type_def)
next
  case (Big n)
  with scan_plain_text [OF assms(2), of lx n "[]" r fo] assms(3) finishes_unsigned
  show ?thesis by (fastforce simp: scans_def tail_type_def)
next
  case (Big_minus n)
  with scan_signed_text [OF assms(2), of lx n "[]" r fo] assms(3) finishes_integer
  show ?thesis by (fastforce simp: scans_def tail_type_def)
qed

lemma delivers_spaced:
  "spaced ts s \<Longrightarrow> reads lx s \<Longrightarrow> delivers fo lx (ts @ [Fixed End_Of_Input])"
proof (induction arbitrary: lx rule: spaced.induct)
  case (End w)
  with scan_end [of w lx fo] show ?case by (auto simp: scans_def)
next
  case (Tok w t u r ts)
  with scan_tok [OF Tok.hyps(2,1), of lx fo] show ?case by fastforce
qed

end
