(* ===== verification/Json_Asserts.thy ===== *)
theory Json_Asserts
  imports Json_Tokens
begin

text \<open>
  The assertions of the lexer never fail: a lexer that is running stays so over every scan, whatever
  the bytes are. For the numbers this is an invariant of the state machine on \<open>token_buffer\<close>: at its
  end the buffer is a numeral, so the conversions of the C library stop at its end.
\<close>

section \<open>Running lexers\<close>

definition running :: "'d lexer \<Rightarrow> bool" where
  "running lx \<longleftrightarrow> \<not> aborted lx \<and> decimal_point_char lx = CHR ''.''"

named_theorems running_intros \<open>scans keep a lexer running\<close>

lemma running_new: "running (new_lexer fo s comments)"
  by (simp add: running_def new_lexer_def)

lemma aborted_get [simp]: "aborted (get lx) = aborted lx"
  by (simp add: get_def count_char_def Let_def split: option.split prod.split)

lemma running_get [simp]: "running (get lx) = running lx"
  by (simp add: running_def)

lemma running_fields [simp]:
  "running (add c lx) = running lx" "running (add_current lx) = running lx" "running (reset lx) = running lx"
  "running (lx\<lparr>error_message := m\<rparr>) = running lx" "running (lx\<lparr>value_unsigned := x\<rparr>) = running lx"
  "running (lx\<lparr>value_integer := x\<rparr>) = running lx" "running (lx\<lparr>value_float := d\<rparr>) = running lx"
  "running (snd (fail m lx)) = running lx" "running (snd (parse_failure m lx)) = running lx"
  by (simp_all add: running_def add_current_def add_def reset_def fail_def parse_failure_def)

lemma running_json_assert [simp]: "running (json_assert b lx) \<longleftrightarrow> running lx \<and> b"
  by (auto simp: running_def)

text \<open>A byte that was read is in \<open>token_string\<close> and can be put back.\<close>

lemma token_string_get: "current (get lx) = Some c \<Longrightarrow> token_string (get lx) \<noteq> []"
  by (auto simp: get_def count_char_def Let_def split: option.splits prod.splits if_splits)

lemma running_unget [simp]: "running (unget (get lx)) = running lx"
proof (cases "current (get lx)")
  case None
  then show ?thesis by (simp add: unget_def Let_def running_def)
next
  case (Some c)
  then show ?thesis
    using token_string_get [OF Some] by (simp add: unget_def Let_def running_def)
qed

section \<open>Strings\<close>

lemma running_codepoint_loop: "running lx \<Longrightarrow> running (snd (codepoint_loop fs cp lx))"
proof (induction fs cp lx rule: codepoint_loop.induct)
  case (2 f fs cp lx)
  show ?case
  proof (cases "current (get lx)")
    case None
    with "2.prems" show ?thesis by (simp add: codepoint_loop.simps)
  next
    case (Some c)
    with "2.IH" [OF refl Some] "2.prems" show ?thesis
      by (auto simp: codepoint_loop.simps Let_def split: option.split)
  qed
qed simp

lemma running_get_codepoint:
  assumes "running lx" "current lx = Some (CHR ''u'')"
  shows "running (snd (get_codepoint lx))"
proof -
  obtain r z where l: "codepoint_loop [12, 8, 4, 0] 0 lx = (r, z)" by (rule prod.exhaust)
  with running_codepoint_loop [OF assms(1), of "[12, 8, 4, 0]" 0] have z: "running z" by simp
  show ?thesis
  proof (cases r)
    case None
    with l z assms(2) show ?thesis by (simp add: get_codepoint_def)
  next
    case (Some cp)
    with codepoint_loop_less [of "[12, 8, 4, 0]" 0 lx cp z] l have "cp \<le> 0xFFFF" by simp
    with l z Some assms(2) show ?thesis by (simp add: get_codepoint_def)
  qed
qed

lemma running_range_loop: "running lx \<Longrightarrow> running (snd (range_loop rs lx))"
proof (induction rs lx rule: range_loop.induct)
  case (2 lo hi rs lx)
  show ?case
  proof (cases "current (get lx)")
    case None
    with "2.prems" show ?thesis by simp
  next
    case (Some c)
    with "2.IH" [OF refl Some] "2.prems" show ?thesis by (auto simp: Let_def)
  qed
qed simp

lemma running_next_byte:
  "running lx \<Longrightarrow> length rs \<in> {1, 2, 3} \<Longrightarrow> running (snd (next_byte_in_range rs lx))"
  unfolding next_byte_in_range_def by (rule running_range_loop) auto

lemma running_add_codepoint: "cp \<le> 0x10FFFF \<Longrightarrow> running (add_codepoint cp lx) = running lx"
  by (simp add: add_codepoint_def Let_def)

lemma running_low_surrogate:
  assumes "running lx" "cp1 \<le> 0xDBFF"
  shows "running (snd (scan_low_surrogate cp1 lx))"
proof (cases "current (get lx) = Some backslash \<and> current (get (get lx)) = Some (CHR ''u'')")
  case False
  with assms(1) show ?thesis by (auto simp: scan_low_surrogate_def Let_def)
next
  case True
  obtain r z where g: "get_codepoint (get (get lx)) = (r, z)" by (rule prod.exhaust)
  with running_get_codepoint [of "get (get lx)"] assms(1) True have z: "running z" by simp
  show ?thesis
  proof (cases r)
    case None
    with True g z show ?thesis by (simp add: scan_low_surrogate_def Let_def)
  next
    case (Some cp2)
    have "push_bit 10 cp1 + cp2 - 0x35FDC00 \<le> 0x10FFFF" if "cp2 \<le> 0xDFFF"
      using assms(2) that by (simp add: push_bit_eq_mult)
    with True g z Some show ?thesis
      by (simp add: scan_low_surrogate_def Let_def running_add_codepoint)
  qed
qed

lemma running_unicode_escape:
  assumes "running lx" "current lx = Some (CHR ''u'')"
  shows "running (snd (scan_unicode_escape lx))"
proof -
  obtain r z where g: "get_codepoint lx = (r, z)" by (rule prod.exhaust)
  with running_get_codepoint [OF assms] have z: "running z" by simp
  show ?thesis
  proof (cases r)
    case None
    with g z show ?thesis by (simp add: scan_unicode_escape_def)
  next
    case (Some cp)
    with g get_codepoint_less have "cp \<le> 0xFFFF" by blast
    with g z Some running_low_surrogate [OF z, of cp] show ?thesis
      by (auto simp: scan_unicode_escape_def running_add_codepoint)
  qed
qed

lemma running_escape: "running lx \<Longrightarrow> running (snd (scan_escape lx))"
  using running_unicode_escape [of "get lx"] by (auto simp: scan_escape_def Let_def split: option.split)

lemma running_character: "running lx \<Longrightarrow> running (snd (scan_character c lx))"
  by (simp add: scan_character_def scan_ascii_def scan_utf8_def Let_def running_escape running_next_byte)

lemma running_string_loop: "running lx \<Longrightarrow> running (snd (scan_string_loop lx))"
proof (induction lx rule: scan_string_loop.induct)
  case (1 lx)
  show ?case
  proof (cases "current (get lx)")
    case None
    with "1.prems" show ?thesis by (subst scan_string_loop.simps) simp
  next
    case (Some c)
    obtain ok z where s: "scan_character c (get lx) = (ok, z)" by (rule prod.exhaust)
    with running_character [of "get lx" c] "1.prems" have "running z" by simp
    with "1.IH" [OF refl Some _ s [symmetric]] Some s "1.prems" show ?thesis
      by (subst scan_string_loop.simps) (auto simp: Let_def)
  qed
qed

lemma running_string [running_intros]:
  "running lx \<Longrightarrow> current lx = Some quote_char \<Longrightarrow> running (snd (scan_string lx))"
  unfolding scan_string_def Let_def by (rule running_string_loop) simp

section \<open>Where the conversions stop\<close>

lemma takeWhile_digit_run: "list_all is_digit ds \<Longrightarrow> u = [] \<or> \<not> is_digit (hd u) \<Longrightarrow> takeWhile is_digit (ds @ u) = ds"
  by (cases u) (auto simp: takeWhile_append list_all_iff)

lemma digits_all: "digit_run ds \<Longrightarrow> takeWhile is_digit ds = ds"
  by (simp add: digit_run_def takeWhile_eq_all_conv list_all_iff)

lemma digit_not_sign: "is_digit d \<Longrightarrow> d \<noteq> CHR ''-'' \<and> d \<noteq> CHR ''+'' \<and> \<not> is_space d"
  using is_digit_not_special by blast

lemma exponent_length_lexeme: "exponent_lexeme w \<Longrightarrow> exponent_length w = length w"
proof -
  assume w: "exponent_lexeme w"
  then obtain x t where xt: "w = x # t" "x \<in> {CHR ''e'', CHR ''E''}" using exponent_lexeme_first by blast
  from w xt consider "digit_run t" | sg ds where "t = sg # ds" "sg \<in> {CHR ''+'', CHR ''-''}" "digit_run ds"
    by (cases t) (auto simp: exponent_lexeme_def)
  then show ?thesis
  proof cases
    case 1
    then have "sign_length t = 0" "t \<noteq> []" by (auto simp: digit_run_Cons sign_length_def dest: digit_not_sign)
    with xt show ?thesis by (simp add: exponent_length_def Let_def digits_all [OF 1])
  next
    case 2
    then have "sign_length t = 1" "drop 1 t = ds" "ds \<noteq> []" by (auto simp: sign_length_def digit_run_def)
    with xt 2(1) show ?thesis by (simp add: exponent_length_def Let_def digits_all [OF 2(3)])
  qed
qed

text \<open>A numeral: a sign, digits, and perhaps a fraction and an exponent.\<close>

definition numeral_buffer :: "string \<Rightarrow> bool" where
  "numeral_buffer s \<longleftrightarrow> (\<exists>sg ds u. s = sg @ ds @ u \<and> (sg = [] \<or> sg = ''-'') \<and> digit_run ds \<and> (u = [] \<or> number_tail u))"

lemma number_tail_hd: "number_tail u \<Longrightarrow> \<not> is_digit (hd u)"
  by (auto elim!: number_tail_cases dest!: exponent_lexeme_first simp: is_digit_def)

lemma sign_numeral:
  assumes "sg = [] \<or> sg = ''-''" "digit_run ds"
  shows "takeWhile is_space (sg @ ds @ u) = []" "dropWhile is_space (sg @ ds @ u) = sg @ ds @ u"
    "sign_length (sg @ ds @ u) = length sg"
  using assms digit_not_sign by (auto simp: digit_run_Cons sign_length_def is_space_def)

lemma strtod_end_numeral:
  assumes "numeral_buffer s"
  shows "strtod_end s = length s"
proof -
  from assms obtain sg ds u where s: "s = sg @ ds @ u" "sg = [] \<or> sg = ''-''" "digit_run ds" "u = [] \<or> number_tail u"
    by (auto simp: numeral_buffer_def)
  from s(3) have ds: "list_all is_digit ds" "ds \<noteq> []" by (auto simp: digit_run_def)
  from s(4) have u: "u = [] \<or> \<not> is_digit (hd u)" using number_tail_hd by blast
  note front = sign_numeral [OF s(2,3), of u] takeWhile_digit_run [OF ds(1) u]
  have tail: "fraction_length (CHR ''.'') u + exponent_length (drop (fraction_length (CHR ''.'') u) u) = length u"
  proof (cases "u = []")
    case False
    with s(4) have "number_tail u" by blast
    then show ?thesis
    proof (cases rule: number_tail_cases)
      case (point fs w)
      have "w = [] \<or> \<not> is_digit (hd w)" using point(3) by (auto dest!: exponent_lexeme_first simp: is_digit_def)
      with point takeWhile_digit_run [of fs w] exponent_length_lexeme [of w] show ?thesis
        by (auto simp: fraction_length_def digit_run_def exponent_length_def)
    next
      case exponent
      with exponent_length_lexeme [OF exponent] exponent_lexeme_first [OF exponent] show ?thesis
        by (auto simp: fraction_length_def)
    qed
  qed (simp add: fraction_length_def exponent_length_def)
  show ?thesis
    using front ds(2) tail unfolding s(1) strtod_end_def by (simp add: Let_def drop_drop [symmetric] del: drop_drop)
qed

lemma integer_end_numeral:
  assumes "sg = [] \<or> sg = ''-''" "digit_run ds"
  shows "integer_end (sg @ ds) = length (sg @ ds)"
proof -
  from assms(2) have ds: "list_all is_digit ds" "ds \<noteq> []" by (auto simp: digit_run_def)
  from sign_numeral [OF assms, of "[]"] ds(2) show ?thesis
    by (simp add: integer_end_def Let_def digits_all [OF assms(2)])
qed

section \<open>Numbers\<close>

text \<open>What \<open>token_buffer\<close> holds at the labels of the state machine.\<close>

definition whole_buffer :: "token_type \<Rightarrow> string \<Rightarrow> bool" where
  "whole_buffer nt s \<longleftrightarrow> (\<exists>sg ds. s = sg @ ds \<and> digit_run ds \<and>
     (nt = Value_Unsigned \<and> sg = [] \<or> nt = Value_Integer \<and> sg = ''-''))"

definition fraction_buffer :: "string \<Rightarrow> bool" where
  "fraction_buffer s \<longleftrightarrow> (\<exists>sg ds fs. s = sg @ ds @ CHR ''.'' # fs \<and> (sg = [] \<or> sg = ''-'') \<and>
     digit_run ds \<and> digit_run fs)"

definition before_exponent :: "string \<Rightarrow> bool" where
  "before_exponent s \<longleftrightarrow> fraction_buffer s \<or> whole_buffer Value_Unsigned s \<or> whole_buffer Value_Integer s"

definition exponent_buffer :: "string \<Rightarrow> bool" where
  "exponent_buffer s \<longleftrightarrow> (\<exists>m x sg es. s = m @ x # sg @ es \<and> before_exponent m \<and>
     x \<in> {CHR ''e'', CHR ''E''} \<and> sg \<in> {[], ''+'', ''-''} \<and> digit_run es)"

lemma digit_run_snoc: "digit_run ds \<Longrightarrow> is_digit d \<Longrightarrow> digit_run (ds @ [d])"
  by (simp add: digit_run_def)

lemma digit_run_one [simp]: "digit_run [d] = is_digit d"
  by (simp add: digit_run_def)

lemma whole_buffer_snoc: "whole_buffer nt s \<Longrightarrow> is_digit d \<Longrightarrow> whole_buffer nt (s @ [d])"
  unfolding whole_buffer_def using digit_run_snoc by (metis append_assoc)

lemma whole_buffer_numeral: "whole_buffer nt s \<Longrightarrow> numeral_buffer s"
  unfolding whole_buffer_def numeral_buffer_def by (metis append_Nil2)

lemma fraction_buffer_snoc: "fraction_buffer s \<Longrightarrow> is_digit d \<Longrightarrow> fraction_buffer (s @ [d])"
  unfolding fraction_buffer_def using digit_run_snoc by (metis append_assoc append_Cons)

lemma fraction_buffer_first:
  "whole_buffer nt s \<Longrightarrow> is_digit d \<Longrightarrow> fraction_buffer (s @ [CHR ''.'', d])"
  unfolding whole_buffer_def fraction_buffer_def
  by (elim exE conjE) (intro exI [of _ "[d]"] exI conjI, auto)

lemma exponent_lexeme_intro:
  "x \<in> {CHR ''e'', CHR ''E''} \<Longrightarrow> sg \<in> {[], ''+'', ''-''} \<Longrightarrow> digit_run es \<Longrightarrow> exponent_lexeme (x # sg @ es)"
  by (auto simp: exponent_lexeme_def)

lemma fraction_tail:
  assumes "digit_run fs" "w = [] \<or> exponent_lexeme w"
  shows "number_tail (CHR ''.'' # fs @ w)"
proof -
  have "list_all is_digit fs" "w = [] \<or> \<not> is_digit (hd w)"
    using assms by (auto simp: digit_run_def is_digit_def dest!: exponent_lexeme_first)
  then have "takeWhile is_digit (fs @ w) = fs" "dropWhile is_digit (fs @ w) = w"
    using takeWhile_digit_run [of fs w] takeWhile_dropWhile_id [of is_digit "fs @ w"] by auto
  with assms show ?thesis by (simp add: number_tail_def)
qed

lemma exponent_tail: "exponent_lexeme w \<Longrightarrow> number_tail w"
  using exponent_lexeme_first [of w] by (auto simp: number_tail_def)

lemma fraction_buffer_numeral:
  assumes "fraction_buffer s"
  shows "numeral_buffer s"
proof -
  from assms obtain sg ds fs where s: "s = sg @ ds @ CHR ''.'' # fs" "sg = [] \<or> sg = ''-''" "digit_run ds" "digit_run fs"
    by (auto simp: fraction_buffer_def)
  with fraction_tail [of fs "[]"] show ?thesis
    unfolding numeral_buffer_def by (intro exI [of _ sg] exI [of _ ds] exI [of _ "CHR ''.'' # fs"]) simp
qed

lemma exponent_buffer_numeral:
  assumes "exponent_buffer s"
  shows "numeral_buffer s"
proof -
  from assms obtain m x sg es where s: "s = m @ x # sg @ es" "before_exponent m"
    "x \<in> {CHR ''e'', CHR ''E''}" "sg \<in> {[], ''+'', ''-''}" "digit_run es"
    by (auto simp: exponent_buffer_def)
  let ?w = "x # sg @ es"
  from s(3-5) have w: "exponent_lexeme ?w" by (rule exponent_lexeme_intro)
  from s(2) consider "fraction_buffer m" | nt where "whole_buffer nt m" by (auto simp: before_exponent_def)
  then show ?thesis
  proof cases
    case 1
    then obtain sg' ds fs where "m = sg' @ ds @ CHR ''.'' # fs" "sg' = [] \<or> sg' = ''-''" "digit_run ds" "digit_run fs"
      by (auto simp: fraction_buffer_def)
    with s(1) fraction_tail [of fs ?w] w show ?thesis
      unfolding numeral_buffer_def by (intro exI [of _ sg'] exI [of _ ds] exI [of _ "CHR ''.'' # fs @ ?w"]) simp
  next
    case 2
    then obtain sg' ds where "m = sg' @ ds" "sg' = [] \<or> sg' = ''-''" "digit_run ds" by (auto simp: whole_buffer_def)
    with s(1) exponent_tail [OF w] show ?thesis
      unfolding numeral_buffer_def by (intro exI [of _ sg'] exI [of _ ds] exI [of _ ?w]) simp
  qed
qed

lemma exponent_buffer_snoc: "exponent_buffer s \<Longrightarrow> is_digit d \<Longrightarrow> exponent_buffer (s @ [d])"
  unfolding exponent_buffer_def using digit_run_snoc by (metis append_assoc append_Cons)

lemma exponent_buffer_first:
  "before_exponent m \<Longrightarrow> x \<in> {CHR ''e'', CHR ''E''} \<Longrightarrow> sg \<in> {[], ''+'', ''-''} \<Longrightarrow> is_digit d \<Longrightarrow>
     exponent_buffer (m @ x # sg @ [d])"
  unfolding exponent_buffer_def by (metis digit_run_one)

text \<open>At the end of a number.\<close>

lemma unget_get_buffer: "token_buffer (unget (get lx)) = token_buffer lx"
  by (simp add: unget_fields get_fields)

lemma running_float_token:
  "running lx \<Longrightarrow> numeral_buffer (token_buffer lx) \<Longrightarrow> running (snd (float_token fo lx))"
  by (simp add: float_token_def Let_def strtod_end_numeral)

lemma running_done_float:
  assumes "running lx" "numeral_buffer (token_buffer lx)"
  shows "running (snd (scan_number_done fo Value_Float (get lx)))"
  using running_float_token [of "unget (get lx)" fo] assms
  by (simp add: scan_number_done_def unget_get_buffer Let_def)

lemma running_done_whole:
  assumes "running lx" "whole_buffer nt (token_buffer lx)"
  shows "running (snd (scan_number_done fo nt (get lx)))"
proof -
  let ?lx = "unget (get lx)"
  obtain sg ds where "token_buffer lx = sg @ ds" "digit_run ds" "sg = [] \<or> sg = ''-''"
    using assms(2) by (auto simp: whole_buffer_def)
  then have "integer_end (token_buffer ?lx) = length (token_buffer ?lx)"
    using integer_end_numeral by (simp add: unget_get_buffer)
  moreover have "running (snd (float_token fo ?lx))"
    using assms whole_buffer_numeral by (intro running_float_token) (simp_all add: unget_get_buffer)
  moreover have "nt = Value_Unsigned \<or> nt = Value_Integer" using assms(2) by (auto simp: whole_buffer_def)
  ultimately show ?thesis
    using assms(1) by (auto simp: scan_number_done_def Let_def split: option.split)
qed

text \<open>The labels, from the last to the first.\<close>

lemma digit_nextD: "digit_next lx \<Longrightarrow> \<exists>d. current lx = Some d \<and> is_digit d"
  by (auto simp: digit_next_def split: option.splits)

lemma add_digit:
  "current (get lx) = Some d \<Longrightarrow> token_buffer (add_current (get lx)) = token_buffer lx @ [d]"
  by (simp add: token_buffer_add_current get_fields)

lemma running_any2:
  "running lx \<Longrightarrow> exponent_buffer (token_buffer lx) \<Longrightarrow> running (snd (scan_number_any2 fo Value_Float lx))"
proof (induction fo "Value_Float" lx rule: scan_number_any2.induct)
  case (1 fo lx)
  show ?case
  proof (cases "digit_next (get lx)")
    case True
    then obtain d where "current (get lx) = Some d" "is_digit d" by (blast dest: digit_nextD)
    with "1.prems" True "1.hyps" [OF refl] show ?thesis
      by (subst scan_number_any2.simps) (simp add: add_digit exponent_buffer_snoc)
  next
    case False
    with running_done_float [OF "1.prems"(1) exponent_buffer_numeral [OF "1.prems"(2)]] show ?thesis
      by (subst scan_number_any2.simps) simp
  qed
qed

lemma running_exponent:
  assumes "running lx" "token_buffer lx = m @ [x]" "before_exponent m" "x \<in> {CHR ''e'', CHR ''E''}"
  shows "running (snd (scan_number_exponent fo lx))"
proof -
  have any2: "running (snd (scan_number_any2 fo Value_Float (add_current lx')))"
    if h: "running lx'" "digit_next lx'" "token_buffer lx' = m @ x # sg" "sg \<in> {[], ''+'', ''-''}"
    for lx' :: "'a lexer" and sg
  proof -
    obtain d where d: "current lx' = Some d" "is_digit d" using digit_nextD [OF h(2)] by blast
    have "token_buffer (add_current lx') = m @ x # sg @ [d]"
      using d(1) h(3) by (simp add: token_buffer_add_current)
    with exponent_buffer_first [OF assms(3,4) h(4) d(2)] h(1) show ?thesis by (intro running_any2) simp_all
  qed
  let ?g = "get lx"
  have g: "running ?g" "token_buffer ?g = m @ [x]" using assms(1,2) by (simp_all add: get_fields)
  consider (sign) c where "current ?g = Some c" "c = CHR ''+'' \<or> c = CHR ''-''"
    | (digit) "digit_next ?g" "current ?g \<noteq> Some (CHR ''+'')" "current ?g \<noteq> Some (CHR ''-'')"
    | (other) "\<not> digit_next ?g" "current ?g \<noteq> Some (CHR ''+'')" "current ?g \<noteq> Some (CHR ''-'')" by blast
  then show ?thesis
  proof cases
    case sign
    let ?s = "get (add_current ?g)"
    have s: "running ?s" "token_buffer ?s = m @ x # [c]"
      using g sign(1) by (simp_all add: get_fields token_buffer_add_current)
    have "scan_number_exponent fo lx = scan_number_sign fo Value_Float (add_current ?g)"
      using sign by (auto simp: scan_number_exponent_def Let_def)
    moreover have "running (snd (scan_number_sign fo Value_Float (add_current ?g)))"
      using any2 [OF s(1) _ s(2)] sign(2) g(1) by (cases "digit_next ?s") (auto simp: scan_number_sign_def Let_def)
    ultimately show ?thesis by simp
  next
    case digit
    with any2 [OF g(1) digit(1), of "[]"] g(2) show ?thesis by (simp add: scan_number_exponent_def Let_def)
  next
    case other
    with g(1) show ?thesis by (simp add: scan_number_exponent_def Let_def)
  qed
qed

lemma running_letter:
  assumes "running lx" "exponent_next (get lx)" "before_exponent (token_buffer lx)"
  shows "running (snd (scan_number_exponent fo (add_current (get lx))))"
proof -
  obtain x where x: "current (get lx) = Some x" "x \<in> {CHR ''e'', CHR ''E''}"
    using assms(2) by (auto simp: exponent_next_def)
  from running_exponent [OF _ add_digit [OF x(1)] assms(3) x(2), of fo] assms(1) show ?thesis by simp
qed

lemma running_decimal2:
  "running lx \<Longrightarrow> fraction_buffer (token_buffer lx) \<Longrightarrow> running (snd (scan_number_decimal2 fo Value_Float lx))"
proof (induction fo "Value_Float" lx rule: scan_number_decimal2.induct)
  case (1 fo lx)
  consider "digit_next (get lx)" | "\<not> digit_next (get lx)" "exponent_next (get lx)"
    | "\<not> digit_next (get lx)" "\<not> exponent_next (get lx)" by blast
  then show ?case
  proof cases
    case 1
    then obtain d where "current (get lx) = Some d" "is_digit d" by (blast dest: digit_nextD)
    with "1.prems" 1 "1.hyps" [OF refl] show ?thesis
      by (subst scan_number_decimal2.simps) (simp add: add_digit fraction_buffer_snoc)
  next
    case 2
    with running_letter [OF "1.prems"(1) 2(2)] "1.prems"(2) show ?thesis
      by (subst scan_number_decimal2.simps) (simp add: before_exponent_def)
  next
    case 3
    with running_done_float [OF "1.prems"(1) fraction_buffer_numeral [OF "1.prems"(2)]] show ?thesis
      by (subst scan_number_decimal2.simps) simp
  qed
qed

lemma running_decimal1:
  assumes "running lx" "token_buffer lx = m @ [CHR ''.'']" "whole_buffer nt m"
  shows "running (snd (scan_number_decimal1 fo lx))"
proof (cases "digit_next (get lx)")
  case True
  then obtain d where d: "current (get lx) = Some d" "is_digit d" by (blast dest: digit_nextD)
  have "running (snd (scan_number_decimal2 fo Value_Float (add_current (get lx))))"
    using assms(1,2) add_digit [OF d(1)] fraction_buffer_first [OF assms(3) d(2)] by (intro running_decimal2) simp_all
  with True show ?thesis by (simp add: scan_number_decimal1_def Let_def)
next
  case False
  with assms(1) show ?thesis by (simp add: scan_number_decimal1_def Let_def)
qed

lemma running_zero:
  assumes "running lx" "whole_buffer nt (token_buffer lx)"
  shows "running (snd (scan_number_zero fo nt lx))"
proof -
  have point: "decimal_point_char (get lx) = CHR ''.''" using assms(1) by (simp add: running_def)
  have before: "before_exponent (token_buffer lx)"
    using assms(2) unfolding before_exponent_def whole_buffer_def by blast
  show ?thesis
    using running_done_whole [OF assms] running_letter [OF assms(1) _ before]
      running_decimal1 [of "add (CHR ''.'') (get lx)" "token_buffer lx" nt fo] assms point
    by (simp add: scan_number_zero_def Let_def get_fields)
qed

lemma running_any1:
  "running lx \<Longrightarrow> whole_buffer nt (token_buffer lx) \<Longrightarrow> running (snd (scan_number_any1 fo nt lx))"
proof (induction fo nt lx rule: scan_number_any1.induct)
  case (1 fo nt lx)
  show ?case
  proof (cases "digit_next (get lx)")
    case True
    then obtain d where "current (get lx) = Some d" "is_digit d" by (blast dest: digit_nextD)
    with "1.prems" True "1.IH" [OF refl] show ?thesis
      by (subst scan_number_any1.simps) (simp add: add_digit whole_buffer_snoc)
  next
    case False
    with running_zero [OF "1.prems"] show ?thesis by (simp add: scan_number_any1_zero)
  qed
qed

lemma whole_buffer_digit: "is_digit d \<Longrightarrow> whole_buffer Value_Unsigned [d]"
  "is_digit d \<Longrightarrow> whole_buffer Value_Integer [CHR ''-'', d]"
  by (auto simp: whole_buffer_def)

lemma digit_0: "is_digit (CHR ''0'')"
  by (simp add: is_digit_def)

lemma running_number [running_intros]:
  assumes "running lx" "current lx = Some c" "c = CHR ''-'' \<or> is_digit c"
  shows "running (snd (scan_number fo lx))"
proof -
  have first: "token_buffer (add_current (reset lx)) = [c]"
    using assms(2) by (simp add: token_buffer_add_current) (simp add: reset_def)
  show ?thesis
  proof (cases "c = CHR ''-''")
    case True
    let ?m = "add_current (reset lx)"
    have rest: "whole_buffer Value_Integer (token_buffer (add_current (get ?m)))"
      if "current (get ?m) = Some d" "is_digit d" for d
      using add_digit [OF that(1)] first True whole_buffer_digit(2) [OF that(2)] by simp
    have "running (snd (scan_number_minus fo ?m))"
      using running_zero [OF _ rest, of "CHR ''0''" fo] running_any1 [OF _ rest, of _ fo] digit_nextD [of "get ?m"]
        digit_0 assms(1) by (auto simp: scan_number_minus_def Let_def)
    with True assms(2) show ?thesis by (simp add: scan_number_def Let_def)
  next
    case False
    with assms(3) have d: "is_digit c" by simp
    have "whole_buffer Value_Unsigned (token_buffer (add_current (reset lx)))"
      using first whole_buffer_digit(1) [OF d] by simp
    with running_zero [OF _ this, of fo] running_any1 [OF _ this, of fo] assms(1,2) d False show ?thesis
      by (simp add: scan_number_def digit_next_def Let_def)
  qed
qed

section \<open>Everything else\<close>

lemma running_line_comment: "running lx \<Longrightarrow> running (skip_line_comment lx)"
proof (induction lx rule: skip_line_comment.induct)
  case (1 lx)
  then show ?case
    by (cases "current (get lx)"; subst skip_line_comment.simps) (auto simp: Let_def)
qed

lemma running_block_comment: "running lx \<Longrightarrow> running (snd (skip_block_comment lx))"
proof (induction lx rule: skip_block_comment.induct)
  case (1 lx)
  show ?case
  proof (cases "current (get lx)")
    case None
    with "1.prems" show ?thesis by (subst skip_block_comment.simps) simp
  next
    case (Some c)
    with "1.IH" [OF refl Some] "1.prems" show ?thesis
      by (subst skip_block_comment.simps) (auto simp: Let_def)
  qed
qed

lemma running_comment: "running lx \<Longrightarrow> running (snd (scan_comment lx))"
  using running_line_comment [of "get lx"] running_block_comment [of "get lx"]
  by (auto simp: scan_comment_def Let_def)

lemma running_whitespace: "running lx \<Longrightarrow> running (skip_whitespace lx)"
proof (induction lx rule: skip_whitespace.induct)
  case (1 lx)
  then show ?case
    by (cases "current (get lx)"; subst skip_whitespace.simps) (auto simp: Let_def)
qed

lemma running_comments: "running lx \<Longrightarrow> running (snd (skip_comments lx))"
proof (induction lx rule: skip_comments.induct)
  case (1 lx)
  obtain ok z where s: "scan_comment lx = (ok, z)" by (rule prod.exhaust)
  with running_comment [OF "1.prems"] have "running z" by simp
  with "1.IH" [OF _ s [symmetric]] s "1.prems" running_whitespace [of z] show ?case
    by (subst skip_comments.simps) auto
qed

lemma running_literal_loop: "running lx \<Longrightarrow> running (snd (scan_literal_loop cs t lx))"
  by (induction cs t lx rule: scan_literal_loop.induct) (auto simp: Let_def)

lemma running_literal [running_intros]:
  "running lx \<Longrightarrow> current lx = Some (hd cs) \<Longrightarrow> running (snd (scan_literal cs t lx))"
  unfolding scan_literal_def by (rule running_literal_loop) (simp add: to_char_type_def)

lemma running_token: "running lx \<Longrightarrow> running (snd (scan_token fo lx))"
  by (auto simp: scan_token_def intro: running_intros split: option.split)

lemma running_bom: "running lx \<Longrightarrow> running (snd (skip_bom lx))"
  by (auto simp: skip_bom_def Let_def)

lemma running_after_bom: "running lx \<Longrightarrow> running (snd (scan_after_bom fo lx))"
proof -
  assume lx: "running lx"
  obtain ok z where s: "skip_comments (skip_whitespace lx) = (ok, z)" by (rule prod.exhaust)
  with running_comments [OF running_whitespace [OF lx]] have "running z" by simp
  with running_token [of z fo] s show ?thesis by (simp add: scan_after_bom_def)
qed

lemma running_scan: "running lx \<Longrightarrow> running (snd (scan fo lx))"
proof -
  assume lx: "running lx"
  obtain ok z where s: "skip_bom lx = (ok, z)" by (rule prod.exhaust)
  with running_bom [OF lx] have "running z" by simp
  with running_after_bom lx s show ?thesis by (auto simp: scan_def)
qed

end
