(* ===== verification/Json_Parser.thy ===== *)
theory Json_Parser
  imports Json_Lexer
begin

text \<open>
  The classes \<open>json_sax_dom_parser\<close> and \<open>parser\<close> of client/include/json.hpp. The DOM parser
  keeps pointers to the open containers inside the value it builds; a pointer is here the path
  from the root to the value. Parsing runs without a callback and with exceptions, as
  \<open>json::parse(f)\<close> calls it.
\<close>

section \<open>References into a value\<close>

datatype ref_step = Elem nat | Member string

type_synonym ref = "ref_step list"

fun json_at :: "'d json \<Rightarrow> ref \<Rightarrow> 'd json option" where
  "json_at v [] = Some v"
| "json_at (JArray vs) (Elem i # p) = (if i < length vs then json_at (vs ! i) p else None)"
| "json_at (JObject m) (Member k # p) =
     (case map_of m k of None \<Rightarrow> None | Some v \<Rightarrow> json_at v p)"
| "json_at v (_ # p) = None"

fun json_put :: "ref \<Rightarrow> 'd json \<Rightarrow> 'd json \<Rightarrow> 'd json" where
  "json_put [] w v = w"
| "json_put (Elem i # p) w (JArray vs) = JArray (vs[i := json_put p w (vs ! i)])"
| "json_put (Member k # p) w (JObject m) =
     (case map_of m k of
        None \<Rightarrow> JObject m
      | Some v \<Rightarrow> JObject (obj_assign k (json_put p w v) m))"
| "json_put (_ # p) w v = v"

section \<open>The DOM parser\<close>

datatype json_exception =
    Parse_Error_101 position_t string
  | Out_Of_Range_406 string
  | Assertion_Failed

record 'd json_sax_dom_parser =
  root :: "'d json"
  ref_stack :: "ref list"
  object_element :: "ref option"
  errored :: bool

definition new_sax_dom_parser :: "'d json \<Rightarrow> 'd json_sax_dom_parser" where
  "new_sax_dom_parser r = \<lparr>root = r, ref_stack = [], object_element = None, errored = False\<rparr>"

definition handle_value ::
    "'d json \<Rightarrow> 'd json_sax_dom_parser \<Rightarrow> json_exception + ref \<times> 'd json_sax_dom_parser" where
  "handle_value v sdp =
     (if ref_stack sdp = [] then Inr ([], sdp\<lparr>root := v\<rparr>)
      else let back = last (ref_stack sdp) in
        case json_at (root sdp) back of
          Some (JArray vs) \<Rightarrow>
            Inr (back @ [Elem (length vs)], sdp\<lparr>root := json_put back (JArray (vs @ [v])) (root sdp)\<rparr>)
        | Some (JObject m) \<Rightarrow>
            (case object_element sdp of
               Some e \<Rightarrow> Inr (e, sdp\<lparr>root := json_put e v (root sdp)\<rparr>)
             | None \<Rightarrow> Inl Assertion_Failed)
        | _ \<Rightarrow> Inl Assertion_Failed)"

text \<open>The events of a value without members: null, booleans, numbers and strings.\<close>

definition sax_value :: "'d json \<Rightarrow> 'd json_sax_dom_parser \<Rightarrow> json_exception + 'd json_sax_dom_parser" where
  "sax_value v sdp = rbind (handle_value v sdp) (\<lambda>(_, sdp). Inr sdp)"

definition push_ref :: "ref \<Rightarrow> 'd json_sax_dom_parser \<Rightarrow> 'd json_sax_dom_parser" where
  "push_ref r sdp = sdp\<lparr>ref_stack := ref_stack sdp @ [r]\<rparr>"

text \<open>The number of members is not known (-1), so the test against \<open>max_size\<close> never applies.\<close>

definition start_object :: "'d json_sax_dom_parser \<Rightarrow> json_exception + 'd json_sax_dom_parser" where
  "start_object sdp = rbind (handle_value (JObject []) sdp) (\<lambda>(r, sdp). Inr (push_ref r sdp))"

definition start_array :: "'d json_sax_dom_parser \<Rightarrow> json_exception + 'd json_sax_dom_parser" where
  "start_array sdp = rbind (handle_value (JArray []) sdp) (\<lambda>(r, sdp). Inr (push_ref r sdp))"

definition sax_key :: "string \<Rightarrow> 'd json_sax_dom_parser \<Rightarrow> json_exception + 'd json_sax_dom_parser" where
  "sax_key val sdp =
     (if ref_stack sdp = [] then Inl Assertion_Failed
      else let back = last (ref_stack sdp) in
        case json_at (root sdp) back of
          Some (JObject m) \<Rightarrow>
            Inr (sdp\<lparr>root := json_put back (JObject (obj_emplace val JNull m)) (root sdp),
                     object_element := Some (back @ [Member val])\<rparr>)
        | _ \<Rightarrow> Inl Assertion_Failed)"

definition end_object :: "'d json_sax_dom_parser \<Rightarrow> json_exception + 'd json_sax_dom_parser" where
  "end_object sdp =
     (if ref_stack sdp = [] then Inl Assertion_Failed
      else case json_at (root sdp) (last (ref_stack sdp)) of
          Some (JObject m) \<Rightarrow> Inr (sdp\<lparr>ref_stack := butlast (ref_stack sdp)\<rparr>)
        | _ \<Rightarrow> Inl Assertion_Failed)"

definition end_array :: "'d json_sax_dom_parser \<Rightarrow> json_exception + 'd json_sax_dom_parser" where
  "end_array sdp =
     (if ref_stack sdp = [] then Inl Assertion_Failed
      else case json_at (root sdp) (last (ref_stack sdp)) of
          Some (JArray vs) \<Rightarrow> Inr (sdp\<lparr>ref_stack := butlast (ref_stack sdp)\<rparr>)
        | _ \<Rightarrow> Inl Assertion_Failed)"

section \<open>The parser\<close>

record 'd parser =
  last_token :: token_type
  m_lexer :: "'d lexer"

definition get_token :: "'d double_ops \<Rightarrow> 'd parser \<Rightarrow> 'd parser" where
  "get_token fo p =
     (case scan fo (m_lexer p) of (t, lx) \<Rightarrow> p\<lparr>last_token := t, m_lexer := lx\<rparr>)"

definition new_parser :: "'d double_ops \<Rightarrow> string \<Rightarrow> bool \<Rightarrow> 'd parser" where
  "new_parser fo adapter comments =
     get_token fo \<lparr>last_token = Uninitialized, m_lexer = new_lexer fo adapter comments\<rparr>"

definition quoted :: "string \<Rightarrow> string" where
  "quoted s = CHR 0x27 # s @ [CHR 0x27]"

fun token_type_name :: "token_type \<Rightarrow> string" where
  "token_type_name Uninitialized = ''<uninitialized>''"
| "token_type_name Literal_True = ''true literal''"
| "token_type_name Literal_False = ''false literal''"
| "token_type_name Literal_Null = ''null literal''"
| "token_type_name Value_String = ''string literal''"
| "token_type_name Value_Unsigned = ''number literal''"
| "token_type_name Value_Integer = ''number literal''"
| "token_type_name Value_Float = ''number literal''"
| "token_type_name Begin_Array = quoted ''[''"
| "token_type_name Begin_Object = quoted ''{''"
| "token_type_name End_Array = quoted '']''"
| "token_type_name End_Object = quoted ''}''"
| "token_type_name Name_Separator = quoted '':''"
| "token_type_name Value_Separator = quoted '',''"
| "token_type_name Parse_Error = ''<parse error>''"
| "token_type_name End_Of_Input = ''end of input''"
| "token_type_name Literal_Or_Value = quoted ''['' @ '', '' @ quoted ''{'' @ '', or a literal''"

definition exception_message :: "'d parser \<Rightarrow> token_type \<Rightarrow> string \<Rightarrow> string" where
  "exception_message p expected ctxt =
     ''syntax error '' @ (if ctxt = [] then [] else ''while parsing '' @ ctxt @ '' '') @ ''- '' @
     (if last_token p = Parse_Error
      then error_message (m_lexer p) @ ''; last read: '' @ quoted (get_token_string (m_lexer p))
      else ''unexpected '' @ token_type_name (last_token p)) @
     (if expected = Uninitialized then [] else ''; expected '' @ token_type_name expected)"

text \<open>
  An assertion of the lexer that failed before ends the process first.
\<close>

definition syntax_error :: "'d parser \<Rightarrow> token_type \<Rightarrow> string \<Rightarrow> json_exception" where
  "syntax_error p expected ctxt =
     (if aborted (m_lexer p) then Assertion_Failed
      else Parse_Error_101 (position (m_lexer p)) (exception_message p expected ctxt))"

definition number_overflow :: "'d lexer \<Rightarrow> json_exception" where
  "number_overflow lx =
     (if aborted lx then Assertion_Failed
      else Out_Of_Range_406 (''number overflow parsing '' @ quoted (get_token_string lx)))"

text \<open>
  The state of the loop in \<open>sax_parse_internal\<close>. Each half of its body ends with an exception,
  by going on (\<open>True\<close>), or by \<open>continue\<close> (\<open>False\<close>).
\<close>

record 'd parse_state =
  prs :: "'d parser"
  sax :: "'d json_sax_dom_parser"
  states :: "bool list"
  skip_to_state_evaluation :: bool

definition next_token :: "'d double_ops \<Rightarrow> 'd parse_state \<Rightarrow> 'd parse_state" where
  "next_token fo st = st\<lparr>prs := get_token fo (prs st)\<rparr>"

abbreviation token :: "'d parse_state \<Rightarrow> token_type" where
  "token st \<equiv> last_token (prs st)"

text \<open>The key just read, the colon after it, and the first token of the member's value.\<close>

definition parse_member :: "'d double_ops \<Rightarrow> 'd parse_state \<Rightarrow> json_exception + 'd parse_state" where
  "parse_member fo st =
     (if token st \<noteq> Value_String then Inl (syntax_error (prs st) Value_String ''object key'')
      else rbind (sax_key (token_buffer (m_lexer (prs st))) (sax st)) (\<lambda>sdp.
        let st = next_token fo (st\<lparr>sax := sdp\<rparr>) in
        if token st \<noteq> Name_Separator
        then Inl (syntax_error (prs st) Name_Separator ''object separator'')
        else Inr (next_token fo st)))"

definition begin_object_case :: "'d double_ops \<Rightarrow> 'd parse_state \<Rightarrow> json_exception + bool \<times> 'd parse_state" where
  "begin_object_case fo st =
     rbind (start_object (sax st)) (\<lambda>sdp.
       let st = next_token fo (st\<lparr>sax := sdp\<rparr>) in
       if token st = End_Object then
         rbind (end_object (sax st)) (\<lambda>sdp. Inr (True, st\<lparr>sax := sdp\<rparr>))
       else rbind (parse_member fo st) (\<lambda>st. Inr (False, st\<lparr>states := states st @ [False]\<rparr>)))"

definition begin_array_case :: "'d double_ops \<Rightarrow> 'd parse_state \<Rightarrow> json_exception + bool \<times> 'd parse_state" where
  "begin_array_case fo st =
     rbind (start_array (sax st)) (\<lambda>sdp.
       let st = next_token fo (st\<lparr>sax := sdp\<rparr>) in
       if token st = End_Array then
         rbind (end_array (sax st)) (\<lambda>sdp. Inr (True, st\<lparr>sax := sdp\<rparr>))
       else Inr (False, st\<lparr>states := states st @ [True]\<rparr>))"

definition scalar_case :: "'d json \<Rightarrow> 'd parse_state \<Rightarrow> json_exception + bool \<times> 'd parse_state" where
  "scalar_case v st = rbind (sax_value v (sax st)) (\<lambda>sdp. Inr (True, st\<lparr>sax := sdp\<rparr>))"

definition value_step :: "'d double_ops \<Rightarrow> 'd parse_state \<Rightarrow> json_exception + bool \<times> 'd parse_state" where
  "value_step fo st =
     (let lx = m_lexer (prs st) in
      case token st of
        Begin_Object \<Rightarrow> begin_object_case fo st
      | Begin_Array \<Rightarrow> begin_array_case fo st
      | Value_Float \<Rightarrow>
          if \<not> isfinite fo (value_float lx)
          then Inl (number_overflow lx)
          else scalar_case (JFloat (value_float lx)) st
      | Literal_False \<Rightarrow> scalar_case (JBoolean False) st
      | Literal_Null \<Rightarrow> scalar_case JNull st
      | Literal_True \<Rightarrow> scalar_case (JBoolean True) st
      | Value_Integer \<Rightarrow> scalar_case (JInteger (value_integer lx)) st
      | Value_String \<Rightarrow> scalar_case (JString (token_buffer lx)) st
      | Value_Unsigned \<Rightarrow> scalar_case (JUnsigned (value_unsigned lx)) st
      | Parse_Error \<Rightarrow> Inl (syntax_error (prs st) Uninitialized ''value'')
      | _ \<Rightarrow> Inl (syntax_error (prs st) Literal_Or_Value ''value''))"

definition array_state :: "'d double_ops \<Rightarrow> 'd parse_state \<Rightarrow> json_exception + bool \<times> 'd parse_state" where
  "array_state fo st =
     (let st = next_token fo st in
      if token st = Value_Separator then Inr (False, next_token fo st)
      else if token st = End_Array then
        rbind (end_array (sax st)) (\<lambda>sdp.
          if states st = [] then Inl Assertion_Failed
          else Inr (False, st\<lparr>sax := sdp, states := butlast (states st), skip_to_state_evaluation := True\<rparr>))
      else Inl (syntax_error (prs st) End_Array ''array''))"

definition object_state :: "'d double_ops \<Rightarrow> 'd parse_state \<Rightarrow> json_exception + bool \<times> 'd parse_state" where
  "object_state fo st =
     (let st = next_token fo st in
      if token st = Value_Separator then
        rbind (parse_member fo (next_token fo st)) (\<lambda>st. Inr (False, st))
      else if token st = End_Object then
        rbind (end_object (sax st)) (\<lambda>sdp.
          if states st = [] then Inl Assertion_Failed
          else Inr (False, st\<lparr>sax := sdp, states := butlast (states st), skip_to_state_evaluation := True\<rparr>))
      else Inl (syntax_error (prs st) End_Object ''object''))"

text \<open>Here \<open>True\<close> is the end of the loop with \<open>return true\<close>.\<close>

definition state_evaluation :: "'d double_ops \<Rightarrow> 'd parse_state \<Rightarrow> json_exception + bool \<times> 'd parse_state" where
  "state_evaluation fo st =
     (if states st = [] then Inr (True, st)
      else if last (states st) then array_state fo st
      else object_state fo st)"

definition loop_body :: "'d double_ops \<Rightarrow> 'd parse_state \<Rightarrow> json_exception + bool \<times> 'd parse_state" where
  "loop_body fo st =
     (if skip_to_state_evaluation st
      then state_evaluation fo (st\<lparr>skip_to_state_evaluation := False\<rparr>)
      else rbind (value_step fo st) (\<lambda>(go_on, st).
        if go_on then state_evaluation fo st else Inr (False, st)))"

text \<open>
  The loop ends because every round but one kind reads at least one byte; the exception, an
  opening bracket before the end of the file or a lexical error, is followed by the error.
\<close>

definition parse_measure :: "'d parse_state \<Rightarrow> nat" where
  "parse_measure st =
     2 * remaining (m_lexer (prs st)) +
     (if token st \<in> {Parse_Error, End_Of_Input} \<and> \<not> skip_to_state_evaluation st then 0 else 1)"

abbreviation left :: "'d parse_state \<Rightarrow> nat" where
  "left st \<equiv> remaining (m_lexer (prs st))"

lemma next_token_left: "left (next_token fo st) \<le> left st"
  using scan_le [of fo "m_lexer (prs st)"]
  by (auto simp: next_token_def get_token_def split: prod.split)

lemma next_token_shortens:
  "token (next_token fo st) \<notin> {Parse_Error, End_Of_Input} \<Longrightarrow> left (next_token fo st) < left st"
  using scan_shortens [of fo "m_lexer (prs st)"]
  by (auto simp: next_token_def get_token_def split: prod.splits)

lemma next_token_cases:
  "left (next_token fo st) < left st \<or> token (next_token fo st) = Parse_Error \<or>
   token (next_token fo st) = End_Of_Input"
  using next_token_shortens [of fo st] by auto

lemma next_token_skip [simp]:
  "skip_to_state_evaluation (next_token fo st) = skip_to_state_evaluation st"
  "states (next_token fo st) = states st" "sax (next_token fo st) = sax st"
  by (simp_all add: next_token_def)

lemma next_token_sax [simp]:
  "left (next_token fo (st\<lparr>sax := sdp\<rparr>)) = left (next_token fo st)"
  "token (next_token fo (st\<lparr>sax := sdp\<rparr>)) = token (next_token fo st)"
  by (simp_all add: next_token_def)

lemma parse_member_shortens:
  assumes "parse_member fo st = Inr st'"
  shows "left st' < left st \<and> skip_to_state_evaluation st' = skip_to_state_evaluation st"
proof -
  obtain sdp where t: "token (next_token fo (st\<lparr>sax := sdp\<rparr>)) = Name_Separator"
    and st': "st' = next_token fo (next_token fo (st\<lparr>sax := sdp\<rparr>))"
    using assms by (auto simp: parse_member_def Let_def rbind_eq_Inr simp del: next_token_sax
        split: if_splits)
  have "left (next_token fo (st\<lparr>sax := sdp\<rparr>)) < left (st\<lparr>sax := sdp\<rparr>)"
    by (rule next_token_shortens) (use t in simp)
  then show ?thesis
    using next_token_left [of fo "next_token fo (st\<lparr>sax := sdp\<rparr>)"] st' by simp
qed

lemma begin_object_shortens:
  assumes "begin_object_case fo st = Inr (go_on, st')"
  shows "left st' < left st \<and> skip_to_state_evaluation st' = skip_to_state_evaluation st"
proof -
  obtain sdp where s: "start_object (sax st) = Inr sdp"
    using assms by (auto simp: begin_object_case_def rbind_eq_Inr)
  let ?n = "next_token fo (st\<lparr>sax := sdp\<rparr>)"
  show ?thesis
  proof (cases "token ?n = End_Object")
    case True
    then show ?thesis
      using assms s next_token_shortens [of fo st]
      by (auto simp: begin_object_case_def rbind_eq_Inr)
  next
    case False
    then obtain u where "parse_member fo ?n = Inr u" "st' = u\<lparr>states := states u @ [False]\<rparr>"
      using assms s by (auto simp: begin_object_case_def rbind_eq_Inr)
    then show ?thesis
      using parse_member_shortens [of fo ?n u] next_token_left [of fo st] by simp
  qed
qed

lemma begin_array_shortens:
  assumes "begin_array_case fo st = Inr (go_on, st')"
  shows "left st' \<le> left st" "skip_to_state_evaluation st' = skip_to_state_evaluation st"
    "left st' < left st \<or> \<not> go_on \<and> token st' \<in> {Parse_Error, End_Of_Input}"
  using assms next_token_left [of fo st] next_token_cases [of fo st]
  by (auto simp: begin_array_case_def Let_def rbind_eq_Inr split: if_splits)

lemma scalar_case_left:
  "scalar_case v st = Inr (go_on, st') \<Longrightarrow>
     go_on \<and> left st' = left st \<and> skip_to_state_evaluation st' = skip_to_state_evaluation st"
  by (auto simp: scalar_case_def rbind_eq_Inr)

lemma value_step_measure:
  assumes "value_step fo st = Inr (go_on, st')" "\<not> skip_to_state_evaluation st"
  shows "left st' \<le> left st" "\<not> skip_to_state_evaluation st'"
    "\<not> go_on \<Longrightarrow> parse_measure st' < parse_measure st"
proof -
  consider "begin_object_case fo st = Inr (go_on, st')" "token st = Begin_Object"
    | "begin_array_case fo st = Inr (go_on, st')" "token st = Begin_Array"
    | v where "scalar_case v st = Inr (go_on, st')"
    using assms(1) by (auto simp: value_step_def Let_def split: token_type.splits if_splits)
  then have "left st' \<le> left st \<and> \<not> skip_to_state_evaluation st' \<and>
      (\<not> go_on \<longrightarrow> parse_measure st' < parse_measure st)"
  proof cases
    case 1
    with begin_object_shortens [OF 1(1)] assms(2) show ?thesis by (auto simp: parse_measure_def)
  next
    case 2
    with begin_array_shortens [OF 2(1)] assms(2) show ?thesis by (auto simp: parse_measure_def)
  next
    case 3
    with scalar_case_left [OF 3] assms(2) show ?thesis by simp
  qed
  then show "left st' \<le> left st" "\<not> skip_to_state_evaluation st'"
    "\<not> go_on \<Longrightarrow> parse_measure st' < parse_measure st" by auto
qed

lemma array_state_shortens:
  assumes "array_state fo st = Inr (ret, st')"
  shows "\<not> ret \<and> left st' < left st"
proof -
  have "token (next_token fo st) \<in> {Value_Separator, End_Array}"
    using assms by (auto simp: array_state_def Let_def split: if_splits)
  then have "left (next_token fo st) < left st"
    using next_token_shortens [of fo st] by auto
  then show ?thesis
    using assms next_token_left [of fo "next_token fo st"]
    by (auto simp: array_state_def Let_def rbind_eq_Inr split: if_splits)
qed

lemma object_state_shortens:
  assumes "object_state fo st = Inr (ret, st')"
  shows "\<not> ret \<and> left st' < left st"
proof -
  have "token (next_token fo st) \<in> {Value_Separator, End_Object}"
    using assms by (auto simp: object_state_def Let_def split: if_splits)
  then have "left (next_token fo st) < left st"
    using next_token_shortens [of fo st] by auto
  then show ?thesis
    using assms next_token_left [of fo "next_token fo st"]
      parse_member_shortens [of fo "next_token fo (next_token fo st)"]
    by (fastforce simp: object_state_def Let_def rbind_eq_Inr split: if_splits)
qed

lemma state_evaluation_shortens:
  "state_evaluation fo st = Inr (False, st') \<Longrightarrow> left st' < left st"
  using array_state_shortens object_state_shortens
  by (fastforce simp: state_evaluation_def split: if_splits)

lemma loop_body_measure:
  assumes "loop_body fo st = Inr (False, st')"
  shows "parse_measure st' < parse_measure st"
proof (cases "skip_to_state_evaluation st")
  case True
  with assms have "state_evaluation fo (st\<lparr>skip_to_state_evaluation := False\<rparr>) = Inr (False, st')"
    by (simp add: loop_body_def)
  then have "left st' < left st" using state_evaluation_shortens by fastforce
  then show ?thesis by (auto simp: parse_measure_def)
next
  case False
  with assms obtain go_on u where u: "value_step fo st = Inr (go_on, u)"
    and st': "if go_on then state_evaluation fo u = Inr (False, st') else st' = u"
    by (auto simp: loop_body_def rbind_eq_Inr split: if_splits)
  note v = value_step_measure [OF u False]
  show ?thesis
  proof (cases go_on)
    case True
    with st' have "left st' < left u" by (auto intro: state_evaluation_shortens)
    with v(1) show ?thesis by (auto simp: parse_measure_def)
  qed (use v(3) st' in simp)
qed

function sax_parse_loop :: "'d double_ops \<Rightarrow> 'd parse_state \<Rightarrow> json_exception + 'd parse_state" where
  "sax_parse_loop fo st =
     (case loop_body fo st of
        Inl e \<Rightarrow> Inl e
      | Inr (return, st') \<Rightarrow> if return then Inr st' else sax_parse_loop fo st')"
  by pat_completeness auto
termination
  by (relation "measure (\<lambda>(_, st). parse_measure st)") (auto intro: loop_body_measure)

declare sax_parse_loop.simps [simp del]

definition sax_parse_internal ::
    "'d double_ops \<Rightarrow> 'd parser \<Rightarrow> 'd json_sax_dom_parser \<Rightarrow> json_exception + 'd parse_state" where
  "sax_parse_internal fo p sdp =
     sax_parse_loop fo \<lparr>prs = p, sax = sdp, states = [], skip_to_state_evaluation = False\<rparr>"

text \<open>\<open>parser::parse\<close>: the value is followed by the end of the input.\<close>

definition parser_parse :: "'d double_ops \<Rightarrow> bool \<Rightarrow> 'd parser \<Rightarrow> json_exception + 'd json" where
  "parser_parse fo strict p =
     rbind (sax_parse_internal fo p (new_sax_dom_parser JNull)) (\<lambda>st.
       let p = (if strict then get_token fo (prs st) else prs st) in
       if strict \<and> last_token p \<noteq> End_Of_Input then Inl (syntax_error p End_Of_Input ''value'')
       else if aborted (m_lexer p) then Inl Assertion_Failed
       else Inr (root (sax st)))"

text \<open>\<open>json::parse(f)\<close>: comments are not allowed.\<close>

definition json_parse :: "'d double_ops \<Rightarrow> string \<Rightarrow> json_exception + 'd json" where
  "json_parse fo i = parser_parse fo True (new_parser fo i False)"

end
