(* ===== verification/Parser_Asserts.thy ===== *)
theory Parser_Asserts
  imports Json_Asserts Json_Parser
begin

text \<open>
  The parser never meets an assertion of the lexer that failed: its lexer is running at every
  token. So its exceptions are the ones of the code, and it returns what its loop has built.
\<close>

definition live :: "'d parse_state \<Rightarrow> bool" where
  "live st \<longleftrightarrow> running (m_lexer (prs st))"

lemma running_get_token: "running (m_lexer p) \<Longrightarrow> running (m_lexer (get_token fo p))"
  using running_scan [of "m_lexer p" fo]
  by (cases "scan fo (m_lexer p)") (simp add: get_token_def)

lemma running_new_parser: "running (m_lexer (new_parser fo s comments))"
  unfolding new_parser_def by (rule running_get_token) (simp add: running_new)

lemma live_next [intro]: "live st \<Longrightarrow> live (next_token fo st)"
  by (simp add: live_def next_token_def running_get_token)

lemma live_update [simp]:
  "live (st\<lparr>sax := sdp\<rparr>) = live st" "live (st\<lparr>states := s\<rparr>) = live st"
  "live (st\<lparr>skip_to_state_evaluation := b\<rparr>) = live st"
  by (simp_all add: live_def)

lemma live_member: "parse_member fo st = Inr st' \<Longrightarrow> live st \<Longrightarrow> live st'"
  by (auto simp: parse_member_def Let_def rbind_eq_Inr split: if_splits intro!: live_next)

lemma live_value_step: "value_step fo st = Inr (b, st') \<Longrightarrow> live st \<Longrightarrow> live st'"
  by (cases "token st")
    (auto simp: value_step_def Let_def rbind_eq_Inr scalar_case_def begin_array_case_def begin_object_case_def
      split: if_splits intro!: live_next dest!: live_member)

lemma live_state_evaluation: "state_evaluation fo st = Inr (b, st') \<Longrightarrow> live st \<Longrightarrow> live st'"
  by (auto simp: state_evaluation_def array_state_def object_state_def Let_def rbind_eq_Inr
      split: if_splits intro!: live_next dest!: live_member)

lemma live_body: "loop_body fo st = Inr (b, st') \<Longrightarrow> live st \<Longrightarrow> live st'"
  using live_value_step live_state_evaluation
  by (fastforce simp: loop_body_def rbind_eq_Inr split: if_splits)

lemma live_loop: "sax_parse_loop fo st = Inr st' \<Longrightarrow> live st \<Longrightarrow> live st'"
proof (induction fo st rule: sax_parse_loop.induct)
  case (1 fo st)
  then obtain b u where u: "loop_body fo st = Inr (b, u)" "if b then st' = u else sax_parse_loop fo u = Inr st'"
    by (subst (asm) (2) sax_parse_loop.simps) (auto split: sum.splits if_splits)
  from live_body [OF u(1) "1.prems"(2)] "1.IH" [OF u(1) refl] u(2) show ?case by (cases b) auto
qed

text \<open>With a running lexer the last token decides.\<close>

lemma parser_parse_running:
  assumes "running (m_lexer p)"
  shows "parser_parse fo True p =
    rbind (sax_parse_internal fo p (new_sax_dom_parser JNull)) (\<lambda>st.
      if last_token (get_token fo (prs st)) \<noteq> End_Of_Input
      then Inl (syntax_error (get_token fo (prs st)) End_Of_Input ''value'')
      else Inr (root (sax st)))"
proof (cases "sax_parse_internal fo p (new_sax_dom_parser JNull)")
  case (Inr st)
  then have "live st" using assms live_loop by (fastforce simp: sax_parse_internal_def live_def)
  then have "\<not> aborted (m_lexer (get_token fo (prs st)))"
    using running_get_token [of "prs st" fo] by (simp add: live_def running_def)
  with Inr show ?thesis by (simp add: parser_parse_def Let_def)
qed (simp add: parser_parse_def)

lemma syntax_error_running:
  "running (m_lexer p) \<Longrightarrow> syntax_error p t c = Parse_Error_101 (position (m_lexer p)) (exception_message p t c)"
  by (simp add: syntax_error_def running_def)

end
