(* ===== verification/Json_Roundtrip.thy ===== *)
theory Json_Roundtrip
  imports Json_Text Parser_Asserts
begin

text \<open>
  The parser on the tokens of a value: it builds exactly this value, members in the order of
  their keys and the last of several members with one key kept. With the text of the
  serializer this gives the round trip.
\<close>

section \<open>The tokens of a value and the value they build\<close>

fun value_tokens :: "'d double_ops \<Rightarrow> 'd json \<Rightarrow> tok list"
  and member_tokens :: "'d double_ops \<Rightarrow> (string \<times> 'd json) list \<Rightarrow> tok list"
  and element_tokens :: "'d double_ops \<Rightarrow> 'd json list \<Rightarrow> tok list" where
  "value_tokens fo JNull = [Fixed Literal_Null]"
| "value_tokens fo (JBoolean b) = [Fixed (if b then Literal_True else Literal_False)]"
| "value_tokens fo (JInteger i) = [Neg i]"
| "value_tokens fo (JUnsigned i) = [Uns i]"
| "value_tokens fo (JFloat d) = [Flt (dbl_to_chars fo d)]"
| "value_tokens fo (JString s) = [Str s]"
| "value_tokens fo (JArray vs) = Fixed Begin_Array # element_tokens fo vs @ [Fixed End_Array]"
| "value_tokens fo (JObject m) = Fixed Begin_Object # member_tokens fo m @ [Fixed End_Object]"
| "member_tokens fo [] = []"
| "member_tokens fo ((k, v) # m) =
     Str k # Fixed Name_Separator # value_tokens fo v @
     (if m = [] then [] else Fixed Value_Separator # member_tokens fo m)"
| "element_tokens fo [] = []"
| "element_tokens fo (v # vs) =
     value_tokens fo v @ (if vs = [] then [] else Fixed Value_Separator # element_tokens fo vs)"

definition obj_set :: "string \<Rightarrow> 'd json \<Rightarrow> (string \<times> 'd json) list \<Rightarrow> (string \<times> 'd json) list" where
  "obj_set k v m = obj_assign k v (obj_emplace k JNull m)"

fun built :: "'d json \<Rightarrow> 'd json"
  and built_members :: "(string \<times> 'd json) list \<Rightarrow> (string \<times> 'd json) list \<Rightarrow> (string \<times> 'd json) list"
  and built_elements :: "'d json list \<Rightarrow> 'd json list" where
  "built (JArray vs) = JArray (built_elements vs)"
| "built (JObject m) = JObject (built_members [] m)"
| "built JNull = JNull"
| "built (JBoolean b) = JBoolean b"
| "built (JInteger i) = JInteger i"
| "built (JUnsigned i) = JUnsigned i"
| "built (JFloat d) = JFloat d"
| "built (JString s) = JString s"
| "built_members mm [] = mm"
| "built_members mm ((k, v) # m) = built_members (obj_set k (built v) mm) m"
| "built_elements [] = []"
| "built_elements (v # vs) = built v # built_elements vs"

text \<open>Every floating-point number is finite, and \<open>strtod\<close> reads it back from its text.\<close>

fun readable :: "'d double_ops \<Rightarrow> 'd json \<Rightarrow> bool"
  and members_readable :: "'d double_ops \<Rightarrow> (string \<times> 'd json) list \<Rightarrow> bool"
  and elements_readable :: "'d double_ops \<Rightarrow> 'd json list \<Rightarrow> bool" where
  "readable fo (JArray vs) = elements_readable fo vs"
| "readable fo (JObject m) = members_readable fo m"
| "readable fo (JFloat d) = (isfinite fo d \<and> strtod fo (dbl_to_chars fo d) = d)"
| "readable fo JNull = True"
| "readable fo (JBoolean b) = True"
| "readable fo (JInteger i) = True"
| "readable fo (JUnsigned i) = True"
| "readable fo (JString s) = True"
| "members_readable fo [] = True"
| "members_readable fo ((k, v) # m) = (readable fo v \<and> members_readable fo m)"
| "elements_readable fo [] = True"
| "elements_readable fo (v # vs) = (readable fo v \<and> elements_readable fo vs)"

section \<open>References\<close>

lemma json_at_append: "json_at v (p @ q) = (case json_at v p of None \<Rightarrow> None | Some u \<Rightarrow> json_at u q)"
  by (induction v p rule: json_at.induct) (auto split: option.split)

lemma map_of_obj_assign:
  "map_of m k \<noteq> None \<Longrightarrow> map_of (obj_assign k v m) = (map_of m)(k \<mapsto> v)"
  by (induction k v m rule: obj_assign.induct) auto

lemma obj_assign_assign [simp]: "obj_assign k v (obj_assign k w m) = obj_assign k v m"
  by (induction k w m rule: obj_assign.induct) auto

lemma json_at_put: "json_at v p \<noteq> None \<Longrightarrow> json_at (json_put p w v) p = Some w"
  by (induction v p rule: json_at.induct) (auto simp: map_of_obj_assign split: option.splits if_splits)

lemma json_put_put: "json_at v p \<noteq> None \<Longrightarrow> json_put p w (json_put p u v) = json_put p w v"
  by (induction v p rule: json_at.induct)
    (auto simp: map_of_obj_assign split: option.splits if_splits)

lemma json_put_append:
  "json_at v p = Some u \<Longrightarrow> json_put (p @ q) w v = json_put p (json_put q w u) v"
  by (induction v p rule: json_at.induct) (auto split: option.splits if_splits)

section \<open>Where the next value goes\<close>

definition ready :: "'d json_sax_dom_parser \<Rightarrow> bool" where
  "ready sdp \<longleftrightarrow> ref_stack sdp = [] \<or>
     (\<exists>vs. json_at (root sdp) (last (ref_stack sdp)) = Some (JArray vs)) \<or>
     (\<exists>m k. json_at (root sdp) (last (ref_stack sdp)) = Some (JObject m) \<and> map_of m k \<noteq> None \<and>
        object_element sdp = Some (last (ref_stack sdp) @ [Member k]))"

definition root_with :: "'d json_sax_dom_parser \<Rightarrow> 'd json \<Rightarrow> 'd json" where
  "root_with sdp v = (case handle_value v sdp of Inr (_, sdp') \<Rightarrow> root sdp' | Inl _ \<Rightarrow> root sdp)"

definition slot :: "'d json_sax_dom_parser \<Rightarrow> ref" where
  "slot sdp = (case handle_value JNull sdp of Inr (r, _) \<Rightarrow> r | Inl _ \<Rightarrow> [])"

lemma handle_value_ready:
  assumes "ready sdp"
  shows "handle_value v sdp = Inr (slot sdp, sdp\<lparr>root := root_with sdp v\<rparr>)"
  using assms by (auto simp: ready_def handle_value_def root_with_def slot_def Let_def)

lemma slot_holds:
  assumes "ready sdp"
  shows "json_at (root_with sdp v) (slot sdp) = Some v"
    and "json_put (slot sdp) w (root_with sdp v) = root_with sdp w"
proof -
  let ?b = "last (ref_stack sdp)"
  consider "ref_stack sdp = []"
    | vs where "ref_stack sdp \<noteq> []" "json_at (root sdp) ?b = Some (JArray vs)"
    | m k where "ref_stack sdp \<noteq> []" "json_at (root sdp) ?b = Some (JObject m)" "map_of m k \<noteq> None"
        "object_element sdp = Some (?b @ [Member k])"
    using assms by (auto simp: ready_def)
  then have "json_at (root_with sdp v) (slot sdp) = Some v \<and>
      json_put (slot sdp) w (root_with sdp v) = root_with sdp w"
  proof cases
    case 1
    then show ?thesis by (simp add: handle_value_def root_with_def slot_def)
  next
    case (2 vs)
    then have *: "json_at (json_put ?b (JArray (vs @ [v])) (root sdp)) ?b = Some (JArray (vs @ [v]))"
      by (simp add: json_at_put)
    with 2 show ?thesis
      by (simp add: handle_value_def root_with_def slot_def Let_def json_at_append
          json_put_append [OF *] json_put_put)
  next
    case (3 m k)
    from 3 have at: "json_at (root sdp) (?b @ [Member k]) \<noteq> None"
      by (auto simp: json_at_append)
    with 3 show ?thesis
      by (simp add: handle_value_def root_with_def slot_def Let_def json_at_put json_put_put)
  qed
  then show "json_at (root_with sdp v) (slot sdp) = Some v"
    "json_put (slot sdp) w (root_with sdp v) = root_with sdp w" by auto
qed

section \<open>The loop\<close>

definition continues :: "'d double_ops \<Rightarrow> 'd parse_state \<Rightarrow> json_exception + 'd parse_state" where
  "continues fo st =
     (case state_evaluation fo st of
        Inl e \<Rightarrow> Inl e
      | Inr (return, st') \<Rightarrow> if return then Inr st' else sax_parse_loop fo st')"

lemma loop_value_done:
  "\<not> skip_to_state_evaluation st \<Longrightarrow> value_step fo st = Inr (True, st') \<Longrightarrow>
     sax_parse_loop fo st = continues fo st'"
  by (subst sax_parse_loop.simps) (simp add: loop_body_def continues_def)

lemma loop_value_again:
  "\<not> skip_to_state_evaluation st \<Longrightarrow> value_step fo st = Inr (False, st') \<Longrightarrow>
     sax_parse_loop fo st = sax_parse_loop fo st'"
  by (subst sax_parse_loop.simps) (simp add: loop_body_def)

lemma loop_skip:
  "skip_to_state_evaluation st \<Longrightarrow>
     sax_parse_loop fo st = continues fo (st\<lparr>skip_to_state_evaluation := False\<rparr>)"
  by (subst sax_parse_loop.simps) (simp add: loop_body_def continues_def)

definition holds :: "'d double_ops \<Rightarrow> 'd parser \<Rightarrow> tok \<Rightarrow> bool" where
  "holds fo p t \<longleftrightarrow> last_token p = tok_type t \<and>
     (case t of Fixed _ \<Rightarrow> True | Str s \<Rightarrow> token_buffer (m_lexer p) = s
      | Uns i \<Rightarrow> value_unsigned (m_lexer p) = i | Neg i \<Rightarrow> value_integer (m_lexer p) = i
      | Flt s \<Rightarrow> value_float (m_lexer p) = strtod fo s)"

text \<open>The current token and the tokens still to come.\<close>

definition at_tokens :: "'d double_ops \<Rightarrow> 'd parse_state \<Rightarrow> tok list \<Rightarrow> bool" where
  "at_tokens fo st ts \<longleftrightarrow> \<not> skip_to_state_evaluation st \<and>
     (\<exists>t ts'. ts = t # ts' \<and> holds fo (prs st) t \<and> delivers fo (m_lexer (prs st)) ts')"

lemma at_tokens_Cons:
  "at_tokens fo st (t # ts) \<longleftrightarrow>
     \<not> skip_to_state_evaluation st \<and> holds fo (prs st) t \<and> delivers fo (m_lexer (prs st)) ts"
  by (auto simp: at_tokens_def)

lemma at_tokens_next:
  assumes "delivers fo (m_lexer (prs st)) (t # ts)" "\<not> skip_to_state_evaluation st"
  shows "at_tokens fo (next_token fo st) (t # ts)"
  using assms
  by (auto simp: at_tokens_Cons next_token_def get_token_def scans_def holds_def split: tok.splits)

lemma at_tokens_token: "at_tokens fo st (t # ts) \<Longrightarrow> token st = tok_type t"
  by (simp add: at_tokens_Cons holds_def)

lemma at_tokens_update [simp]:
  "at_tokens fo (st\<lparr>sax := sdp\<rparr>) ts = at_tokens fo st ts"
  "at_tokens fo (st\<lparr>states := s\<rparr>) ts = at_tokens fo st ts"
  by (simp_all add: at_tokens_def)

lemma next_token_sax_update [simp]:
  "next_token fo (st\<lparr>sax := sdp\<rparr>) = (next_token fo st)\<lparr>sax := sdp\<rparr>"
  "next_token fo (st\<lparr>states := s\<rparr>) = (next_token fo st)\<lparr>states := s\<rparr>"
  by (simp_all add: next_token_def)

text \<open>After a value: its text is read, the value is in place, the open containers are as before.\<close>

definition after_value :: "'d double_ops \<Rightarrow> 'd parse_state \<Rightarrow> 'd json \<Rightarrow> tok list \<Rightarrow> 'd parse_state \<Rightarrow> bool" where
  "after_value fo st v ts st' \<longleftrightarrow>
     \<not> skip_to_state_evaluation st' \<and> states st' = states st \<and>
     delivers fo (m_lexer (prs st')) ts \<and> ref_stack (sax st') = ref_stack (sax st) \<and>
     root (sax st') = root_with (sax st) v"

definition parses :: "'d double_ops \<Rightarrow> 'd json \<Rightarrow> bool" where
  "parses fo v \<longleftrightarrow>
     (\<forall>st ts. ready (sax st) \<longrightarrow> at_tokens fo st (value_tokens fo v @ ts) \<longrightarrow>
        (\<exists>st'. sax_parse_loop fo st = continues fo st' \<and> after_value fo st (built v) ts st'))"

lemma parsesE:
  assumes "parses fo v" "ready (sax st)" "at_tokens fo st (value_tokens fo v @ ts)"
  obtains st' where "sax_parse_loop fo st = continues fo st'" "after_value fo st (built v) ts st'"
  using assms unfolding parses_def by blast

lemma parses_scalar:
  assumes "value_tokens fo v = [t]" "built v = v"
    and "\<And>st. token st = tok_type t \<Longrightarrow> holds fo (prs st) t \<Longrightarrow> value_step fo st = scalar_case v st"
  shows "parses fo v"
  unfolding parses_def
proof (intro allI impI)
  fix st :: "'a parse_state" and ts
  assume r: "ready (sax st)" and a: "at_tokens fo st (value_tokens fo v @ ts)"
  from a assms(1) have t: "token st = tok_type t" "holds fo (prs st) t" "\<not> skip_to_state_evaluation st"
    "delivers fo (m_lexer (prs st)) ts"
    by (auto simp: at_tokens_Cons holds_def)
  let ?st = "st\<lparr>sax := (sax st)\<lparr>root := root_with (sax st) v\<rparr>\<rparr>"
  have "value_step fo st = Inr (True, ?st)"
    using assms(3) [OF t(1,2)] handle_value_ready [OF r, of v]
    by (simp add: scalar_case_def sax_value_def)
  from loop_value_done [OF t(3) this] show
    "\<exists>st'. sax_parse_loop fo st = continues fo st' \<and> after_value fo st (built v) ts st'"
    using t(3,4) assms(2) by (intro exI [of _ ?st]) (simp add: after_value_def)
qed

text \<open>Inside an array at the slot of \<open>s0\<close>, its elements so far being \<open>us\<close>.\<close>

definition in_array :: "'d json_sax_dom_parser \<Rightarrow> bool list \<Rightarrow> 'd json list \<Rightarrow> 'd parse_state \<Rightarrow> bool" where
  "in_array s0 S us st \<longleftrightarrow> ready s0 \<and> states st = S @ [True] \<and>
     ref_stack (sax st) = ref_stack s0 @ [slot s0] \<and> root (sax st) = root_with s0 (JArray us)"

lemma in_array_ready:
  assumes "in_array s0 S us st"
  shows "ready (sax st)" and "root_with (sax st) v = root_with s0 (JArray (us @ [v]))"
    and "json_at (root (sax st)) (last (ref_stack (sax st))) = Some (JArray us)"
proof -
  have a: "json_at (root (sax st)) (last (ref_stack (sax st))) = Some (JArray us)"
    using assms slot_holds(1) [of s0 "JArray us"] by (auto simp: in_array_def)
  then show "json_at (root (sax st)) (last (ref_stack (sax st))) = Some (JArray us)"
    and "ready (sax st)" by (auto simp: ready_def)
  from a show "root_with (sax st) v = root_with s0 (JArray (us @ [v]))"
    using assms slot_holds(2) [of s0 "JArray (us @ [v])" "JArray us"]
    by (simp add: in_array_def root_with_def [of "sax st"] handle_value_def Let_def)
qed

lemma in_array_next:
  assumes "in_array s0 S us st" "after_value fo st v ts st'"
  shows "in_array s0 S (us @ [v]) st'"
  using assms in_array_ready(2) [OF assms(1), of v] by (simp add: in_array_def after_value_def)

text \<open>A closing bracket or a comma after an element.\<close>

lemma array_closes:
  assumes "in_array s0 S us st" "\<not> skip_to_state_evaluation st"
    "delivers fo (m_lexer (prs st)) (Fixed End_Array # ts)"
  shows "\<exists>st'. continues fo st = continues fo st' \<and> \<not> skip_to_state_evaluation st' \<and>
           states st' = S \<and> delivers fo (m_lexer (prs st')) ts \<and>
           ref_stack (sax st') = ref_stack s0 \<and> root (sax st') = root_with s0 (JArray us)"
proof -
  let ?n = "next_token fo st"
  note a = at_tokens_next [OF assms(3,2)]
  let ?sdp = "(sax st)\<lparr>ref_stack := ref_stack s0\<rparr>"
  let ?st = "?n\<lparr>sax := ?sdp, states := S\<rparr>"
  have "end_array (sax st) = Inr ?sdp"
    using assms(1) in_array_ready(3) [OF assms(1)] by (simp add: end_array_def in_array_def)
  then have "state_evaluation fo st = Inr (False, ?st\<lparr>skip_to_state_evaluation := True\<rparr>)"
    using assms(1) at_tokens_token [OF a]
    by (simp add: state_evaluation_def array_state_def in_array_def)
  then have "continues fo st = continues fo (?st\<lparr>skip_to_state_evaluation := False\<rparr>)"
    using loop_skip [of "?st\<lparr>skip_to_state_evaluation := True\<rparr>" fo] by (simp add: continues_def)
  then show ?thesis
    using a assms(1) by (intro exI [of _ "?st\<lparr>skip_to_state_evaluation := False\<rparr>"])
      (simp add: at_tokens_Cons in_array_def)
qed

lemma array_continues:
  assumes "in_array s0 S us st" "\<not> skip_to_state_evaluation st"
    "delivers fo (m_lexer (prs st)) (Fixed Value_Separator # t # ts)"
  shows "\<exists>st'. continues fo st = sax_parse_loop fo st' \<and> in_array s0 S us st' \<and>
           at_tokens fo st' (t # ts)"
proof -
  let ?n = "next_token fo st"
  note a = at_tokens_next [OF assms(3,2)]
  then have d: "delivers fo (m_lexer (prs ?n)) (t # ts)" "\<not> skip_to_state_evaluation ?n"
    by (simp_all add: at_tokens_Cons)
  have "state_evaluation fo st = Inr (False, next_token fo ?n)"
    using assms(1) at_tokens_token [OF a]
    by (simp add: state_evaluation_def array_state_def in_array_def)
  then show ?thesis
    using at_tokens_next [OF d] assms(1)
    by (intro exI [of _ "next_token fo ?n"]) (simp add: continues_def in_array_def)
qed

lemma value_tokens_Cons:
  "\<exists>t ts. value_tokens fo v = t # ts \<and> tok_type t \<noteq> End_Array"
  by (cases v) auto

lemma parses_elements:
  assumes "\<And>v. v \<in> set (v0 # vs) \<Longrightarrow> parses fo v"
    and "in_array s0 S us st" "at_tokens fo st (element_tokens fo (v0 # vs) @ Fixed End_Array # ts)"
  shows "\<exists>st'. sax_parse_loop fo st = continues fo st' \<and> \<not> skip_to_state_evaluation st' \<and>
           states st' = S \<and> delivers fo (m_lexer (prs st')) ts \<and> ref_stack (sax st') = ref_stack s0 \<and>
           root (sax st') = root_with s0 (JArray (us @ built_elements (v0 # vs)))"
  using assms
proof (induction vs arbitrary: v0 us st)
  case Nil
  then obtain st1 where 1: "sax_parse_loop fo st = continues fo st1"
    "after_value fo st (built v0) (Fixed End_Array # ts) st1"
    using in_array_ready(1) [OF Nil.prems(2)] by (fastforce simp: parses_def)
  from array_closes [OF in_array_next [OF Nil.prems(2) 1(2)], of fo ts] 1
  show ?case by (auto simp: after_value_def)
next
  case (Cons v vs)
  obtain st1 where 1: "sax_parse_loop fo st = continues fo st1"
    "after_value fo st (built v0)
      (Fixed Value_Separator # element_tokens fo (v # vs) @ Fixed End_Array # ts) st1"
    using in_array_ready(1) [OF Cons.prems(2)] Cons.prems by (fastforce simp: parses_def)
  obtain t' ts' where t': "element_tokens fo (v # vs) @ Fixed End_Array # ts = t' # ts'"
    using value_tokens_Cons [of fo v] by auto
  from array_continues [OF in_array_next [OF Cons.prems(2) 1(2)], of fo t' ts'] 1 t' obtain st2 where
    2: "continues fo st1 = sax_parse_loop fo st2" "in_array s0 S (us @ [built v0]) st2"
      "at_tokens fo st2 (element_tokens fo (v # vs) @ Fixed End_Array # ts)"
    by (auto simp: after_value_def)
  from Cons.IH [OF _ 2(2,3)] Cons.prems(1) 1(1) 2(1) show ?case by auto
qed

lemma parses_array:
  assumes "\<And>v. v \<in> set vs \<Longrightarrow> parses fo v"
  shows "parses fo (JArray vs)"
  unfolding parses_def
proof (intro allI impI)
  fix st :: "'a parse_state" and ts
  assume r: "ready (sax st)" and a: "at_tokens fo st (value_tokens fo (JArray vs) @ ts)"
  let ?rest = "element_tokens fo vs @ Fixed End_Array # ts"
  let ?sdp = "(sax st)\<lparr>root := root_with (sax st) (JArray []), ref_stack := ref_stack (sax st) @ [slot (sax st)]\<rparr>"
  have sa: "start_array (sax st) = Inr ?sdp"
    by (simp add: start_array_def handle_value_ready [OF r] push_ref_def)
  from a have d: "token st = Begin_Array" "\<not> skip_to_state_evaluation st"
    "delivers fo (m_lexer (prs st)) ?rest"
    by (auto simp: at_tokens_Cons holds_def)
  let ?n = "next_token fo st"
  show "\<exists>st'. sax_parse_loop fo st = continues fo st' \<and> after_value fo st (built (JArray vs)) ts st'"
  proof (cases vs)
    case Nil
    with d at_tokens_next [of fo st "Fixed End_Array" ts] have n: "token ?n = End_Array"
      "delivers fo (m_lexer (prs ?n)) ts" by (auto simp: at_tokens_Cons holds_def)
    let ?sdp' = "?sdp\<lparr>ref_stack := ref_stack (sax st)\<rparr>"
    have "end_array ?sdp = Inr ?sdp'"
      using slot_holds(1) [OF r, of "JArray []"] by (simp add: end_array_def)
    with sa n(1) d(1) have "value_step fo st = Inr (True, ?n\<lparr>sax := ?sdp'\<rparr>)"
      by (simp add: value_step_def begin_array_case_def Let_def)
    from loop_value_done [OF d(2) this] show ?thesis
      using Nil n(2) d(2) by (intro exI [of _ "?n\<lparr>sax := ?sdp'\<rparr>"]) (simp add: after_value_def)
  next
    case (Cons v0 vs')
    then obtain t' ts' where t': "?rest = t' # ts'" "tok_type t' \<noteq> End_Array"
      using value_tokens_Cons [of fo v0] by auto
    let ?st = "?n\<lparr>sax := ?sdp, states := states st @ [True]\<rparr>"
    have n: "at_tokens fo ?n ?rest" using at_tokens_next [of fo st t' ts'] d t' by simp
    then have "token ?n \<noteq> End_Array" using t' at_tokens_token [of fo ?n t' ts'] by simp
    with sa d(1) have "value_step fo st = Inr (False, ?st)"
      by (simp add: value_step_def begin_array_case_def Let_def)
    note 1 = loop_value_again [OF d(2) this]
    have "in_array (sax st) (states st) [] ?st" using r by (simp add: in_array_def)
    from parses_elements [of v0 vs' fo, OF _ this, of ts] assms n Cons 1 show ?thesis
      by (auto simp: after_value_def)
  qed
qed

text \<open>Inside an object, its members so far being \<open>mm\<close>; before a value the member is there as null.\<close>

definition in_object :: "'d json_sax_dom_parser \<Rightarrow> (string \<times> 'd json) list \<Rightarrow> 'd parse_state \<Rightarrow> bool" where
  "in_object s0 mm st \<longleftrightarrow> ready s0 \<and> ref_stack (sax st) = ref_stack s0 @ [slot s0] \<and>
     root (sax st) = root_with s0 (JObject mm)"

definition in_member :: "'d json_sax_dom_parser \<Rightarrow> string \<Rightarrow> (string \<times> 'd json) list \<Rightarrow> 'd parse_state \<Rightarrow> bool" where
  "in_member s0 k mm st \<longleftrightarrow> in_object s0 (obj_emplace k JNull mm) st \<and>
     object_element (sax st) = Some (slot s0 @ [Member k])"

lemma in_object_at:
  "in_object s0 mm st \<Longrightarrow> json_at (root (sax st)) (last (ref_stack (sax st))) = Some (JObject mm)"
  using slot_holds(1) [of s0 "JObject mm"] by (auto simp: in_object_def)

lemma map_of_emplace: "map_of (obj_emplace k v m) k \<noteq> None"
  by (induction k v m rule: obj_emplace.induct) auto

lemma in_member_ready:
  assumes "in_member s0 k mm st"
  shows "ready (sax st)" and "root_with (sax st) v = root_with s0 (JObject (obj_set k v mm))"
proof -
  let ?m = "obj_emplace k JNull mm"
  from assms have o: "in_object s0 ?m st" by (simp add: in_member_def)
  then have rs: "ref_stack (sax st) = ref_stack s0 @ [slot s0]" "root (sax st) = root_with s0 (JObject ?m)"
    "ready s0" by (auto simp: in_object_def)
  from in_object_at [OF o] have at: "json_at (root (sax st)) (slot s0) = Some (JObject ?m)"
    using rs(1) by simp
  show "ready (sax st)"
    using assms at rs(1) map_of_emplace [of k JNull mm]
    by (auto simp: ready_def in_member_def)
  have "json_put (slot s0 @ [Member k]) v (root (sax st)) =
      json_put (slot s0) (JObject (obj_set k v mm)) (root (sax st))"
    using map_of_emplace [of k JNull mm]
    by (auto simp: json_put_append [OF at] obj_set_def split: option.split)
  then show "root_with (sax st) v = root_with s0 (JObject (obj_set k v mm))"
    using assms at rs slot_holds(2) [OF rs(3), of "JObject (obj_set k v mm)" "JObject ?m"]
    by (simp add: root_with_def [of "sax st"] handle_value_def Let_def in_member_def)
qed

lemma parse_member_tokens:
  assumes "in_object s0 mm st" "at_tokens fo st (Str k # Fixed Name_Separator # t # ts)"
  shows "\<exists>st'. parse_member fo st = Inr st' \<and> in_member s0 k mm st' \<and> states st' = states st \<and>
           at_tokens fo st' (t # ts)"
proof -
  from assms(2) have h: "token st = Value_String" "token_buffer (m_lexer (prs st)) = k"
    "\<not> skip_to_state_evaluation st" "delivers fo (m_lexer (prs st)) (Fixed Name_Separator # t # ts)"
    by (auto simp: at_tokens_Cons holds_def)
  from assms(1) have rs: "ref_stack (sax st) = ref_stack s0 @ [slot s0]"
    "root (sax st) = root_with s0 (JObject mm)" "ready s0" by (auto simp: in_object_def)
  let ?sdp = "(sax st)\<lparr>root := root_with s0 (JObject (obj_emplace k JNull mm)),
    object_element := Some (slot s0 @ [Member k])\<rparr>"
  have key: "sax_key k (sax st) = Inr ?sdp"
    using in_object_at [OF assms(1)] rs slot_holds(2) [OF rs(3)] by (simp add: sax_key_def)
  let ?n = "next_token fo st"
  from at_tokens_next [OF h(4,3)] have n: "token ?n = Name_Separator" "\<not> skip_to_state_evaluation ?n"
    "delivers fo (m_lexer (prs ?n)) (t # ts)" by (auto simp: at_tokens_Cons holds_def)
  from at_tokens_next [OF n(3,2)] show ?thesis
    using h key n(1) rs
    by (intro exI [of _ "(next_token fo ?n)\<lparr>sax := ?sdp\<rparr>"])
      (simp add: parse_member_def in_member_def in_object_def Let_def)
qed

lemma object_closes:
  assumes "in_object s0 mm st" "states st = S @ [False]" "\<not> skip_to_state_evaluation st"
    "delivers fo (m_lexer (prs st)) (Fixed End_Object # ts)"
  shows "\<exists>st'. continues fo st = continues fo st' \<and> \<not> skip_to_state_evaluation st' \<and>
           states st' = S \<and> delivers fo (m_lexer (prs st')) ts \<and>
           ref_stack (sax st') = ref_stack s0 \<and> root (sax st') = root_with s0 (JObject mm)"
proof -
  let ?n = "next_token fo st"
  note a = at_tokens_next [OF assms(4,3)]
  let ?sdp = "(sax st)\<lparr>ref_stack := ref_stack s0\<rparr>"
  let ?st = "?n\<lparr>sax := ?sdp, states := S\<rparr>"
  have "end_object (sax st) = Inr ?sdp"
    using assms(1) in_object_at [OF assms(1)] by (simp add: end_object_def in_object_def)
  then have "state_evaluation fo st = Inr (False, ?st\<lparr>skip_to_state_evaluation := True\<rparr>)"
    using assms(2) at_tokens_token [OF a]
    by (simp add: state_evaluation_def object_state_def)
  then have "continues fo st = continues fo (?st\<lparr>skip_to_state_evaluation := False\<rparr>)"
    using loop_skip [of "?st\<lparr>skip_to_state_evaluation := True\<rparr>" fo] by (simp add: continues_def)
  then show ?thesis
    using a assms(1) by (intro exI [of _ "?st\<lparr>skip_to_state_evaluation := False\<rparr>"])
      (simp add: at_tokens_Cons in_object_def)
qed

lemma object_continues:
  assumes "in_object s0 mm st" "states st = S @ [False]" "\<not> skip_to_state_evaluation st"
    "delivers fo (m_lexer (prs st)) (Fixed Value_Separator # Str k # Fixed Name_Separator # t # ts)"
  shows "\<exists>st'. continues fo st = sax_parse_loop fo st' \<and> in_member s0 k mm st' \<and>
           states st' = S @ [False] \<and> at_tokens fo st' (t # ts)"
proof -
  let ?n = "next_token fo st"
  note a = at_tokens_next [OF assms(4,3)]
  then have d: "delivers fo (m_lexer (prs ?n)) (Str k # Fixed Name_Separator # t # ts)"
    "\<not> skip_to_state_evaluation ?n"
    by (simp_all add: at_tokens_Cons)
  have "in_object s0 mm (next_token fo ?n)" using assms(1) by (simp add: in_object_def)
  from parse_member_tokens [OF this at_tokens_next [OF d]] obtain st' where
    st': "parse_member fo (next_token fo ?n) = Inr st'" "in_member s0 k mm st'"
      "states st' = states st" "at_tokens fo st' (t # ts)" by auto
  then have "state_evaluation fo st = Inr (False, st')"
    using assms(2) at_tokens_token [OF a]
    by (simp add: state_evaluation_def object_state_def)
  with st' assms(2) show ?thesis by (intro exI [of _ st']) (simp add: continues_def)
qed

lemma in_object_after:
  assumes "in_member s0 k mm st" "after_value fo st v ts st'"
  shows "in_object s0 (obj_set k v mm) st'"
  using assms in_member_ready(2) [OF assms(1), of v]
  by (simp add: in_member_def in_object_def after_value_def)

lemma parses_members:
  assumes "\<And>k v. (k, v) \<in> set ((k0, v0) # m) \<Longrightarrow> parses fo v"
    and "in_member s0 k0 mm st" "states st = S @ [False]"
    and "at_tokens fo st (value_tokens fo v0 @
      (if m = [] then [] else Fixed Value_Separator # member_tokens fo m) @ Fixed End_Object # ts)"
  shows "\<exists>st'. sax_parse_loop fo st = continues fo st' \<and> \<not> skip_to_state_evaluation st' \<and>
           states st' = S \<and> delivers fo (m_lexer (prs st')) ts \<and> ref_stack (sax st') = ref_stack s0 \<and>
           root (sax st') = root_with s0 (JObject (built_members mm ((k0, v0) # m)))"
  using assms
proof (induction m arbitrary: k0 v0 mm st)
  case Nil
  have p: "parses fo v0" and a: "at_tokens fo st (value_tokens fo v0 @ Fixed End_Object # ts)"
    using Nil.prems(1) [of k0 v0] Nil.prems(4) by simp_all
  obtain st1 where 1: "sax_parse_loop fo st = continues fo st1"
    "after_value fo st (built v0) (Fixed End_Object # ts) st1"
    using parsesE [OF p in_member_ready(1) [OF Nil.prems(2)] a] .
  from object_closes [OF in_object_after [OF Nil.prems(2) 1(2)], of S fo ts] 1 Nil.prems(3)
  show ?case by (auto simp: after_value_def)
next
  case (Cons kv m)
  obtain k v where kv: "kv = (k, v)" by (cases kv)
  have p: "parses fo v0"
    and a: "at_tokens fo st (value_tokens fo v0 @
      Fixed Value_Separator # member_tokens fo (kv # m) @ Fixed End_Object # ts)"
    using Cons.prems(1) [of k0 v0] Cons.prems(4) by simp_all
  obtain st1 where 1: "sax_parse_loop fo st = continues fo st1"
    "after_value fo st (built v0)
      (Fixed Value_Separator # member_tokens fo (kv # m) @ Fixed End_Object # ts) st1"
    using parsesE [OF p in_member_ready(1) [OF Cons.prems(2)] a] .
  let ?rest = "value_tokens fo v @
    (if m = [] then [] else Fixed Value_Separator # member_tokens fo m) @ Fixed End_Object # ts"
  obtain t' ts' where t': "?rest = t' # ts'"
    using value_tokens_Cons [of fo v] by auto
  have "member_tokens fo (kv # m) @ Fixed End_Object # ts = Str k # Fixed Name_Separator # ?rest"
    using kv by simp
  with object_continues [OF in_object_after [OF Cons.prems(2) 1(2)], of S fo k t' ts'] 1 t' Cons.prems(3)
  obtain st2 where
    2: "continues fo st1 = sax_parse_loop fo st2" "in_member s0 k (obj_set k0 (built v0) mm) st2"
      "states st2 = S @ [False]" "at_tokens fo st2 ?rest"
    by (auto simp: after_value_def)
  have "\<And>k' v'. (k', v') \<in> set ((k, v) # m) \<Longrightarrow> parses fo v'"
    using Cons.prems(1) kv by auto
  from Cons.IH [OF this 2(2,3,4)] 1(1) 2(1) kv show ?case by auto
qed

lemma parses_object:
  assumes "\<And>k v. (k, v) \<in> set m \<Longrightarrow> parses fo v"
  shows "parses fo (JObject m)"
  unfolding parses_def
proof (intro allI impI)
  fix st :: "'a parse_state" and ts
  assume r: "ready (sax st)" and a: "at_tokens fo st (value_tokens fo (JObject m) @ ts)"
  let ?rest = "member_tokens fo m @ Fixed End_Object # ts"
  let ?sdp = "(sax st)\<lparr>root := root_with (sax st) (JObject []), ref_stack := ref_stack (sax st) @ [slot (sax st)]\<rparr>"
  have so: "start_object (sax st) = Inr ?sdp"
    by (simp add: start_object_def handle_value_ready [OF r] push_ref_def)
  from a have d: "token st = Begin_Object" "\<not> skip_to_state_evaluation st"
    "delivers fo (m_lexer (prs st)) ?rest"
    by (auto simp: at_tokens_Cons holds_def)
  let ?n = "(next_token fo st)\<lparr>sax := ?sdp\<rparr>"
  show "\<exists>st'. sax_parse_loop fo st = continues fo st' \<and> after_value fo st (built (JObject m)) ts st'"
  proof (cases m)
    case Nil
    with d at_tokens_next [of fo st "Fixed End_Object" ts] have n: "token ?n = End_Object"
      "delivers fo (m_lexer (prs ?n)) ts" by (auto simp: at_tokens_Cons holds_def)
    let ?sdp' = "?sdp\<lparr>ref_stack := ref_stack (sax st)\<rparr>"
    have "end_object ?sdp = Inr ?sdp'"
      using slot_holds(1) [OF r, of "JObject []"] by (simp add: end_object_def)
    with so n(1) d(1) have "value_step fo st = Inr (True, ?n\<lparr>sax := ?sdp'\<rparr>)"
      by (simp add: value_step_def begin_object_case_def Let_def)
    from loop_value_done [OF d(2) this] show ?thesis
      using Nil n(2) d(2) by (intro exI [of _ "?n\<lparr>sax := ?sdp'\<rparr>"]) (simp add: after_value_def)
  next
    case (Cons kv m')
    obtain k v where kv: "kv = (k, v)" by (cases kv)
    let ?vs = "value_tokens fo v @
      (if m' = [] then [] else Fixed Value_Separator # member_tokens fo m') @ Fixed End_Object # ts"
    obtain t' ts' where t': "?vs = t' # ts'"
      using value_tokens_Cons [of fo v] by auto
    have "delivers fo (m_lexer (prs st)) (Str k # Fixed Name_Separator # t' # ts')"
      using d(3) Cons kv t' by simp
    from at_tokens_next [OF this d(2)] have n: "at_tokens fo ?n (Str k # Fixed Name_Separator # t' # ts')"
      by simp
    have "in_object (sax st) [] ?n" using r by (simp add: in_object_def)
    from parse_member_tokens [OF this n] obtain st1 where
      1: "parse_member fo ?n = Inr st1" "in_member (sax st) k [] st1" "states st1 = states st"
        "at_tokens fo st1 ?vs" using t' by auto
    let ?st = "st1\<lparr>states := states st @ [False]\<rparr>"
    have "value_step fo st = Inr (False, ?st)"
      using so d(1) 1 at_tokens_token [OF n]
      by (simp add: value_step_def begin_object_case_def Let_def)
    note 2 = loop_value_again [OF d(2) this]
    have "in_member (sax st) k [] ?st" using 1(2) by (simp add: in_member_def in_object_def)
    from parses_members [of k v m' fo, OF _ this, of "states st" ts] assms Cons kv 1(4) 2
    show ?thesis by (auto simp: after_value_def)
  qed
qed

lemma parses_all:
  "readable fo v \<Longrightarrow> parses fo v"
  "members_readable fo m \<Longrightarrow> \<forall>(k, w) \<in> set m. parses fo w"
  "elements_readable fo vs \<Longrightarrow> \<forall>w \<in> set vs. parses fo w"
proof (induction fo v and fo m and fo vs rule: readable_members_readable_elements_readable.induct)
  case (1 fo vs)
  then show ?case by (intro parses_array) auto
next
  case (2 fo m)
  then show ?case by (intro parses_object) auto
qed (auto intro!: parses_scalar simp: value_step_def holds_def)

lemma json_parse_tokens:
  assumes "spaced (value_tokens fo v) s" "readable fo v"
  shows "json_parse fo s = Inr (built v)"
proof -
  let ?p0 = "\<lparr>last_token = Uninitialized, m_lexer = new_lexer fo s False\<rparr>"
  let ?st = "\<lparr>prs = get_token fo ?p0, sax = new_sax_dom_parser JNull, states = [],
    skip_to_state_evaluation = False\<rparr>"
  obtain t ts where t: "value_tokens fo v = t # ts" using value_tokens_Cons [of fo v] by auto
  have "delivers fo (m_lexer ?p0) (t # ts @ [Fixed End_Of_Input])"
    using delivers_spaced [OF assms(1) reads_new, of fo fo] t by simp
  then have a: "at_tokens fo ?st (value_tokens fo v @ [Fixed End_Of_Input])"
    using at_tokens_next [of fo "\<lparr>prs = ?p0, sax = new_sax_dom_parser JNull, states = [],
      skip_to_state_evaluation = False\<rparr>" t "ts @ [Fixed End_Of_Input]"] t
    by (simp add: next_token_def)
  have r: "ready (sax ?st)" by (simp add: ready_def new_sax_dom_parser_def)
  from parses_all(1) [OF assms(2)] r a obtain st' where
    1: "sax_parse_loop fo ?st = continues fo st'"
      "after_value fo ?st (built v) [Fixed End_Of_Input] st'"
    unfolding parses_def by blast
  from 1(2) have 2: "states st' = []" "delivers fo (m_lexer (prs st')) [Fixed End_Of_Input]"
    "root (sax st') = built v" "\<not> skip_to_state_evaluation st'"
    by (auto simp: after_value_def root_with_def handle_value_def new_sax_dom_parser_def)
  from at_tokens_token [OF at_tokens_next [OF 2(2,4)]]
  have "last_token (get_token fo (prs st')) = End_Of_Input" by (simp add: next_token_def)
  then show ?thesis
    using 1(1) 2(1,3)
    unfolding json_parse_def parser_parse_running [OF running_new_parser]
    by (simp add: sax_parse_internal_def new_parser_def continues_def state_evaluation_def)
qed

end
