(* ===== verification/Json_Safety.thy ===== *)
theory Json_Safety
  imports Json_Roundtrip "HOL-Library.Sublist"
begin

text \<open>
  What the parser guarantees for every input: it returns a well-formed value (valid UTF-8 in
  all strings and keys, integers of 64 bits, members in the strict order of their keys) or
  throws one of its two exceptions, and no assertion of the lexer, the loop or the DOM parser fails.
\<close>

section \<open>Tokens\<close>

definition token_sound :: "token_type \<Rightarrow> 'd lexer \<Rightarrow> bool" where
  "token_sound t lx \<longleftrightarrow>
     (t = Value_String \<longrightarrow> valid_utf8 (token_buffer lx)) \<and>
     (t = Value_Unsigned \<longrightarrow> 0 \<le> value_unsigned lx \<and> value_unsigned lx < 2 ^ 64) \<and>
     (t = Value_Integer \<longrightarrow> - (2 ^ 63) \<le> value_integer lx \<and> value_integer lx < 2 ^ 63)"

abbreviation sound_scan :: "token_type \<times> 'd lexer \<Rightarrow> bool" where
  "sound_scan r \<equiv> token_sound (fst r) (snd r)"

named_theorems scan_sound_intros

lemma sound_other [simp]:
  "t \<notin> {Value_String, Value_Unsigned, Value_Integer} \<Longrightarrow> token_sound t lx"
  by (simp add: token_sound_def)

lemma sound_failure [simp]: "sound_scan (parse_failure msg lx)"
  by (simp add: parse_failure_def)

lemma sound_done [scan_sound_intros]: "sound_scan (scan_number_done fo nt lx)"
proof -
  have "strtoull s = Some x \<Longrightarrow> 0 \<le> x \<and> x < 2 ^ 64" for s x
    by (auto simp: strtoull_def Let_def split: if_splits)
  moreover have "strtoll s = Some x \<Longrightarrow> - (2 ^ 63) \<le> x \<and> x < 2 ^ 63" for s x
    by (auto simp: strtoll_def Let_def split: if_splits)
  ultimately show ?thesis
    by (auto simp: scan_number_done_def Let_def float_token_def token_sound_def split: option.split)
qed

lemma sound_any2 [scan_sound_intros]: "sound_scan (scan_number_any2 fo nt lx)"
proof (induction fo nt lx rule: scan_number_any2.induct)
  case (1 fo nt lx)
  then show ?case by (simp add: scan_number_any2.simps [of fo nt lx] Let_def scan_sound_intros)
qed

lemma sound_sign [scan_sound_intros]: "sound_scan (scan_number_sign fo nt lx)"
  by (auto simp: scan_number_sign_def Let_def intro: scan_sound_intros)

lemma sound_exponent [scan_sound_intros]: "sound_scan (scan_number_exponent fo lx)"
  by (simp add: scan_number_exponent_def Let_def scan_sound_intros)

lemma sound_decimal2 [scan_sound_intros]: "sound_scan (scan_number_decimal2 fo nt lx)"
proof (induction fo nt lx rule: scan_number_decimal2.induct)
  case (1 fo nt lx)
  then show ?case by (simp add: scan_number_decimal2.simps [of fo nt lx] Let_def scan_sound_intros)
qed

lemma sound_decimal1 [scan_sound_intros]: "sound_scan (scan_number_decimal1 fo lx)"
  by (simp add: scan_number_decimal1_def Let_def scan_sound_intros)

lemma sound_any1 [scan_sound_intros]: "sound_scan (scan_number_any1 fo nt lx)"
proof (induction fo nt lx rule: scan_number_any1.induct)
  case (1 fo nt lx)
  then show ?case by (simp add: scan_number_any1.simps [of fo nt lx] Let_def scan_sound_intros)
qed

lemma sound_zero [scan_sound_intros]: "sound_scan (scan_number_zero fo nt lx)"
  by (simp add: scan_number_zero_def Let_def scan_sound_intros)

lemma sound_minus [scan_sound_intros]: "sound_scan (scan_number_minus fo lx)"
  by (simp add: scan_number_minus_def Let_def scan_sound_intros)

lemma sound_number [scan_sound_intros]: "sound_scan (scan_number fo lx)"
  by (simp add: scan_number_def Let_def scan_sound_intros)

lemma sound_literal:
  "t \<notin> {Value_String, Value_Unsigned, Value_Integer} \<Longrightarrow> sound_scan (scan_literal cs t lx)"
proof -
  assume t: "t \<notin> {Value_String, Value_Unsigned, Value_Integer}"
  have "sound_scan (scan_literal_loop ds t lx)" for ds and lx :: "'a lexer"
    using t by (induction ds arbitrary: lx) (auto simp: Let_def)
  then show ?thesis by (simp add: scan_literal_def)
qed

lemma scan_string_loop_type: "fst (scan_string_loop lx) \<in> {Value_String, Parse_Error}"
proof (induction lx rule: scan_string_loop.induct)
  case (1 lx)
  then show ?case
    by (subst scan_string_loop.simps) (auto simp: Let_def parse_failure_def split: option.splits prod.splits)
qed

lemma sound_string [scan_sound_intros]: "sound_scan (scan_string lx)"
proof (cases "fst (scan_string lx) = Value_String")
  case True
  then have "scan_string lx = (Value_String, snd (scan_string lx))" by (metis prod.collapse)
  from scan_string_valid [OF this] show ?thesis by (simp add: True token_sound_def)
next
  case False
  then have "fst (scan_string lx) = Parse_Error"
    using scan_string_loop_type [of "json_assert (current lx = Some quote_char) (reset lx)"]
    by (auto simp: scan_string_def Let_def)
  then show ?thesis by simp
qed

lemma sound_token: "sound_scan (scan_token fo lx)"
  unfolding scan_token_def
  by (simp add: sound_literal scan_sound_intros split: option.split)

lemma sound_scan: "sound_scan (scan fo lx)"
proof -
  have "sound_scan (scan_after_bom fo lx)" for lx :: "'a lexer"
    by (simp add: scan_after_bom_def sound_token split: prod.split)
  then show ?thesis by (simp add: scan_def split: prod.split)
qed

section \<open>Well-formed values\<close>

fun json_wf :: "'d json \<Rightarrow> bool"
  and members_wf :: "(string \<times> 'd json) list \<Rightarrow> bool"
  and elements_wf :: "'d json list \<Rightarrow> bool" where
  "json_wf (JInteger i) = (- (2 ^ 63) \<le> i \<and> i < 2 ^ 63)"
| "json_wf (JUnsigned i) = (0 \<le> i \<and> i < 2 ^ 64)"
| "json_wf (JString s) = valid_utf8 s"
| "json_wf (JArray vs) = elements_wf vs"
| "json_wf (JObject m) = (sorted_wrt (<) (List.map fst m) \<and> members_wf m)"
| "json_wf JNull = True"
| "json_wf (JBoolean b) = True"
| "json_wf (JFloat d) = True"
| "members_wf [] = True"
| "members_wf ((k, v) # m) = (valid_utf8 k \<and> json_wf v \<and> members_wf m)"
| "elements_wf [] = True"
| "elements_wf (v # vs) = (json_wf v \<and> elements_wf vs)"

lemma members_wf_iff: "members_wf m \<longleftrightarrow> (\<forall>(k, v) \<in> set m. valid_utf8 k \<and> json_wf v)"
  by (induction m) auto

lemma elements_wf_iff: "elements_wf vs \<longleftrightarrow> (\<forall>v \<in> set vs. json_wf v)"
  by (induction vs) auto

lemma wf_valid:
  fixes v :: "'d json" and m :: "(string \<times> 'd json) list" and vs :: "'d json list"
  shows
  "json_wf v \<Longrightarrow> json_valid v" "members_wf m \<Longrightarrow> members_valid m" "elements_wf vs \<Longrightarrow> elements_valid vs"
  by (induction v and m and vs rule: json_wf_members_wf_elements_wf.induct) auto

lemma obj_assign_keys [simp]: "List.map fst (obj_assign k v m) = List.map fst m"
  by (induction k v m rule: obj_assign.induct) auto

lemma obj_assign_set: "set (obj_assign k v m) \<subseteq> insert (k, v) (set m)"
  by (induction k v m rule: obj_assign.induct) auto

lemma obj_emplace_set: "set (obj_emplace k v m) \<subseteq> insert (k, v) (set m)"
  by (induction k v m rule: obj_emplace.induct) auto

lemma obj_emplace_wf:
  assumes "json_wf (JObject m)" "valid_utf8 k" "json_wf v"
  shows "json_wf (JObject (obj_emplace k v m))"
  using assms obj_emplace_set [of k v m] obj_emplace_sorted [of m k v]
  by (auto simp: members_wf_iff strict_sorted_iff)

lemma json_put_wf:
  assumes "json_wf v" "json_wf w"
  shows "json_wf (json_put p w v)"
  using assms
proof (induction p w v rule: json_put.induct)
  case (2 i p w vs)
  show ?case
  proof (cases "i < length vs")
    case True
    with 2 have "json_wf (json_put p w (vs ! i))" by (auto simp: elements_wf_iff)
    with 2 True show ?thesis by (auto simp: elements_wf_iff dest!: set_update_subset_insert [THEN subsetD])
  qed (use 2 in \<open>simp add: list_update_beyond\<close>)
next
  case (3 k p w m)
  show ?case
  proof (cases "map_of m k")
    case (Some u)
    then have "(k, u) \<in> set m" by (rule map_of_SomeD)
    with 3 Some have "valid_utf8 k" "json_wf (json_put p w u)" by (auto simp: members_wf_iff)
    with 3 Some obj_assign_set [of k "json_put p w u" m] show ?thesis
      by (auto simp: members_wf_iff)
  qed (use 3 in simp)
qed simp_all

lemma json_at_wf: "json_wf v \<Longrightarrow> json_at v p = Some u \<Longrightarrow> json_wf u"
  by (induction v p rule: json_at.induct)
    (auto simp: elements_wf_iff members_wf_iff dest: map_of_SomeD split: if_splits option.splits)

section \<open>The stack of open containers\<close>

definition open_at :: "'d json \<Rightarrow> ref \<Rightarrow> bool \<Rightarrow> bool" where
  "open_at r p arr \<longleftrightarrow>
     (if arr then \<exists>vs. json_at r p = Some (JArray vs) else \<exists>m. json_at r p = Some (JObject m))"

text \<open>
  The loop keeps one flag per open container (\<open>True\<close> for an array), the DOM parser a reference
  to each; inner containers are inside outer ones.
\<close>

definition stacked :: "'d json_sax_dom_parser \<Rightarrow> bool list \<Rightarrow> bool" where
  "stacked sdp sts \<longleftrightarrow> list_all2 (open_at (root sdp)) (ref_stack sdp) sts \<and>
     sorted_wrt strict_prefix (ref_stack sdp)"

lemma json_at_Nil [simp]: "json_at v [] = Some v"
  by (cases v) simp_all

lemma open_at_put:
  assumes "open_at r p arr" "strict_prefix p e"
  shows "open_at (json_put e w r) p arr"
proof -
  obtain c q where e: "e = p @ c # q" using assms(2) by (auto elim: strict_prefixE')
  obtain u where u: "json_at r p = Some u" "if arr then \<exists>vs. u = JArray vs else \<exists>m. u = JObject m"
    using assms(1) by (auto simp: open_at_def split: if_splits)
  have "json_at (json_put e w r) p = Some (json_put (c # q) w u)"
    using u(1) by (simp add: e json_put_append json_at_put)
  moreover from u(2) have "if arr then \<exists>vs. json_put (c # q) w u = JArray vs
      else \<exists>m. json_put (c # q) w u = JObject m"
    by (cases c) (auto split: if_splits option.splits)
  ultimately show ?thesis by (auto simp: open_at_def)
qed

lemma stacked_inner:
  assumes "stacked sdp sts" "ref_stack sdp \<noteq> []"
  obtains rs r ts t where "ref_stack sdp = rs @ [r]" "sts = ts @ [t]"
    "list_all2 (open_at (root sdp)) rs ts" "open_at (root sdp) r t"
    "\<And>p. p \<in> set rs \<Longrightarrow> strict_prefix p r" "sorted_wrt strict_prefix rs"
proof -
  obtain rs r where rs: "ref_stack sdp = rs @ [r]" using assms(2) by (metis append_butlast_last_id)
  with assms(1) obtain ts t where "sts = ts @ [t]" "list_all2 (open_at (root sdp)) rs ts"
    "open_at (root sdp) r t"
    by (auto simp: stacked_def list_all2_append1 list_all2_Cons1)
  moreover from assms(1) rs have "\<And>p. p \<in> set rs \<Longrightarrow> strict_prefix p r" "sorted_wrt strict_prefix rs"
    by (simp_all add: stacked_def sorted_wrt_append)
  ultimately show ?thesis using that rs by blast
qed

lemma stacked_empty: "stacked sdp sts \<Longrightarrow> ref_stack sdp = [] \<longleftrightarrow> sts = []"
  by (auto simp: stacked_def)

lemma stacked_pop:
  assumes "stacked sdp sts"
  shows "stacked (sdp\<lparr>ref_stack := butlast (ref_stack sdp)\<rparr>) (butlast sts)"
proof (cases "ref_stack sdp = []")
  case True
  with assms show ?thesis by (simp add: stacked_def)
next
  case False
  show ?thesis by (rule stacked_inner [OF assms False]) (simp add: stacked_def)
qed

lemma list_all2_open_put:
  assumes "list_all2 (open_at r) ps sts" "\<And>p. p \<in> set ps \<Longrightarrow> strict_prefix p e"
  shows "list_all2 (open_at (json_put e w r)) ps sts"
  using assms by (induction ps sts rule: list_all2_induct) (auto intro: open_at_put)

text \<open>A value put where the parser stands leaves every container open.\<close>

lemma handle_value_stacked:
  assumes st: "stacked sdp sts" and rd: "ready sdp" and wf: "json_wf (root sdp)" "json_wf v"
  shows "stacked (sdp\<lparr>root := root_with sdp v\<rparr>) sts \<and> json_wf (root_with sdp v) \<and>
    (\<forall>p \<in> set (ref_stack sdp). strict_prefix p (slot sdp))"
proof (cases "ref_stack sdp = []")
  case True
  with st wf show ?thesis by (simp add: stacked_def root_with_def handle_value_def)
next
  case False
  obtain rs b ts t where rs: "ref_stack sdp = rs @ [b]" "sts = ts @ [t]"
    and open': "list_all2 (open_at (root sdp)) rs ts" "open_at (root sdp) b t"
    and pre: "\<And>p. p \<in> set rs \<Longrightarrow> strict_prefix p b" and sorted': "sorted_wrt strict_prefix rs"
    by (rule stacked_inner [OF st False]) blast
  consider vs where "json_at (root sdp) b = Some (JArray vs)"
    | m k where "json_at (root sdp) b = Some (JObject m)" "object_element sdp = Some (b @ [Member k])"
    using rd rs(1) by (auto simp: ready_def)
  then show ?thesis
  proof cases
    case (1 vs)
    let ?u = "JArray (vs @ [v])"
    from 1 rs have r: "root_with sdp v = json_put b ?u (root sdp)" "slot sdp = b @ [Elem (length vs)]"
      by (simp_all add: root_with_def slot_def handle_value_def Let_def)
    from open'(2) 1 have "open_at (json_put b ?u (root sdp)) b t"
      by (auto simp: open_at_def json_at_put split: if_splits)
    moreover have "list_all2 (open_at (json_put b ?u (root sdp))) rs ts"
      by (rule list_all2_open_put [OF open'(1) pre])
    moreover have "json_wf ?u" using json_at_wf [OF wf(1) 1] wf(2) by (auto simp: elements_wf_iff)
    then have "json_wf (json_put b ?u (root sdp))" by (rule json_put_wf [OF wf(1)])
    moreover have "strict_prefix p (slot sdp)" if "p \<in> set (ref_stack sdp)" for p
      using that pre [of p] r(2) rs(1) by (auto simp: strict_prefix_def)
    ultimately show ?thesis
      using r(1) rs pre sorted' by (simp add: stacked_def sorted_wrt_append list_all2_appendI)
  next
    case (2 m k)
    let ?e = "b @ [Member k]"
    from 2 rs have r: "root_with sdp v = json_put ?e v (root sdp)" "slot sdp = ?e"
      by (simp_all add: root_with_def slot_def handle_value_def Let_def)
    have pre': "strict_prefix p ?e" if "p \<in> set (ref_stack sdp)" for p
      using that pre [of p] rs(1) by (auto simp: strict_prefix_def)
    have "list_all2 (open_at (json_put ?e v (root sdp))) (ref_stack sdp) sts"
      by (rule list_all2_open_put) (use st pre' in \<open>auto simp: stacked_def\<close>)
    with pre' r json_put_wf [OF wf, of ?e] st show ?thesis by (simp add: stacked_def)
  qed
qed

section \<open>The loop\<close>

text \<open>
  Between two rounds the two stacks agree, the value built so far is well-formed, the current
  token is sound and the lexer running, and, unless a container has just been closed, the parser
  stands where a value may be put.
\<close>

definition sound_token_of :: "'d parse_state \<Rightarrow> bool" where
  "sound_token_of st \<longleftrightarrow> token_sound (token st) (m_lexer (prs st)) \<and> live st"

definition building :: "'d parse_state \<Rightarrow> bool" where
  "building st \<longleftrightarrow> stacked (sax st) (states st) \<and> json_wf (root (sax st)) \<and> sound_token_of st"

text \<open>A step ends with a value that satisfies \<open>P\<close>, or throws.\<close>

definition safe :: "('a \<Rightarrow> bool) \<Rightarrow> json_exception + 'a \<Rightarrow> bool" where
  "safe P r \<longleftrightarrow> (case r of Inl e \<Rightarrow> e \<noteq> Assertion_Failed | Inr x \<Rightarrow> P x)"

lemma safe_simps [simp]:
  "safe P (Inl e) \<longleftrightarrow> e \<noteq> Assertion_Failed" "safe P (Inr x) \<longleftrightarrow> P x"
  by (simp_all add: safe_def)

lemma safe_rbind: "safe P r \<Longrightarrow> (\<And>x. P x \<Longrightarrow> safe Q (f x)) \<Longrightarrow> safe Q (rbind r f)"
  by (cases r) auto

lemma safe_mono: "safe P r \<Longrightarrow> (\<And>x. P x \<Longrightarrow> Q x) \<Longrightarrow> safe Q r"
  by (cases r) auto

lemma sound_no_assertion [simp]:
  "sound_token_of st \<Longrightarrow> syntax_error (prs st) t c \<noteq> Assertion_Failed"
  "sound_token_of st \<Longrightarrow> number_overflow (m_lexer (prs st)) \<noteq> Assertion_Failed"
  by (simp_all add: sound_token_of_def syntax_error_def number_overflow_def live_def running_def)

lemma next_token_token_sound [simp]: "token_sound (token (next_token fo st)) (m_lexer (prs (next_token fo st)))"
  using sound_scan [of fo "m_lexer (prs st)"]
  by (cases "scan fo (m_lexer (prs st))") (simp add: next_token_def get_token_def)

lemma next_token_sound [simp]: "sound_token_of st \<Longrightarrow> sound_token_of (next_token fo st)"
  unfolding sound_token_of_def by (simp add: live_next)

lemma sound_token_updates [simp]:
  "sound_token_of (st\<lparr>sax := sdp\<rparr>) = sound_token_of st"
  "sound_token_of (st\<lparr>states := sts\<rparr>) = sound_token_of st"
  "sound_token_of (st\<lparr>skip_to_state_evaluation := b\<rparr>) = sound_token_of st"
  by (simp_all add: sound_token_of_def)

lemma next_token_building: "building st \<Longrightarrow> building (next_token fo st)"
  by (simp add: building_def)

lemma next_token_sdp:
  "sound_token_of st \<Longrightarrow> stacked sdp (states st) \<Longrightarrow> json_wf (root sdp) \<Longrightarrow>
     building (next_token fo (st\<lparr>sax := sdp\<rparr>))"
  by (simp add: building_def)

lemma sax_value_safe:
  assumes "stacked sdp sts" "json_wf (root sdp)" "ready sdp" "json_wf v"
  shows "safe (\<lambda>sdp. stacked sdp sts \<and> json_wf (root sdp)) (sax_value v sdp)"
  using assms handle_value_stacked [of sdp sts v] by (simp add: sax_value_def handle_value_ready)

lemma push_stacked:
  assumes "stacked sdp sts" "json_wf (root sdp)" "ready sdp" "json_wf v" "open_at v [] arr"
  shows "stacked (push_ref (slot sdp) (sdp\<lparr>root := root_with sdp v\<rparr>)) (sts @ [arr])"
    and "json_wf (root_with sdp v)"
proof -
  note h = handle_value_stacked [OF assms(1,3,2,4)]
  have "open_at (root_with sdp v) (slot sdp) arr"
    using slot_holds(1) [OF assms(3), of v] assms(5) by (auto simp: open_at_def split: if_splits)
  with h show "stacked (push_ref (slot sdp) (sdp\<lparr>root := root_with sdp v\<rparr>)) (sts @ [arr])"
    by (simp add: stacked_def push_ref_def sorted_wrt_append list_all2_appendI)
  from h show "json_wf (root_with sdp v)" by simp
qed

lemma start_object_safe:
  assumes "stacked sdp sts" "json_wf (root sdp)" "ready sdp"
  shows "safe (\<lambda>sdp. stacked sdp (sts @ [False]) \<and> json_wf (root sdp)) (start_object sdp)"
  using push_stacked [OF assms, of "JObject []" False] assms(3)
  by (simp add: start_object_def handle_value_ready open_at_def) (simp add: push_ref_def)

lemma start_array_safe:
  assumes "stacked sdp sts" "json_wf (root sdp)" "ready sdp"
  shows "safe (\<lambda>sdp. stacked sdp (sts @ [True]) \<and> json_wf (root sdp) \<and> ready sdp) (start_array sdp)"
proof -
  have "ready (push_ref (slot sdp) (sdp\<lparr>root := root_with sdp (JArray [])\<rparr>))"
    using slot_holds(1) [OF assms(3), of "JArray []"] by (simp add: ready_def push_ref_def)
  with push_stacked [OF assms, of "JArray []" True] assms(3) show ?thesis
    by (simp add: start_array_def handle_value_ready open_at_def) (simp add: push_ref_def)
qed

lemma stacked_last:
  assumes "stacked sdp (sts @ [arr])"
  shows "ref_stack sdp \<noteq> []" "open_at (root sdp) (last (ref_stack sdp)) arr"
proof -
  show "ref_stack sdp \<noteq> []" using assms stacked_empty by fastforce
  show "open_at (root sdp) (last (ref_stack sdp)) arr"
    by (rule stacked_inner [OF assms \<open>ref_stack sdp \<noteq> []\<close>]) simp
qed

lemma end_object_safe:
  assumes "stacked sdp (sts @ [False])" "json_wf (root sdp)"
  shows "safe (\<lambda>sdp. stacked sdp sts \<and> json_wf (root sdp)) (end_object sdp)"
  using stacked_last [OF assms(1)] stacked_pop [OF assms(1)] assms(2)
  by (auto simp: end_object_def open_at_def)

lemma end_array_safe:
  assumes "stacked sdp (sts @ [True])" "json_wf (root sdp)"
  shows "safe (\<lambda>sdp. stacked sdp sts \<and> json_wf (root sdp)) (end_array sdp)"
  using stacked_last [OF assms(1)] stacked_pop [OF assms(1)] assms(2)
  by (auto simp: end_array_def open_at_def)

lemma sax_key_safe:
  assumes st: "stacked sdp (sts @ [False])" and wf: "json_wf (root sdp)" and k: "valid_utf8 k"
  shows "safe (\<lambda>sdp. stacked sdp (sts @ [False]) \<and> json_wf (root sdp) \<and> ready sdp) (sax_key k sdp)"
proof -
  note l = stacked_last [OF st]
  obtain m where m: "json_at (root sdp) (last (ref_stack sdp)) = Some (JObject m)"
    using l(2) by (auto simp: open_at_def)
  let ?u = "JObject (obj_emplace k JNull m)"
  let ?sdp = "sdp\<lparr>root := json_put (last (ref_stack sdp)) ?u (root sdp),
    object_element := Some (last (ref_stack sdp) @ [Member k])\<rparr>"
  have at: "json_at (root ?sdp) (last (ref_stack sdp)) = Some ?u" using m by (simp add: json_at_put)
  then have "ready ?sdp" by (auto simp: ready_def map_of_emplace)
  moreover have "json_wf (root ?sdp)"
    using json_put_wf [OF wf obj_emplace_wf [OF json_at_wf [OF wf m] k]] by simp
  moreover have "stacked ?sdp (sts @ [False])"
  proof (rule stacked_inner [OF st l(1)])
    fix rs r ts t
    assume rs: "ref_stack sdp = rs @ [r]" "sts @ [False] = ts @ [t]"
      "list_all2 (open_at (root sdp)) rs ts" "open_at (root sdp) r t"
      "\<And>p. p \<in> set rs \<Longrightarrow> strict_prefix p r" "sorted_wrt strict_prefix rs"
    with list_all2_open_put [of "root sdp" rs ts r ?u] at show ?thesis
      by (auto simp: stacked_def sorted_wrt_append open_at_def intro!: list_all2_appendI)
  qed
  ultimately show ?thesis using l(1) m by (simp add: sax_key_def Let_def)
qed

lemma parse_member_safe:
  assumes "stacked (sax st) (sts @ [False])" "json_wf (root (sax st))" "sound_token_of st"
  shows "safe (\<lambda>st'. stacked (sax st') (sts @ [False]) \<and> json_wf (root (sax st')) \<and> ready (sax st') \<and>
    sound_token_of st' \<and> states st' = states st \<and>
    skip_to_state_evaluation st' = skip_to_state_evaluation st) (parse_member fo st)"
proof (cases "token st = Value_String")
  case True
  with assms(3) have "valid_utf8 (token_buffer (m_lexer (prs st)))"
    by (simp add: sound_token_of_def token_sound_def)
  note k = sax_key_safe [OF assms(1,2) this]
  from True show ?thesis
    by (simp add: parse_member_def Let_def del: next_token_sax_update)
      (rule safe_rbind [OF k], use assms(3) in simp)
qed (use assms(3) in \<open>simp add: parse_member_def\<close>)

text \<open>A half of a round: it goes on (\<open>True\<close>) after a value, or continues where a value may be put.\<close>

definition round_ok :: "bool \<times> 'd parse_state \<Rightarrow> bool" where
  "round_ok r \<longleftrightarrow> (case r of (done, st) \<Rightarrow>
     building st \<and> (done \<or> skip_to_state_evaluation st \<or> ready (sax st)))"

lemma scalar_case_safe:
  assumes "building st" "ready (sax st)" "json_wf v"
  shows "safe round_ok (scalar_case v st)"
  unfolding scalar_case_def
  by (rule safe_rbind [OF sax_value_safe [of "sax st" "states st"]])
    (use assms in \<open>simp_all add: building_def round_ok_def\<close>)

lemma begin_object_safe:
  fixes st :: "'d parse_state"
  assumes "building st" "ready (sax st)"
  shows "safe round_ok (begin_object_case fo st)"
  unfolding begin_object_case_def Let_def
proof (rule safe_rbind [OF start_object_safe [of "sax st" "states st"]])
  fix sdp :: "'d json_sax_dom_parser"
  assume sdp: "stacked sdp (states st @ [False]) \<and> json_wf (root sdp)"
  have sound: "sound_token_of st" using assms(1) by (simp add: building_def)
  let ?n = "next_token fo (st\<lparr>sax := sdp\<rparr>)"
  show "safe round_ok (if token ?n = End_Object
      then rbind (end_object (sax ?n)) (\<lambda>sdp. Inr (True, ?n\<lparr>sax := sdp\<rparr>))
      else rbind (parse_member fo ?n) (\<lambda>st. Inr (False, st\<lparr>states := states st @ [False]\<rparr>)))"
  proof (cases "token ?n = End_Object")
    case True
    have "safe round_ok (rbind (end_object (sax ?n)) (\<lambda>sdp. Inr (True, ?n\<lparr>sax := sdp\<rparr>)))"
      by (rule safe_rbind [OF end_object_safe [of _ "states st"]])
        (use sdp sound in \<open>simp_all add: round_ok_def building_def\<close>)
    with True show ?thesis by simp
  next
    case False
    have "safe round_ok (rbind (parse_member fo ?n) (\<lambda>st. Inr (False, st\<lparr>states := states st @ [False]\<rparr>)))"
      by (rule safe_rbind [OF parse_member_safe [of _ "states st"]])
        (use sdp sound in \<open>simp_all add: round_ok_def building_def\<close>)
    with False show ?thesis by simp
  qed
qed (use assms in \<open>simp_all add: building_def\<close>)

lemma begin_array_safe:
  fixes st :: "'d parse_state"
  assumes "building st" "ready (sax st)"
  shows "safe round_ok (begin_array_case fo st)"
  unfolding begin_array_case_def Let_def
proof (rule safe_rbind [OF start_array_safe [of "sax st" "states st"]])
  fix sdp :: "'d json_sax_dom_parser"
  assume sdp: "stacked sdp (states st @ [True]) \<and> json_wf (root sdp) \<and> ready sdp"
  have sound: "sound_token_of st" using assms(1) by (simp add: building_def)
  let ?n = "next_token fo (st\<lparr>sax := sdp\<rparr>)"
  show "safe round_ok (if token ?n = End_Array
      then rbind (end_array (sax ?n)) (\<lambda>sdp. Inr (True, ?n\<lparr>sax := sdp\<rparr>))
      else Inr (False, ?n\<lparr>states := states ?n @ [True]\<rparr>))"
  proof (cases "token ?n = End_Array")
    case True
    have "safe round_ok (rbind (end_array (sax ?n)) (\<lambda>sdp. Inr (True, ?n\<lparr>sax := sdp\<rparr>)))"
      by (rule safe_rbind [OF end_array_safe [of _ "states st"]])
        (use sdp sound in \<open>simp_all add: round_ok_def building_def\<close>)
    with True show ?thesis by simp
  qed (use sdp sound in \<open>simp add: round_ok_def building_def\<close>)
qed (use assms in \<open>simp_all add: building_def\<close>)

lemma value_step_safe:
  assumes "building st" "ready (sax st)"
  shows "safe round_ok (value_step fo st)"
proof -
  have sound: "sound_token_of st" using assms(1) by (simp add: building_def)
  then have "token_sound (token st) (m_lexer (prs st))" by (simp add: sound_token_of_def)
  then have v: "token st = Value_String \<Longrightarrow> json_wf (JString (token_buffer (m_lexer (prs st))))"
    "token st = Value_Unsigned \<Longrightarrow> json_wf (JUnsigned (value_unsigned (m_lexer (prs st))))"
    "token st = Value_Integer \<Longrightarrow> json_wf (JInteger (value_integer (m_lexer (prs st))))"
    by (simp_all add: token_sound_def)
  show ?thesis
    by (cases "token st")
      (simp_all add: value_step_def Let_def v sound scalar_case_safe [OF assms] begin_object_safe [OF assms]
        begin_array_safe [OF assms] del: json_wf.simps(1-3))
qed

lemma state_evaluation_safe:
  assumes "building st"
  shows "safe round_ok (state_evaluation fo st)"
proof (cases "states st" rule: rev_cases)
  case Nil
  with assms show ?thesis by (simp add: state_evaluation_def round_ok_def)
next
  case (snoc sts arr)
  let ?n = "next_token fo st"
  have n: "stacked (sax st) (sts @ [arr])" "json_wf (root (sax st))" "sound_token_of st"
    using assms snoc by (simp_all add: building_def)
  show ?thesis
  proof (cases arr)
    case True
    have "ready (sax st)" using stacked_last [OF n(1)] True by (auto simp: ready_def open_at_def)
    moreover have "safe round_ok (rbind (end_array (sax st)) (\<lambda>sdp. Inr (False, ?n\<lparr>sax := sdp,
        states := sts, skip_to_state_evaluation := True\<rparr>)))"
      by (rule safe_rbind [OF end_array_safe [of _ sts]])
        (use n True in \<open>simp_all add: round_ok_def building_def\<close>)
    ultimately show ?thesis
      using n snoc True by (simp add: state_evaluation_def array_state_def Let_def round_ok_def building_def)
  next
    case False
    have "safe round_ok (rbind (end_object (sax st)) (\<lambda>sdp. Inr (False, ?n\<lparr>sax := sdp,
        states := sts, skip_to_state_evaluation := True\<rparr>)))"
      by (rule safe_rbind [OF end_object_safe [of _ sts]])
        (use n False in \<open>simp_all add: round_ok_def building_def\<close>)
    moreover have "safe round_ok (rbind (parse_member fo (next_token fo ?n)) (\<lambda>st. Inr (False, st)))"
      by (rule safe_rbind [OF parse_member_safe [of _ sts]])
        (use n False snoc in \<open>simp_all add: round_ok_def building_def\<close>)
    ultimately show ?thesis
      using n(3) snoc False by (simp add: state_evaluation_def object_state_def Let_def)
  qed
qed

lemma loop_body_safe:
  assumes "building st" "skip_to_state_evaluation st \<or> ready (sax st)"
  shows "safe round_ok (loop_body fo st)"
proof (cases "skip_to_state_evaluation st")
  case True
  with assms show ?thesis
    using state_evaluation_safe [of "st\<lparr>skip_to_state_evaluation := False\<rparr>"]
    by (simp add: loop_body_def building_def)
next
  case False
  with assms(2) have "safe round_ok (value_step fo st)" by (intro value_step_safe assms(1)) simp
  then have "safe round_ok (rbind (value_step fo st) (\<lambda>(go_on, st).
      if go_on then state_evaluation fo st else Inr (False, st)))"
    by (rule safe_rbind) (auto simp: round_ok_def intro: state_evaluation_safe)
  with False show ?thesis by (simp add: loop_body_def)
qed

lemma sax_parse_loop_safe:
  assumes "building st" "skip_to_state_evaluation st \<or> ready (sax st)"
  shows "safe building (sax_parse_loop fo st)"
  using assms
proof (induction fo st rule: sax_parse_loop.induct)
  case (1 fo st)
  from loop_body_safe [OF "1.prems"] have s: "safe round_ok (loop_body fo st)" .
  show ?case
  proof (cases "loop_body fo st")
    case (Inl e)
    with s show ?thesis by (simp add: sax_parse_loop.simps [of fo st])
  next
    case (Inr r)
    obtain return st' where r: "r = (return, st')" by (cases r)
    with s Inr have ok: "building st'" "return \<or> skip_to_state_evaluation st' \<or> ready (sax st')"
      by (simp_all add: round_ok_def)
    with "1.IH" [OF Inr r [symmetric]] r Inr show ?thesis by (auto simp: sax_parse_loop.simps [of fo st])
  qed
qed

lemma json_parse_safe: "safe json_wf (json_parse fo s)"
proof -
  let ?st = "\<lparr>prs = new_parser fo s False, sax = new_sax_dom_parser JNull, states = [],
    skip_to_state_evaluation = False\<rparr> :: 'a parse_state"
  have "sound_token_of (?st\<lparr>prs := \<lparr>last_token = Uninitialized, m_lexer = new_lexer fo s False\<rparr>\<rparr>)"
    by (simp add: sound_token_of_def live_def running_new)
  from next_token_sound [OF this, of fo] have "sound_token_of ?st"
    by (simp add: next_token_def new_parser_def)
  then have "building ?st" "ready (sax ?st)"
    by (simp_all add: building_def stacked_def new_sax_dom_parser_def ready_def)
  from sax_parse_loop_safe [OF this(1), of fo] this(2)
  have "safe building (sax_parse_internal fo (new_parser fo s False) (new_sax_dom_parser JNull))"
    by (simp add: sax_parse_internal_def)
  then show ?thesis
    unfolding json_parse_def parser_parse_running [OF running_new_parser]
  proof (rule safe_rbind)
    fix st :: "'a parse_state"
    assume "building st"
    then have "sound_token_of (next_token fo st)" "json_wf (root (sax st))" by (simp_all add: building_def)
    then show "safe json_wf (if last_token (get_token fo (prs st)) \<noteq> End_Of_Input
      then Inl (syntax_error (get_token fo (prs st)) End_Of_Input ''value'') else Inr (root (sax st)))"
      using sound_no_assertion(1) [of "next_token fo st" End_Of_Input "''value''"] by (simp add: next_token_def)
  qed
qed

section \<open>Properties\<close>

text \<open>
  C7: Whatever the bytes of the input, \<open>parse\<close> returns a well-formed value (UTF-8 strings and
  keys, integers of 64 bits, distinct keys in their order), or throws a syntax error or a number
  overflow. No assertion of the lexer (putting a byte back, code points, the byte ranges, the end
  of a number's conversion, the first character of a string or a literal), of the loop or of the
  DOM parser fails: one that did would be the result \<open>Assertion_Failed\<close>.
\<close>

theorem parse_gives_wellformed:
  "case json_parse fo s of
     Inr v \<Rightarrow> json_wf v
   | Inl (Parse_Error_101 pos msg) \<Rightarrow> True
   | Inl (Out_Of_Range_406 msg) \<Rightarrow> True
   | Inl Assertion_Failed \<Rightarrow> False"
  using json_parse_safe [of fo s] by (auto simp: safe_def split: sum.split json_exception.split)

end
