(* ===== verification/Json_Canonical.thy ===== *)
theory Json_Canonical
  imports Json_Roundtrip
begin

text \<open>
  The round trip of the JSON library: the parser reads back what the serializer writes, and the
  value is the same, provided each floating-point number is read back from its own text.
\<close>

section \<open>Values the parser builds\<close>

text \<open>
  A floating-point number is finite, its text is a numeral of the JSON grammar with a fraction or an
  exponent, and \<open>strtod\<close> reads it back from this text.
\<close>

definition float_lexeme :: "string \<Rightarrow> bool" where
  "float_lexeme s \<longleftrightarrow>
     (let t = (if s \<noteq> [] \<and> hd s = CHR ''-'' then tl s else s); ds = takeWhile is_digit t
      in ds = nat_digits (digits_val ds) \<and> number_tail (dropWhile is_digit t))"

definition float_canonical :: "'d double_ops \<Rightarrow> 'd \<Rightarrow> bool" where
  "float_canonical fo d \<longleftrightarrow>
     isfinite fo d \<and> float_lexeme (dbl_to_chars fo d) \<and> strtod fo (dbl_to_chars fo d) = d"

lemma float_lexeme_text:
  assumes "float_lexeme s" "ends_number r"
  shows "tok_text (Flt s) s r"
proof -
  obtain t where t: "t = (if s \<noteq> [] \<and> hd s = CHR ''-'' then tl s else s)" by blast
  obtain n where n: "n = digits_val (takeWhile is_digit t)" by blast
  obtain u where u: "u = dropWhile is_digit t" by blast
  note l = assms(1) [unfolded float_lexeme_def Let_def, folded t, folded u, folded n]
  have "t = takeWhile is_digit t @ u" unfolding u by (rule takeWhile_dropWhile_id [symmetric])
  with l have tu: "t = nat_digits n @ u" by metis
  show ?thesis
  proof (cases "s \<noteq> [] \<and> hd s = CHR ''-''")
    case True
    then have "s = CHR ''-'' # nat_digits n @ u" using t tu by (cases s) auto
    with tok_text.Flt_minus [OF conjunct2 [OF l] assms(2), of n] show ?thesis by simp
  next
    case False
    then have "s = nat_digits n @ u" using t tu by auto
    with tok_text.Flt [OF conjunct2 [OF l] assms(2), of n] show ?thesis by simp
  qed
qed

text \<open>Numbers below zero are signed, others unsigned; members are in the order of their keys.\<close>

fun json_canonical :: "'d double_ops \<Rightarrow> 'd json \<Rightarrow> bool"
  and members_canonical :: "'d double_ops \<Rightarrow> (string \<times> 'd json) list \<Rightarrow> bool"
  and elements_canonical :: "'d double_ops \<Rightarrow> 'd json list \<Rightarrow> bool" where
  "json_canonical fo (JInteger i) = (- (2 ^ 63) \<le> i \<and> i < 0)"
| "json_canonical fo (JUnsigned i) = (0 \<le> i \<and> i < 2 ^ 64)"
| "json_canonical fo (JString s) = valid_utf8 s"
| "json_canonical fo (JArray vs) = elements_canonical fo vs"
| "json_canonical fo (JObject m) = (sorted_wrt (<) (List.map fst m) \<and> members_canonical fo m)"
| "json_canonical fo JNull = True"
| "json_canonical fo (JBoolean b) = True"
| "json_canonical fo (JFloat d) = float_canonical fo d"
| "members_canonical fo [] = True"
| "members_canonical fo ((k, v) # m) = (valid_utf8 k \<and> json_canonical fo v \<and> members_canonical fo m)"
| "elements_canonical fo [] = True"
| "elements_canonical fo (v # vs) = (json_canonical fo v \<and> elements_canonical fo vs)"

lemma canonical_valid:
  fixes v :: "'d json" and m :: "(string \<times> 'd json) list" and vs :: "'d json list"
  shows
  "json_canonical fo v \<Longrightarrow> json_valid v" "members_canonical fo m \<Longrightarrow> members_valid m"
  "elements_canonical fo vs \<Longrightarrow> elements_valid vs"
  by (induction fo v and fo m and fo vs rule: json_canonical_members_canonical_elements_canonical.induct) auto

lemma canonical_readable:
  fixes v :: "'d json" and m :: "(string \<times> 'd json) list" and vs :: "'d json list"
  shows
  "json_canonical fo v \<Longrightarrow> readable fo v" "members_canonical fo m \<Longrightarrow> members_readable fo m"
  "elements_canonical fo vs \<Longrightarrow> elements_readable fo vs"
  by (induction fo v and fo m and fo vs rule: json_canonical_members_canonical_elements_canonical.induct)
    (auto simp: float_canonical_def)

lemma obj_set_last: "(\<And>k'. k' \<in> fst ` set m \<Longrightarrow> k' < k) \<Longrightarrow> obj_set k v m = m @ [(k, v)]"
  by (simp add: obj_set_def obj_emplace_last obj_assign_last)

lemma built_canonical:
  fixes v :: "'d json" and m :: "(string \<times> 'd json) list" and vs :: "'d json list"
  shows
  "json_canonical fo v \<Longrightarrow> built v = v"
  "members_canonical fo m \<Longrightarrow> sorted_wrt (<) (List.map fst (mm @ m)) \<Longrightarrow> built_members mm m = mm @ m"
  "elements_canonical fo vs \<Longrightarrow> built_elements vs = vs"
proof (induction fo v and fo m and fo vs arbitrary: and mm and
    rule: json_canonical_members_canonical_elements_canonical.induct)
  case (10 fo k v m)
  then have "obj_set k v mm = mm @ [(k, v)]"
    by (intro obj_set_last) (auto simp: sorted_wrt_append)
  with 10 show ?case by simp
qed auto

section \<open>Their texts\<close>

lemma hex_digit_lower: "n < 16 \<Longrightarrow> hex_digit (hex_lower n) = Some n"
proof -
  have "list_all (\<lambda>n. hex_digit (hex_lower n) = Some n) [0..<16]" by code_simp
  then show "n < 16 \<Longrightarrow> hex_digit (hex_lower n) = Some n" by (simp add: list_all_iff)
qed

lemma u_escape_control:
  assumes "b \<le> 0x1F"
  obtains h where "u_escape (of_nat b) = backslash # CHR ''u'' # h" "hex4 h = Some b"
proof
  have u: "unat (of_nat b :: 16 word) = b" using assms by (simp add: unat_of_nat)
  show "u_escape (of_nat b) = backslash # CHR ''u'' #
    [hex_lower 0, hex_lower 0, hex_lower (b div 16), hex_lower (b mod 16)]"
    using assms by (simp add: u_escape_def Let_def u)
  show "hex4 [hex_lower 0, hex_lower 0, hex_lower (b div 16), hex_lower (b mod 16)] = Some b"
    using assms by (simp add: hex4_def hex_digit_lower)
qed

lemma literal_escape_char:
  assumes "byte c \<le> 0x7F" "literal l s"
  shows "literal (escape_char c @ l) (c # s)"
proof -
  have simple: ?thesis if "byte c = byte d" "escape_char d = [backslash, e]" "simple_escape e = Some d" for d e
  proof -
    have "c = d" using that(1) by simp
    with that(2,3) assms(2) literal.Simple [of e d l s] show ?thesis by simp
  qed
  consider "byte c = 0x08" | "byte c = 0x09" | "byte c = 0x0A" | "byte c = 0x0C" | "byte c = 0x0D"
    | "byte c = 0x22" | "byte c = 0x5C"
    | "byte c \<le> 0x1F" "byte c \<notin> {0x08, 0x09, 0x0A, 0x0C, 0x0D}"
    | "0x20 \<le> byte c" "byte c \<noteq> 0x22" "byte c \<noteq> 0x5C"
    by fastforce
  then show ?thesis
  proof cases
    case 8
    obtain h where h: "u_escape (of_nat (byte c)) = backslash # CHR ''u'' # h" "hex4 h = Some (byte c)"
      using u_escape_control [OF 8(1)] by blast
    have "encode_codepoint (byte c) = [c]" using assms(1) by (simp add: encode_codepoint_def)
    with literal.Unicode [OF h(2) _ assms(2)] h(1) 8 show ?thesis
      by (simp add: escape_char_def)
  next
    case 9
    then have "c \<noteq> quote_char" "c \<noteq> backslash" by auto
    with 9 literal.Plain [of c "[]" "[]" l s] assms show ?thesis
      by (simp add: escape_char_def utf8_tail_def)
  next
    case 1
    show ?thesis by (rule simple [of "CHR 0x08" "CHR ''b''"]) (simp_all add: 1 escape_char_def simple_escape_def)
  next
    case 2
    show ?thesis by (rule simple [of "CHR 0x09" "CHR ''t''"]) (simp_all add: 2 escape_char_def simple_escape_def)
  next
    case 3
    show ?thesis by (rule simple [of newline "CHR ''n''"]) (simp_all add: 3 escape_char_def simple_escape_def)
  next
    case 4
    show ?thesis by (rule simple [of "CHR 0x0C" "CHR ''f''"]) (simp_all add: 4 escape_char_def simple_escape_def)
  next
    case 5
    show ?thesis by (rule simple [of carriage_return "CHR ''r''"]) (simp_all add: 5 escape_char_def simple_escape_def)
  next
    case 6
    show ?thesis by (rule simple [of quote_char quote_char]) (simp_all add: 6 escape_char_def simple_escape_def)
  next
    case 7
    show ?thesis by (rule simple [of backslash backslash]) (simp_all add: 7 escape_char_def simple_escape_def)
  qed
qed

lemma literal_escape_text: "valid_utf8 s \<Longrightarrow> literal (escape_text s) s"
proof (induction s rule: valid_utf8_induct)
  case Nil
  show ?case by (simp add: literal.Empty)
next
  case (Seq c rs us cs)
  show ?case
  proof (cases "byte c \<le> 0x7F")
    case True
    then have "us = []" using Seq.hyps(1,2) by (cases us) (auto simp: utf8_tail_def)
    with literal_escape_char [OF True Seq.IH] show ?thesis by simp
  next
    case False
    then have c: "0x20 \<le> byte c" "c \<noteq> quote_char" "c \<noteq> backslash" "escape_char c = [c]"
      by (auto simp: escape_char_high)
    have "escape_text us = us"
      using in_ranges_high [OF Seq.hyps(2) utf8_tail_high [OF Seq.hyps(1)]] by (rule escape_text_high)
    with literal.Plain [OF c(1-3) Seq.hyps(1,2) Seq.IH] c(4) show ?thesis by simp
  qed
qed

definition delimits :: "string \<Rightarrow> bool" where
  "delimits r \<longleftrightarrow> r = [] \<or> hd r \<in> {CHR '','', CHR '']'', CHR ''}''}"

lemma delimits_ends: "delimits r \<Longrightarrow> ends_number r"
  by (auto simp: delimits_def ends_number_def is_digit_def)

lemma spaced_tok: "tok_text t u r \<Longrightarrow> spaced ts r \<Longrightarrow> spaced (t # ts) (u @ r)"
  using spaced.Tok [of "[]" t u r ts] by simp

lemma spaced_fixed: "fixed_text t = u \<Longrightarrow> u \<noteq> [] \<Longrightarrow> spaced ts r \<Longrightarrow> spaced (Fixed t # ts) (u @ r)"
  using spaced_tok tok_text.Fixed by metis

lemma spaced_string:
  "valid_utf8 s \<Longrightarrow> spaced ts r \<Longrightarrow> spaced (Str s # ts) (quote_char # escape_text s @ quote_char # r)"
  using spaced_tok [OF tok_text.Str [OF literal_escape_text]] by fastforce

lemma spaced_texts:
  fixes v :: "'d json" and m :: "(string \<times> 'd json) list" and vs :: "'d json list"
  shows
  "json_canonical fo v \<Longrightarrow> spaced ts r \<Longrightarrow> delimits r \<Longrightarrow>
     spaced (value_tokens fo v @ ts) (json_text fo v @ r)"
  "members_canonical fo m \<Longrightarrow> spaced ts r \<Longrightarrow> delimits r \<Longrightarrow>
     spaced (member_tokens fo m @ ts) (members_text fo m @ r)"
  "elements_canonical fo vs \<Longrightarrow> spaced ts r \<Longrightarrow> delimits r \<Longrightarrow>
     spaced (element_tokens fo vs @ ts) (elements_text fo vs @ r)"
proof (induction fo v and fo m and fo vs arbitrary: ts r and ts r and ts r
    rule: json_canonical_members_canonical_elements_canonical.induct)
  case (1 fo i)
  then have "to_string i = CHR ''-'' # nat_digits (nat (- i))" "i = - int (nat (- i))" "int (nat (- i)) \<le> 2 ^ 63"
    by (simp_all add: to_string_def)
  with spaced_tok [OF tok_text.Neg [of "nat (- i)" r] 1(2)] delimits_ends [OF 1(3)] show ?case by simp
next
  case (2 fo i)
  then have "to_string i = nat_digits (nat i)" "i = int (nat i)" "int (nat i) < 2 ^ 64"
    by (simp_all add: to_string_def)
  with spaced_tok [OF tok_text.Uns [of "nat i" r] 2(2)] delimits_ends [OF 2(3)] show ?case by simp
next
  case (3 fo s)
  with spaced_string [of s ts r] show ?case by simp
next
  case (4 fo vs)
  have "spaced (Fixed End_Array # ts) ('']'' @ r)" by (rule spaced_fixed) (use 4 in simp_all)
  with "4.IH" [of "Fixed End_Array # ts" "'']'' @ r"] "4.prems" have
    "spaced (element_tokens fo vs @ Fixed End_Array # ts) (elements_text fo vs @ '']'' @ r)"
    by (simp add: delimits_def)
  from spaced_fixed [OF _ _ this, of Begin_Array "''[''"] show ?case by simp
next
  case (5 fo m)
  have "spaced (Fixed End_Object # ts) (''}'' @ r)" by (rule spaced_fixed) (use 5 in simp_all)
  with "5.IH" [of "Fixed End_Object # ts" "''}'' @ r"] "5.prems" have
    "spaced (member_tokens fo m @ Fixed End_Object # ts) (members_text fo m @ ''}'' @ r)"
    by (simp add: delimits_def)
  from spaced_fixed [OF _ _ this, of Begin_Object "''{''"] show ?case by simp
next
  case (6 fo)
  with spaced_fixed [of Literal_Null "''null''" ts r] show ?case by simp
next
  case (7 fo b)
  with spaced_fixed [of Literal_True "''true''" ts r] spaced_fixed [of Literal_False "''false''" ts r]
  show ?case by simp
next
  case (8 fo d)
  with spaced_tok [OF float_lexeme_text [OF _ delimits_ends]] show ?case by (auto simp: float_canonical_def)
next
  case (10 fo k v m)
  let ?ts = "(if m = [] then [] else Fixed Value_Separator # member_tokens fo m) @ ts"
  let ?r = "(if m = [] then [] else CHR '','' # members_text fo m) @ r"
  have "spaced ?ts ?r \<and> delimits ?r"
    using spaced_fixed [OF _ _ "10.IH"(2), of Value_Separator "'',''" ts r] 10
    by (cases "m = []") (simp_all add: delimits_def)
  with "10.IH"(1) "10.prems"(1) have "spaced (value_tokens fo v @ ?ts) (json_text fo v @ ?r)" by simp
  from spaced_string [OF _ spaced_fixed [OF _ _ this, of Name_Separator "'':''"], of k] "10.prems"(1)
  show ?case by simp
next
  case (12 fo v vs)
  let ?ts = "(if vs = [] then [] else Fixed Value_Separator # element_tokens fo vs) @ ts"
  let ?r = "(if vs = [] then [] else CHR '','' # elements_text fo vs) @ r"
  have "spaced ?ts ?r \<and> delimits ?r"
    using spaced_fixed [OF _ _ "12.IH"(2), of Value_Separator "'',''" ts r] 12
    by (cases "vs = []") (simp_all add: delimits_def)
  with "12.IH"(1) "12.prems"(1) show ?case by simp
qed auto

lemma json_parse_text:
  assumes "json_canonical fo v"
  shows "json_parse fo (json_text fo v) = Inr v"
proof -
  have "spaced [] []" by (rule spaced.End) simp
  with spaced_texts(1) [OF assms, of "[]" "[]"] have "spaced (value_tokens fo v) (json_text fo v)"
    by (simp add: delimits_def)
  from json_parse_tokens [OF this canonical_readable(1) [OF assms]] show ?thesis
    by (simp add: built_canonical(1) [OF assms])
qed

section \<open>Properties\<close>

text \<open>
  Values round-trip through their text: a value (integers of 64 bits, floating-point
  numbers that are read back from their own texts, well-formed strings, members in the order of
  their keys) is written by \<open>dump\<close>
  without an exception, and \<open>parse\<close> reads exactly this value back.
\<close>

theorem json_roundtrip:
  assumes "json_canonical fo v"
  shows "\<exists>s. json_dump fo v = Inr s \<and> json_parse fo s = Inr v"
  using json_dump_text [OF canonical_valid(1) [OF assms], of fo] json_parse_text [OF assms] by simp

definition unit_doubles :: "unit double_ops" where
  "unit_doubles = \<lparr>dbl_zero = (), strtod = (\<lambda>s. ()), isfinite = (\<lambda>d. False), dbl_to_int = (\<lambda>d. Inr 0),
     dbl_to_chars = (\<lambda>d. ''0.0'')\<rparr>"

theorem json_roundtrip_witness:
  "\<exists>s. json_dump unit_doubles (JArray [JInteger (- 5), JString ''a'', JObject [(''k'', JNull)]]) = Inr s \<and>
     json_parse unit_doubles s = Inr (JArray [JInteger (- 5), JString ''a'', JObject [(''k'', JNull)]])"
proof -
  have "json_canonical unit_doubles (JArray [JInteger (- 5), JString ''a'', JObject [(''k'', JNull)]] :: unit json)"
    by code_simp
  from json_roundtrip [OF this] show ?thesis .
qed

end
