(* ===== verification/EventsFile.thy ===== *)
theory EventsFile
  imports Event Json_Safety Json_Canonical
begin

text \<open>
  The reader of event files of client/src/event.cpp (\<open>parseEventsFile\<close>), on top of the JSON
  library: the names of the teams, and for every element of the list of events its name, time,
  description and three maps of updates. The files are a parameter: the bytes that can be read
  from a path, or \<open>None\<close> when it cannot be opened (the stream is then at its end at once).
\<close>

section \<open>Reading\<close>

text \<open>No exception is caught, so only its kind matters.\<close>

definition json_failure :: "json_exception \<Rightarrow> cpp_error" where
  "json_failure e =
     (case e of
        Parse_Error_101 pos msg \<Rightarrow> Json_Parse_Error
      | Out_Of_Range_406 msg \<Rightarrow> Json_Out_Of_Range
      | Assertion_Failed \<Rightarrow> Abort_Called)"

definition parse_file :: "'d double_ops \<Rightarrow> (string \<rightharpoonup> string) \<Rightarrow> string \<Rightarrow> 'd json result" where
  "parse_file fo files json_path =
     (let f = (case files json_path of None \<Rightarrow> [] | Some bytes \<Rightarrow> bytes) in
      case json_parse fo f of Inl e \<Rightarrow> Inl (json_failure e) | Inr data \<Rightarrow> Inr data)"

lemma proxy_key_anchor: "proxy_key p = Inr (k, p') \<Longrightarrow> anchor p' = anchor p"
  by (auto simp: proxy_key_def Let_def rbind_eq_Inr split: json.splits if_splits)

text \<open>The loop over \<open>items()\<close>: a value that is no string is entered as its JSON text.\<close>

function read_updates ::
    "'d double_ops \<Rightarrow> 'd iteration_proxy_value \<Rightarrow> (string \<rightharpoonup> string) \<Rightarrow> (string \<rightharpoonup> string) result" where
  "read_updates fo update updates =
     (if at_end (anchor update) then Inr updates
      else
        rbind (proxy_value update) (\<lambda>value.
        rbind (if is_string value then get_string value else json_dump fo value) (\<lambda>text.
        rbind (proxy_key update) (\<lambda>(key, update).
          read_updates fo (proxy_next update) (updates(key \<mapsto> text))))))"
  by pat_completeness auto
termination
  by (relation "measure (\<lambda>(_, p, _). json_length (m_object (anchor p)) - m_it (anchor p))")
    (auto simp: iter_positions proxy_next_def dest!: proxy_key_anchor)

declare read_updates.simps [simp del]

definition read_member_updates ::
    "'d double_ops \<Rightarrow> 'd json \<Rightarrow> string \<Rightarrow> ((string \<rightharpoonup> string) \<times> 'd json) result" where
  "read_member_updates fo event key =
     rbind (json_index event key) (\<lambda>(container, event).
     rbind (read_updates fo (proxy_begin container) Map.empty) (\<lambda>updates.
       Inr (updates, event)))"

text \<open>Every access may enter a missing member into the value of the event.\<close>

definition read_event :: "'d double_ops \<Rightarrow> string \<Rightarrow> string \<Rightarrow> 'd json \<Rightarrow> event result" where
  "read_event fo team_a team_b event =
     rbind (json_index event ''event name'') (\<lambda>(v, event).
     rbind (get_string v) (\<lambda>name.
     rbind (json_index event ''time'') (\<lambda>(v, event).
     rbind (get_int fo v) (\<lambda>time.
     rbind (json_index event ''description'') (\<lambda>(v, event).
     rbind (get_string v) (\<lambda>descr.
     rbind (read_member_updates fo event ''general game updates'') (\<lambda>(gu, event).
     rbind (read_member_updates fo event ''team a updates'') (\<lambda>(au, event).
     rbind (read_member_updates fo event ''team b updates'') (\<lambda>(bu, event).
       Inr (new_event team_a team_b name time gu au bu descr))))))))))"

function read_events ::
    "'d double_ops \<Rightarrow> string \<Rightarrow> string \<Rightarrow> 'd iter_impl \<Rightarrow> event list \<Rightarrow> event list result" where
  "read_events fo team_a team_b it events =
     (if at_end it then Inr events
      else
        rbind (iter_deref it) (\<lambda>event.
        rbind (read_event fo team_a team_b event) (\<lambda>e.
          read_events fo team_a team_b (iter_next it) (events @ [e]))))"
  by pat_completeness auto
termination
  by (relation "measure (\<lambda>(_, _, _, it, _). json_length (m_object it) - m_it it)")
    (auto simp: iter_positions)

declare read_events.simps [simp del]

definition parseEventsFile ::
    "'d double_ops \<Rightarrow> (string \<rightharpoonup> string) \<Rightarrow> string \<Rightarrow> names_and_events result" where
  "parseEventsFile fo files json_path =
     rbind (parse_file fo files json_path) (\<lambda>data.
     rbind (json_index data ''team a'') (\<lambda>(v, data).
     rbind (get_string v) (\<lambda>team_a.
     rbind (json_index data ''team b'') (\<lambda>(v, data).
     rbind (get_string v) (\<lambda>team_b.
     rbind (json_index data ''events'') (\<lambda>(v, data).
     rbind (read_events fo team_a team_b (set_begin v) []) (\<lambda>events.
       Inr \<lparr>ne_team_a_name = team_a, ne_team_b_name = team_b, ne_events = events\<rparr>)))))))"

section \<open>The loops on a well-formed value\<close>

text \<open>What is entered for an item, and the map the items give; a later item wins.\<close>

definition item_text :: "'d double_ops \<Rightarrow> 'd json \<Rightarrow> string" where
  "item_text fo v = (case v of JString s \<Rightarrow> s | _ \<Rightarrow> json_text fo v)"

definition updates_of :: "'d double_ops \<Rightarrow> 'd json \<Rightarrow> (string \<rightharpoonup> string)" where
  "updates_of fo v = map_of (rev (List.map (\<lambda>(k, w). (k, item_text fo w)) (json_items v)))"

lemma json_wf_elements: "json_wf v \<Longrightarrow> w \<in> set (json_elements v) \<Longrightarrow> json_wf w"
  by (cases v) (auto simp: json_elements_def elements_wf_iff members_wf_iff)

lemma text_of_item:
  assumes "json_wf v"
  shows "(if is_string v then get_string v else json_dump fo v) = Inr (item_text fo v)"
  using json_dump_text [OF wf_valid(1) [OF assms]]
  by (cases v) (simp_all add: is_string_def item_text_def)

lemma read_updates_from:
  assumes "proxy_ok p" "json_wf (m_object (anchor p))"
  shows "read_updates fo p m = Inr (m ++ map_of (rev (List.map (\<lambda>(k, w). (k, item_text fo w))
    (drop (m_it (anchor p)) (json_items (m_object (anchor p)))))))"
  using assms
proof (induction fo p m rule: read_updates.induct)
  case (1 fo p m)
  let ?items = "json_items (m_object (anchor p))" and ?i = "m_it (anchor p)"
  have null: "m_object (anchor p) = JNull \<longrightarrow> 0 < ?i" using "1.prems"(1) by (simp add: proxy_ok_def)
  show ?case
  proof (cases "at_end (anchor p)")
    case True
    then have "drop ?i ?items = []"
      by (simp add: at_end_elements [OF null] json_items_length)
    with True show ?thesis by (simp add: read_updates.simps [of fo p m])
  next
    case False
    have i: "?i < length ?items"
      using iter_deref_inside(1) [OF False null] by (simp add: json_items_length)
    obtain k w where kw: "?items ! ?i = (k, w)" by (cases "?items ! ?i")
    obtain p' where p': "proxy_value p = Inr w" "proxy_key p = Inr (k, p')" "proxy_ok p'"
      "anchor p' = anchor p"
      using proxy_item [OF "1.prems"(1) False] kw by (metis fst_conv snd_conv)
    have "w \<in> set (json_elements (m_object (anchor p)))"
      using nth_mem [OF i] kw by (force simp: json_items_snd [symmetric])
    then have w: "json_wf w" by (rule json_wf_elements [OF "1.prems"(2)])
    note t = text_of_item [OF w, of fo]
    have "read_updates fo p m = read_updates fo (proxy_next p') (m(k \<mapsto> item_text fo w))"
      using False p' t by (simp add: read_updates.simps [of fo p m])
    also have "\<dots> = Inr (m(k \<mapsto> item_text fo w) ++
        map_of (rev (List.map (\<lambda>(k, w). (k, item_text fo w)) (drop (Suc ?i) ?items))))"
      using "1.IH" [OF False p'(1) t p'(2) refl] proxy_next_ok [OF p'(3)] p'(4) "1.prems"(2)
      by (simp add: proxy_next_def iter_next_def fun_upd_def)
    finally show ?thesis
      using Cons_nth_drop_Suc [OF i, symmetric] kw by (simp add: map_add_upd_left)
  qed
qed

lemma read_updates_eq:
  "json_wf v \<Longrightarrow> read_updates fo (proxy_begin v) Map.empty = Inr (updates_of fo v)"
proof -
  assume wf: "json_wf v"
  have "drop (m_it (set_begin v)) (json_items v) = json_items v"
    by (cases v) (simp_all add: set_begin_def is_null_def json_items_def)
  with read_updates_from [OF proxy_begin_ok, of v fo Map.empty] wf
  show ?thesis by (simp add: proxy_begin_def iter_positions updates_of_def)
qed

fun rmap :: "('a \<Rightarrow> 'e + 'b) \<Rightarrow> 'a list \<Rightarrow> 'e + 'b list" where
  "rmap f [] = Inr []"
| "rmap f (x # xs) = rbind (f x) (\<lambda>y. rbind (rmap f xs) (\<lambda>ys. Inr (y # ys)))"

lemma rmap_Inl: "rmap f xs = Inl e \<Longrightarrow> \<exists>x \<in> set xs. f x = Inl e"
  by (induction xs) (auto simp: rbind_eq_Inl)

lemma rmap_map: "(\<And>x. x \<in> set xs \<Longrightarrow> f (g x) = Inr (h x)) \<Longrightarrow> rmap f (List.map g xs) = Inr (List.map h xs)"
  by (induction xs) auto

lemma read_events_from:
  assumes "m_object it = JNull \<longrightarrow> 0 < m_it it"
  shows "read_events fo ta tb it es =
    rbind (rmap (read_event fo ta tb) (drop (m_it it) (json_elements (m_object it)))) (\<lambda>es'. Inr (es @ es'))"
  using assms
proof (induction fo ta tb it es rule: read_events.induct)
  case (1 fo ta tb it es)
  let ?els = "json_elements (m_object it)" and ?i = "m_it it"
  show ?case
  proof (cases "at_end it")
    case True
    then have "drop ?i ?els = []" by (simp add: at_end_elements [OF "1.prems"])
    with True show ?thesis by (simp add: read_events.simps [of fo ta tb it es])
  next
    case False
    note i = iter_deref_inside [OF False "1.prems"]
    have "drop ?i ?els = ?els ! ?i # drop (Suc ?i) ?els" by (simp add: Cons_nth_drop_Suc i(1))
    moreover have "read_events fo ta tb (iter_next it) (es @ [e]) =
        rbind (rmap (read_event fo ta tb) (drop (Suc ?i) ?els)) (\<lambda>es'. Inr (es @ e # es'))"
      if "read_event fo ta tb (?els ! ?i) = Inr e" for e
      using "1.IH" [OF False i(2) that] by (simp add: iter_next_def)
    ultimately show ?thesis
      using False i(2) by (cases "read_event fo ta tb (?els ! ?i)")
        (simp_all add: read_events.simps [of fo ta tb it es] rbind_assoc)
  qed
qed

lemma read_events_eq:
  "read_events fo ta tb (set_begin v) [] = rmap (read_event fo ta tb) (json_elements v)"
proof -
  have "set_begin v = \<lparr>m_object = v, m_it = m_it (set_begin v)\<rparr>" by (simp add: set_begin_def)
  moreover have "rbind r Inr = r" for r :: "event list result" by (cases r) simp_all
  ultimately show ?thesis
    using read_events_from [of "set_begin v" fo ta tb "[]"] elements_from_begin [of v]
    by (simp add: iter_positions) (simp add: set_begin_def is_null_def)
qed

section \<open>What a file says\<close>

text \<open>
  A reference definition of the reader: members of an object by their key, a missing one as
  null, an event as a function of its members.
\<close>

definition member :: "(string \<times> 'd json) list \<Rightarrow> string \<Rightarrow> 'd json" where
  "member m k = (case map_of m k of None \<Rightarrow> JNull | Some v \<Rightarrow> v)"

definition event_of_json :: "'d double_ops \<Rightarrow> string \<Rightarrow> string \<Rightarrow> 'd json \<Rightarrow> event result" where
  "event_of_json fo ta tb v =
     (case v of
        JObject m \<Rightarrow>
          rbind (get_string (member m ''event name'')) (\<lambda>name.
          rbind (get_int fo (member m ''time'')) (\<lambda>time.
          rbind (get_string (member m ''description'')) (\<lambda>descr.
            Inr (new_event ta tb name time
              (updates_of fo (member m ''general game updates''))
              (updates_of fo (member m ''team a updates''))
              (updates_of fo (member m ''team b updates'')) descr))))
      | _ \<Rightarrow> Inl Json_Type_Error)"

definition file_of_json :: "'d double_ops \<Rightarrow> 'd json \<Rightarrow> names_and_events result" where
  "file_of_json fo v =
     (case v of
        JObject m \<Rightarrow>
          rbind (get_string (member m ''team a'')) (\<lambda>ta.
          rbind (get_string (member m ''team b'')) (\<lambda>tb.
          rbind (rmap (event_of_json fo ta tb) (json_elements (member m ''events''))) (\<lambda>es.
            Inr \<lparr>ne_team_a_name = ta, ne_team_b_name = tb, ne_events = es\<rparr>)))
      | _ \<Rightarrow> Inl Json_Type_Error)"

lemma map_of_obj_emplace:
  "sorted_wrt (<) (List.map fst m) \<Longrightarrow>
     map_of (obj_emplace k v m) x = (if x = k \<and> map_of m k = None then Some v else map_of m x)"
proof (induction m)
  case (Cons kv m)
  obtain k' v' where kv: "kv = (k', v')" by (cases kv)
  have "map_of m k = None" if "k < k'"
    using that Cons.prems kv by (force simp: map_of_eq_None_iff)
  with Cons kv show ?case by auto
qed simp

lemma json_index_object:
  assumes "json_wf (JObject m)" "valid_utf8 k"
  obtains m' where "json_index (JObject m) k = Inr (member m k, JObject m')" "json_wf (JObject m')"
    "member m' = member m" "json_wf (member m k)"
proof -
  let ?m = "obj_emplace k JNull m"
  have s: "sorted_wrt (<) (List.map fst m)" using assms(1) by simp
  have "json_wf (JObject ?m)" by (rule obj_emplace_wf) (use assms in simp_all)
  moreover have "member ?m = member m" "obj_find k ?m = member m k"
    by (auto simp: member_def obj_find_def fun_eq_iff map_of_obj_emplace [OF s] split: option.split)
  moreover have "json_wf (member m k)"
    using assms(1) by (auto simp: member_def members_wf_iff dest: map_of_SomeD split: option.split)
  ultimately show ?thesis
    using that [of ?m] by (simp add: json_index_def is_null_def)
qed

lemma json_index_other: "\<not> is_object v \<Longrightarrow> \<not> is_null v \<Longrightarrow> json_index v k = Inl Json_Type_Error"
  by (cases v) (simp_all add: json_index_def is_object_def is_null_def)

lemma json_index_null: "json_index JNull k = Inr (JNull, JObject [(k, JNull)])"
  by (simp add: json_index_def is_null_def obj_find_def)

lemma member_keys_valid:
  "valid_utf8 ''event name''" "valid_utf8 ''time''" "valid_utf8 ''description''"
  "valid_utf8 ''general game updates''" "valid_utf8 ''team a updates''" "valid_utf8 ''team b updates''"
  "valid_utf8 ''team a''" "valid_utf8 ''team b''" "valid_utf8 ''events''"
  by code_simp+

text \<open>A member access followed by the rest of the reader.\<close>

lemma access_member:
  assumes "json_wf (JObject m)" "valid_utf8 k"
    and "\<And>m'. json_wf (JObject m') \<Longrightarrow> member m' = member m \<Longrightarrow> f (member m k) (JObject m') = r"
  shows "rbind (json_index (JObject m) k) (\<lambda>(v, j). f v j) = r"
  by (rule json_index_object [OF assms(1,2)]) (simp add: assms(3))

lemma access_updates:
  assumes "json_wf (JObject m)" "valid_utf8 k"
    and "\<And>m'. json_wf (JObject m') \<Longrightarrow> member m' = member m \<Longrightarrow> f (updates_of fo (member m k)) (JObject m') = r"
  shows "rbind (read_member_updates fo (JObject m) k) (\<lambda>(u, j). f u j) = r"
  by (rule json_index_object [OF assms(1,2)]) (simp add: read_member_updates_def read_updates_eq assms(3))

lemma read_event_eq:
  assumes "json_wf v"
  shows "read_event fo ta tb v = event_of_json fo ta tb v"
proof (cases v)
  case (JObject m)
  have "read_event fo ta tb (JObject m) = event_of_json fo ta tb (JObject m)"
    if "json_wf (JObject m)" for m :: "(string \<times> 'a json) list"
    unfolding read_event_def event_of_json_def json.case
    by (intro access_member access_updates that rbind_cong refl member_keys_valid | simp)+
  with assms JObject show ?thesis by simp
next
  case JNull
  then show ?thesis by (simp add: read_event_def event_of_json_def json_index_null)
qed (simp_all add: read_event_def event_of_json_def json_index_other is_object_def is_null_def)

lemma parse_file_wf: "parse_file fo files path = Inr v \<Longrightarrow> json_wf v"
  using json_parse_safe [of fo "case files path of None \<Rightarrow> [] | Some bytes \<Rightarrow> bytes"]
  by (auto simp: parse_file_def safe_def split: sum.splits)

lemma rmap_cong: "(\<And>x. x \<in> set xs \<Longrightarrow> f x = g x) \<Longrightarrow> rmap f xs = rmap g xs"
  by (induction xs) auto

lemma read_events_wf:
  "json_wf v \<Longrightarrow> read_events fo ta tb (set_begin v) [] = rmap (event_of_json fo ta tb) (json_elements v)"
  unfolding read_events_eq by (rule rmap_cong) (simp add: json_wf_elements read_event_eq)

lemma parseEventsFile_eq:
  "parseEventsFile fo files path = rbind (parse_file fo files path) (file_of_json fo)"
proof (cases "parse_file fo files path")
  case (Inr v)
  have wf: "json_wf v" using parse_file_wf [OF Inr] .
  show ?thesis
  proof (cases v)
    case (JObject m)
    have "json_wf (member m' k)" if "json_wf (JObject m')" for m' :: "(string \<times> 'a json) list" and k
      using that by (auto simp: member_def members_wf_iff dest: map_of_SomeD split: option.split)
    note wfm = this
    have "parseEventsFile fo files path = file_of_json fo (JObject m)"
      unfolding parseEventsFile_def Inr JObject rbind_simps file_of_json_def json.case
      using wf JObject
      by (intro access_member rbind_cong refl member_keys_valid | simp add: read_events_wf wfm)+
    with Inr JObject show ?thesis by simp
  next
    case JNull
    with Inr show ?thesis by (simp add: parseEventsFile_def file_of_json_def json_index_null)
  qed (simp_all add: Inr parseEventsFile_def file_of_json_def json_index_other is_object_def is_null_def)
qed (simp add: parseEventsFile_def)

lemma json_parse_blank:
  assumes "\<forall>c \<in> set w. is_json_space c"
  shows "\<exists>pos msg. json_parse fo w = Inl (Parse_Error_101 pos msg)"
proof -
  obtain lx where "scan fo (new_lexer fo w False) = (End_Of_Input, lx)"
    using scan_end [OF assms reads_new, of fo fo] by blast
  then have "new_parser fo w False = \<lparr>last_token = End_Of_Input, m_lexer = lx\<rparr>"
    by (simp add: new_parser_def get_token_def)
  then have p: "new_parser fo w False = \<lparr>last_token = End_Of_Input, m_lexer = lx\<rparr>" "running lx"
    using running_new_parser [of fo w False] by simp_all
  then show ?thesis
    by (simp add: json_parse_def parser_parse_def sax_parse_internal_def sax_parse_loop.simps
        loop_body_def value_step_def Let_def syntax_error_running)
qed

section \<open>Files of events\<close>

text \<open>
  What a user writes down: the events with their texts, the time as any 64-bit number, and
  string updates in the order of their keys; and the file as a JSON value.
\<close>

record entry =
  en_name :: string
  en_time :: int
  en_general :: "(string \<times> string) list"
  en_team_a :: "(string \<times> string) list"
  en_team_b :: "(string \<times> string) list"
  en_descr :: string

definition updates_json :: "(string \<times> string) list \<Rightarrow> 'd json" where
  "updates_json us = JObject (List.map (\<lambda>(k, v). (k, JString v)) us)"

definition number_json :: "int \<Rightarrow> 'd json" where
  "number_json t = (if t < 0 then JInteger t else JUnsigned t)"

definition entry_json :: "entry \<Rightarrow> 'd json" where
  "entry_json e = JObject
     [(''description'', JString (en_descr e)),
      (''event name'', JString (en_name e)),
      (''general game updates'', updates_json (en_general e)),
      (''team a updates'', updates_json (en_team_a e)),
      (''team b updates'', updates_json (en_team_b e)),
      (''time'', number_json (en_time e))]"

definition file_json :: "string \<Rightarrow> string \<Rightarrow> entry list \<Rightarrow> 'd json" where
  "file_json ta tb es = JObject
     [(''events'', JArray (List.map entry_json es)), (''team a'', JString ta), (''team b'', JString tb)]"

definition updates_ok :: "(string \<times> string) list \<Rightarrow> bool" where
  "updates_ok us \<longleftrightarrow> sorted_wrt (<) (List.map fst us) \<and> (\<forall>(k, v) \<in> set us. valid_utf8 k \<and> valid_utf8 v)"

definition entry_ok :: "entry \<Rightarrow> bool" where
  "entry_ok e \<longleftrightarrow> valid_utf8 (en_name e) \<and> valid_utf8 (en_descr e) \<and>
     - (2 ^ 63) \<le> en_time e \<and> en_time e < 2 ^ 64 \<and>
     updates_ok (en_general e) \<and> updates_ok (en_team_a e) \<and> updates_ok (en_team_b e)"

text \<open>The event the client then has; its time is the number cut to 32 bits.\<close>

definition event_of_entry :: "string \<Rightarrow> string \<Rightarrow> entry \<Rightarrow> event" where
  "event_of_entry ta tb e = new_event ta tb (en_name e) (to_int32 (en_time e))
     (map_of (en_general e)) (map_of (en_team_a e)) (map_of (en_team_b e)) (en_descr e)"

lemma members_canonical_iff: "members_canonical fo m \<longleftrightarrow> (\<forall>(k, v) \<in> set m. valid_utf8 k \<and> json_canonical fo v)"
  by (induction m) auto

lemma elements_canonical_iff: "elements_canonical fo vs \<longleftrightarrow> (\<forall>v \<in> set vs. json_canonical fo v)"
  by (induction vs) auto

lemma updates_canonical: "updates_ok us \<Longrightarrow> json_canonical (fo :: 'd double_ops) (updates_json us)"
proof -
  assume us: "updates_ok us"
  have "List.map fst (List.map (\<lambda>(k, v). (k, JString v :: 'd json)) us) = List.map fst us"
    by (induction us) auto
  with us show ?thesis
    by (auto simp: updates_ok_def updates_json_def members_canonical_iff simp del: map_map)
qed

lemma member_keys_sorted:
  "''description'' < ''event name''" "''event name'' < ''general game updates''"
  "''general game updates'' < ''team a updates''" "''team a updates'' < ''team b updates''"
  "''team b updates'' < ''time''" "''events'' < ''team a''" "''team a'' < ''team b''"
  by (simp_all add: less_char_def)

lemma entry_canonical: "entry_ok e \<Longrightarrow> json_canonical fo (entry_json e)"
  using member_keys_sorted
  by (auto simp: entry_ok_def entry_json_def number_json_def updates_canonical member_keys_valid
      simp del: valid_utf8.simps intro: less_trans)

lemma file_canonical:
  "valid_utf8 ta \<Longrightarrow> valid_utf8 tb \<Longrightarrow> list_all entry_ok es \<Longrightarrow> json_canonical fo (file_json ta tb es)"
  using member_keys_sorted
  by (auto simp: file_json_def elements_canonical_iff entry_canonical member_keys_valid list_all_iff
      simp del: valid_utf8.simps intro: less_trans)

lemma map_of_rev_distinct: "distinct (List.map fst xs) \<Longrightarrow> map_of (rev xs) = map_of xs"
proof (induction xs)
  case (Cons x xs)
  then show ?case
    by (cases x) (auto simp: fun_eq_iff map_add_def image_iff split: option.splits dest: map_of_SomeD)
qed simp

lemma updates_of_updates_json: "updates_ok us \<Longrightarrow> updates_of fo (updates_json us) = map_of us"
proof -
  assume "updates_ok us"
  then have d: "distinct (List.map fst us)"
    by (simp add: updates_ok_def strict_sorted_iff)
  have "List.map (\<lambda>(k, w). (k, item_text fo w)) (List.map (\<lambda>(k, v). (k, JString v)) us) = us"
    by (induction us) (auto simp: item_text_def)
  then have "updates_of fo (updates_json us) = map_of (rev us)"
    by (simp add: updates_of_def updates_json_def json_items_def)
  with map_of_rev_distinct [OF d] show ?thesis by simp
qed

lemma get_int_number: "get_int fo (number_json t) = Inr (to_int32 t)"
  by (simp add: number_json_def)

lemma event_of_entry_json: "entry_ok e \<Longrightarrow> event_of_json fo ta tb (entry_json e) = Inr (event_of_entry ta tb e)"
  by (simp add: event_of_json_def entry_json_def member_def get_int_number updates_of_updates_json
      entry_ok_def event_of_entry_def)

lemma file_of_file_json:
  assumes "list_all entry_ok es"
  shows "file_of_json fo (file_json ta tb es) =
    Inr \<lparr>ne_team_a_name = ta, ne_team_b_name = tb, ne_events = List.map (event_of_entry ta tb) es\<rparr>"
proof -
  have "rmap (event_of_json fo ta tb) (List.map entry_json es) = Inr (List.map (event_of_entry ta tb) es)"
    by (rule rmap_map) (use assms in \<open>simp add: list_all_iff event_of_entry_json\<close>)
  then show ?thesis by (simp add: file_of_json_def file_json_def member_def json_elements_def)
qed

section \<open>Properties\<close>

text \<open>
  C4: The reader computes what the file says: it parses the file and takes the members by their
  keys, with null for a missing one, whatever the loops over iterators and the members the code
  enters on the way.
\<close>

theorem events_file_meaning:
  "parseEventsFile fo files path = rbind (parse_file fo files path) (file_of_json fo)"
  by (rule parseEventsFile_eq)

text \<open>
  C9: The reader ends with the data or with one of three exceptions, whatever the bytes of the
  file: no assertion of the JSON library fails, no iterator is used past the end, and no
  undefined behaviour arises but by converting a floating-point time that fits no \<open>int\<close>.
\<close>

theorem events_file_failures:
  "parseEventsFile fo files path \<in>
     range Inr \<union> Inl ` ({Json_Parse_Error, Json_Out_Of_Range, Json_Type_Error} \<union>
       {e. \<exists>d. dbl_to_int fo d = Inl e})"
proof -
  let ?E = "{Json_Parse_Error, Json_Out_Of_Range, Json_Type_Error} \<union> {e. \<exists>d. dbl_to_int fo d = Inl e}"
  have str: "get_string v = Inl e \<Longrightarrow> e \<in> ?E" and int: "get_int fo v = Inl e \<Longrightarrow> e \<in> ?E" for v e
    by (cases v; auto)+
  have event: "event_of_json fo ta tb v = Inl e \<Longrightarrow> e \<in> ?E" for ta tb v e
    using str int by (cases v) (auto simp: event_of_json_def rbind_eq_Inl)
  have data: "file_of_json fo v = Inl e \<Longrightarrow> e \<in> ?E" for v e
    by (cases v) (auto simp: file_of_json_def rbind_eq_Inl dest!: rmap_Inl dest: str event)
  have parse: "parse_file fo files path = Inl e \<Longrightarrow> e \<in> ?E" for e
    using json_parse_safe [of fo "case files path of None \<Rightarrow> [] | Some bytes \<Rightarrow> bytes"]
    by (auto simp: parse_file_def json_failure_def split: sum.splits json_exception.splits)
  have "e \<in> ?E" if "parseEventsFile fo files path = Inl e" for e
    using that data parse by (auto simp: parseEventsFile_eq rbind_eq_Inl)
  then show ?thesis by (cases "parseEventsFile fo files path") auto
qed

text \<open>
  A file that cannot be opened, or holds nothing but white space, is not reported as such:
  the JSON parser throws its syntax error.
\<close>

lemma events_file_missing:
  assumes "case files path of None \<Rightarrow> True | Some bytes \<Rightarrow> \<forall>c \<in> set bytes. is_json_space c"
  shows "parseEventsFile fo files path = Inl Json_Parse_Error"
proof -
  have "\<forall>c \<in> set (case files path of None \<Rightarrow> [] | Some bytes \<Rightarrow> bytes). is_json_space c"
    using assms by (auto split: option.splits)
  from json_parse_blank [OF this, of fo] show ?thesis
    by (auto simp: parseEventsFile_eq parse_file_def json_failure_def)
qed

definition sample_doubles :: "int double_ops" where
  "sample_doubles = \<lparr>dbl_zero = 0, strtod = (\<lambda>s. 0), isfinite = (\<lambda>d. True), dbl_to_int = Inr,
     dbl_to_chars = to_string\<rparr>"

text \<open>
  C8: Event files round-trip: from the JSON text of a list of events the reader gives back the
  team names and exactly these events in their order, with their updates; of each time only
  the lowest 32 bits survive.
\<close>

theorem events_file_roundtrip:
  assumes "valid_utf8 ta" "valid_utf8 tb" "list_all entry_ok es"
    and "files path = Some (json_text fo (file_json ta tb es))"
  shows "parseEventsFile fo files path =
    Inr \<lparr>ne_team_a_name = ta, ne_team_b_name = tb, ne_events = List.map (event_of_entry ta tb) es\<rparr>"
  using json_parse_text [OF file_canonical [OF assms(1-3)], of fo] file_of_file_json [OF assms(3), of fo ta tb]
  by (simp add: parseEventsFile_eq parse_file_def assms(4))

definition sample_entry :: entry where
  "sample_entry = \<lparr>en_name = ''goal'', en_time = 2 ^ 32 + 60, en_general = [(''active'', ''true'')],
     en_team_a = [(''goals'', ''1''), (''possession'', ''90%'')], en_team_b = [], en_descr = ''go''\<rparr>"

lemma sample_entry_ok: "entry_ok sample_entry"
proof -
  have "valid_utf8 (en_name sample_entry)" "valid_utf8 (en_descr sample_entry)"
    "list_all (\<lambda>(k, v). valid_utf8 k \<and> valid_utf8 v) (en_general sample_entry)"
    "list_all (\<lambda>(k, v). valid_utf8 k \<and> valid_utf8 v) (en_team_a sample_entry)"
    by code_simp+
  then show ?thesis
    by (simp add: entry_ok_def updates_ok_def list_all_iff sample_entry_def less_char_def
        del: valid_utf8.simps)
qed

lemma sample_entry_event:
  "event_of_entry ''a'' ''b'' sample_entry =
     new_event ''a'' ''b'' ''goal'' 60 [''active'' \<mapsto> ''true''] [''goals'' \<mapsto> ''1'', ''possession'' \<mapsto> ''90%'']
       Map.empty ''go''"
  by (simp add: event_of_entry_def sample_entry_def to_int32_def fun_upd_twist)

theorem events_file_roundtrip_witness:
  "parseEventsFile sample_doubles
      [''e.json'' \<mapsto> json_text sample_doubles (file_json ''a'' ''b'' [sample_entry])] ''e.json'' =
    Inr \<lparr>ne_team_a_name = ''a'', ne_team_b_name = ''b'', ne_events =
      [new_event ''a'' ''b'' ''goal'' 60 [''active'' \<mapsto> ''true''] [''goals'' \<mapsto> ''1'', ''possession'' \<mapsto> ''90%'']
        Map.empty ''go'']\<rparr>"
proof -
  have "valid_utf8 ''a''" "valid_utf8 ''b''" by code_simp+
  from events_file_roundtrip [OF this, of "[sample_entry]"
      "[''e.json'' \<mapsto> json_text sample_doubles (file_json ''a'' ''b'' [sample_entry])]" "''e.json''" sample_doubles]
  show ?thesis by (simp add: sample_entry_ok sample_entry_event)
qed

text \<open>
  The layout of the file does not matter: any text that spells the tokens of a value, with
  white space anywhere between them, escapes in its strings, members in any order and repeated
  members (the last one counts), is read as that value says.
\<close>

theorem events_file_layout:
  assumes "spaced (value_tokens fo v) s" "readable fo v" "files path = Some s"
  shows "parseEventsFile fo files path = file_of_json fo (built v)"
  using json_parse_tokens [OF assms(1,2)] by (simp add: parseEventsFile_eq parse_file_def assms(3))

lemma spaced_white: "spaced ts r \<Longrightarrow> is_json_space c \<Longrightarrow> spaced ts (c # r)"
proof (induction rule: spaced.induct)
  case (End w)
  then show ?case by (intro spaced.End) simp
next
  case (Tok w t u r ts)
  then show ?case using spaced.Tok [of "c # w" t u r ts] by simp
qed

definition loose_file :: string where
  "loose_file = ''{ '' @ [quote_char] @ ''team b'' @ [quote_char, CHR '':'', newline, quote_char, CHR ''y'',
     quote_char, CHR '','', quote_char] @ ''team a'' @ [quote_char] @ '' :'' @
     [quote_char, CHR ''x'', quote_char] @ ''}''"

lemma loose_file_tokens:
  "spaced (value_tokens fo (JObject [(''team b'', JString ''y''), (''team a'', JString ''x'')])) loose_file"
proof -
  have white: "is_json_space (CHR '' '')" "is_json_space newline" by (simp_all add: is_json_space_def)
  have escape: "escape_text ''team a'' = ''team a''" "escape_text ''team b'' = ''team b''"
    "escape_text ''x'' = ''x''" "escape_text ''y'' = ''y''" by code_simp+
  have utf8: "valid_utf8 ''x''" "valid_utf8 ''y''" by code_simp+
  have 1: "spaced [Fixed End_Object] ''}''"
    using spaced_fixed [of End_Object "''}''" "[]" "[]"] spaced.End [of "[]"] by simp
  have 2: "spaced (Fixed Name_Separator # Str ''x'' # [Fixed End_Object])
      ('' :'' @ [quote_char, CHR ''x'', quote_char] @ ''}'')"
    using spaced_white [OF spaced_fixed [OF _ _ spaced_string [OF utf8(1) 1, unfolded escape],
        of Name_Separator "'':''"] white(1)] by simp
  have 3: "spaced (Str ''y'' # Fixed Value_Separator # Str ''team a'' # Fixed Name_Separator #
       Str ''x'' # [Fixed End_Object])
      (quote_char # ''y'' @ quote_char # '','' @ quote_char # ''team a'' @ quote_char # '' :'' @
       [quote_char, CHR ''x'', quote_char] @ ''}'')"
    using spaced_string [OF utf8(2) spaced_fixed [OF _ _
        spaced_string [OF member_keys_valid(7) 2, unfolded escape], of Value_Separator "'',''"], unfolded escape]
    by simp
  have 4: "spaced (Str ''team b'' # Fixed Name_Separator # Str ''y'' # Fixed Value_Separator #
       Str ''team a'' # Fixed Name_Separator # Str ''x'' # [Fixed End_Object])
      (quote_char # ''team b'' @ quote_char # '':'' @ newline # quote_char # ''y'' @ quote_char # '','' @
       quote_char # ''team a'' @ quote_char # '' :'' @ [quote_char, CHR ''x'', quote_char] @ ''}'')"
    using spaced_string [OF member_keys_valid(8) spaced_fixed [OF _ _ spaced_white [OF 3 white(2)],
        of Name_Separator "'':''"], unfolded escape]
    by simp
  show ?thesis
    using spaced_fixed [OF _ _ spaced_white [OF 4 white(1)], of Begin_Object "''{''"]
    by (simp add: loose_file_def)
qed

theorem events_file_layout_witness:
  "parseEventsFile sample_doubles [''e.json'' \<mapsto> loose_file] ''e.json'' =
     Inr \<lparr>ne_team_a_name = ''x'', ne_team_b_name = ''y'', ne_events = []\<rparr>"
proof -
  let ?v = "JObject [(''team b'', JString ''y''), (''team a'', JString ''x'')]"
  have "built ?v = (JObject [(''team a'', JString ''x''), (''team b'', JString ''y'')] :: int json)"
    by (simp add: obj_set_def less_char_def)
  with events_file_layout [OF loose_file_tokens [of sample_doubles], of "[''e.json'' \<mapsto> loose_file]" "''e.json''"]
  show ?thesis by (simp add: file_of_json_def member_def json_elements_def)
qed

end
