(* ===== verification/ReportFile.thy ===== *)
theory ReportFile
  imports Sessions EventsFile
begin

text \<open>
  The report command with the real reader of event files: what goes to the server for a file
  of events, and what happens when the file cannot be read.
\<close>

section \<open>What the keyboard loop expects of a reader\<close>

text \<open>
  The loop calls a reader with a path. A reader is a source of events when it returns the events
  that a path holds, all of one game.
\<close>

locale event_source =
  fixes read :: "string \<Rightarrow> names_and_events result"
    and holds :: "string \<Rightarrow> string \<Rightarrow> event list \<Rightarrow> bool"
  assumes read_events_of: "holds path g es \<Longrightarrow> \<exists>ne. read path = Inr ne \<and> ne_events ne = es"
    and one_game: "holds path g es \<Longrightarrow> e \<in> set es \<Longrightarrow> game_name e = g"
begin

text \<open>All events of a path belong to one game, so the test of the loop is all or nothing.\<close>

lemma subscribed_all:
  "holds path g es \<Longrightarrow> subscribed c es = (if channeltoUniqueID c g = None then [] else es)"
  using one_game by (auto simp: subscribed_def intro!: filter_False filter_True)

lemma report_turn:
  assumes "open_socket ops incoming outgoing writable" "writable (the_socket w)" "login (protocol w)"
    and "a_line l" "cin w = typed l later" "words_of l = ''report'' # path # args" "holds path g es"
    and "\<forall>e \<in> set es. length (processEvent e (protocol w)) < 2 ^ 31"
  shows "\<exists>w'. keyboard_turn ops read w = Some (Again w') \<and>
    outgoing (the_socket w') = outgoing (the_socket w) @
      (if channeltoUniqueID (con (protocol w)) g = None then []
       else concat (List.map (\<lambda>e. processEvent e (protocol w) @ [nul]) es)) \<and>
    con (protocol w') = con (protocol w) \<and> cin w' = \<lparr>rest = later, good = True\<rparr> \<and> cout w' = cout w"
proof -
  from read_events_of [OF assms(7)] obtain ne where ne: "read path = Inr ne" "ne_events ne = es" by blast
  have "\<forall>e \<in> set (subscribed (con (protocol w)) (ne_events ne)). length (processEvent e (protocol w)) < 2 ^ 31"
    using assms(8) by (simp add: ne(2) subscribed_def)
  from open_socket.keyboard_turn_report [OF assms(1-6), where parse = read, OF ne(1) this]
  show ?thesis by (auto simp: ne(2) subscribed_all [OF assms(7)] wire_text_def comp_def)
qed

end

section \<open>The reader of event files is one\<close>

lemma game_of_entry: "game_name (event_of_entry ta tb e) = ta @ ''_'' @ tb"
  by (simp add: event_of_entry_def new_event_def game_name_def)

definition file_holds :: "'d double_ops \<Rightarrow> (string \<rightharpoonup> string) \<Rightarrow> string \<Rightarrow> string \<Rightarrow> event list \<Rightarrow> bool" where
  "file_holds fo files path g es \<longleftrightarrow>
     (\<exists>ta tb ens. valid_utf8 ta \<and> valid_utf8 tb \<and> list_all entry_ok ens \<and>
        files path = Some (json_text fo (file_json ta tb ens)) \<and>
        g = ta @ ''_'' @ tb \<and> es = List.map (event_of_entry ta tb) ens)"

interpretation event_files: event_source "parseEventsFile fo files" "file_holds fo files"
  for fo :: "'d double_ops" and files
proof unfold_locales
  fix path g es
  assume h: "file_holds fo files path g es"
  then obtain ta tb ens where f: "valid_utf8 ta" "valid_utf8 tb" "list_all entry_ok ens"
    "files path = Some (json_text fo (file_json ta tb ens))" "g = ta @ ''_'' @ tb"
    "es = List.map (event_of_entry ta tb) ens"
    by (auto simp: file_holds_def)
  then show "\<exists>ne. parseEventsFile fo files path = Inr ne \<and> ne_events ne = es"
    using json_parse_text [OF file_canonical [OF f(1-3)], of fo] file_of_file_json [OF f(3), of fo ta tb]
    by (simp add: parseEventsFile_eq parse_file_def)
  fix e assume "e \<in> set es"
  with f show "game_name e = g" by (auto simp: game_of_entry)
qed

lemma words_report: "words_of ''report ev.json'' = [''report'', ''ev.json'']"
  using split_words [of "''report''" "''ev.json''"] by simp

section \<open>Properties\<close>

text \<open>
  C3: From file to wire, for event files that are the JSON text, as \<open>dump\<close> writes it, of two team
  names and a list of events whose statistics are texts: after a login, the report of such a
  file sends, when the game of the two teams has an entry in the table of subscription ids
  (which an exit leaves in place, and which an exit of a channel never joined makes), exactly
  one SEND frame per event of the file in the order of the file, and nothing when it has none;
  the tables stay and nothing is printed. Each text sent is shorter than \<open>2 ^ 31\<close> bytes.
\<close>

theorem report_file:
  assumes "open_socket ops incoming outgoing writable" "writable (the_socket w)" "login (protocol w)"
    and "a_line l" "cin w = typed l later" "words_of l = ''report'' # path # args"
    and "valid_utf8 ta" "valid_utf8 tb" "list_all entry_ok es"
    and "files path = Some (json_text fo (file_json ta tb es))"
    and "\<forall>e \<in> set es. length (processEvent (event_of_entry ta tb e) (protocol w)) < 2 ^ 31"
  shows "\<exists>w'. keyboard_turn ops (parseEventsFile fo files) w = Some (Again w') \<and>
    outgoing (the_socket w') = outgoing (the_socket w) @
      (if channeltoUniqueID (con (protocol w)) (ta @ ''_'' @ tb) = None then []
       else concat (List.map (\<lambda>e. processEvent (event_of_entry ta tb e) (protocol w) @ [nul]) es)) \<and>
    con (protocol w') = con (protocol w) \<and> cin w' = \<lparr>rest = later, good = True\<rparr> \<and> cout w' = cout w"
proof -
  have "file_holds fo files path (ta @ ''_'' @ tb) (List.map (event_of_entry ta tb) es)"
    unfolding file_holds_def using assms(7-10) by blast
  moreover have "\<forall>e \<in> set (List.map (event_of_entry ta tb) es). length (processEvent e (protocol w)) < 2 ^ 31"
    using assms(11) by simp
  ultimately show ?thesis using event_files.report_turn [OF assms(1-6)] by (fastforce simp: comp_def)
qed

theorem report_file_witness:
  "\<exists>w'. keyboard_turn wire_ops (parseEventsFile sample_doubles
        [''ev.json'' \<mapsto> json_text sample_doubles (file_json ''a'' ''b'' [sample_entry])]) reporter =
      Some (Again w') \<and>
    outbox (the_socket w') =
      processEvent (event_of_entry ''a'' ''b'' sample_entry) (protocol reporter) @ [nul]"
proof -
  let ?files = "[''ev.json'' \<mapsto> json_text sample_doubles (file_json ''a'' ''b'' [sample_entry])]"
  have start: "opened (the_socket reporter)" "login (protocol reporter)" "cin reporter = typed ''report ev.json'' []"
    "outbox (the_socket reporter) = []" "channeltoUniqueID (con (protocol reporter)) ''a_b'' = Some 0"
    by (simp_all add: reporter_def the_socket_def new_protocol_def new_connection_handler_def)
  have utf8: "valid_utf8 ''a''" "valid_utf8 ''b''" by code_simp+
  have "username (con (protocol reporter)) = ''meni''" by (simp add: reporter_def)
  moreover have "length (to_string (ev_time (event_of_entry ''a'' ''b'' sample_entry))) \<le> 11"
    using to_int32_bounds by (intro length_to_string_int) (simp_all add: event_of_entry_def new_event_def add_increasing2)
  ultimately have "length (processEvent (event_of_entry ''a'' ''b'' sample_entry) (protocol reporter)) < 2 ^ 31"
    by (simp add: processEvent_text render_frame_def header_line_def report_body_def shown_def shown_from_def
        stat_line_def event_of_entry_def sample_entry_def new_event_def game_name_def)
  with report_file [OF wire_is_open_socket start(1,2) _ start(3) words_report utf8, of "[sample_entry]" ?files
      sample_doubles]
  show ?thesis by (auto simp: start a_line_def sample_entry_ok)
qed

text \<open>
  A file that the reader fails on ends the client: the exception leaves the keyboard loop at
  once, with nothing sent, recorded or printed.
\<close>

theorem report_file_fatal:
  assumes "login (protocol w)" "a_line l" "cin w = typed l later" "words_of l = ''report'' # path # args"
    and "parseEventsFile fo files path = Inl e"
  shows "keyboard_turn ops (parseEventsFile fo files) w =
    Some (Ended (Crashed e (w\<lparr>cin := \<lparr>rest = later, good = True\<rparr>\<rparr>)))"
  using keyboard_turn_line [OF assms(2,3), of ops "parseEventsFile fo files"] assms(1,4,5)
  by (simp add: Let_def keyboard_command_def)

theorem report_file_fatal_witness:
  "keyboard_turn wire_ops (parseEventsFile sample_doubles Map.empty) reporter =
    Some (Ended (Crashed Json_Parse_Error (reporter\<lparr>cin := \<lparr>rest = [], good = True\<rparr>\<rparr>)))"
proof -
  have "parseEventsFile sample_doubles Map.empty ''ev.json'' = Inl Json_Parse_Error"
    by (rule events_file_missing) simp
  from report_file_fatal [OF _ _ _ words_report this, of reporter "[]" wire_ops] show ?thesis
    by (simp add: a_line_def reporter_def)
qed

end
