(* ===== verification/Json_Buffer.thy ===== *)
theory Json_Buffer
  imports Utf8_Decoder
begin

text \<open>
  Memory safety of \<open>dump_escaped\<close>: for every byte string, well-formed or not, every error handler
  and with or without \<open>ensure_ascii\<close>, no access leaves the 512 bytes of \<open>string_buffer\<close>. The test
  for 13 free bytes is made after a complete character only; up to three bytes of an unfinished
  one may follow before the next test.
\<close>

definition partial_bytes :: "nat \<Rightarrow> nat" where
  "partial_bytes s = (if s = 0 then 0 else if 6 \<le> s then 1 else if 3 \<le> s then 2 else 3)"

definition room :: "bool \<Rightarrow> escape_state \<Rightarrow> bool" where
  "room ensure_ascii es \<longleftrightarrow>
     (state es = 0 \<or> 2 \<le> state es \<and> state es \<le> 8) \<and> bytes_after_last_accept es \<le> 499 \<and>
     length (buffer es) \<le> 499 + (if ensure_ascii then 0 else partial_bytes (state es))"

lemma less_12: "t < 12 \<Longrightarrow> t = 0 \<or> t = 1 \<or> t = 2 \<or> t = 3 \<or> t = 4 \<or> t = 5 \<or> t = 6 \<or> t = 7 \<or> t = 8 \<or>
    t = 9 \<or> t = 10 \<or> t = (11 :: nat)"
  by presburger

lemma next_partial:
  assumes "s = 0 \<or> 2 \<le> s \<and> s \<le> 8" "t < 12"
  defines "s' \<equiv> state_row s ! t"
  shows "s' = 0 \<or> s' = 1 \<or> 2 \<le> s' \<and> s' \<le> 8 \<and> partial_bytes s + 1 \<le> partial_bytes s'"
proof -
  have "s = 0 \<or> s = 2 \<or> s = 3 \<or> s = 4 \<or> s = 5 \<or> s = 6 \<or> s = 7 \<or> s = 8" using assms(1) by linarith
  with less_12 [OF assms(2)] show ?thesis
    unfolding s'_def by (elim disjE) (simp_all add: state_rows partial_bytes_def)
qed

lemma put_room:
  "length (buffer es) + length cs \<le> buffer_size \<Longrightarrow> put cs es = Inr (es\<lparr>buffer := buffer es @ cs\<rparr>)"
  by (simp add: put_def)

lemma put_formatted_room:
  "length (buffer es) + length cs < buffer_size \<Longrightarrow>
     put_formatted cs es = Inr (es\<lparr>buffer := buffer es @ cs\<rparr>)"
  by (simp add: put_formatted_def)

lemma length_u_escape [simp]: "length (u_escape w) = 6"
  by (simp add: u_escape_def Let_def)

definition put_fits :: "escape_state \<Rightarrow> escape_state result \<Rightarrow> bool" where
  "put_fits es r \<longleftrightarrow>
     (\<exists>cs. length (buffer es) + length cs \<le> buffer_size \<and> r = Inr (es\<lparr>buffer := buffer es @ cs\<rparr>))"

lemma put_fits_put: "length (buffer es) + length cs \<le> buffer_size \<Longrightarrow> put_fits es (put cs es)"
  unfolding put_fits_def by (rule exI [of _ cs]) (simp add: put_room)

lemma put_fits_formatted:
  "length (buffer es) + length cs < buffer_size \<Longrightarrow> put_fits es (put_formatted cs es)"
  unfolding put_fits_def by (rule exI [of _ cs]) (simp add: put_formatted_room)

lemma put_codepoint_room:
  assumes "length (buffer es) \<le> 499 + (if ea then 0 else 3)"
  shows "put_fits es (put_codepoint ea c es)"
proof -
  let ?cp = "codepoint es"
  have two: "put_fits es (put [a, b] es)" "put_fits es (put [a] es)" for a b
    using assms by (auto intro!: put_fits_put split: if_splits)
  have six: "put_fits es (put_formatted (u_escape w) es)" for w
    using assms by (auto intro!: put_fits_formatted split: if_splits)
  have twelve: "put_fits es (put_formatted (u_escape w @ u_escape w') es)" if ea for w w'
    using assms that by (auto intro!: put_fits_formatted split: if_splits)
  show ?thesis
  proof (cases "?cp \<le> 0xFFFF")
    case True
    then show ?thesis by (simp add: put_codepoint_def two six Let_def)
  next
    case False
    then have "\<not> ?cp \<le> 0x1F" by (auto simp: word_le_nat_alt)
    with False show ?thesis
      by (cases ea) (simp_all add: put_codepoint_def two twelve Let_def)
  qed
qed

lemma flush_room:
  "length (buffer es) \<le> buffer_size \<Longrightarrow> length (buffer (flush es)) \<le> 499"
  "state (flush es) = state es"
  "error_handler (ser (flush es)) = error_handler (ser es)"
  by (auto simp: flush_def write_characters_def)

definition safe_step :: "bool \<Rightarrow> error_handler_t \<Rightarrow> escape_state result \<Rightarrow> bool" where
  "safe_step ea h r \<longleftrightarrow>
     (case r of Inl e \<Rightarrow> e = Json_Type_Error \<and> h = Strict
      | Inr es \<Rightarrow> room ea es \<and> error_handler (ser es) = h)"

lemma accept_safe:
  assumes "state es = 0" "length (buffer es) \<le> 499 + (if ea then 0 else 3)"
  shows "safe_step ea (error_handler (ser es)) (accept_byte ea c es)"
proof -
  from put_codepoint_room [OF assms(2)] obtain cs where
    "length (buffer es) + length cs \<le> buffer_size" "put_codepoint ea c es = Inr (es\<lparr>buffer := buffer es @ cs\<rparr>)"
    by (auto simp: put_fits_def)
  then show ?thesis
    using flush_room [of "es\<lparr>buffer := buffer es @ cs\<rparr>"] assms(1)
    by (simp add: safe_step_def accept_byte_def room_def partial_bytes_def Let_def)
qed

lemma reject_safe:
  assumes "bytes_after_last_accept es \<le> 499"
  shows "safe_step ea (error_handler (ser es)) (rbind (reject_byte ea es) (\<lambda>(_, es). Inr es))"
proof (cases "error_handler (ser es)")
  case Strict
  then show ?thesis by (simp add: reject_byte_def safe_step_def)
next
  case Ignore
  then show ?thesis
    using assms by (simp add: reject_byte_def safe_step_def room_def partial_bytes_def Let_def)
next
  case Replace
  let ?es = "es\<lparr>buffer := take (bytes_after_last_accept es) (buffer es)\<rparr>"
  have "length (buffer ?es) + length (replacement ea) \<le> buffer_size"
    using assms by (auto simp: replacement_def min_def)
  then show ?thesis
    using Replace flush_room [of "?es\<lparr>buffer := buffer ?es @ replacement ea\<rparr>"]
    by (simp add: reject_byte_def safe_step_def room_def partial_bytes_def put_room Let_def)
qed

lemma incomplete_safe:
  assumes "2 \<le> state es" "state es \<le> 8" "bytes_after_last_accept es \<le> 499"
    "length (buffer es) + 1 \<le> 500 + (if ea then 0 else partial_bytes (state es) - 1)"
  shows "safe_step ea (error_handler (ser es)) (incomplete_byte ea c es)"
proof -
  have "partial_bytes (state es) \<le> 3" "1 \<le> partial_bytes (state es)"
    using assms(1,2) by (auto simp: partial_bytes_def)
  then show ?thesis
    using assms put_room [of es "[c]"]
    by (auto simp: safe_step_def incomplete_byte_def room_def)
qed

lemma escape_step_safe:
  assumes "room ea es"
  shows "safe_step ea (error_handler (ser es)) (rbind (escape_step ea c es) (\<lambda>(_, es). Inr es))"
proof -
  have "state es \<le> 8" using assms by (auto simp: room_def)
  then obtain st cp where d: "decode (state es) (codepoint es) (byte c) = Inr (st, cp)"
    using decode_defined [of "byte c" "state es" "codepoint es"] by simp
  let ?es = "es\<lparr>state := st, codepoint := cp\<rparr>"
  have "st = state_row (state es) ! byte_class (byte c)"
    using next_state [OF d] by simp
  then have st: "st = 0 \<or> st = 1 \<or> 2 \<le> st \<and> st \<le> 8 \<and> partial_bytes (state es) + 1 \<le> partial_bytes st"
    using next_partial [OF _ byte_class_less] assms by (simp add: room_def)
  have b: "bytes_after_last_accept es \<le> 499"
    "length (buffer es) \<le> 499 + (if ea then 0 else partial_bytes (state es))"
    using assms by (auto simp: room_def)
  have p3: "partial_bytes (state es) \<le> 3" by (simp add: partial_bytes_def)
  have assoc: "rbind (rbind m (\<lambda>es. Inr (False, es))) (\<lambda>(_, es). Inr es) = m" for m :: "escape_state result"
    by (cases m) simp_all
  from st show ?thesis
  proof (elim disjE)
    assume "st = 0"
    then show ?thesis
      using accept_safe [of ?es ea c] b(2) p3 d assoc
      by (cases ea) (auto simp: escape_step_def)
  next
    assume "st = 1"
    then show ?thesis
      using reject_safe [of ?es ea] b(1) d by (simp add: escape_step_def)
  next
    assume "2 \<le> st \<and> st \<le> 8 \<and> partial_bytes (state es) + 1 \<le> partial_bytes st"
    then show ?thesis
      using incomplete_safe [of ?es ea c] b d assoc
      by (cases ea) (auto simp: escape_step_def)
  qed
qed

lemma escape_loop_safe:
  "room ea es \<Longrightarrow> safe_step ea (error_handler (ser es)) (escape_loop ea s es)"
proof (induction ea s es rule: escape_loop.induct)
  case (1 ea es)
  then show ?case by (simp add: safe_step_def)
next
  case (2 ea c cs es)
  note safe = escape_step_safe [OF "2.prems", of c]
  show ?case
  proof (cases "escape_step ea c es")
    case (Inl e)
    with safe show ?thesis by (simp add: safe_step_def escape_loop.simps)
  next
    case (Inr r)
    obtain again es' where r: "r = (again, es')" by fastforce
    with Inr safe have "room ea es'" "error_handler (ser es') = error_handler (ser es)"
      by (simp_all add: safe_step_def)
    with "2.IH" [OF Inr r [symmetric]] Inr r show ?thesis by (simp add: escape_loop.simps)
  qed
qed

lemma dump_escaped_safe:
  "dump_escaped s ea o_ser = Inl e \<Longrightarrow> e = Json_Type_Error \<and> error_handler o_ser = Strict"
proof -
  let ?es = "\<lparr>ser = o_ser, codepoint = 0, state = 0, buffer = [], bytes_after_last_accept = 0,
    undumped_chars = 0\<rparr>"
  have "room ea ?es" by (simp add: room_def)
  from escape_loop_safe [OF this, of s] have safe: "safe_step ea (error_handler o_ser) (escape_loop ea s ?es)"
    by simp
  assume "dump_escaped s ea o_ser = Inl e"
  then consider "escape_loop ea s ?es = Inl e"
    | es where "escape_loop ea s ?es = Inr es" "escape_finish ea es = Inl e"
    by (auto simp: dump_escaped_def rbind_eq_Inl)
  then show ?thesis
  proof cases
    case 1
    with safe show ?thesis by (simp add: safe_step_def)
  next
    case 2
    with safe show ?thesis
      by (auto simp: safe_step_def escape_finish_def Let_def split: if_splits error_handler_t.splits)
  qed
qed

section \<open>Indentation\<close>

lemma indent_overflow:
  assumes "1026 \<le> indent" "indent < 2 ^ 31"
  shows "json_dump_with fo (JArray (v # vs)) indent c ea handler = Inl Undefined_Behaviour"
proof -
  have "nat indent mod 2 ^ 32 = nat indent" "1026 \<le> nat indent" using assms by simp_all
  then show ?thesis
    using assms(1)
    by (simp add: json_dump_with_def inner_indent_def open_container_def grow_indent_def new_serializer_def
        begin_element_def write_indent_def write_characters_def)
qed

section \<open>Properties\<close>

text \<open>
  C24: No string overruns the buffer of the serializer: for every byte string, well-formed or not,
  every error handler and with or without \<open>ensure_ascii\<close>, all writes stay within its 512 bytes;
  the only failure is the exception of the strict handler.
\<close>

theorem string_buffer_bounds:
  "dump_escaped s ea o_ser \<in> range Inr \<union> (if error_handler o_ser = Strict then {Inl Json_Type_Error} else {})"
proof (cases "dump_escaped s ea o_ser")
  case (Inl e)
  with dump_escaped_safe [of s ea o_ser e] show ?thesis by simp
qed simp

text \<open>
  The indentation is not safe: an indent above 1025 makes \<open>dump\<close> of a non-empty array read
  past the indentation string, which is doubled once and not until it is long enough.
\<close>

theorem indent_reads_outside:
  assumes "1026 \<le> indent" "indent < 2 ^ 31"
  shows "json_dump_with fo (JArray (v # vs)) indent c ea handler = Inl Undefined_Behaviour"
  by (rule indent_overflow [OF assms])

theorem indent_reads_outside_witness:
  "json_dump_with \<lparr>dbl_zero = (), strtod = (\<lambda>s. ()), isfinite = (\<lambda>d. True), dbl_to_int = (\<lambda>d. Inr 0),
     dbl_to_chars = (\<lambda>d. ''0.0'')\<rparr> (JArray [JNull]) 1026 (CHR '' '') False Strict = Inl Undefined_Behaviour"
  by (rule indent_reads_outside) simp_all

end
