(* ===== verification/Utf8_Exact.thy ===== *)
theory Utf8_Exact
  imports Json_Text Json_Buffer
begin

text \<open>
  The table-driven automaton of the serializer decides exactly the grammar of UTF-8: with the
  strict error handler a string is written if and only if it is well-formed.
\<close>

section \<open>Bytes the automaton rejects\<close>

lemma reject_lead:
  assumes "utf8_tail b = None"
  shows "state_row 0 ! byte_class b = 1"
proof -
  have "0x80 \<le> b \<and> b \<le> 0xBF \<or> 0xC0 \<le> b \<and> b \<le> 0xC1 \<or> 0xF5 \<le> b"
    using assms unfolding utf8_tail_def by (simp only: option.distinct split: if_split_asm) linarith
  then show ?thesis
  proof (elim disjE conjE)
    assume "0x80 \<le> b" "b \<le> 0xBF"
    then show ?thesis by (cases b rule: byte_class_cont) (simp_all add: state_rows)
  qed (simp_all add: byte_class_def state_rows)
qed

lemma class_outside:
  assumes "\<not> (0x80 \<le> b \<and> b \<le> 0xBF)"
  shows "byte_class b \<noteq> 1 \<and> byte_class b \<noteq> 7 \<and> byte_class b \<noteq> 9"
proof (cases "b \<le> 0x7F")
  case False
  with assms have "\<not> b \<le> 0x8F" "\<not> b \<le> 0x9F" "\<not> b \<le> 0xBF" by linarith+
  with False show ?thesis by (simp add: byte_class_def)
qed (simp add: byte_class_def)

lemma reject_outside:
  assumes "t < 12" "t \<noteq> 1" "t \<noteq> 7" "t \<noteq> 9" "2 \<le> s" "s \<le> 8"
  shows "state_row s ! t = 1"
proof -
  have "s = 2 \<or> s = 3 \<or> s = 4 \<or> s = 5 \<or> s = 6 \<or> s = 7 \<or> s = 8" using assms(5,6) by linarith
  with less_12 [OF assms(1)] assms(2-4) show ?thesis
    by (elim disjE) (simp_all add: state_rows)
qed

lemma reject_cont:
  assumes "state_tail s = Some ((lo, hi) # rs)" "\<not> (lo \<le> b \<and> b \<le> hi)"
  shows "state_row s ! byte_class b = 1"
proof (cases "0x80 \<le> b \<and> b \<le> 0xBF")
  case True
  then have "0x80 \<le> b" "b \<le> 0xBF" by auto
  then show ?thesis
    by (cases b rule: byte_class_cont; use state_tail_Cons [OF assms(1)] assms True in
      \<open>elim disjE; simp add: state_tail_def state_rows\<close>)
next
  case False
  have "2 \<le> s" "s \<le> 8" using state_tail_Cons [OF assms(1)] by auto
  with reject_outside [OF byte_class_less] class_outside [OF False] show ?thesis by blast
qed

section \<open>What the loop has accepted\<close>

lemma state_tail_1: "state_tail 1 = None" and state_tail_0: "state_tail s = Some [] \<Longrightarrow> s = 0"
  by (auto simp: state_tail_def split: if_splits)

lemma escape_step_strict:
  assumes "escape_step ea c es = Inr (again, es')" "error_handler (ser es) = Strict"
  defines "st \<equiv> state_row (state es) ! byte_class (byte c)"
  shows "st \<noteq> 1" "\<not> again" "state es' = st" "error_handler (ser es') = Strict"
proof -
  obtain cp where d: "decode (state es) (codepoint es) (byte c) = Inr (st, cp)"
    using assms(1) next_state [of "state es" "codepoint es" "byte c"] st_def
    by (cases "decode (state es) (codepoint es) (byte c)") (auto simp: escape_step_def)
  have put: "put_codepoint ea c e = Inr e' \<Longrightarrow> state e' = state e \<and> ser e' = ser e" for e e'
    by (auto simp: put_codepoint_def put_def put_formatted_def Let_def split: if_splits)
  show "st \<noteq> 1" using assms(1,2) d by (auto simp: escape_step_def reject_byte_def)
  then show "\<not> again" "state es' = st" "error_handler (ser es') = Strict"
    using assms(1,2) d
    by (auto simp: escape_step_def accept_byte_def incomplete_byte_def put_def rbind_eq_Inr Let_def
        flush_room split: if_splits dest!: put)
qed

lemma escape_loop_strict:
  assumes "escape_loop ea cs es = Inr es'" "state es' = 0" "error_handler (ser es) = Strict"
    "state_tail (state es) = Some rs"
  shows "in_ranges rs (take (length rs) cs) \<and> valid_utf8 (drop (length rs) cs)"
  using assms
proof (induction cs arbitrary: es rs)
  case Nil
  then have "rs = []" by (simp add: state_tail_def)
  then show ?case by simp
next
  case (Cons c cs)
  let ?st = "state_row (state es) ! byte_class (byte c)"
  obtain again es1 where step: "escape_step ea c es = Inr (again, es1)"
    using Cons.prems(1) by (auto simp: escape_loop.simps split: sum.splits)
  note s = escape_step_strict [OF step Cons.prems(3)]
  have loop: "escape_loop ea cs es1 = Inr es'"
    using Cons.prems(1) step s(2) by (simp add: escape_loop.simps)
  note ih = Cons.IH [OF loop Cons.prems(2) s(4), unfolded s(3)]
  show ?case
  proof (cases rs)
    case Nil
    then have z: "state es = 0" using Cons.prems(4) state_tail_0 by simp
    then obtain rs' where rs': "utf8_tail (byte c) = Some rs'" using reject_lead s(1) by fastforce
    from ih [OF lead_state [OF rs', folded z]] Nil rs' show ?thesis by simp
  next
    case (Cons r rs1)
    obtain lo hi where r: "r = (lo, hi)" by (cases r)
    with Cons Cons.prems(4) have t: "state_tail (state es) = Some ((lo, hi) # rs1)" by simp
    then have b: "lo \<le> byte c \<and> byte c \<le> hi" using reject_cont s(1) by blast
    from ih [OF cont_state [OF t]] b Cons r show ?thesis by simp
  qed
qed

lemma dump_escaped_strict:
  assumes "error_handler s = Strict"
  shows "dump_escaped t False s =
    (if valid_utf8 t then Inr (write_characters (escape_text t) s) else Inl Json_Type_Error)"
proof (cases "dump_escaped t False s")
  case (Inl e)
  with dump_escaped_safe [of t False s e] dump_escaped_valid [of t s] show ?thesis
    by auto
next
  case (Inr s')
  let ?es = "\<lparr>ser = s, codepoint = 0, state = 0, buffer = [], bytes_after_last_accept = 0,
    undumped_chars = 0\<rparr>"
  obtain es where es: "escape_loop False t ?es = Inr es" "escape_finish False es = Inr s'"
    using Inr by (auto simp: dump_escaped_def rbind_eq_Inr)
  have "room False ?es" by (simp add: room_def)
  from escape_loop_safe [OF this, of t] es(1) assms have "error_handler (ser es) = Strict"
    by (simp add: safe_step_def)
  with es(2) have "state es = 0" by (auto simp: escape_finish_def Let_def split: if_splits)
  with escape_loop_strict [OF es(1), of "[]"] assms have "valid_utf8 t"
    by (simp add: state_tail_def)
  with dump_escaped_valid [of t s] show ?thesis by simp
qed

section \<open>Properties\<close>

text \<open>
  C23: With the default error handler, writing a string decides UTF-8: a string is written, escaped,
  if and only if it is well-formed by the table of the Unicode standard, and otherwise the
  serializer throws; the automaton's table and its code points give exactly that.
\<close>

theorem dump_decides_utf8:
  assumes "error_handler s = Strict"
  shows "dump_escaped t False s =
    (if valid_utf8 t then Inr (write_characters (escape_text t) s) else Inl Json_Type_Error)"
  by (rule dump_escaped_strict [OF assms])

theorem dump_decides_utf8_witness:
  "dump_escaped [CHR 0xC3, CHR 0xA9, newline] False (new_serializer [] (CHR '' '') Strict) =
     Inr (write_characters ([CHR 0xC3, CHR 0xA9, backslash, CHR ''n'']) (new_serializer [] (CHR '' '') Strict)) \<and>
   dump_escaped [CHR 0xC0, CHR 0x80] False (new_serializer [] (CHR '' '') Strict) = Inl Json_Type_Error"
proof -
  have "valid_utf8 [CHR 0xC3, CHR 0xA9, newline]" "\<not> valid_utf8 [CHR 0xC0, CHR 0x80]"
    "escape_text [CHR 0xC3, CHR 0xA9, newline] = [CHR 0xC3, CHR 0xA9, backslash, CHR ''n'']"
    by code_simp+
  then show ?thesis
    using dump_decides_utf8 [of "new_serializer [] (CHR '' '') Strict"] by (simp add: new_serializer_def)
qed

end
