(* ===== verification/Json_Destroy.thy ===== *)
theory Json_Destroy
  imports Json "HOL-Library.Multiset"
begin

text \<open>
  The destruction of a JSON value (\<open>json_value::destroy\<close>). So that deep values do not exhaust the
  call stack, the children are moved to a stack on the heap and destroyed one by one, each
  after its own children have been moved out of it. A destructor is recorded by the value it
  finds: its own payload with the children that are still inside.
\<close>

section \<open>The code\<close>

text \<open>Moving the children out leaves null values; \<open>clear\<close> then removes these from a container.\<close>

definition children :: "'d json \<Rightarrow> 'd json list" where
  "children v = (case v of JArray vs \<Rightarrow> vs | JObject m \<Rightarrow> List.map snd m | _ \<Rightarrow> [])"

definition moved_out :: "'d json \<Rightarrow> 'd json" where
  "moved_out v =
     (case v of
        JArray vs \<Rightarrow> JArray (List.map (\<lambda>_. JNull) vs)
      | JObject m \<Rightarrow> JObject (List.map (\<lambda>(k, _). (k, JNull)) m)
      | v \<Rightarrow> v)"

definition cleared :: "'d json \<Rightarrow> 'd json" where
  "cleared v = (case v of JArray vs \<Rightarrow> JArray [] | JObject m \<Rightarrow> JObject [] | v \<Rightarrow> v)"

lemma size_children: "sum_list (List.map size (children v)) < size v"
proof -
  have "sum_list (List.map size vs) \<le> size_list size vs" for vs :: "'a json list"
    by (induction vs) auto
  moreover have "sum_list (List.map (size \<circ> snd) m) \<le> size_list (size_prod (\<lambda>_. 0) size) m"
    for m :: "(string \<times> 'a json) list"
    by (induction m) (auto simp: size_prod_simp)
  ultimately show ?thesis
    by (cases v) (auto simp: children_def le_imp_less_Suc)
qed

text \<open>The last item of the stack is taken, its children are put on the stack, and it is destroyed.\<close>

function destroy_loop :: "'d json list \<Rightarrow> 'd json list \<Rightarrow> 'd json list" where
  "destroy_loop stack destroyed =
     (if stack = [] then destroyed
      else
        let current_item = last stack; stack = butlast stack in
        destroy_loop (stack @ children current_item) (destroyed @ [cleared current_item]))"
  by pat_completeness auto
termination
proof (relation "measure (\<lambda>(stack, _). sum_list (List.map size stack))", goal_cases)
  case (2 stack destroyed cur rest)
  then have "stack = rest @ [cur]" by simp
  then show ?case using size_children [of cur] by simp
qed simp

declare destroy_loop.simps [simp del]

text \<open>The values whose destructors run, in their order; the value itself is the last one.\<close>

definition destroy :: "'d json \<Rightarrow> 'd json list" where
  "destroy v = destroy_loop (children v) [] @ [moved_out v]"

section \<open>Lemmas\<close>

text \<open>All values inside a value, itself included.\<close>

fun nodes :: "'d json \<Rightarrow> 'd json multiset"
  and member_nodes :: "(string \<times> 'd json) list \<Rightarrow> 'd json multiset"
  and element_nodes :: "'d json list \<Rightarrow> 'd json multiset" where
  "nodes (JArray vs) = add_mset (JArray vs) (element_nodes vs)"
| "nodes (JObject m) = add_mset (JObject m) (member_nodes m)"
| "nodes JNull = {#JNull#}"
| "nodes (JString s) = {#JString s#}"
| "nodes (JBoolean b) = {#JBoolean b#}"
| "nodes (JInteger i) = {#JInteger i#}"
| "nodes (JUnsigned i) = {#JUnsigned i#}"
| "nodes (JFloat d) = {#JFloat d#}"
| "member_nodes [] = {#}"
| "member_nodes ((k, v) # m) = nodes v + member_nodes m"
| "element_nodes [] = {#}"
| "element_nodes (v # vs) = nodes v + element_nodes vs"

definition nodes_of :: "'d json list \<Rightarrow> 'd json multiset" where
  "nodes_of vs = \<Sum>\<^sub># (mset (List.map nodes vs))"

lemma nodes_of_simps [simp]:
  "nodes_of [] = {#}" "nodes_of (vs @ ws) = nodes_of vs + nodes_of ws" "nodes_of [v] = nodes v"
  by (simp_all add: nodes_of_def)

lemma nodes_children: "nodes v = add_mset v (nodes_of (children v))"
proof -
  have "element_nodes vs = nodes_of vs" for vs :: "'a json list"
    by (induction vs) (simp_all add: nodes_of_def)
  moreover have "member_nodes m = nodes_of (List.map snd m)" for m :: "(string \<times> 'a json) list"
    by (induction m) (auto simp: nodes_of_def)
  ultimately show ?thesis by (cases v) (simp_all add: children_def)
qed

lemma destroy_loop_nodes:
  "mset (destroy_loop stack destroyed) = mset destroyed + image_mset cleared (nodes_of stack)"
proof (induction stack destroyed rule: destroy_loop.induct)
  case (1 stack destroyed)
  show ?case
  proof (cases "stack = []")
    case True
    then show ?thesis by (simp add: destroy_loop.simps)
  next
    case False
    have "nodes_of stack = nodes_of (butlast stack) + nodes (last stack)"
      by (metis False append_butlast_last_id nodes_of_simps(2,3))
    with 1 [OF False refl refl] show ?thesis
      by (simp add: destroy_loop.simps [of stack destroyed] False nodes_children [of "last stack"] Let_def)
  qed
qed

lemma children_cleared: "children (cleared v) = []"
  by (cases v) (simp_all add: children_def cleared_def)

lemma children_moved_out: "w \<in> set (children (moved_out v)) \<Longrightarrow> w = JNull"
  by (cases v) (auto simp: children_def moved_out_def)

lemma children_destroyed: "w \<in> set (destroy v) \<Longrightarrow> set (children w) \<subseteq> {JNull}"
proof -
  assume "w \<in> set (destroy v)"
  moreover have "set (destroy_loop (children v) []) = cleared ` set_mset (nodes_of (children v))"
    using arg_cong [OF destroy_loop_nodes [of "children v" "[]"], of set_mset] by simp
  ultimately show ?thesis
    using children_moved_out [of _ v] by (auto simp: destroy_def children_cleared)
qed

section \<open>Properties\<close>

text \<open>
  C35: The destruction of a value destroys every value inside it exactly once (the nulls that moves
  leave behind aside), the value itself last, and none of them has children left but such
  nulls: whatever the depth of the value, no destructor of a child runs inside another.
\<close>

theorem destroy_once:
  "mset (butlast (destroy v)) = image_mset cleared (nodes_of (children v)) \<and> last (destroy v) = moved_out v \<and>
   (\<Union>w \<in> set (destroy v). set (children w)) \<subseteq> {JNull}"
  using destroy_loop_nodes [of "children v" "[]"] children_destroyed [of _ v]
  by (auto simp: destroy_def)

end
