(* ===== verification/Json_Members.thy ===== *)
theory Json_Members
  imports Json_Roundtrip
begin

text \<open>
  The members of a JSON object as a map: the interface \<open>std::map\<close> promises its clients (lookup
  after insertion and removal, one representation for each map) and its proof for the ordered
  lists of the model. \<open>obj_erase\<close> is \<open>std::map::erase\<close>.
\<close>

fun obj_erase :: "string \<Rightarrow> (string \<times> 'd json) list \<Rightarrow> (string \<times> 'd json) list" where
  "obj_erase k [] = []"
| "obj_erase k ((k', v) # m) = (if k = k' then m else (k', v) # obj_erase k m)"

section \<open>The interface\<close>

locale member_map =
  fixes look :: "'m \<Rightarrow> 'k \<Rightarrow> 'v option"
    and put :: "'k \<Rightarrow> 'v \<Rightarrow> 'm \<Rightarrow> 'm"
    and remove :: "'k \<Rightarrow> 'm \<Rightarrow> 'm"
    and ordered :: "'m \<Rightarrow> bool"
  assumes look_put: "ordered m \<Longrightarrow> look (put k v m) = (look m)(k \<mapsto> v)"
    and look_remove: "ordered m \<Longrightarrow> look (remove k m) = (look m)(k := None)"
    and ordered_put: "ordered m \<Longrightarrow> ordered (put k v m)"
    and ordered_remove: "ordered m \<Longrightarrow> ordered (remove k m)"
    and look_inject: "ordered m \<Longrightarrow> ordered m' \<Longrightarrow> look m = look m' \<Longrightarrow> m = m'"
begin

text \<open>A change of the members: each is removed or gets a value that may depend on the old one.\<close>

primrec change_all :: "('k \<times> ('v option \<Rightarrow> 'v option)) list \<Rightarrow> 'm \<Rightarrow> 'm" where
  "change_all [] m = m"
| "change_all (kf # kfs) m =
     change_all kfs
       (case snd kf (look m (fst kf)) of None \<Rightarrow> remove (fst kf) m | Some v \<Rightarrow> put (fst kf) v m)"

lemma ordered_change_all: "ordered m \<Longrightarrow> ordered (change_all kfs m)"
  by (induction kfs arbitrary: m) (auto simp: ordered_put ordered_remove split: option.split)

text \<open>With distinct keys the changes do not meet.\<close>

lemma look_change_all:
  assumes "ordered m" "distinct (map fst kfs)"
  shows "look (change_all kfs m) k =
    (case map_of kfs k of None \<Rightarrow> look m k | Some f \<Rightarrow> f (look m k))"
  using assms
proof (induction kfs arbitrary: m)
  case (Cons kf kfs)
  let ?m = "case snd kf (look m (fst kf)) of None \<Rightarrow> remove (fst kf) m | Some v \<Rightarrow> put (fst kf) v m"
  have o: "ordered ?m" using Cons.prems(1) by (auto simp: ordered_put ordered_remove split: option.split)
  have l: "look ?m k = (if k = fst kf then snd kf (look m k) else look m k)"
    using Cons.prems(1) by (auto simp: look_put look_remove split: option.split)
  have new: "map_of kfs (fst kf) = None" using Cons.prems(2) by (simp add: map_of_eq_None_iff)
  from Cons.IH [OF o] Cons.prems(2) l new show ?case by (auto split: option.splits)
qed simp

lemma change_all_again:
  assumes "ordered m" "distinct (map fst kfs)"
    and "\<And>k f. (k, f) \<in> set kfs \<Longrightarrow> f (f (look m k)) = f (look m k)"
  shows "change_all kfs (change_all kfs m) = change_all kfs m"
proof (intro look_inject ordered_change_all ext)
  fix k
  have "f (f (look m k)) = f (look m k)" if "map_of kfs k = Some f" for f
    using assms(3) map_of_SomeD [OF that] by blast
  then show "look (change_all kfs (change_all kfs m)) k = look (change_all kfs m) k"
    using assms(1,2) by (auto simp: look_change_all ordered_change_all split: option.split)
qed (use assms(1) in \<open>simp_all add: ordered_change_all\<close>)

end

section \<open>The ordered lists\<close>

definition obj_ordered :: "(string \<times> 'd json) list \<Rightarrow> bool" where
  "obj_ordered m \<longleftrightarrow> sorted_wrt (<) (List.map fst m)"

lemma obj_ordered_simps [simp]:
  "obj_ordered []"
  "obj_ordered ((k, v) # m) \<longleftrightarrow> (\<forall>l \<in> fst ` set m. k < l) \<and> obj_ordered m"
  by (simp_all add: obj_ordered_def)

lemma obj_ordered_distinct: "obj_ordered m \<Longrightarrow> distinct (List.map fst m)"
  by (simp add: obj_ordered_def strict_sorted_iff)

lemma obj_emplace_look: "obj_ordered m \<Longrightarrow>
    map_of (obj_emplace k v m) l = (if l = k \<and> map_of m k = None then Some v else map_of m l)"
proof (induction m)
  case (Cons kv m)
  obtain k' v' where kv: "kv = (k', v')" by (cases kv)
  have "map_of m k = None" if "k < k'" using Cons.prems kv that by (auto simp: map_of_eq_None_iff)
  with Cons kv show ?case by auto
qed simp

lemma obj_assign_look: "map_of (obj_assign k v m) l =
    (if l = k \<and> map_of m k \<noteq> None then Some v else map_of m l)"
  by (induction m) auto

lemma obj_assign_fst: "List.map fst (obj_assign k v m) = List.map fst m"
  by (induction k v m rule: obj_assign.induct) auto

lemma obj_emplace_ordered: "obj_ordered m \<Longrightarrow> obj_ordered (obj_emplace k v m)"
  using obj_emplace_sorted [of m k v] by (simp add: obj_ordered_def strict_sorted_iff)

lemma obj_set_look: "obj_ordered m \<Longrightarrow> map_of (obj_set k v m) = (map_of m)(k \<mapsto> v)"
  by (rule ext) (auto simp: obj_set_def obj_assign_look obj_emplace_look)

lemma obj_set_ordered: "obj_ordered m \<Longrightarrow> obj_ordered (obj_set k v m)"
  using obj_emplace_ordered [of m k JNull] by (simp add: obj_set_def obj_ordered_def obj_assign_fst)

lemma obj_erase_look: "obj_ordered m \<Longrightarrow> map_of (obj_erase k m) = (map_of m)(k := None)"
proof (induction m)
  case (Cons kv m)
  obtain k' v' where kv: "kv = (k', v')" by (cases kv)
  have "map_of m k' = None" using Cons.prems kv by (auto simp: map_of_eq_None_iff)
  with Cons kv show ?case by (auto simp: fun_eq_iff)
qed simp

lemma obj_erase_set: "set (obj_erase k m) \<subseteq> set m"
  by (induction m) (auto split: if_splits)

lemma obj_erase_ordered: "obj_ordered m \<Longrightarrow> obj_ordered (obj_erase k m)"
proof (induction m)
  case (Cons kv m)
  then show ?case using obj_erase_set [of k m] by (cases kv) (auto split: if_splits)
qed simp

lemma obj_inject:
  assumes "obj_ordered m" "obj_ordered n" "map_of m = map_of n"
  shows "m = n"
proof -
  have keys: "List.map fst m = List.map fst n"
    using assms dom_map_of_conv_image_fst [of m] dom_map_of_conv_image_fst [of n]
    by (intro sorted_distinct_set_unique) (auto simp: obj_ordered_def strict_sorted_iff)
  show ?thesis
  proof (intro nth_equalityI)
    show "length m = length n" using keys by (rule map_eq_imp_length_eq)
    fix i assume i: "i < length m"
    then have "m ! i \<in> set m" "n ! i \<in> set n" "fst (m ! i) = fst (n ! i)"
      using keys \<open>length m = length n\<close> by (simp_all, metis nth_map)
    then show "m ! i = n ! i"
      using assms(3) obj_ordered_distinct [OF assms(1)] obj_ordered_distinct [OF assms(2)]
      by (metis map_of_is_SomeI option.inject prod.collapse prod_eqI)
  qed
qed

interpretation members: member_map map_of obj_set obj_erase obj_ordered
  by unfold_locales (simp_all add: obj_set_look obj_set_ordered obj_erase_look obj_erase_ordered obj_inject)

end
