(* ===== verification/Json_Merge.thy ===== *)
theory Json_Merge
  imports Json_Members
begin

text \<open>
  JSON Merge Patch (RFC 7386): \<open>basic_json::merge_patch\<close> of client/include/json.hpp for a patch
  that is not part of the patched value. \<open>operator[]\<close> enters a missing member as null before
  the patch of this member is merged into it.
\<close>

fun merge_patch :: "'d json \<Rightarrow> 'd json \<Rightarrow> 'd json"
  and merge_members :: "(string \<times> 'd json) list \<Rightarrow> (string \<times> 'd json) list \<Rightarrow> (string \<times> 'd json) list" where
  "merge_patch j (JObject apply_patch) =
     JObject (merge_members (case j of JObject m \<Rightarrow> m | _ \<Rightarrow> []) apply_patch)"
| "merge_patch j JNull = JNull"
| "merge_patch j (JArray vs) = JArray vs"
| "merge_patch j (JString s) = JString s"
| "merge_patch j (JBoolean b) = JBoolean b"
| "merge_patch j (JInteger i) = JInteger i"
| "merge_patch j (JUnsigned i) = JUnsigned i"
| "merge_patch j (JFloat d) = JFloat d"
| "merge_members m [] = m"
| "merge_members m ((k, v) # p) =
     merge_members
       (if is_null v then obj_erase k m
        else
          let m = obj_emplace k JNull m in obj_assign k (merge_patch (obj_find k m) v) m)
       p"

section \<open>Members\<close>

text \<open>
  What the standard says of one member: null removes it, any other value is merged into it, a
  missing member counting as null.
\<close>

definition merge_member :: "'d json \<Rightarrow> 'd json option \<Rightarrow> 'd json option" where
  "merge_member v u = (if is_null v then None else Some (merge_patch (case u of None \<Rightarrow> JNull | Some w \<Rightarrow> w) v))"

lemma merge_members_change:
  "obj_ordered m \<Longrightarrow> merge_members m p = members.change_all (List.map (\<lambda>(k, v). (k, merge_member v)) p) m"
proof (induction p arbitrary: m)
  case (Cons kv p)
  obtain k v where kv: "kv = (k, v)" by (cases kv)
  have found: "obj_find k (obj_emplace k JNull m) = (case map_of m k of None \<Rightarrow> JNull | Some w \<Rightarrow> w)"
    using Cons.prems by (simp add: obj_find_def obj_emplace_look split: option.split)
  show ?case
    using Cons.prems Cons.IH
    by (simp add: kv merge_member_def Let_def found obj_set_def [symmetric] obj_set_ordered obj_erase_ordered)
qed simp

lemma merge_members_ordered: "obj_ordered m \<Longrightarrow> obj_ordered (merge_members m p)"
  by (simp add: merge_members_change members.ordered_change_all)

lemma merge_members_look:
  assumes "obj_ordered m" "obj_ordered p"
  shows "map_of (merge_members m p) k =
    (case map_of p k of None \<Rightarrow> map_of m k | Some v \<Rightarrow> merge_member v (map_of m k))"
proof -
  have "distinct (List.map fst (List.map (\<lambda>(k, v). (k, merge_member v)) p))"
    using obj_ordered_distinct [OF assms(2)] by (simp add: comp_def case_prod_unfold)
  from members.look_change_all [OF assms(1) this, of k] show ?thesis
    using assms(1) by (simp add: merge_members_change map_of_map split: option.split)
qed

section \<open>Repetition\<close>

text \<open>The order of the members at every level.\<close>

fun json_ordered :: "'d json \<Rightarrow> bool"
  and elements_ordered :: "'d json list \<Rightarrow> bool"
  and members_ordered :: "(string \<times> 'd json) list \<Rightarrow> bool" where
  "json_ordered (JArray vs) = elements_ordered vs"
| "json_ordered (JObject m) = (obj_ordered m \<and> members_ordered m)"
| "json_ordered JNull = True"
| "json_ordered (JString s) = True"
| "json_ordered (JBoolean b) = True"
| "json_ordered (JInteger i) = True"
| "json_ordered (JUnsigned i) = True"
| "json_ordered (JFloat d) = True"
| "elements_ordered [] = True"
| "elements_ordered (v # vs) = (json_ordered v \<and> elements_ordered vs)"
| "members_ordered [] = True"
| "members_ordered ((k, v) # m) = (json_ordered v \<and> members_ordered m)"

lemma members_ordered_iff: "members_ordered m \<longleftrightarrow> (\<forall>(k, v) \<in> set m. json_ordered v)"
  by (induction m) auto

lemma members_ordered_look: "members_ordered m \<Longrightarrow> map_of m k = Some v \<Longrightarrow> json_ordered v"
  using map_of_SomeD by (fastforce simp: members_ordered_iff)

text \<open>The members a patch is merged into.\<close>

definition target_members :: "'d json \<Rightarrow> (string \<times> 'd json) list" where
  "target_members j = (case j of JObject m \<Rightarrow> m | _ \<Rightarrow> [])"

lemma merge_patch_object: "merge_patch j (JObject p) = JObject (merge_members (target_members j) p)"
  by (simp add: target_members_def)

lemma target_members_ordered:
  "json_ordered j \<Longrightarrow> obj_ordered (target_members j) \<and> members_ordered (target_members j)"
  by (cases j) (simp_all add: target_members_def)

lemma merge_ordered: "json_ordered p \<Longrightarrow> json_ordered j \<Longrightarrow> json_ordered (merge_patch j p)"
proof (induction p arbitrary: j)
  case (JObject p)
  let ?m = "target_members j" and ?r = "merge_members (target_members j) p"
  have m: "obj_ordered ?m" "members_ordered ?m" and p: "obj_ordered p" "members_ordered p"
    using target_members_ordered [OF JObject.prems(2)] JObject.prems(1) by simp_all
  have r: "obj_ordered ?r" using m(1) by (rule merge_members_ordered)
  have "json_ordered u" if "map_of ?r k = Some u" for k u
  proof (cases "map_of p k")
    case None
    with that m show ?thesis by (simp add: merge_members_look [OF m(1) p(1)] members_ordered_look)
  next
    case (Some v)
    have v: "json_ordered v" using p(2) Some by (rule members_ordered_look)
    have "json_ordered (case map_of ?m k of None \<Rightarrow> JNull | Some w \<Rightarrow> w)"
      using members_ordered_look [OF m(2)] by (simp split: option.split)
    then have "json_ordered (merge_patch (case map_of ?m k of None \<Rightarrow> JNull | Some w \<Rightarrow> w) v)"
      using map_of_SomeD [OF Some] v by (intro JObject.IH [of "(k, v)"]) auto
    with that Some show ?thesis
      by (simp add: merge_members_look [OF m(1) p(1)] merge_member_def split: if_splits)
  qed
  then have "members_ordered ?r"
    using obj_ordered_distinct [OF r] by (auto simp: members_ordered_iff dest: map_of_is_SomeI)
  with r show ?case by (simp add: merge_patch_object del: merge_patch.simps(1))
qed simp_all

lemma merge_again: "json_ordered p \<Longrightarrow> json_ordered j \<Longrightarrow> merge_patch (merge_patch j p) p = merge_patch j p"
proof (induction p arbitrary: j)
  case (JObject p)
  let ?m = "target_members j"
  let ?c = "List.map (\<lambda>(k, v). (k, merge_member v)) p"
  have m: "obj_ordered ?m" "members_ordered ?m" and p: "obj_ordered p" "members_ordered p"
    using target_members_ordered [OF JObject.prems(2)] JObject.prems(1) by simp_all
  have d: "distinct (List.map fst ?c)"
    using obj_ordered_distinct [OF p(1)] by (simp add: comp_def case_prod_unfold)
  have "f (f (map_of ?m k)) = f (map_of ?m k)" if "(k, f) \<in> set ?c" for k f
  proof -
    from that obtain v where v: "(k, v) \<in> set p" "f = merge_member v" by auto
    have o: "json_ordered v" using p(2) v(1) by (auto simp: members_ordered_iff)
    let ?w = "case map_of ?m k of None \<Rightarrow> JNull | Some w \<Rightarrow> w"
    have w: "json_ordered ?w" using members_ordered_look [OF m(2)] by (simp split: option.split)
    have "merge_patch (merge_patch ?w v) v = merge_patch ?w v"
      using v(1) o w by (intro JObject.IH [of "(k, v)"]) auto
    then show ?thesis by (simp add: v(2) merge_member_def)
  qed
  from members.change_all_again [OF m(1) d this] m(1)
  have "merge_members (merge_members ?m p) p = merge_members ?m p"
    by (simp add: merge_members_change members.ordered_change_all)
  then show ?case by (simp add: merge_patch_object target_members_def [of "JObject _"] del: merge_patch.simps(1))
qed simp_all

section \<open>Properties\<close>

text \<open>
  C36: Merging an object into a value gives an object with ordered members: a member of the patch that is null
  is removed, any other is merged into the old member (null if there is none), and the members the
  patch does not name stay. A value that is no object has no members.
\<close>

theorem merge_patch_members:
  assumes "json_ordered j" "json_ordered (JObject p)"
  shows "\<exists>r. merge_patch j (JObject p) = JObject r \<and> json_ordered (JObject r) \<and>
    (\<forall>k. map_of r k =
       (case map_of p k of
          None \<Rightarrow> map_of (target_members j) k
        | Some v \<Rightarrow> merge_member v (map_of (target_members j) k)))"
  using merge_ordered [OF assms(2,1)] merge_members_look target_members_ordered [OF assms(1)] assms(2)
  by (auto simp: merge_patch_object simp del: merge_patch.simps(1))

text \<open>
  C39: Merging the same patch a second time changes nothing.
\<close>

theorem merge_patch_twice:
  assumes "json_ordered j" "json_ordered p"
  shows "merge_patch (merge_patch j p) p = merge_patch j p"
  using assms by (intro merge_again)

definition merge_target :: "unit json" where
  "merge_target = JObject [(''a'', JString ''x''), (''c'', JObject [(''d'', JUnsigned 1), (''e'', JNull)])]"

definition merge_source :: "unit json" where
  "merge_source = JObject [(''a'', JNull), (''b'', JObject [(''n'', JNull)]), (''c'', JObject [(''d'', JBoolean True)])]"

theorem merge_patch_members_witness:
  "\<exists>r. merge_patch merge_target merge_source = JObject r \<and> map_of r ''a'' = None \<and> map_of r ''b'' = Some (JObject [])"
proof -
  obtain p where p: "merge_source = JObject p" "map_of p ''a'' = Some JNull" "map_of p ''b'' = Some (JObject [(''n'', JNull)])"
    by (simp add: merge_source_def)
  have "json_ordered merge_target" "json_ordered (JObject p)" "map_of (target_members merge_target) ''b'' = None"
    unfolding p(1) [symmetric] by code_simp+
  with merge_patch_members [OF this(1,2)] show ?thesis
    unfolding p(1) using p(2,3) by (fastforce simp: merge_member_def is_null_def)
qed

theorem merge_patch_twice_witness:
  "merge_patch (merge_patch merge_target merge_source) merge_source =
     JObject [(''b'', JObject []), (''c'', JObject [(''d'', JBoolean True), (''e'', JNull)])]"
proof -
  have "json_ordered merge_target" "json_ordered merge_source" by code_simp+
  from merge_patch_twice [OF this] show ?thesis
    by (simp only:) code_simp
qed

end
