(* ===== verification/Diyfp.thy ===== *)
theory Diyfp
  imports Prelude "HOL-Library.Word" Complex_Main
begin

text \<open>
  The floating-point numbers \<open>diyfp\<close> of client/include/json.hpp (namespace
  \<open>detail::dtoa_impl\<close>) with which the library computes the text of a \<open>double\<close>: a 64-bit
  significand and a binary exponent. A \<open>double\<close> is the 64-bit word of its IEEE
  representation, \<open>std::uint64_t\<close> is \<open>64 word\<close>, and \<open>int\<close> exponents are integers, since all
  of them stay below 2000 in size. \<open>JSON_ASSERT\<close> is \<open>assert\<close>: a condition that fails is
  \<open>Abort_Called\<close>. The lemmas give the numbers these operations compute: \<open>mul\<close> rounds the
  exact product, \<open>normalize\<close> keeps the value, and for a positive finite double \<open>v\<close> the
  boundaries are the midpoints between \<open>v\<close> and its neighbours.
\<close>

unbundle bit_operations_syntax

type_synonym u64 = "64 word"
type_synonym u32 = "32 word"
type_synonym binary64 = "64 word"

section \<open>Operations on doubles\<close>

text \<open>What the code uses of \<open>std::numeric_limits<double>\<close>, \<open>std::isfinite\<close>, \<open>std::signbit\<close>, negation and comparison with 0.\<close>

definition exponent_field :: "binary64 \<Rightarrow> u64" where
  "exponent_field b = drop_bit 52 b AND 0x7FF"

definition dbl_isfinite :: "binary64 \<Rightarrow> bool" where
  "dbl_isfinite b \<longleftrightarrow> exponent_field b \<noteq> 0x7FF"

definition dbl_signbit :: "binary64 \<Rightarrow> bool" where
  "dbl_signbit b \<longleftrightarrow> drop_bit 63 b \<noteq> 0"

definition dbl_neg :: "binary64 \<Rightarrow> binary64" where
  "dbl_neg b = b XOR push_bit 63 1"

definition dbl_is_zero :: "binary64 \<Rightarrow> bool" where
  "dbl_is_zero b \<longleftrightarrow> b = 0 \<or> b = push_bit 63 1"

definition dbl_positive :: "binary64 \<Rightarrow> bool" where
  "dbl_positive b \<longleftrightarrow> \<not> dbl_signbit b \<and> \<not> dbl_is_zero b \<and> b \<le> push_bit 52 0x7FF"

section \<open>The numbers of the algorithm\<close>

record diyfp =
  dfp_f :: u64
  dfp_e :: int

definition new_diyfp :: "u64 \<Rightarrow> int \<Rightarrow> diyfp" where
  "new_diyfp f e = \<lparr>dfp_f = f, dfp_e = e\<rparr>"

definition diyfp_sub :: "diyfp \<Rightarrow> diyfp \<Rightarrow> diyfp result" where
  "diyfp_sub x y =
     (if dfp_e x \<noteq> dfp_e y then Inl Abort_Called
      else if \<not> dfp_f x \<ge> dfp_f y then Inl Abort_Called
      else Inr (new_diyfp (dfp_f x - dfp_f y) (dfp_e x)))"

definition diyfp_mul :: "diyfp \<Rightarrow> diyfp \<Rightarrow> diyfp" where
  "diyfp_mul x y =
     (let u_lo = dfp_f x AND 0xFFFFFFFF;
          u_hi = drop_bit 32 (dfp_f x);
          v_lo = dfp_f y AND 0xFFFFFFFF;
          v_hi = drop_bit 32 (dfp_f y);
          p0 = u_lo * v_lo;
          p1 = u_lo * v_hi;
          p2 = u_hi * v_lo;
          p3 = u_hi * v_hi;
          p0_hi = drop_bit 32 p0;
          p1_lo = p1 AND 0xFFFFFFFF;
          p1_hi = drop_bit 32 p1;
          p2_lo = p2 AND 0xFFFFFFFF;
          p2_hi = drop_bit 32 p2;
          Q = p0_hi + p1_lo + p2_lo;
          Q = Q + push_bit (64 - 32 - 1) 1;
          h = p3 + p2_hi + p1_hi + drop_bit 32 Q
      in new_diyfp h (dfp_e x + dfp_e y + 64))"

text \<open>
  The loop of \<open>normalize\<close> is entered with a significand other than 0, and shifting keeps it
  so while the top bit is clear: testing the assertion in each round changes nothing.
\<close>

function diyfp_normalize :: "diyfp \<Rightarrow> diyfp result" where
  "diyfp_normalize x =
     (if \<not> dfp_f x \<noteq> 0 then Inl Abort_Called
      else if drop_bit 63 (dfp_f x) = 0
      then diyfp_normalize (new_diyfp (push_bit 1 (dfp_f x)) (dfp_e x - 1))
      else Inr x)"
  by pat_completeness auto

definition diyfp_normalize_to :: "diyfp \<Rightarrow> int \<Rightarrow> diyfp result" where
  "diyfp_normalize_to x target_exponent =
     (let delta = dfp_e x - target_exponent in
      if \<not> delta \<ge> 0 then Inl Abort_Called
      else if delta \<ge> 64 then Inl Undefined_Behaviour
      else if \<not> drop_bit (nat delta) (push_bit (nat delta) (dfp_f x)) = dfp_f x then Inl Abort_Called
      else Inr (new_diyfp (push_bit (nat delta) (dfp_f x)) target_exponent))"

section \<open>The boundaries of a double\<close>

record boundaries =
  bnd_w :: diyfp
  bnd_minus :: diyfp
  bnd_plus :: diyfp

definition kPrecision :: nat where "kPrecision = 53"
definition kBias :: int where "kBias = 1024 - 1 + (int kPrecision - 1)"
definition kMinExp :: int where "kMinExp = 1 - kBias"
definition kHiddenBit :: u64 where "kHiddenBit = push_bit (kPrecision - 1) 1"

definition decode_double :: "binary64 \<Rightarrow> diyfp" where
  "decode_double bits =
     (let E = drop_bit (kPrecision - 1) bits;
          F = bits AND (kHiddenBit - 1);
          is_denormal = (E = 0)
      in if is_denormal then new_diyfp F kMinExp else new_diyfp (F + kHiddenBit) (uint E - kBias))"

definition lower_boundary_is_closer :: "binary64 \<Rightarrow> bool" where
  "lower_boundary_is_closer bits \<longleftrightarrow> bits AND (kHiddenBit - 1) = 0 \<and> drop_bit (kPrecision - 1) bits > 1"

definition compute_boundaries :: "binary64 \<Rightarrow> boundaries result" where
  "compute_boundaries bits =
     (if \<not> dbl_isfinite bits then Inl Abort_Called
      else if \<not> dbl_positive bits then Inl Abort_Called
      else
        let v = decode_double bits;
            m_plus = new_diyfp (2 * dfp_f v + 1) (dfp_e v - 1);
            m_minus = (if lower_boundary_is_closer bits then new_diyfp (4 * dfp_f v - 1) (dfp_e v - 2)
                       else new_diyfp (2 * dfp_f v - 1) (dfp_e v - 1))
        in rbind (diyfp_normalize m_plus) (\<lambda>w_plus.
           rbind (diyfp_normalize_to m_minus (dfp_e w_plus)) (\<lambda>w_minus.
           rbind (diyfp_normalize v) (\<lambda>w.
           Inr \<lparr>bnd_w = w, bnd_minus = w_minus, bnd_plus = w_plus\<rparr>))))"

section \<open>The numbers of words\<close>

text \<open>Without overflow the operations on words are those on numbers.\<close>

lemma unat_push: "unat w * 2 ^ n < 2 ^ LENGTH('a) \<Longrightarrow> unat (push_bit n (w :: 'a::len word)) = unat w * 2 ^ n"
  by (simp only: unsigned_push_bit_eq push_bit_eq_mult [of n "unat w"] take_bit_nat_eq_self)

lemma unat_drop: "unat (drop_bit n (w :: 'a::len word)) = unat w div 2 ^ n"
  by (simp only: unat_drop_bit_eq drop_bit_eq_div [of n "unat w"])

lemma unat_mask: "unat (w AND mask n) = unat (w :: 'a::len word) mod 2 ^ n"
  by (simp only: take_bit_eq_mask [symmetric] unsigned_take_bit_eq take_bit_eq_mod [of n "unat w"])

lemma unat_add: "unat v + unat w < 2 ^ LENGTH('a) \<Longrightarrow> unat (v + w) = unat (v :: 'a::len word) + unat w"
  by (simp add: unat_word_ariths)

lemma unat_mult: "unat v * unat w < 2 ^ LENGTH('a) \<Longrightarrow> unat (v * w) = unat (v :: 'a::len word) * unat w"
  by (simp add: unat_word_ariths)

lemma unat_less: "unat (w :: u64) < 2 ^ 64"
  using unsigned_less [of w] by simp

lemma unat_eq_0: "unat w = 0 \<longleftrightarrow> w = 0"
  by (rule unsigned_eq_0_iff)

lemma top_bit_clear_iff: "drop_bit 63 (f :: u64) = 0 \<longleftrightarrow> unat f < 2 ^ 63"
  using unat_drop [of 63 f] by (metis div_eq_0_iff unat_eq_0 power_not_zero zero_neq_numeral)

lemma unat_shift_1: "unat (f :: u64) < 2 ^ 63 \<Longrightarrow> unat (push_bit 1 f) = 2 * unat f"
  using unat_push [of f 1] by simp

termination diyfp_normalize
proof (relation "measure (\<lambda>x. 2 ^ 64 - unat (dfp_f x))", goal_cases)
  case (2 x)
  then have "unat (dfp_f x) < 2 ^ 63" "unat (dfp_f x) \<noteq> 0"
    by (simp_all add: top_bit_clear_iff unat_eq_0)
  then show ?case
    using unat_shift_1 [of "dfp_f x"] by (simp add: new_diyfp_def)
qed simp

declare diyfp_normalize.simps [simp del]

section \<open>Multiplication\<close>

lemma high_product_parts:
  fixes p :: nat
  assumes "p = P3 * 2 ^ 64 + (P1 + P2) * 2 ^ 32 + P0"
    and "P0 = h0 * 2 ^ 32 + l0" "P1 = h1 * 2 ^ 32 + l1" "P2 = h2 * 2 ^ 32 + l2"
    and "h0 + l1 + l2 + 2 ^ 31 = hq * 2 ^ 32 + lq" and "l0 < 2 ^ 32" "lq < 2 ^ 32"
  shows "P3 + h2 + h1 + hq = (p + 2 ^ 63) div 2 ^ 64"
proof -
  have "p + 2 ^ 63 = (P3 + h2 + h1 + hq) * 2 ^ 64 + (lq * 2 ^ 32 + l0)"
    using assms(1-5) by simp
  moreover have "lq * 2 ^ 32 + l0 < 2 ^ 64"
    using assms(6,7) by simp
  ultimately show ?thesis by simp
qed

lemma high_product:
  fixes x y :: nat
  defines "u \<equiv> x mod 2 ^ 32" and "v \<equiv> y mod 2 ^ 32" and "U \<equiv> x div 2 ^ 32" and "V \<equiv> y div 2 ^ 32"
  defines "Q \<equiv> u * v div 2 ^ 32 + u * V mod 2 ^ 32 + U * v mod 2 ^ 32 + 2 ^ 31"
  shows "U * V + U * v div 2 ^ 32 + u * V div 2 ^ 32 + Q div 2 ^ 32 = (x * y + 2 ^ 63) div 2 ^ 64"
proof (rule high_product_parts [where ?l0.0 = "u * v mod 2 ^ 32"])
  have "x * y = (U * 2 ^ 32 + u) * (V * 2 ^ 32 + v)"
    by (simp only: u_def v_def U_def V_def div_mult_mod_eq)
  then show "x * y = U * V * 2 ^ 64 + (u * V + U * v) * 2 ^ 32 + u * v"
    by (simp add: algebra_simps)
  show "u * v div 2 ^ 32 + u * V mod 2 ^ 32 + U * v mod 2 ^ 32 + 2 ^ 31 = Q div 2 ^ 32 * 2 ^ 32 + Q mod 2 ^ 32"
    by (simp only: div_mult_mod_eq Q_def)
qed (simp_all only: div_mult_mod_eq mod_less_divisor zero_less_numeral zero_less_power)

lemma low_half: "unat (w AND 0xFFFFFFFF) = unat (w :: u64) mod 2 ^ 32"
  using unat_mask [of w 32] by (simp add: mask_eq_exp_minus_1)

lemma product_of_halves: "a < 2 ^ 32 \<Longrightarrow> b < 2 ^ 32 \<Longrightarrow> a * b \<le> (2 ^ 32 - 1) * (2 ^ 32 - 1 :: nat)"
  by (rule mult_le_mono) simp_all

lemma diyfp_mul_exponent [simp]: "dfp_e (diyfp_mul x y) = dfp_e x + dfp_e y + 64"
  by (simp add: diyfp_mul_def new_diyfp_def Let_def)

lemma diyfp_mul_significand:
  "unat (dfp_f (diyfp_mul x y)) = (unat (dfp_f x) * unat (dfp_f y) + 2 ^ 63) div 2 ^ 64"
proof -
  define a b where "a = unat (dfp_f x)" and "b = unat (dfp_f y)"
  define u v U V where "u = a mod 2 ^ 32" and "v = b mod 2 ^ 32" and "U = a div 2 ^ 32" and "V = b div 2 ^ 32"
  have ab: "a < 2 ^ 64" "b < 2 ^ 64"
    unfolding a_def b_def by (rule unat_less)+
  have less: "u < 2 ^ 32" "v < 2 ^ 32" "U < 2 ^ 32" "V < 2 ^ 32"
    using ab by (simp_all add: u_def v_def U_def V_def)
  note prods = product_of_halves [OF less(1,2)] product_of_halves [OF less(1,4)]
    product_of_halves [OF less(3,2)] product_of_halves [OF less(3,4)]
  define ul uh vl vh where "ul = dfp_f x AND 0xFFFFFFFF" and "uh = drop_bit 32 (dfp_f x)"
    and "vl = dfp_f y AND 0xFFFFFFFF" and "vh = drop_bit 32 (dfp_f y)"
  have halves: "unat ul = u" "unat uh = U" "unat vl = v" "unat vh = V"
    unfolding ul_def uh_def vl_def vh_def u_def v_def U_def V_def a_def b_def
    by (rule low_half unat_drop)+
  have p: "unat (ul * vl) = u * v" "unat (ul * vh) = u * V" "unat (uh * vl) = U * v" "unat (uh * vh) = U * V"
    using prods by (simp_all add: unat_mult halves)
  define Q where "Q = drop_bit 32 (ul * vl) + (ul * vh AND 0xFFFFFFFF) + (uh * vl AND 0xFFFFFFFF) + push_bit (64 - 32 - 1) 1"
  have lows: "unat (ul * vh AND 0xFFFFFFFF) = u * V mod 2 ^ 32" "unat (uh * vl AND 0xFFFFFFFF) = U * v mod 2 ^ 32"
    "unat (drop_bit 32 (ul * vl)) = u * v div 2 ^ 32" "unat (drop_bit 32 (ul * vh)) = u * V div 2 ^ 32"
    "unat (drop_bit 32 (uh * vl)) = U * v div 2 ^ 32"
    by (simp_all only: low_half unat_drop p)
  define q where "q = u * v div 2 ^ 32 + u * V mod 2 ^ 32 + U * v mod 2 ^ 32 + 2 ^ 31"
  have small: "u * v div 2 ^ 32 < 2 ^ 32" "u * V mod 2 ^ 32 < 2 ^ 32" "U * v mod 2 ^ 32 < 2 ^ 32"
    "u * V div 2 ^ 32 < 2 ^ 32" "U * v div 2 ^ 32 < 2 ^ 32"
    using prods by (simp_all add: less_mult_imp_div_less)
  have uQ: "unat Q = q"
    unfolding Q_def q_def using small by (simp add: unat_word_ariths lows)
  have h: "U * V + U * v div 2 ^ 32 + u * V div 2 ^ 32 + q div 2 ^ 32 = (a * b + 2 ^ 63) div 2 ^ 64"
    unfolding q_def u_def v_def U_def V_def by (rule high_product)
  have "a * b \<le> (2 ^ 64 - 1) * (2 ^ 64 - 1)"
    using ab by (intro mult_le_mono) simp_all
  then have "(a * b + 2 ^ 63) div 2 ^ 64 < 2 ^ 64"
    by simp
  then have "unat (uh * vh + drop_bit 32 (uh * vl) + drop_bit 32 (ul * vh) + drop_bit 32 Q)
      = (a * b + 2 ^ 63) div 2 ^ 64"
    unfolding h [symmetric] by (simp add: unat_word_ariths(1) lows p unat_drop [of 32 Q] uQ)
  then show ?thesis
    by (simp add: diyfp_mul_def new_diyfp_def Let_def a_def b_def Q_def ul_def uh_def vl_def vh_def)
qed

section \<open>Normalization\<close>

lemma diyfp_sel [simp]: "dfp_f (new_diyfp f e) = f" "dfp_e (new_diyfp f e) = e"
  by (simp_all add: new_diyfp_def)

lemma diyfp_normalize_shift:
  assumes "2 ^ 63 \<le> unat (dfp_f x) * 2 ^ s" "unat (dfp_f x) * 2 ^ s < 2 ^ 64"
  shows "diyfp_normalize x = Inr (new_diyfp (push_bit s (dfp_f x)) (dfp_e x - int s))"
  using assms
proof (induction s arbitrary: x)
  case 0
  then show ?case
    using diyfp_normalize.simps [of x] top_bit_clear_iff [of "dfp_f x"]
    by (auto simp: new_diyfp_def simp flip: unat_eq_0)
next
  case (Suc s)
  have "unat (dfp_f x) * 2 ^ s < 2 ^ 63"
    using Suc.prems(2) by simp
  then have half: "unat (dfp_f x) < 2 ^ 63"
    by (rule order.strict_trans1 [rotated]) simp
  have "dfp_f x \<noteq> 0"
    using Suc.prems(1) by auto
  note half = half this
  have "diyfp_normalize x = diyfp_normalize (new_diyfp (push_bit 1 (dfp_f x)) (dfp_e x - 1))"
    using diyfp_normalize.simps [of x] half by (simp add: top_bit_clear_iff)
  also have "\<dots> = Inr (new_diyfp (push_bit s (push_bit 1 (dfp_f x))) (dfp_e x - 1 - int s))"
    using Suc.prems unat_shift_1 [OF half(1)]
    by (subst Suc.IH) (simp_all add: mult_ac)
  finally show ?case
    by (simp add: push_bit_push_bit algebra_simps)
qed

lemma diyfp_normalize_to_shift:
  assumes "unat (dfp_f x) * 2 ^ s < 2 ^ 64" "s < 64" "dfp_e x - t = int s"
  shows "diyfp_normalize_to x t = Inr (new_diyfp (push_bit s (dfp_f x)) t)"
proof -
  have "unat (drop_bit s (push_bit s (dfp_f x))) = unat (dfp_f x)"
    using unat_push [of "dfp_f x" s] assms(1) by (simp add: unat_drop)
  then have "drop_bit s (push_bit s (dfp_f x)) = dfp_f x"
    by (simp add: word_unat_eq_iff)
  then show ?thesis
    using assms(2,3) by (simp add: diyfp_normalize_to_def Let_def)
qed

section \<open>Doubles\<close>

lemma exponent_field_nat: "unat (exponent_field b) = unat b div 2 ^ 52 mod 2 ^ 11"
  using unat_mask [of "drop_bit 52 b" 11]
  by (simp add: exponent_field_def unat_drop [of 52] mask_eq_exp_minus_1)

lemma dbl_signbit_nat: "dbl_signbit b \<longleftrightarrow> 2 ^ 63 \<le> unat b"
  using top_bit_clear_iff [of b] by (auto simp: dbl_signbit_def)

lemma dbl_isfinite_nat: "dbl_isfinite b \<longleftrightarrow> unat b div 2 ^ 52 mod 2 ^ 11 \<noteq> 2047"
  using exponent_field_nat [of b] by (auto simp: dbl_isfinite_def word_unat_eq_iff)

text \<open>The positive finite doubles are those whose representation is a number between 1 and \<open>2047 * 2 ^ 52 - 1\<close>.\<close>

definition positive_finite :: "binary64 \<Rightarrow> bool" where
  "positive_finite b \<longleftrightarrow> 0 < unat b \<and> unat b < 2047 * 2 ^ 52"

lemma positive_finite_iff: "positive_finite b \<longleftrightarrow> dbl_isfinite b \<and> dbl_positive b"
proof
  assume b: "positive_finite b"
  then have q: "unat b div 2 ^ 52 < 2047"
    unfolding positive_finite_def by (intro less_mult_imp_div_less) simp
  have "b \<le> push_bit 52 0x7FF"
    using b by (simp add: positive_finite_def word_le_nat_alt)
  moreover have "b \<noteq> 0" "b \<noteq> push_bit 63 1"
    using b by (auto simp: positive_finite_def)
  ultimately show "dbl_isfinite b \<and> dbl_positive b"
    using b q by (simp add: dbl_isfinite_nat dbl_positive_def dbl_signbit_nat dbl_is_zero_def positive_finite_def)
next
  assume b: "dbl_isfinite b \<and> dbl_positive b"
  then have "0 < unat b" and less: "unat b < 2 ^ 63" and ne: "unat b div 2 ^ 52 mod 2 ^ 11 \<noteq> 2047"
    by (auto simp: dbl_isfinite_nat dbl_positive_def dbl_signbit_nat dbl_is_zero_def unat_gt_0)
  have "unat b div 2 ^ 52 < 2 ^ 11"
    using less by (simp add: less_mult_imp_div_less)
  then have "unat b div 2 ^ 52 < 2047"
    using ne by simp
  then have "unat b < 2047 * 2 ^ 52"
    by (simp add: div_less_iff_less_mult)
  then show "positive_finite b"
    using \<open>0 < unat b\<close> by (simp add: positive_finite_def)
qed

text \<open>Significand and exponent of a positive finite double: its value is \<open>mant b * 2 ^ expo b\<close>.\<close>

definition mant :: "binary64 \<Rightarrow> nat" where
  "mant b = unat (dfp_f (decode_double b))"

definition expo :: "binary64 \<Rightarrow> int" where
  "expo b = dfp_e (decode_double b)"

lemma hidden_bit: "kHiddenBit = 2 ^ 52" "kBias = 1075" "kMinExp = - 1074"
  by (simp_all add: kHiddenBit_def kPrecision_def kBias_def kMinExp_def)

lemma fraction_nat: "unat (b AND (kHiddenBit - 1)) = unat b mod 2 ^ 52"
  using unat_mask [of b 52] by (simp add: hidden_bit mask_eq_exp_minus_1)

lemma decode_double_nat:
  "mant b = (if unat b div 2 ^ 52 = 0 then unat b mod 2 ^ 52 else unat b mod 2 ^ 52 + 2 ^ 52)"
  "expo b = (if unat b div 2 ^ 52 = 0 then - 1074 else int (unat b div 2 ^ 52) - 1075)"
proof -
  have E: "drop_bit 52 b = 0 \<longleftrightarrow> unat b div 2 ^ 52 = 0"
    by (simp only: unat_drop [symmetric] unat_eq_0)
  have F: "unat ((b AND (kHiddenBit - 1)) + kHiddenBit) = unat b mod 2 ^ 52 + 2 ^ 52"
  proof -
    have "unat b mod 2 ^ 52 < 2 ^ 52" "unat kHiddenBit = 2 ^ 52"
      by (simp_all add: hidden_bit)
    then show ?thesis
      using unat_add [of "b AND (kHiddenBit - 1)" kHiddenBit] by (simp add: fraction_nat)
  qed
  have U: "uint (drop_bit 52 b) = int (unat b div 2 ^ 52)"
    by (simp only: unat_drop [symmetric]) simp
  show "mant b = (if unat b div 2 ^ 52 = 0 then unat b mod 2 ^ 52 else unat b mod 2 ^ 52 + 2 ^ 52)"
    using E F by (simp add: mant_def decode_double_def Let_def kPrecision_def fraction_nat)
  show "expo b = (if unat b div 2 ^ 52 = 0 then - 1074 else int (unat b div 2 ^ 52) - 1075)"
    using E U by (simp add: expo_def decode_double_def Let_def kPrecision_def hidden_bit)
qed

lemma mant_expo_bounds:
  assumes "positive_finite b"
  shows "1 \<le> mant b" "mant b < 2 ^ 53" "- 1074 \<le> expo b" "expo b \<le> 971"
    "mant b < 2 ^ 52 \<Longrightarrow> expo b = - 1074"
proof -
  have f: "unat b mod 2 ^ 52 < 2 ^ 52" by simp
  have q: "unat b div 2 ^ 52 < 2047"
    using assms unfolding positive_finite_def by (intro less_mult_imp_div_less) simp
  have "unat b \<noteq> 0"
    using assms by (simp add: positive_finite_def)
  then have nz: "unat b div 2 ^ 52 = 0 \<Longrightarrow> unat b mod 2 ^ 52 \<noteq> 0"
    by (metis div_mult_mod_eq add.right_neutral mult_zero_left)
  show "1 \<le> mant b" using nz by (auto simp: decode_double_nat)
  show "mant b < 2 ^ 53" using f by (auto simp: decode_double_nat)
  show "- 1074 \<le> expo b" by (auto simp: decode_double_nat)
  show "expo b \<le> 971" using q by (auto simp: decode_double_nat)
  show "mant b < 2 ^ 52 \<Longrightarrow> expo b = - 1074" by (auto simp: decode_double_nat)
qed

lemma lower_boundary_nat:
  "lower_boundary_is_closer b \<longleftrightarrow> mant b = 2 ^ 52 \<and> expo b > - 1074"
proof -
  have "b AND (kHiddenBit - 1) = 0 \<longleftrightarrow> unat b mod 2 ^ 52 = 0"
    by (simp only: fraction_nat [symmetric] unat_eq_0)
  moreover have "drop_bit 52 b > 1 \<longleftrightarrow> unat b div 2 ^ 52 > 1"
    by (simp add: word_less_nat_alt unat_drop [of 52])
  moreover have "unat b mod 2 ^ 52 \<noteq> 2 ^ 52"
    using mod_less_divisor [of "2 ^ 52" "unat b"] by simp
  ultimately show ?thesis
    by (auto simp: lower_boundary_is_closer_def kPrecision_def decode_double_nat)
qed

section \<open>The boundaries\<close>

lemma normalizing_shift:
  assumes "1 \<le> (a :: nat)" "a < 2 ^ 53"
  obtains s where "2 ^ 63 \<le> 2 * a * 2 ^ s" "(2 * a + 1) * 2 ^ s < 2 ^ 64" "10 \<le> s" "s \<le> 62"
proof -
  obtain n where n: "2 ^ n \<le> 2 * a + 1" "2 * a + 1 < 2 ^ (n + 1)"
    using ex_power_ivl1 [of 2 "2 * a + 1"] by auto
  have "2 ^ n < (2 :: nat) ^ 54"
    using n(1) assms(2) by simp
  then have n54: "n < 54" by (rule power_less_imp_less_exp [rotated]) simp
  have "(2 :: nat) ^ 1 < 2 ^ (n + 1)"
    using n(2) assms(1) by simp
  then have n1: "1 \<le> n"
    by (simp only: power_strict_increasing_iff one_less_numeral_iff semiring_norm)
  have even: "2 ^ n \<le> 2 * a"
  proof -
    have "even ((2 :: nat) ^ n)" using n1 by simp
    then have "2 ^ n \<noteq> 2 * a + 1" by (metis odd_two_times_div_two_succ even_Suc dvd_triv_left Suc_eq_plus1)
    then show ?thesis using n(1) by simp
  qed
  define s where "s = 63 - n"
  have s: "(2 :: nat) ^ n * 2 ^ s = 2 ^ 63" "(2 :: nat) ^ (n + 1) * 2 ^ s = 2 ^ 64"
    using n54 by (simp_all add: s_def flip: power_add)
  have "2 ^ n * 2 ^ s \<le> 2 * a * 2 ^ s" "(2 * a + 1) * 2 ^ s < 2 ^ (n + 1) * 2 ^ s"
    by (rule mult_le_mono1 [OF even], rule mult_less_mono1 [OF n(2)], simp)
  then show ?thesis
    using that [of s] n54 n1 unfolding s by (simp add: s_def)
qed

text \<open>
  For a positive finite double with significand \<open>a\<close> and exponent \<open>e\<close> no assertion fails, and
  the three results share the exponent \<open>e - 1 - s\<close>: \<open>a\<close> itself, the midpoint above, and the
  midpoint below.
\<close>

definition minus_scaled :: "binary64 \<Rightarrow> nat \<Rightarrow> nat" where
  "minus_scaled b s = (if lower_boundary_is_closer b then (4 * mant b - 1) * 2 ^ (s - 1) else (2 * mant b - 1) * 2 ^ s)"

lemma unat_pred_word: "0 < unat w \<Longrightarrow> unat (w - 1) = unat (w :: u64) - 1"
  by (simp add: unat_sub word_le_nat_alt Suc_leI)

lemma compute_boundaries_eq:
  assumes b: "positive_finite b"
  obtains s fw fm fp where
    "10 \<le> s" "s \<le> 62" "2 ^ 63 \<le> 2 * mant b * 2 ^ s" "(2 * mant b + 1) * 2 ^ s < 2 ^ 64"
    "compute_boundaries b = Inr \<lparr>bnd_w = new_diyfp fw (expo b - 1 - int s),
       bnd_minus = new_diyfp fm (expo b - 1 - int s), bnd_plus = new_diyfp fp (expo b - 1 - int s)\<rparr>"
    "unat fw = 2 * mant b * 2 ^ s" "unat fp = (2 * mant b + 1) * 2 ^ s" "unat fm = minus_scaled b s"
proof -
  let ?v = "decode_double b"
  have bounds: "1 \<le> mant b" "mant b < 2 ^ 53" by (rule mant_expo_bounds [OF b])+
  obtain s where s: "2 ^ 63 \<le> 2 * mant b * 2 ^ s" "(2 * mant b + 1) * 2 ^ s < 2 ^ 64" "10 \<le> s" "s \<le> 62"
    by (rule normalizing_shift [OF bounds])
  have f2: "unat (2 * dfp_f ?v) = 2 * mant b" "unat (4 * dfp_f ?v) = 4 * mant b"
    using bounds by (simp_all add: unat_mult mant_def)
  have fp: "unat (2 * dfp_f ?v + 1) = 2 * mant b + 1"
    using bounds by (subst unat_add) (simp_all add: f2)
  have fm: "unat (2 * dfp_f ?v - 1) = 2 * mant b - 1" "unat (4 * dfp_f ?v - 1) = 4 * mant b - 1"
    using bounds by (simp_all add: unat_pred_word f2)
  have le: "2 * mant b * 2 ^ s < 2 ^ 64" "(2 * mant b - 1) * 2 ^ s < 2 ^ 64"
    by (rule order.strict_trans1 [OF mult_le_mono1 s(2)], simp)+
  have le4: "(4 * mant b - 1) * 2 ^ (s - 1) < 2 ^ 64"
  proof -
    have "(4 * mant b - 1) * 2 ^ (s - 1) \<le> 2 * (2 * mant b + 1) * 2 ^ (s - 1)"
      by (intro mult_le_mono) simp_all
    also have "\<dots> = (2 * mant b + 1) * 2 ^ s"
      using s(3) by (cases s) simp_all
    finally show ?thesis using s(2) by simp
  qed
  have plus: "diyfp_normalize (new_diyfp (2 * dfp_f ?v + 1) (expo b - 1)) =
      Inr (new_diyfp (push_bit s (2 * dfp_f ?v + 1)) (expo b - 1 - int s))"
    using diyfp_normalize_shift [of "new_diyfp (2 * dfp_f ?v + 1) (expo b - 1)" s] s(1,2) by (simp add: fp)
  have w: "diyfp_normalize ?v = Inr (new_diyfp (push_bit (s + 1) (dfp_f ?v)) (expo b - 1 - int s))"
    using diyfp_normalize_shift [of ?v "s + 1"] s(1) le(1) by (simp add: mant_def expo_def algebra_simps)
  have minus: "diyfp_normalize_to
        (if lower_boundary_is_closer b then new_diyfp (4 * dfp_f ?v - 1) (expo b - 2) else new_diyfp (2 * dfp_f ?v - 1) (expo b - 1))
        (expo b - 1 - int s) =
      Inr (new_diyfp (if lower_boundary_is_closer b then push_bit (s - 1) (4 * dfp_f ?v - 1)
                  else push_bit s (2 * dfp_f ?v - 1)) (expo b - 1 - int s))"
    using le le4 s(3,4)
    by (auto simp: fm of_nat_diff intro!: diyfp_normalize_to_shift [THEN trans])
  have ok: "dbl_isfinite b" "dbl_positive b"
    using b by (simp_all add: positive_finite_iff)
  have "compute_boundaries b = Inr \<lparr>bnd_w = new_diyfp (push_bit (s + 1) (dfp_f ?v)) (expo b - 1 - int s),
       bnd_minus = new_diyfp (if lower_boundary_is_closer b then push_bit (s - 1) (4 * dfp_f ?v - 1)
                  else push_bit s (2 * dfp_f ?v - 1)) (expo b - 1 - int s),
       bnd_plus = new_diyfp (push_bit s (2 * dfp_f ?v + 1)) (expo b - 1 - int s)\<rparr>"
    using plus w minus ok
    by (cases "lower_boundary_is_closer b") (simp_all add: compute_boundaries_def Let_def expo_def)
  moreover have "unat (push_bit (s + 1) (dfp_f ?v)) = 2 * mant b * 2 ^ s"
    using le(1) by (subst unat_push) (simp_all add: mant_def mult_ac)
  moreover have "unat (push_bit s (2 * dfp_f ?v + 1)) = (2 * mant b + 1) * 2 ^ s"
    using s(2) by (subst unat_push) (simp_all add: fp)
  moreover have "unat (if lower_boundary_is_closer b then push_bit (s - 1) (4 * dfp_f ?v - 1)
                  else push_bit s (2 * dfp_f ?v - 1)) = minus_scaled b s"
    unfolding minus_scaled_def using le(2) le4 by (auto simp: unat_push fm)
  ultimately show ?thesis
    using that [of s] s by blast
qed

end
