(* ===== verification/Cached_Powers.thy ===== *)
theory Cached_Powers
  imports Diyfp "HOL-Library.Signed_Division"
begin

text \<open>
  The table of powers of ten of client/include/json.hpp and the choice of the power that
  brings a normalized number into the exponent range \<open>kAlpha\<close> to \<open>kGamma\<close> in which its
  digits can be generated (\<open>get_cached_power_for_binary_exponent\<close>). Division of \<open>int\<close>
  rounds towards 0 (\<open>sdiv\<close>). The lemmas show that every exponent a double can have finds its
  power, and that each of the 79 entries is the power of ten it stands for, up to half a unit
  of its last place.
\<close>

definition kAlpha :: int where "kAlpha = - 60"
definition kGamma :: int where "kGamma = - 32"

record cached_power =
  cp_f :: u64
  cp_e :: int
  cp_k :: int

definition cached_entry :: "u64 \<times> int \<times> int \<Rightarrow> cached_power" where
  "cached_entry = (\<lambda>(f, e, k). \<lparr>cp_f = f, cp_e = e, cp_k = k\<rparr>)"

definition kCachedPowers :: "(u64 \<times> int \<times> int) list" where
  "kCachedPowers =
    [
     (0xAB70FE17C79AC6CA, - 1060, - 300), (0xFF77B1FCBEBCDC4F, - 1034, - 292),
     (0xBE5691EF416BD60C, - 1007, - 284), (0x8DD01FAD907FFC3C, - 980, - 276),
     (0xD3515C2831559A83, - 954, - 268), (0x9D71AC8FADA6C9B5, - 927, - 260),
     (0xEA9C227723EE8BCB, - 901, - 252), (0xAECC49914078536D, - 874, - 244),
     (0x823C12795DB6CE57, - 847, - 236), (0xC21094364DFB5637, - 821, - 228),
     (0x9096EA6F3848984F, - 794, - 220), (0xD77485CB25823AC7, - 768, - 212),
     (0xA086CFCD97BF97F4, - 741, - 204), (0xEF340A98172AACE5, - 715, - 196),
     (0xB23867FB2A35B28E, - 688, - 188), (0x84C8D4DFD2C63F3B, - 661, - 180),
     (0xC5DD44271AD3CDBA, - 635, - 172), (0x936B9FCEBB25C996, - 608, - 164),
     (0xDBAC6C247D62A584, - 582, - 156), (0xA3AB66580D5FDAF6, - 555, - 148),
     (0xF3E2F893DEC3F126, - 529, - 140), (0xB5B5ADA8AAFF80B8, - 502, - 132),
     (0x87625F056C7C4A8B, - 475, - 124), (0xC9BCFF6034C13053, - 449, - 116),
     (0x964E858C91BA2655, - 422, - 108), (0xDFF9772470297EBD, - 396, - 100),
     (0xA6DFBD9FB8E5B88F, - 369, - 92), (0xF8A95FCF88747D94, - 343, - 84),
     (0xB94470938FA89BCF, - 316, - 76), (0x8A08F0F8BF0F156B, - 289, - 68),
     (0xCDB02555653131B6, - 263, - 60), (0x993FE2C6D07B7FAC, - 236, - 52),
     (0xE45C10C42A2B3B06, - 210, - 44), (0xAA242499697392D3, - 183, - 36),
     (0xFD87B5F28300CA0E, - 157, - 28), (0xBCE5086492111AEB, - 130, - 20),
     (0x8CBCCC096F5088CC, - 103, - 12), (0xD1B71758E219652C, - 77, - 4),
     (0x9C40000000000000, - 50, 4), (0xE8D4A51000000000, - 24, 12),
     (0xAD78EBC5AC620000, 3, 20), (0x813F3978F8940984, 30, 28),
     (0xC097CE7BC90715B3, 56, 36), (0x8F7E32CE7BEA5C70, 83, 44),
     (0xD5D238A4ABE98068, 109, 52), (0x9F4F2726179A2245, 136, 60),
     (0xED63A231D4C4FB27, 162, 68), (0xB0DE65388CC8ADA8, 189, 76),
     (0x83C7088E1AAB65DB, 216, 84), (0xC45D1DF942711D9A, 242, 92),
     (0x924D692CA61BE758, 269, 100), (0xDA01EE641A708DEA, 295, 108),
     (0xA26DA3999AEF774A, 322, 116), (0xF209787BB47D6B85, 348, 124),
     (0xB454E4A179DD1877, 375, 132), (0x865B86925B9BC5C2, 402, 140),
     (0xC83553C5C8965D3D, 428, 148), (0x952AB45CFA97A0B3, 455, 156),
     (0xDE469FBD99A05FE3, 481, 164), (0xA59BC234DB398C25, 508, 172),
     (0xF6C69A72A3989F5C, 534, 180), (0xB7DCBF5354E9BECE, 561, 188),
     (0x88FCF317F22241E2, 588, 196), (0xCC20CE9BD35C78A5, 614, 204),
     (0x98165AF37B2153DF, 641, 212), (0xE2A0B5DC971F303A, 667, 220),
     (0xA8D9D1535CE3B396, 694, 228), (0xFB9B7CD9A4A7443C, 720, 236),
     (0xBB764C4CA7A44410, 747, 244), (0x8BAB8EEFB6409C1A, 774, 252),
     (0xD01FEF10A657842C, 800, 260), (0x9B10A4E5E9913129, 827, 268),
     (0xE7109BFBA19C0C9D, 853, 276), (0xAC2820D9623BF429, 880, 284),
     (0x80444B5E7AA7CF85, 907, 292), (0xBF21E44003ACDD2D, 933, 300),
     (0x8E679C2F5E44FF8F, 960, 308), (0xD433179D9C8CB841, 986, 316),
     (0x9E19DB92B4E31BA9, 1013, 324)
    ]"

definition kCachedPowersMinDecExp :: int where "kCachedPowersMinDecExp = - 300"
definition kCachedPowersDecStep :: int where "kCachedPowersDecStep = 8"

definition cached_index :: "int \<Rightarrow> int" where
  "cached_index e =
     (let f = kAlpha - e - 1;
          k = (f * 78913) sdiv (2 ^ 18) + (if f > 0 then 1 else 0)
      in (- kCachedPowersMinDecExp + k + (kCachedPowersDecStep - 1)) sdiv kCachedPowersDecStep)"

definition get_cached_power_for_binary_exponent :: "int \<Rightarrow> cached_power result" where
  "get_cached_power_for_binary_exponent e =
     (if \<not> e \<ge> - 1500 then Inl Abort_Called
      else if \<not> e \<le> 1500 then Inl Abort_Called
      else
        let index = cached_index e in
        if \<not> index \<ge> 0 then Inl Abort_Called
        else if \<not> index < int (length kCachedPowers) then Inl Abort_Called
        else
          let cached = cached_entry (kCachedPowers ! nat index) in
          if \<not> kAlpha \<le> cp_e cached + e + 64 then Inl Abort_Called
          else if \<not> kGamma \<ge> cp_e cached + e + 64 then Inl Abort_Called
          else Inr cached)"

section \<open>The table\<close>

text \<open>
  The entries for negative and for positive decimal exponents, each checked against the power
  of five that belongs to it. The power is carried along and multiplied by \<open>5 ^ 8\<close> from one
  entry to the next.
\<close>

definition half_near :: "nat \<Rightarrow> nat \<Rightarrow> nat \<Rightarrow> bool" where
  "half_near a b c \<longleftrightarrow> 2 * a \<le> 2 * b + c \<and> 2 * b \<le> 2 * a + c"

fun small_powers_ok :: "nat \<Rightarrow> int \<Rightarrow> (u64 \<times> int \<times> int) list \<Rightarrow> bool" where
  "small_powers_ok P n [] = True"
| "small_powers_ok P n ((f, e, k) # r) =
     (k = - n \<and> e \<le> k \<and> half_near (unat f * P) (2 ^ nat (k - e)) P \<and>
      small_powers_ok (P * 390625) (n + 8) r)"

fun large_powers_ok :: "nat \<Rightarrow> int \<Rightarrow> (u64 \<times> int \<times> int) list \<Rightarrow> bool" where
  "large_powers_ok P n [] = True"
| "large_powers_ok P n ((f, e, k) # r) =
     (k = n \<and>
      (if e \<le> k then unat f = P * 2 ^ nat (k - e)
       else half_near (unat f * 2 ^ nat (e - k)) P (2 ^ nat (e - k))) \<and>
      large_powers_ok (P * 390625) (n + 8) r)"

definition entry_ok :: "nat \<Rightarrow> u64 \<times> int \<times> int \<Rightarrow> bool" where
  "entry_ok j = (\<lambda>(f, e, k).
     k = 8 * int j - 300 \<and> 2 ^ 63 \<le> unat f \<and>
     (e + 36) * 78913 < (8 * int j - 308) * 2 ^ 18 \<and> (8 * int j - 300) * 2 ^ 18 < (e + 64) * 78913)"

lemma length_kCachedPowers [simp]: "length kCachedPowers = 79"
  by (simp add: kCachedPowers_def)

lemma kCachedPowers_ok: "list_all (\<lambda>(j, c). entry_ok j c) (List.enumerate 0 kCachedPowers)"
  by (simp add: kCachedPowers_def entry_ok_def)

lemma kCachedPowers_small: "small_powers_ok 625 4 (rev (take 38 kCachedPowers))"
  by (simp add: kCachedPowers_def half_near_def)

lemma kCachedPowers_large: "large_powers_ok 625 4 (drop 38 kCachedPowers)"
  by (simp add: kCachedPowers_def half_near_def)

section \<open>The choice of the power\<close>

text \<open>The exponents of the normalized boundaries of doubles.\<close>

definition double_exponent :: "int \<Rightarrow> bool" where
  "double_exponent e \<longleftrightarrow> - 1137 \<le> e \<and> e \<le> 960"

lemma sdiv_pos: "0 \<le> a \<Longrightarrow> 0 < b \<Longrightarrow> a sdiv b = a div (b :: int)"
  by (auto simp: signed_divide_int_def sgn_if)

lemma sdiv_neg: "a \<le> 0 \<Longrightarrow> 0 < b \<Longrightarrow> a sdiv b = - ((- a) div (b :: int))"
  by (auto simp: signed_divide_int_def sgn_if)

lemma floor_bounds: "0 < m \<Longrightarrow> x div m * m \<le> x \<and> x \<le> x div m * m + (m :: int)"
  using div_mult_mod_eq [of x m] pos_mod_bound [of m x] pos_mod_sign [of m x] by linarith

lemma scaled_log_bounds:
  fixes f :: int
  defines "k \<equiv> (f * 78913) sdiv (2 ^ 18) + (if f > 0 then 1 else 0)"
  shows "(k - 1) * 2 ^ 18 \<le> f * 78913" "f * 78913 \<le> k * 2 ^ 18"
proof -
  have "(k - 1) * 2 ^ 18 \<le> f * 78913 \<and> f * 78913 \<le> k * 2 ^ 18"
  proof (cases "f > 0")
    case True
    then have "k = f * 78913 div 2 ^ 18 + 1" by (simp add: k_def sdiv_pos)
    then show ?thesis
      using floor_bounds [of "2 ^ 18" "f * 78913"] by simp
  next
    case False
    then have "k = - ((- (f * 78913)) div 2 ^ 18)" by (simp add: k_def sdiv_neg)
    then show ?thesis
      using floor_bounds [of "2 ^ 18" "- (f * 78913)"] by simp
  qed
  then show "(k - 1) * 2 ^ 18 \<le> f * 78913" "f * 78913 \<le> k * 2 ^ 18" by simp_all
qed

lemma cached_index_bounds:
  assumes "double_exponent e"
  shows "0 \<le> cached_index e" "cached_index e < 79"
    "(8 * cached_index e - 308) * 2 ^ 18 \<le> (- 61 - e) * 78913"
    "(- 61 - e) * 78913 \<le> (8 * cached_index e - 300) * 2 ^ 18"
proof -
  define k where "k = ((- 61 - e) * 78913) sdiv (2 ^ 18) + (if - 61 - e > 0 then 1 else 0)"
  have k: "(k - 1) * 2 ^ 18 \<le> (- 61 - e) * 78913" "(- 61 - e) * 78913 \<le> k * 2 ^ 18"
    unfolding k_def by (rule scaled_log_bounds)+
  have "- 307 \<le> k" "k \<le> 324"
    using k assms by (simp_all add: double_exponent_def)
  moreover have idx: "cached_index e = (307 + k) sdiv 8"
    by (simp add: cached_index_def Let_def kAlpha_def kCachedPowersMinDecExp_def kCachedPowersDecStep_def k_def)
  ultimately have i: "cached_index e = (307 + k) div 8"
    by (simp add: sdiv_pos)
  then show "0 \<le> cached_index e" "cached_index e < 79"
    using \<open>- 307 \<le> k\<close> \<open>k \<le> 324\<close> by simp_all
  have "8 * cached_index e \<le> 307 + k" "307 + k \<le> 8 * cached_index e + 7"
    using i by simp_all
  then have "(8 * cached_index e - 308) * 2 ^ 18 \<le> (k - 1) * 2 ^ 18" "k * 2 ^ 18 \<le> (8 * cached_index e - 300) * 2 ^ 18"
    by simp_all
  then show "(8 * cached_index e - 308) * 2 ^ 18 \<le> (- 61 - e) * 78913"
    "(- 61 - e) * 78913 \<le> (8 * cached_index e - 300) * 2 ^ 18"
    using k by linarith+
qed

lemma entry_ok_nth: "j < 79 \<Longrightarrow> entry_ok j (kCachedPowers ! j)"
  using kCachedPowers_ok nth_mem [of j "List.enumerate 0 kCachedPowers"]
  by (auto simp: list_all_iff nth_enumerate_eq)

lemma cached_power_found:
  assumes "double_exponent e"
  obtains j f ec where "j < 79" "kCachedPowers ! j = (f, ec, 8 * int j - 300)" "2 ^ 63 \<le> unat f"
    "- 60 \<le> ec + e + 64" "ec + e + 64 \<le> - 34"
    "get_cached_power_for_binary_exponent e = Inr \<lparr>cp_f = f, cp_e = ec, cp_k = 8 * int j - 300\<rparr>"
proof -
  define j where "j = nat (cached_index e)"
  note idx = cached_index_bounds [OF assms]
  have j: "j < 79" "cached_index e = int j"
    using idx(1,2) by (simp_all add: j_def)
  obtain f ec k where c: "kCachedPowers ! j = (f, ec, k)" by (cases "kCachedPowers ! j")
  note ok = entry_ok_nth [OF j(1), unfolded c entry_ok_def, simplified]
  have lo: "(ec + 36) * 78913 < (- 61 - e) * 78913" and hi: "(- 61 - e) * 78913 < (ec + 64) * 78913"
    using ok idx(3,4) j(2) by simp_all
  have range: "- 60 \<le> ec + e + 64" "ec + e + 64 \<le> - 34"
    using lo hi by simp_all
  have "get_cached_power_for_binary_exponent e = Inr \<lparr>cp_f = f, cp_e = ec, cp_k = 8 * int j - 300\<rparr>"
    using assms j range c ok
    by (simp add: get_cached_power_for_binary_exponent_def Let_def cached_entry_def kAlpha_def kGamma_def double_exponent_def)
  then show ?thesis
    using that [of j f ec] j(1) c ok range by simp
qed

end
