(* ===== verification/Grisu.thy ===== *)
theory Grisu
  imports Cached_Powers Cpp_Strings
begin

text \<open>
  The digit generation of client/include/json.hpp (Grisu2, namespace \<open>detail::dtoa_impl\<close>):
  \<open>find_largest_pow10\<close>, \<open>grisu2_round\<close>, \<open>grisu2_digit_gen\<close> and \<open>grisu2\<close>. The digits are
  written through a pointer into the 64 bytes of the serializer's number buffer: the array,
  the index the pointer stands for, the number of digits written so far and the decimal
  exponent are one record, which the functions change as the code changes its reference
  parameters. A write or read outside the array is \<open>Undefined_Behaviour\<close>. Each \<open>while\<close> loop
  is a recursive function; the loop over the integral digits goes on to the fractional part
  when it has run out of digits, as the code does.
\<close>

unbundle bit_operations_syntax

section \<open>The buffer\<close>

record digit_buffer =
  db_array :: string
  db_start :: nat
  db_length :: nat
  db_exponent :: int

definition array_put :: "string \<Rightarrow> nat \<Rightarrow> char \<Rightarrow> string result" where
  "array_put a i c = (if i < length a then Inr (a[i := c]) else Inl Undefined_Behaviour)"

definition append_digit :: "nat \<Rightarrow> digit_buffer \<Rightarrow> digit_buffer result" where
  "append_digit d out =
     rbind (array_put (db_array out) (db_start out + db_length out) (digit_char d)) (\<lambda>a.
     Inr (out\<lparr>db_array := a, db_length := db_length out + 1\<rparr>))"

section \<open>Digit generation\<close>

definition find_largest_pow10 :: "u32 \<Rightarrow> nat \<times> u32" where
  "find_largest_pow10 n =
     (if n \<ge> 1000000000 then (10, 1000000000)
      else if n \<ge> 100000000 then (9, 100000000)
      else if n \<ge> 10000000 then (8, 10000000)
      else if n \<ge> 1000000 then (7, 1000000)
      else if n \<ge> 100000 then (6, 100000)
      else if n \<ge> 10000 then (5, 10000)
      else if n \<ge> 1000 then (4, 1000)
      else if n \<ge> 100 then (3, 100)
      else if n \<ge> 10 then (2, 10)
      else (1, 1))"

text \<open>
  The assertions at the start of \<open>grisu2_round\<close> hold again after each round of its loop, so
  testing them in each round changes nothing.
\<close>

function grisu2_round :: "u64 \<Rightarrow> u64 \<Rightarrow> u64 \<Rightarrow> u64 \<Rightarrow> digit_buffer \<Rightarrow> digit_buffer result" where
  "grisu2_round distance delta remainder ten_k out =
     (if \<not> db_length out \<ge> 1 then Inl Abort_Called
      else if \<not> distance \<le> delta then Inl Abort_Called
      else if \<not> remainder \<le> delta then Inl Abort_Called
      else if \<not> ten_k > 0 then Inl Abort_Called
      else if remainder < distance \<and> delta - remainder \<ge> ten_k \<and>
              (remainder + ten_k < distance \<or> distance - remainder > remainder + ten_k - distance)
      then
        let last = db_start out + db_length out - 1 in
        rbind (vec_at (db_array out) last) (\<lambda>c.
        if \<not> c \<noteq> CHR ''0'' then Inl Abort_Called
        else grisu2_round distance delta (remainder + ten_k) ten_k
               (out\<lparr>db_array := (db_array out)[last := char_of ((of_char c :: nat) + 255)]\<rparr>))
      else Inr out)"
  by pat_completeness auto

lemma round_step_bound:
  assumes "remainder \<le> (delta :: u64)" "delta - remainder \<ge> t"
  shows "unat (remainder + t) = unat remainder + unat t" "unat remainder + unat t \<le> unat delta"
proof -
  have "unat (delta - remainder) = unat delta - unat remainder"
    using assms(1) by (simp add: unat_sub)
  then show le: "unat remainder + unat t \<le> unat delta"
    using assms by (simp add: word_le_nat_alt)
  then show "unat (remainder + t) = unat remainder + unat t"
    using unat_less [of delta] by (intro unat_add) simp
qed

termination grisu2_round
proof (relation "measure (\<lambda>(distance, delta, remainder, ten_k, out). unat delta - unat remainder)", goal_cases)
  case (2 distance delta remainder ten_k out last c)
  then have "remainder \<le> delta" "delta - remainder \<ge> ten_k" "unat ten_k > 0"
    by (simp_all add: word_gt_0 unat_gt_0)
  then show ?case using round_step_bound [of remainder delta ten_k] by simp
qed simp

declare grisu2_round.simps [simp del]

text \<open>The loop of the fractional part; \<open>one\<close> stands for the exponent the numbers share.\<close>

function fractional_loop :: "diyfp \<Rightarrow> u64 \<Rightarrow> u64 \<Rightarrow> u64 \<Rightarrow> int \<Rightarrow> digit_buffer \<Rightarrow> digit_buffer result" where
  "fractional_loop one delta distance p2 m out =
     (if \<not> p2 \<le> (- 1) div 10 then Inl Abort_Called
      else
        let p2 = p2 * 10;
            d = drop_bit (nat (- dfp_e one)) p2;
            r = p2 AND (dfp_f one - 1)
        in if \<not> d \<le> 9 then Inl Abort_Called
           else
             rbind (append_digit (unat d) out) (\<lambda>out.
             let p2 = r;
                 m = m + 1;
                 delta = delta * 10;
                 distance = distance * 10
             in if p2 \<le> delta
                then grisu2_round distance delta p2 (dfp_f one) (out\<lparr>db_exponent := db_exponent out - m\<rparr>)
                else fractional_loop one delta distance p2 m out))"
  by pat_completeness auto
termination
  by (relation "measure (\<lambda>(one, delta, distance, p2, m, out). length (db_array out) - (db_start out + db_length out))")
    (auto simp: append_digit_def array_put_def split: if_splits)

declare fractional_loop.simps [simp del]

definition fractional_digits :: "diyfp \<Rightarrow> u64 \<Rightarrow> u64 \<Rightarrow> u64 \<Rightarrow> digit_buffer \<Rightarrow> digit_buffer result" where
  "fractional_digits one delta distance p2 out =
     (if \<not> p2 > delta then Inl Abort_Called
      else fractional_loop one delta distance p2 0 out)"

fun integral_loop :: "diyfp \<Rightarrow> u64 \<Rightarrow> u64 \<Rightarrow> u64 \<Rightarrow> nat \<Rightarrow> u32 \<Rightarrow> u32 \<Rightarrow> digit_buffer \<Rightarrow> digit_buffer result" where
  "integral_loop one delta distance p2 0 p1 pow10 out = fractional_digits one delta distance p2 out"
| "integral_loop one delta distance p2 (Suc n) p1 pow10 out =
     (if pow10 = 0 then Inl Undefined_Behaviour
      else
        let d = p1 div pow10;
            r = p1 mod pow10
        in if \<not> d \<le> 9 then Inl Abort_Called
           else
             rbind (append_digit (unat d) out) (\<lambda>out.
             let p1 = r;
                 remainder = push_bit (nat (- dfp_e one)) (ucast p1) + p2
             in if remainder \<le> delta
                then grisu2_round distance delta remainder (push_bit (nat (- dfp_e one)) (ucast pow10))
                       (out\<lparr>db_exponent := db_exponent out + int n\<rparr>)
                else integral_loop one delta distance p2 n p1 (pow10 div 10) out))"

definition grisu2_digit_gen :: "diyfp \<Rightarrow> diyfp \<Rightarrow> diyfp \<Rightarrow> digit_buffer \<Rightarrow> digit_buffer result" where
  "grisu2_digit_gen M_minus w M_plus out =
     (if \<not> dfp_e M_plus \<ge> kAlpha then Inl Abort_Called
      else if \<not> dfp_e M_plus \<le> kGamma then Inl Abort_Called
      else
        rbind (diyfp_sub M_plus M_minus) (\<lambda>delta.
        rbind (diyfp_sub M_plus w) (\<lambda>distance.
        let one = new_diyfp (push_bit (nat (- dfp_e M_plus)) 1) (dfp_e M_plus);
            p1 = ucast (drop_bit (nat (- dfp_e one)) (dfp_f M_plus)) :: u32;
            p2 = dfp_f M_plus AND (dfp_f one - 1)
        in if \<not> p1 > 0 then Inl Abort_Called
           else
             let (k, pow10) = find_largest_pow10 p1 in
             integral_loop one (dfp_f delta) (dfp_f distance) p2 k p1 pow10 out)))"

section \<open>The whole algorithm\<close>

definition grisu2 :: "diyfp \<Rightarrow> diyfp \<Rightarrow> diyfp \<Rightarrow> digit_buffer \<Rightarrow> digit_buffer result" where
  "grisu2 m_minus v m_plus out =
     (if dfp_e m_plus \<noteq> dfp_e m_minus then Inl Abort_Called
      else if dfp_e m_plus \<noteq> dfp_e v then Inl Abort_Called
      else
        rbind (get_cached_power_for_binary_exponent (dfp_e m_plus)) (\<lambda>cached.
        let c_minus_k = new_diyfp (cp_f cached) (cp_e cached);
            w = diyfp_mul v c_minus_k;
            w_minus = diyfp_mul m_minus c_minus_k;
            w_plus = diyfp_mul m_plus c_minus_k;
            M_minus = new_diyfp (dfp_f w_minus + 1) (dfp_e w_minus);
            M_plus = new_diyfp (dfp_f w_plus - 1) (dfp_e w_plus)
        in grisu2_digit_gen M_minus w M_plus (out\<lparr>db_exponent := - cp_k cached\<rparr>)))"

definition grisu2_double :: "binary64 \<Rightarrow> digit_buffer \<Rightarrow> digit_buffer result" where
  "grisu2_double value out =
     (if \<not> dbl_isfinite value then Inl Abort_Called
      else if \<not> dbl_positive value then Inl Abort_Called
      else
        rbind (compute_boundaries value) (\<lambda>w.
        grisu2 (bnd_minus w) (bnd_w w) (bnd_plus w) out))"

end
