(* ===== verification/Double_Text.thy ===== *)
theory Double_Text
  imports Grisu
begin

text \<open>
  The text of a \<open>double\<close> in client/include/json.hpp: \<open>append_exponent\<close>, \<open>format_buffer\<close>,
  which lays out the digits in place with \<open>memmove\<close> and \<open>memset\<close>, and \<open>detail::to_chars\<close>.
  Pointers are indices into the array; \<open>to_chars\<close> gives the array and the index after the
  last character. Moving or setting bytes outside the array is \<open>Undefined_Behaviour\<close>.
\<close>

unbundle bit_operations_syntax

section \<open>Moving bytes\<close>

definition array_move :: "string \<Rightarrow> nat \<Rightarrow> nat \<Rightarrow> nat \<Rightarrow> string result" where
  "array_move a dst src n =
     (if dst + n \<le> length a \<and> src + n \<le> length a
      then Inr (take dst a @ take n (drop src a) @ drop (dst + n) a)
      else Inl Undefined_Behaviour)"

definition array_set :: "string \<Rightarrow> nat \<Rightarrow> char \<Rightarrow> nat \<Rightarrow> string result" where
  "array_set a dst c n =
     (if dst + n \<le> length a then Inr (take dst a @ replicate n c @ drop (dst + n) a)
      else Inl Undefined_Behaviour)"

text \<open>\<open>*buf++ = c\<close>.\<close>

definition put_next :: "char \<Rightarrow> string \<times> nat \<Rightarrow> (string \<times> nat) result" where
  "put_next c = (\<lambda>(a, buf). rbind (array_put a buf c) (\<lambda>a. Inr (a, buf + 1)))"

section \<open>Formatting\<close>

definition append_exponent :: "string \<times> nat \<Rightarrow> int \<Rightarrow> (string \<times> nat) result" where
  "append_exponent buf e =
     (if \<not> e > - 1000 then Inl Abort_Called
      else if \<not> e < 1000 then Inl Abort_Called
      else
        rbind (if e < 0 then put_next (CHR ''-'') buf else put_next (CHR ''+'') buf) (\<lambda>buf.
        let k = nat \<bar>e\<bar> in
        if k < 10 then
          rbind (put_next (CHR ''0'') buf) (put_next (digit_char k))
        else if k < 100 then
          rbind (put_next (digit_char (k div 10)) buf) (put_next (digit_char (k mod 10)))
        else
          rbind (put_next (digit_char (k div 100)) buf) (\<lambda>buf.
          let k = k mod 100 in
          rbind (put_next (digit_char (k div 10)) buf) (put_next (digit_char (k mod 10))))))"

definition format_buffer :: "string \<Rightarrow> nat \<Rightarrow> nat \<Rightarrow> int \<Rightarrow> int \<Rightarrow> int \<Rightarrow> (string \<times> nat) result" where
  "format_buffer a buf len decimal_exponent min_exp max_exp =
     (if \<not> min_exp < 0 then Inl Abort_Called
      else if \<not> max_exp > 0 then Inl Abort_Called
      else
        let k = int len;
            n = int len + decimal_exponent
        in
        if k \<le> n \<and> n \<le> max_exp then
          rbind (array_set a (buf + len) (CHR ''0'') (nat n - len)) (\<lambda>a.
          rbind (array_put a (buf + nat n) (CHR ''.'')) (\<lambda>a.
          rbind (array_put a (buf + nat n + 1) (CHR ''0'')) (\<lambda>a.
          Inr (a, buf + nat n + 2))))
        else if 0 < n \<and> n \<le> max_exp then
          (if \<not> k > n then Inl Abort_Called
           else
             rbind (array_move a (buf + nat n + 1) (buf + nat n) (len - nat n)) (\<lambda>a.
             rbind (array_put a (buf + nat n) (CHR ''.'')) (\<lambda>a.
             Inr (a, buf + len + 1))))
        else if min_exp < n \<and> n \<le> 0 then
          rbind (array_move a (buf + 2 + nat (- n)) buf len) (\<lambda>a.
          rbind (array_put a buf (CHR ''0'')) (\<lambda>a.
          rbind (array_put a (buf + 1) (CHR ''.'')) (\<lambda>a.
          rbind (array_set a (buf + 2) (CHR ''0'') (nat (- n))) (\<lambda>a.
          Inr (a, buf + 2 + nat (- n) + len)))))
        else
          rbind (if len = 1 then Inr (a, buf + 1)
                 else
                   rbind (array_move a (buf + 2) (buf + 1) (len - 1)) (\<lambda>a.
                   rbind (array_put a (buf + 1) (CHR ''.'')) (\<lambda>a.
                   Inr (a, buf + 1 + len)))) (\<lambda>buf.
          rbind (put_next (CHR ''e'') buf) (\<lambda>buf.
          append_exponent buf (n - 1))))"

definition kMinExp10 :: int where "kMinExp10 = - 4"
definition kMaxExp10 :: int where "kMaxExp10 = 15"
definition max_digits10 :: int where "max_digits10 = 17"

definition to_chars_positive :: "string \<Rightarrow> nat \<Rightarrow> nat \<Rightarrow> binary64 \<Rightarrow> (string \<times> nat) result" where
  "to_chars_positive a first limit value =
     (if \<not> int limit - int first \<ge> max_digits10 then Inl Abort_Called
      else
        rbind (grisu2_double value \<lparr>db_array = a, db_start = first, db_length = 0, db_exponent = 0\<rparr>) (\<lambda>out.
        if \<not> int (db_length out) \<le> max_digits10 then Inl Abort_Called
        else if \<not> int limit - int first \<ge> kMaxExp10 + 2 then Inl Abort_Called
        else if \<not> int limit - int first \<ge> 2 + (- kMinExp10 - 1) + max_digits10 then Inl Abort_Called
        else if \<not> int limit - int first \<ge> max_digits10 + 6 then Inl Abort_Called
        else format_buffer (db_array out) first (db_length out) (db_exponent out) kMinExp10 kMaxExp10))"

definition to_chars :: "string \<Rightarrow> nat \<Rightarrow> nat \<Rightarrow> binary64 \<Rightarrow> (string \<times> nat) result" where
  "to_chars a first limit value =
     (if \<not> dbl_isfinite value then Inl Abort_Called
      else
        let negative = dbl_signbit value;
            value = (if negative then dbl_neg value else value)
        in
        rbind (if negative then put_next (CHR ''-'') (a, first) else Inr (a, first)) (\<lambda>(a, first).
        if dbl_is_zero value then
          rbind (put_next (CHR ''0'') (a, first)) (\<lambda>buf.
          rbind (put_next (CHR ''.'') buf) (put_next (CHR ''0'')))
        else to_chars_positive a first limit value))"

text \<open>The serializer calls it on its own number buffer of 64 bytes.\<close>

definition double_text :: "binary64 \<Rightarrow> string result" where
  "double_text value =
     rbind (to_chars (replicate 64 nul) 0 64 value) (\<lambda>(a, past). Inr (take past a))"

end
