(* ===== verification/Digit_Generation.thy ===== *)
theory Digit_Generation
  imports Grisu
begin

text \<open>
  What the digit generation computes: for a scaled upper bound \<open>M\<close> and a width \<open>D\<close> it writes
  the decimal digits of a number \<open>N\<close> such that \<open>N * 10 ^ x\<close> lies between \<open>M - D\<close> and \<open>M\<close>,
  with no multiple of the next power of ten in that interval, and at most 17 digits. On the way
  no assertion fails, no number overflows and no byte outside the buffer is touched.
\<close>

unbundle bit_operations_syntax

section \<open>The written digits\<close>

definition written :: "digit_buffer \<Rightarrow> string" where
  "written out = take (db_length out) (drop (db_start out) (db_array out))"

definition fits :: "digit_buffer \<Rightarrow> bool" where
  "fits out \<longleftrightarrow> db_start out + db_length out \<le> length (db_array out)"

text \<open>What the functions leave alone: the size of the array, the pointer and everything before it.\<close>

definition same_place :: "digit_buffer \<Rightarrow> digit_buffer \<Rightarrow> bool" where
  "same_place out out' \<longleftrightarrow>
     db_start out' = db_start out \<and> length (db_array out') = length (db_array out) \<and>
     take (db_start out) (db_array out') = take (db_start out) (db_array out)"

lemma same_place_refl [simp]: "same_place out out"
  by (simp add: same_place_def)

lemma same_place_trans: "same_place x y \<Longrightarrow> same_place y z \<Longrightarrow> same_place x z"
  by (simp add: same_place_def)

lemma same_place_exponent [simp]: "same_place (out\<lparr>db_exponent := x\<rparr>) out' = same_place out out'"
  by (simp add: same_place_def)

lemma written_exponent [simp]: "written (out\<lparr>db_exponent := x\<rparr>) = written out" "fits (out\<lparr>db_exponent := x\<rparr>) = fits out"
  by (simp_all add: written_def fits_def)

lemma length_written: "fits out \<Longrightarrow> length (written out) = db_length out"
  by (simp add: written_def fits_def)

lemma append_digit_ok:
  assumes "db_start out + db_length out < length (db_array out)"
  obtains out' where "append_digit d out = Inr out'" "written out' = written out @ [digit_char d]"
    "same_place out out'" "db_length out' = db_length out + 1" "db_exponent out' = db_exponent out" "fits out'"
proof
  let ?out = "out\<lparr>db_array := (db_array out)[db_start out + db_length out := digit_char d], db_length := db_length out + 1\<rparr>"
  show "append_digit d out = Inr ?out"
    using assms by (simp add: append_digit_def array_put_def)
  show "written ?out = written out @ [digit_char d]"
    using assms by (simp add: written_def take_Suc_conv_app_nth drop_update_swap take_update_swap list_update_append)
  show "same_place out ?out"
    by (simp add: same_place_def)
  show "fits ?out" using assms by (simp add: fits_def)
qed simp_all

lemma nat_digits_snoc: "0 < n \<Longrightarrow> d < 10 \<Longrightarrow> nat_digits (10 * n + d) = nat_digits n @ [digit_char d]"
  by (simp add: nat_digits.simps [of "10 * n + d"])

lemma nat_digits_last: "last (nat_digits n) = digit_char (n mod 10)"
  by (simp add: nat_digits.simps [of n])

lemma nat_digits_pred:
  assumes "n mod 10 \<noteq> 0"
  shows "nat_digits (n - Suc 0) = butlast (nat_digits n) @ [digit_char (n mod 10 - Suc 0)]"
proof -
  have n: "n - Suc 0 = 10 * (n div 10) + (n mod 10 - Suc 0)" "n mod 10 < 10"
    using assms by simp_all
  have "(n - Suc 0) div 10 = n div 10" "(n - Suc 0) mod 10 = n mod 10 - Suc 0"
    unfolding n(1) using n(2) by simp_all
  moreover have "n - Suc 0 < 10 \<longleftrightarrow> n < 10"
    using assms by (cases "n = 10") auto
  ultimately show ?thesis
    by (cases "n < 10") (simp_all add: nat_digits.simps [of n] nat_digits.simps [of "n - Suc 0"])
qed

lemma written_last:
  assumes "fits out" "written out = nat_digits n"
  shows "vec_at (db_array out) (db_start out + db_length out - 1) = Inr (digit_char (n mod 10))" "0 < db_length out"
proof -
  have len: "db_length out = length (nat_digits n)"
    using length_written [OF assms(1)] assms(2) by simp
  then show pos: "0 < db_length out" by simp
  have "last (written out) = written out ! (db_length out - 1)"
    using pos length_written [OF assms(1)] by (simp add: last_conv_nth flip: length_greater_0_conv)
  also have "\<dots> = db_array out ! (db_start out + db_length out - 1)"
    using assms(1) pos by (simp add: written_def fits_def)
  finally have "last (written out) = db_array out ! (db_start out + db_length out - 1)" .
  then show "vec_at (db_array out) (db_start out + db_length out - 1) = Inr (digit_char (n mod 10))"
    using assms pos by (simp add: vec_at_def fits_def nat_digits_last)
qed

lemma written_pred:
  assumes "fits out" "written out = nat_digits n" "n mod 10 \<noteq> 0"
  shows "written (out\<lparr>db_array := (db_array out)[db_start out + db_length out - 1 := digit_char (n mod 10 - 1)]\<rparr>) = nat_digits (n - 1)"
proof -
  have pos: "0 < db_length out" by (rule written_last [OF assms(1,2)])
  have "written (out\<lparr>db_array := (db_array out)[db_start out + db_length out - 1 := digit_char (n mod 10 - 1)]\<rparr>)
      = (written out)[db_length out - 1 := digit_char (n mod 10 - 1)]"
    using pos by (simp add: written_def drop_update_swap take_update_swap)
  also have "\<dots> = butlast (written out) @ [digit_char (n mod 10 - 1)]"
    using pos length_written [OF assms(1)]
    by (cases "written out" rule: rev_cases) (auto simp: list_update_append)
  finally show ?thesis using assms by (simp add: nat_digits_pred)
qed

lemma char_of_small: "char_of (n + 256) = (char_of n :: char)"
proof -
  have "(char_of (n + 256) :: char) = char_of ((n + 256) mod 256)" by simp
  also have "\<dots> = char_of (n mod 256)" by (simp only: mod_add_self2)
  also have "\<dots> = char_of n" by simp
  finally show ?thesis .
qed

lemma digit_char_pred:
  assumes "0 < d" "d < 10"
  shows "char_of ((of_char (digit_char d) :: nat) + 255) = digit_char (d - 1)"
proof -
  have "(of_char (digit_char d) :: nat) + 255 = 48 + (d - 1) + 256"
    using assms by (simp add: digit_char_def)
  then show ?thesis by (simp only: char_of_small digit_char_def)
qed

lemma digit_char_eq_0: "d < 10 \<Longrightarrow> digit_char d = CHR ''0'' \<longleftrightarrow> d = 0"
  using char_of_eq_iff [of "48 + d" "CHR ''0''"] by (simp add: digit_char_def take_bit_eq_mod)

section \<open>Rounding\<close>

text \<open>
  The digits of \<open>n\<close> with a remainder of \<open>r\<close> units below the upper bound; a unit of the last
  digit is \<open>t\<close>. If the remainder was above \<open>delta\<close> before the last digit was generated, the
  last digit never reaches 0 by decrements that keep the remainder within \<open>delta\<close>.
\<close>

lemma grisu2_round_ok:
  assumes "fits out" "written out = nat_digits n" "unat distance \<le> unat delta" "unat remainder \<le> unat delta"
    "0 < unat ten_k" "unat delta < n mod 10 * unat ten_k + unat remainder"
  shows "\<exists>out' j. grisu2_round distance delta remainder ten_k out = Inr out' \<and> j \<le> n mod 10 \<and>
     written out' = nat_digits (n - j) \<and> unat remainder + j * unat ten_k \<le> unat delta \<and>
     fits out' \<and> same_place out out' \<and> db_length out' = db_length out \<and> db_exponent out' = db_exponent out"
  using assms
proof (induction distance delta remainder ten_k out arbitrary: n rule: grisu2_round.induct)
  case (1 distance delta remainder ten_k out)
  note last = written_last [OF 1(2,3)]
  have asserts: "1 \<le> db_length out" "distance \<le> delta" "remainder \<le> delta" "0 < ten_k"
    using last(2) 1(4,5,6) by (simp_all add: word_le_nat_alt word_less_nat_alt)
  define go where "go \<longleftrightarrow> remainder < distance \<and> delta - remainder \<ge> ten_k \<and>
      (remainder + ten_k < distance \<or> distance - remainder > remainder + ten_k - distance)"
  show ?case
  proof (cases go)
    case False
    then have "grisu2_round distance delta remainder ten_k out = Inr out"
      using asserts unfolding go_def by (subst grisu2_round.simps) auto
    then show ?thesis
      using 1(2-7) by (intro exI [of _ out] exI [of _ 0]) simp
  next
    case True
    note step = round_step_bound [OF asserts(3), of ten_k]
    have sum: "unat (remainder + ten_k) = unat remainder + unat ten_k" "unat remainder + unat ten_k \<le> unat delta"
      using True step by (simp_all add: go_def)
    have nz: "n mod 10 \<noteq> 0"
    proof
      assume "n mod 10 = 0"
      then show False using 1(5,7) by (simp only: mult_zero_left)
    qed
    then have c: "\<not> \<not> digit_char (n mod 10) \<noteq> CHR ''0''"
      by (simp add: digit_char_eq_0)
    let ?out = "out\<lparr>db_array := (db_array out)[db_start out + db_length out - 1 :=
        char_of ((of_char (digit_char (n mod 10)) :: nat) + 255)]\<rparr>"
    have out: "?out = out\<lparr>db_array := (db_array out)[db_start out + db_length out - 1 := digit_char (n mod 10 - 1)]\<rparr>"
      using nz digit_char_pred [of "n mod 10"] by simp
    have unfolded: "grisu2_round distance delta remainder ten_k out = grisu2_round distance delta (remainder + ten_k) ten_k ?out"
      using asserts True last(1) c by (subst grisu2_round.simps) (simp add: go_def)
    have w: "written ?out = nat_digits (n - 1)"
      unfolding out by (rule written_pred [OF 1(2,3) nz])
    have f: "fits ?out" "same_place out ?out"
      using 1(2) last(2) by (simp_all add: fits_def same_place_def)
    have m: "n = 10 * (n div 10) + (n mod 10 - 1) + 1"
      using nz by simp
    have mod: "(n - 1) mod 10 = n mod 10 - 1"
      by (subst m) simp
    have "n mod 10 * unat ten_k = (n mod 10 - 1) * unat ten_k + unat ten_k"
      using nz by (cases "n mod 10") simp_all
    then have rem: "unat delta < (n - 1) mod 10 * unat ten_k + unat (remainder + ten_k)"
      using 1(7) by (simp only: mod sum)
    have "\<exists>out' j. grisu2_round distance delta (remainder + ten_k) ten_k ?out = Inr out' \<and> j \<le> (n - 1) mod 10 \<and>
       written out' = nat_digits (n - 1 - j) \<and> unat (remainder + ten_k) + j * unat ten_k \<le> unat delta \<and>
       fits out' \<and> same_place ?out out' \<and> db_length out' = db_length ?out \<and> db_exponent out' = db_exponent ?out"
      using asserts True last(1) c
      by (intro 1(1) [of "db_start out + db_length out - 1" "digit_char (n mod 10)"])
        (simp_all only: go_def w f sum(1) sum(2) rem [unfolded sum(1)] 1(4) 1(6) refl not_not not_False_eq_True simp_thms)
    then obtain out' j where o: "grisu2_round distance delta (remainder + ten_k) ten_k ?out = Inr out'"
      "j \<le> (n - 1) mod 10" "written out' = nat_digits (n - 1 - j)" "unat (remainder + ten_k) + j * unat ten_k \<le> unat delta"
      "fits out'" "same_place ?out out'" "db_length out' = db_length ?out" "db_exponent out' = db_exponent ?out"
      by blast
    have "Suc j \<le> n mod 10"
      using o(2) nz unfolding mod by simp
    moreover have "same_place out out'"
      by (rule same_place_trans [OF f(2) o(6)])
    ultimately show ?thesis
      using o(1,3-5,7,8) unfolded
      by (intro exI [of _ out'] exI [of _ "Suc j"]) (simp add: sum algebra_simps)
  qed
qed

section \<open>The result of the generation\<close>

text \<open>
  The digits written are those of a number \<open>N\<close> with \<open>M - D \<le> N * 10 ^ (n - m) * q \<le> M\<close>,
  \<open>n - m\<close> is added to the exponent, and no multiple of the next higher power of ten is in the
  interval: the text cannot be shorter. Everything is scaled by \<open>10 ^ m\<close>.
\<close>

definition digits_found :: "nat \<Rightarrow> nat \<Rightarrow> nat \<Rightarrow> digit_buffer \<Rightarrow> digit_buffer \<Rightarrow> bool" where
  "digits_found M D q out out' \<longleftrightarrow>
     (\<exists>N n m. 0 < N \<and> written out' = nat_digits N \<and> fits out' \<and> same_place out out' \<and> db_length out' \<le> 17 \<and>
        db_exponent out' = db_exponent out + int n - int m \<and>
        N * (10 ^ n * q) \<le> M * 10 ^ m \<and> M * 10 ^ m \<le> N * (10 ^ n * q) + D * 10 ^ m \<and>
        (\<forall>j. j * (10 * (10 ^ n * q)) \<le> M * 10 ^ m \<longrightarrow> j * (10 * (10 ^ n * q)) + D * 10 ^ m < M * 10 ^ m))"

lemma no_shorter:
  assumes "M = N * E + R" "R < E" "D < N mod 10 * E + R" "j * (10 * E) \<le> M"
  shows "j * (10 * E) + D < (M :: nat)"
proof -
  have M: "M = N div 10 * (10 * E) + (N mod 10 * E + R)"
    unfolding assms(1) by (subst div_mult_mod_eq [of N 10, symmetric]) (simp only: distrib_right mult.assoc add.assoc)
  have "N mod 10 * E \<le> 9 * E"
    by (rule mult_le_mono1) simp
  then have "M < (N div 10 + 1) * (10 * E)"
    unfolding distrib_right using M assms(2) by linarith
  then have "j * (10 * E) < (N div 10 + 1) * (10 * E)"
    using assms(4) by (rule le_less_trans [rotated])
  then have "j \<le> N div 10"
    by (simp only: mult_less_cancel2) simp
  then have "j * (10 * E) \<le> N div 10 * (10 * E)"
    by (rule mult_le_mono1)
  then show ?thesis using M assms(3) by linarith
qed

lemma digits_finished:
  assumes "fits out" "written out = nat_digits N" "db_length out \<le> 17"
    and "unat distance \<le> unat delta" "unat delta = D * 10 ^ m" "unat remainder \<le> unat delta"
    and "unat ten_k = 10 ^ n * q" "unat remainder < unat ten_k"
    and "unat delta < N mod 10 * unat ten_k + unat remainder"
    and "M * 10 ^ m = N * unat ten_k + unat remainder" "D < M"
    and "x = db_exponent out + int n - int m"
  shows "\<exists>out'. grisu2_round distance delta remainder ten_k (out\<lparr>db_exponent := x\<rparr>) = Inr out' \<and> digits_found M D q out out'"
proof -
  have "0 < unat ten_k" using assms(8) by simp
  then obtain out' j where o: "grisu2_round distance delta remainder ten_k (out\<lparr>db_exponent := x\<rparr>) = Inr out'"
    "j \<le> N mod 10" "written out' = nat_digits (N - j)" "unat remainder + j * unat ten_k \<le> unat delta"
    "fits out'" "same_place out out'" "db_length out' = db_length out" "db_exponent out' = x"
    using grisu2_round_ok [of "out\<lparr>db_exponent := x\<rparr>" N distance delta remainder ten_k] assms(1-9) by auto
  have "j \<le> N" using o(2) by (rule order_trans) simp
  then have N: "N * unat ten_k = (N - j) * unat ten_k + j * unat ten_k"
    by (simp flip: distrib_right)
  have Mm: "M * 10 ^ m = (N - j) * unat ten_k + (unat remainder + j * unat ten_k)"
    using assms(10) N by simp
  have "D * 10 ^ m < M * 10 ^ m"
    using assms(11) by simp
  then have "0 < (N - j) * unat ten_k"
    using Mm o(4) assms(5) by linarith
  then have pos: "0 < N - j" by simp
  have "(N - j) * unat ten_k \<le> M * 10 ^ m" "M * 10 ^ m \<le> (N - j) * unat ten_k + D * 10 ^ m"
    using Mm o(4) assms(5) by linarith+
  moreover have "j * (10 * unat ten_k) + D * 10 ^ m < M * 10 ^ m" if "j * (10 * unat ten_k) \<le> M * 10 ^ m" for j
    using no_shorter [OF assms(10) assms(8) assms(9) that] assms(5) by simp
  ultimately have "digits_found M D q out out'"
    unfolding digits_found_def
    using pos o(3,5-8) assms(3,12)
    by (intro exI [of _ "N - j"] exI [of _ n] exI [of _ m]) (simp add: assms(7))
  then show ?thesis using o(1) by blast
qed

lemma digits_found_trans:
  assumes "digits_found M D q out1 out2" "same_place out out1" "db_exponent out1 = db_exponent out"
  shows "digits_found M D q out out2"
  using assms same_place_trans [OF assms(2)] unfolding digits_found_def by metis

section \<open>The fractional digits\<close>

text \<open>The exponent shared by all numbers is \<open>- s\<close>, and \<open>one\<close> is \<open>2 ^ s\<close> at this exponent.\<close>

definition unit_at :: "nat \<Rightarrow> diyfp" where
  "unit_at s = new_diyfp (push_bit s 1) (- int s)"

lemma unat_push_1: "s < 64 \<Longrightarrow> unat (push_bit s 1 :: u64) = 2 ^ s"
  using power_strict_increasing [of s 64 "2 :: nat"] by (subst unat_push) simp_all

lemma unit_at_simps [simp]:
  "dfp_e (unit_at s) = - int s"
  "s < 64 \<Longrightarrow> unat (dfp_f (unit_at s)) = 2 ^ s"
  using unat_push_1 by (simp_all only: unit_at_def diyfp_sel)

lemma unit_mask: "s < 64 \<Longrightarrow> unat (w AND (dfp_f (unit_at s) - 1)) = unat w mod 2 ^ s"
  using unat_mask [of w s] by (simp add: unit_at_def mask_eq_exp_minus_1)

lemma max_tenth: "unat w < 2 ^ 60 \<Longrightarrow> (w :: u64) \<le> (- 1) div 10"
  by (simp add: word_le_nat_alt unat_div)

lemma times_ten: "unat w < 2 ^ 60 \<Longrightarrow> unat (w * 10 :: u64) = 10 * unat w"
  by (simp add: unat_mult)

lemma fractional_loop_ok:
  assumes "s \<le> 60" "fits out" "written out = nat_digits N" "0 < N"
    and "unat distance \<le> unat delta" "unat delta = D * 10 ^ m" "unat delta < unat p2" "unat p2 < 2 ^ s"
    and "M * 10 ^ m = N * 2 ^ s + unat p2"
    and "2 ^ s \<le> D * 10 ^ (17 - K)" "db_length out = K + m" "K \<le> 17" "db_start out + 17 \<le> length (db_array out)"
  shows "\<exists>out'. fractional_loop (unit_at s) delta distance p2 (int m) out = Inr out' \<and> digits_found M D (2 ^ s) out out'"
  using assms
proof (induction "17 - db_length out" arbitrary: out N distance delta p2 m)
  case 0
  have "D * 10 ^ m < D * 10 ^ (17 - K)"
    using 0(7-11) by linarith
  then have "m < 17 - K" by simp
  then show ?case using 0(1) 0(12) 0(13) by simp
next
  case (Suc l)
  note prems = Suc.prems
  have "D * 10 ^ m < D * 10 ^ (17 - K)"
    using prems(6-10) by linarith
  then have m: "m < 17 - K" by simp
  have s60: "(2 :: nat) ^ s \<le> 2 ^ 60"
    by (rule power_increasing [OF prems(1)]) simp
  have small: "unat p2 < 2 ^ 60" "unat delta < 2 ^ 60" "unat distance < 2 ^ 60"
    using prems(5,7,8) s60 by linarith+
  define d where "d = 10 * unat p2 div 2 ^ s"
  define r where "r = (p2 * 10) AND (dfp_f (unit_at s) - 1)"
  have split: "10 * unat p2 = d * 2 ^ s + unat r" "unat r < 2 ^ s"
    using prems(1) by (simp_all add: d_def r_def unit_mask times_ten [OF small(1)] div_mult_mod_eq)
  have d10: "d < 10"
    unfolding d_def using prems(8) by (intro less_mult_imp_div_less) simp
  have dw: "unat (drop_bit s (p2 * 10)) = d"
    by (simp only: unat_drop times_ten [OF small(1)] d_def)
  then have dle: "drop_bit s (p2 * 10) \<le> 9"
    using d10 by (simp add: word_le_nat_alt)
  have room: "db_start out + db_length out < length (db_array out)"
    using prems(11,13) m by linarith
  obtain out1 where o1: "append_digit d out = Inr out1" "written out1 = written out @ [digit_char d]"
    "same_place out out1" "db_length out1 = db_length out + 1" "db_exponent out1 = db_exponent out" "fits out1"
    by (rule append_digit_ok [OF room])
  have w1: "written out1 = nat_digits (10 * N + d)"
    using o1(2) prems(3,4) d10 by (simp add: nat_digits_snoc)
  have unfolded: "fractional_loop (unit_at s) delta distance p2 (int m) out =
      (if r \<le> delta * 10 then grisu2_round (distance * 10) (delta * 10) r (dfp_f (unit_at s)) (out1\<lparr>db_exponent := db_exponent out1 - (int m + 1)\<rparr>)
       else fractional_loop (unit_at s) (delta * 10) (distance * 10) r (int m + 1) out1)"
    using max_tenth [OF small(1)] dle dw o1(1)
    by (subst fractional_loop.simps) (simp add: Let_def r_def)
  have ten: "unat (delta * 10) = D * 10 ^ Suc m" "unat (distance * 10) \<le> unat (delta * 10)"
    using times_ten [OF small(2)] times_ten [OF small(3)] prems(5,6) by simp_all
  have Mm: "M * 10 ^ Suc m = (10 * N + d) * 2 ^ s + unat r"
    using prems(9) split(1) by (simp add: algebra_simps)
  show ?case
  proof (cases "r \<le> delta * 10")
    case True
    have "D * 10 ^ m < M * 10 ^ m"
      using prems(6,7,9) by linarith
    then have "D < M" by simp
    moreover have "unat (delta * 10) < (10 * N + d) mod 10 * 2 ^ s + unat r"
      using split(1) prems(7) d10 times_ten [OF small(2)] by simp
    ultimately have "\<exists>out'. grisu2_round (distance * 10) (delta * 10) r (dfp_f (unit_at s))
          (out1\<lparr>db_exponent := db_exponent out1 - (int m + 1)\<rparr>) = Inr out' \<and> digits_found M D (2 ^ s) out1 out'"
      using True prems(1,11) m o1(4,6) w1 ten Mm split(2)
      by (intro digits_finished [where N = "10 * N + d" and n = 0 and m = "Suc m"])
        (simp_all add: word_le_nat_alt)
    then show ?thesis
      using True unfolded digits_found_trans [OF _ o1(3,5)] by auto
  next
    case False
    then have r: "unat (delta * 10) < unat r" by (simp add: word_le_nat_alt)
    have "\<exists>out'. fractional_loop (unit_at s) (delta * 10) (distance * 10) r (int (Suc m)) out1 = Inr out' \<and>
        digits_found M D (2 ^ s) out1 out'"
      using Suc.hyps(2) prems(1,4,10,11,12,13) o1(3,4,6) w1 ten r split(2) Mm
      by (intro Suc.hyps(1) [where N = "10 * N + d"]) (simp_all add: same_place_def)
    then show ?thesis
      using False unfolded digits_found_trans [OF _ o1(3,5)] by (auto simp: add.commute)
  qed
qed

section \<open>The integral digits\<close>

lemma find_largest_pow10_ok:
  assumes "find_largest_pow10 n = (k, p)" "0 < unat n"
  shows "1 \<le> k \<and> k \<le> 10 \<and> unat p = 10 ^ (k - 1) \<and> 10 ^ (k - 1) \<le> unat n \<and> unat n < 10 ^ k"
proof -
  have "unat n < 2 ^ 32"
    using unsigned_less [of n] by simp
  then show ?thesis
    using assms unfolding find_largest_pow10_def word_le_nat_alt
    by (simp split: if_split_asm; elim conjE; hypsubst; simp)
qed

lemma unat_ucast_u64 [simp]: "unat (ucast (w :: u32) :: u64) = unat w"
proof -
  have "unat w < 2 ^ 32" using unsigned_less [of w, where ?'a = nat] by simp
  then show ?thesis by (simp add: unsigned_ucast_eq take_bit_nat_eq_self)
qed

lemma integral_loop_ok:
  assumes "32 \<le> s" "s \<le> 60" "fits out" "M < 2 ^ 64" "D < M" "M \<le> D * 10 ^ 16" "10 ^ (K - 1) * 2 ^ s \<le> M" "K \<le> 10" "1 \<le> K"
    and "unat distance \<le> unat delta" "unat delta = D" "unat p2 < 2 ^ s"
    and "M = N * (10 ^ n * 2 ^ s) + (unat p1 * 2 ^ s + unat p2)" "unat p1 < 10 ^ n" "D < unat p1 * 2 ^ s + unat p2"
    and "0 < n \<longrightarrow> unat pow10 = 10 ^ (n - 1)"
    and "db_length out + n = K" "db_start out + 17 \<le> length (db_array out)"
    and "if N = 0 then written out = [] \<and> 0 < n \<and> 10 ^ (n - 1) \<le> unat p1 else written out = nat_digits N"
  shows "\<exists>out'. integral_loop (unit_at s) delta distance p2 n p1 pow10 out = Inr out' \<and> digits_found M D (2 ^ s) out out'"
  using assms
proof (induction n arbitrary: out N p1 pow10)
  case 0
  note prems = 0
  have N: "0 < N" "written out = nat_digits N"
    using prems(19) by (auto split: if_split_asm)
  have p1: "unat p1 = 0" using prems(14) by simp
  have "10 ^ (K - 1) * 2 ^ s \<le> D * 10 ^ 16"
    using prems(6,7) by linarith
  also have "D * 10 ^ 16 = 10 ^ (K - 1) * (D * 10 ^ (17 - K))"
    using prems(8,9) by (simp add: mult.left_commute flip: power_add)
  finally have q: "2 ^ s \<le> D * 10 ^ (17 - K)" by simp
  have gt: "delta < p2"
    using prems(11,15) p1 by (simp add: word_less_nat_alt)
  have "\<exists>out'. fractional_loop (unit_at s) delta distance p2 (int 0) out = Inr out' \<and> digits_found M D (2 ^ s) out out'"
    using prems(2,3,10-13,15,17,18) N p1 q order_trans [OF prems(8), of 17]
    by (intro fractional_loop_ok) simp_all
  then show ?case
    using gt by (simp add: fractional_digits_def)
next
  case (Suc n)
  note prems = Suc.prems
  define q :: nat where "q = 2 ^ s"
  have pow: "unat pow10 = 10 ^ n" using prems(16) by simp
  define d r where "d = unat p1 div 10 ^ n" and "r = unat p1 mod 10 ^ n"
  have split: "unat p1 = d * 10 ^ n + r" "r < 10 ^ n"
    by (simp_all add: d_def r_def div_mult_mod_eq)
  have d10: "d < 10"
    unfolding d_def using prems(14) by (intro less_mult_imp_div_less) simp
  have words: "unat (p1 div pow10) = d" "unat (p1 mod pow10) = r" "pow10 \<noteq> 0"
    using pow by (auto simp: unat_div unat_mod d_def r_def)
  have room: "db_start out + db_length out < length (db_array out)"
    using prems(8,17,18) by linarith
  obtain out1 where o1: "append_digit d out = Inr out1" "written out1 = written out @ [digit_char d]"
    "same_place out out1" "db_length out1 = db_length out + 1" "db_exponent out1 = db_exponent out" "fits out1"
    by (rule append_digit_ok [OF room])
  define N1 where "N1 = 10 * N + d"
  have w1: "0 < N1 \<and> written out1 = nat_digits N1"
  proof (cases "N = 0")
    case True
    then have "0 < d"
      using prems(19) by (simp add: d_def div_greater_zero_iff)
    then show ?thesis
      using True prems(19) o1(2) d10 by (simp add: N1_def nat_digits.simps [of d])
  next
    case False
    then show ?thesis
      using prems(19) o1(2) d10 by (simp add: N1_def nat_digits_snoc)
  qed
  have M: "M = N1 * (10 ^ n * q) + (r * q + unat p2)"
    using prems(13) split(1) by (simp add: N1_def q_def algebra_simps)
  have below: "r * q + unat p2 < 10 ^ n * q"
  proof -
    have "(r + 1) * q \<le> 10 ^ n * q"
      using split(2) by (intro mult_le_mono1) simp
    then show ?thesis using prems(12) by (simp add: q_def)
  qed
  have "1 * (10 ^ n * q) \<le> N1 * (10 ^ n * q)"
    using w1 by (intro mult_le_mono1) simp
  then have unit: "10 ^ n * q < 2 ^ 64"
    using M prems(4) by linarith
  have rq: "r * q < 2 ^ 64" using below unit by linarith
  define rem where "rem = push_bit s (ucast (p1 mod pow10) :: u64) + p2"
  have rem: "unat rem = r * q + unat p2"
    unfolding rem_def using rq below unit words(2) by (subst unat_add) (simp_all add: unat_push q_def)
  have ten: "unat (push_bit s (ucast pow10 :: u64)) = 10 ^ n * q"
    using unit pow by (subst unat_push) (simp_all add: q_def)
  have dle: "p1 div pow10 \<le> 9"
    using words(1) d10 by (simp add: word_le_nat_alt)
  have unfolded: "integral_loop (unit_at s) delta distance p2 (Suc n) p1 pow10 out =
      (if rem \<le> delta then grisu2_round distance delta rem (push_bit s (ucast pow10)) (out1\<lparr>db_exponent := db_exponent out1 + int n\<rparr>)
       else integral_loop (unit_at s) delta distance p2 n (p1 mod pow10) (pow10 div 10) out1)"
    using words dle o1(1) by (simp add: Let_def rem_def)
  show ?case
  proof (cases "rem \<le> delta")
    case True
    have "D < d * (10 ^ n * q) + (r * q + unat p2)"
      using prems(15) split(1) by (simp add: q_def algebra_simps)
    then have "unat delta < N1 mod 10 * unat (push_bit s (ucast pow10 :: u64)) + unat rem"
      using prems(11) d10 by (simp only: ten rem N1_def mod_mult_self4 mod_less)
    then have "\<exists>out'. grisu2_round distance delta rem (push_bit s (ucast pow10))
          (out1\<lparr>db_exponent := db_exponent out1 + int n\<rparr>) = Inr out' \<and> digits_found M D q out1 out'"
      using True w1 o1(4,6) prems(5,8,10,11,17) ten rem M below
      by (intro digits_finished [where N = N1 and n = n and m = 0]) (simp_all add: word_le_nat_alt)
    then show ?thesis
      using True unfolded digits_found_trans [OF _ o1(3,5)] by (auto simp: q_def)
  next
    case False
    then have "D < r * q + unat p2"
      using prems(11) rem by (simp add: word_le_nat_alt)
    moreover have "0 < n \<longrightarrow> unat (pow10 div 10) = 10 ^ (n - 1)"
      using pow by (cases n) (simp_all add: unat_div)
    ultimately have "\<exists>out'. integral_loop (unit_at s) delta distance p2 n (p1 mod pow10) (pow10 div 10) out1 = Inr out' \<and>
        digits_found M D (2 ^ s) out1 out'"
      using prems(1,2,4-12,17,18) o1(3,4,6) w1 M words split(2)
      by (intro Suc.IH [where N = N1]) (simp_all add: q_def same_place_def)
    then show ?thesis
      using False unfolded digits_found_trans [OF _ o1(3,5)] by auto
  qed
qed

section \<open>The whole generation\<close>

text \<open>
  With an upper bound \<open>M\<close> of at least \<open>2 ^ 61\<close> and a width \<open>D\<close> of at least \<open>M / 10 ^ 16\<close> the
  generation succeeds and needs at most 17 bytes.
\<close>

lemma grisu2_digit_gen_ok:
  assumes e: "dfp_e M_plus = e" "dfp_e M_minus = e" "dfp_e w = e" "- 60 \<le> e" "e \<le> - 32"
    and order: "unat (dfp_f M_minus) \<le> unat (dfp_f w)" "unat (dfp_f w) \<le> unat (dfp_f M_plus)"
    and big: "2 ^ 61 \<le> unat (dfp_f M_plus)" "0 < unat (dfp_f M_minus)"
    and width: "D = unat (dfp_f M_plus) - unat (dfp_f M_minus)" "unat (dfp_f M_plus) \<le> D * 10 ^ 16"
    and out: "db_length out = 0" "db_start out + 17 \<le> length (db_array out)"
  shows "\<exists>out'. grisu2_digit_gen M_minus w M_plus out = Inr out' \<and>
     digits_found (unat (dfp_f M_plus)) D (2 ^ nat (- e)) out out'"
proof -
  define s M where "s = nat (- e)" and "M = unat (dfp_f M_plus)"
  have s: "32 \<le> s" "s \<le> 60" "- e = int s" "e = - int s" using e(4,5) by (simp_all add: s_def)
  define delta distance where "delta = dfp_f M_plus - dfp_f M_minus" and "distance = dfp_f M_plus - dfp_f w"
  have sub: "diyfp_sub M_plus M_minus = Inr (new_diyfp delta e)" "diyfp_sub M_plus w = Inr (new_diyfp distance e)"
    using e order by (simp_all add: diyfp_sub_def word_le_nat_alt delta_def distance_def)
  have D: "unat delta = D" "unat distance \<le> D"
    using order width(1) by (simp_all add: delta_def distance_def unat_sub word_le_nat_alt)
  have one: "new_diyfp (push_bit s 1) (- int s) = unit_at s" by (simp only: unit_at_def)
  define P1 p2 where "P1 = (ucast (drop_bit s (dfp_f M_plus)) :: u32)" and "p2 = dfp_f M_plus AND (dfp_f (unit_at s) - 1)"
  have M64: "M < 2 ^ 64" unfolding M_def by (rule unat_less)
  have small: "M div 2 ^ s < 2 ^ 32"
  proof (rule less_mult_imp_div_less)
    have "(2 :: nat) ^ 64 \<le> 2 ^ (32 + s)"
      by (rule power_increasing) (use s in simp_all)
    then show "M < 2 ^ 32 * 2 ^ s" using M64 by (simp add: power_add)
  qed
  have p1: "unat P1 = M div 2 ^ s"
    using small by (simp add: P1_def unsigned_ucast_eq unat_drop M_def take_bit_nat_eq_self del: unat_drop_bit_eq)
  have p2: "unat p2 = M mod 2 ^ s"
    using s(2) by (simp add: p2_def unit_mask M_def)
  have split: "M = unat P1 * 2 ^ s + unat p2"
    by (simp only: p1 p2 div_mult_mod_eq)
  have "(2 :: nat) ^ s \<le> 2 ^ 60"
    by (rule power_increasing) (use s in simp_all)
  also have "\<dots> \<le> M" using big(1) by (simp add: M_def)
  finally have pos: "0 < unat P1" by (simp add: p1 div_greater_zero_iff)
  obtain k pow10 where k: "find_largest_pow10 P1 = (k, pow10)" by (cases "find_largest_pow10 P1")
  note pow = find_largest_pow10_ok [OF k pos]
  have lower: "10 ^ (k - 1) * 2 ^ s \<le> M"
    using split pow by (simp add: mult_le_mono1 trans_le_add1)
  have "D < M"
    using width(1) big order by (simp add: M_def)
  have "unat p2 < 2 ^ s" by (simp add: p2)
  have "\<exists>out'. integral_loop (unit_at s) delta distance p2 k P1 pow10 out = Inr out' \<and> digits_found M D (2 ^ s) out out'"
    using s(1,2) out M64 \<open>D < M\<close> width(2) lower pow D \<open>unat p2 < 2 ^ s\<close> split
    by (intro integral_loop_ok [where N = 0 and K = k]) (simp_all add: M_def fits_def written_def)
  moreover have "grisu2_digit_gen M_minus w M_plus out = integral_loop (unit_at s) delta distance p2 k P1 pow10 out"
    using e(1) s pos k sub
    by (simp add: grisu2_digit_gen_def kAlpha_def kGamma_def Let_def one P1_def p2_def word_less_nat_alt
        del: push_bit_of_1)
  ultimately show ?thesis by (simp add: M_def s_def)
qed

end
