(* ===== verification/Powers_Of_Ten.thy ===== *)
theory Powers_Of_Ten
  imports Cached_Powers
begin

text \<open>
  The accuracy of the table of client/include/json.hpp: each entry \<open>(f, e, k)\<close> is the power
  \<open>10 ^ k\<close> rounded to a 64-bit significand, so that \<open>f * 2 ^ e\<close> is off by at most half a unit
  of the last place.
\<close>

section \<open>The accuracy of the table\<close>

definition accurate :: "u64 \<times> int \<times> int \<Rightarrow> bool" where
  "accurate = (\<lambda>(f, e, k). \<bar>real (unat f) * 2 powi e - 10 powi k\<bar> \<le> 2 powi e / 2)"

lemma ten_powi: "(10 :: real) powi k = 5 powi k * 2 powi k"
  by (simp flip: power_int_mult_distrib)

lemma two_powi_diff:
  assumes "a \<le> b"
  shows "(2 :: real) powi b = 2 ^ nat (b - a) * 2 powi a"
proof -
  have "(2 :: real) powi (b - a) = 2 ^ nat (b - a)"
    using assms by (simp add: power_int_def)
  then show ?thesis
    using power_int_add [of "2 :: real" "b - a" a] by simp
qed

lemma small_power_accurate:
  assumes "P = 5 ^ n" "k = - int n" "e \<le> k"
    and "half_near (unat f * P) (2 ^ nat (k - e)) P"
  shows "accurate (f, e, k)"
proof -
  define F p s where "F = real (unat f)" and "p = (5 :: real) ^ n" and "s = (2 :: real) ^ nat (k - e)"
  have "real (2 * (unat f * P)) \<le> real (2 * 2 ^ nat (k - e) + P)" "real (2 * 2 ^ nat (k - e)) \<le> real (2 * (unat f * P) + P)"
    using assms(4) by (simp_all only: of_nat_le_iff half_near_def)
  then have "2 * (F * p) \<le> 2 * s + p" "2 * s \<le> 2 * (F * p) + p"
    by (simp_all add: F_def p_def s_def assms(1))
  then have near: "\<bar>F * p - s\<bar> \<le> p / 2" by linarith
  have p: "p > 0" by (simp add: p_def)
  have tens: "p * 10 powi k = s * 2 powi e"
    unfolding ten_powi s_def two_powi_diff [OF assms(3), symmetric]
    by (simp add: p_def assms(2) power_int_minus)
  have "p * \<bar>F * 2 powi e - 10 powi k\<bar> = \<bar>F * p - s\<bar> * 2 powi e"
    using p tens by (simp add: abs_mult_pos' algebra_simps flip: abs_mult_pos)
  also have "\<dots> \<le> p / 2 * 2 powi e"
    using near by (intro mult_right_mono) simp_all
  finally have "p * \<bar>F * 2 powi e - 10 powi k\<bar> \<le> p * (2 powi e / 2)" by simp
  then show ?thesis
    using p by (simp add: accurate_def F_def)
qed

lemma large_power_accurate:
  assumes "P = 5 ^ n" "k = int n"
    and "if e \<le> k then unat f = P * 2 ^ nat (k - e)
       else half_near (unat f * 2 ^ nat (e - k)) P (2 ^ nat (e - k))"
  shows "accurate (f, e, k)"
proof (cases "e \<le> k")
  case True
  then have "real (unat f) = 5 ^ n * 2 ^ nat (k - e)"
    using assms(1,3) by simp
  then have "real (unat f) * 2 powi e = 10 powi k"
    unfolding ten_powi two_powi_diff [OF True] by (simp add: assms(2))
  then show ?thesis by (simp add: accurate_def)
next
  case False
  define F p s where "F = real (unat f)" and "p = (5 :: real) ^ n" and "s = (2 :: real) ^ nat (e - k)"
  have "real (2 * (unat f * 2 ^ nat (e - k))) \<le> real (2 * P + 2 ^ nat (e - k))"
    "real (2 * P) \<le> real (2 * (unat f * 2 ^ nat (e - k)) + 2 ^ nat (e - k))"
    using False assms(3) by (simp_all only: of_nat_le_iff if_False half_near_def)
  then have "2 * (F * s) \<le> 2 * p + s" "2 * p \<le> 2 * (F * s) + s"
    by (simp_all add: F_def p_def s_def assms(1))
  then have main: "\<bar>F * s - p\<bar> \<le> s / 2" by linarith
  have e: "(2 :: real) powi e = s * 2 powi k"
    unfolding s_def using two_powi_diff [of k e] False by simp
  have "\<bar>F * 2 powi e - 10 powi k\<bar> = \<bar>(F * s - p) * 2 powi k\<bar>"
    unfolding e ten_powi by (simp add: p_def assms(2) algebra_simps)
  also have "\<dots> = \<bar>F * s - p\<bar> * 2 powi k"
    by (simp add: abs_mult)
  also have "\<dots> \<le> s / 2 * 2 powi k"
    using main by (intro mult_right_mono) simp_all
  finally show ?thesis by (simp add: accurate_def F_def e)
qed

lemma small_powers_accurate:
  "small_powers_ok (5 ^ n) (int n) l \<Longrightarrow> c \<in> set l \<Longrightarrow> accurate c"
proof (induction l arbitrary: n)
  case (Cons x l)
  obtain f e k where x: "x = (f, e, k)" by (cases x)
  have next_power: "(5 :: nat) ^ n * 390625 = 5 ^ (n + 8)" "int n + 8 = int (n + 8)"
    by (simp_all add: power_add)
  show ?case
  proof (cases "c = x")
    case True
    then show ?thesis
      using Cons.prems(1) by (auto simp: x intro: small_power_accurate [OF refl])
  next
    case False
    then show ?thesis
      using Cons.prems Cons.IH [of "n + 8"] by (simp only: x small_powers_ok.simps next_power) simp
  qed
qed simp

lemma large_powers_accurate:
  "large_powers_ok (5 ^ n) (int n) l \<Longrightarrow> c \<in> set l \<Longrightarrow> accurate c"
proof (induction l arbitrary: n)
  case (Cons x l)
  obtain f e k where x: "x = (f, e, k)" by (cases x)
  have next_power: "(5 :: nat) ^ n * 390625 = 5 ^ (n + 8)" "int n + 8 = int (n + 8)"
    by (simp_all add: power_add)
  show ?case
  proof (cases "c = x")
    case True
    then show ?thesis
      using Cons.prems(1) by (auto simp: x intro: large_power_accurate [OF refl] split del: if_split)
  next
    case False
    then show ?thesis
      using Cons.prems Cons.IH [of "n + 8"] by (simp only: x large_powers_ok.simps next_power) simp
  qed
qed simp

lemma cached_power_accurate:
  assumes "j < 79"
  shows "accurate (kCachedPowers ! j)"
proof -
  have "kCachedPowers ! j \<in> set (take 38 kCachedPowers @ drop 38 kCachedPowers)"
    using assms by (simp only: append_take_drop_id nth_mem length_kCachedPowers)
  then have "kCachedPowers ! j \<in> set (rev (take 38 kCachedPowers)) \<or> kCachedPowers ! j \<in> set (drop 38 kCachedPowers)"
    by (simp only: set_append Un_iff set_rev)
  then show ?thesis
  proof
    assume "kCachedPowers ! j \<in> set (rev (take 38 kCachedPowers))"
    then show ?thesis
      by (rule small_powers_accurate [of 4, rotated]) (simp add: kCachedPowers_small)
  next
    assume "kCachedPowers ! j \<in> set (drop 38 kCachedPowers)"
    then show ?thesis
      by (rule large_powers_accurate [of 4, rotated]) (simp add: kCachedPowers_large)
  qed
qed

section \<open>Properties\<close>

text \<open>
  C27: The cached power fits: for the binary exponent of every normalized upper boundary of a double,
  no assertion fails, the index is inside the table of 79 entries, the entry approximates its power
  of ten to half a unit of its 64-bit significand, and the exponent of the product lies between -60 and -34,
  inside the range from \<open>kAlpha\<close> to \<open>kGamma\<close> that the digit generation needs.
\<close>

theorem cached_power_fits:
  assumes "- 1137 \<le> e" "e \<le> 960"
  shows "\<exists>c. get_cached_power_for_binary_exponent e = Inr c \<and>
     - 60 \<le> cp_e c + e + 64 \<and> cp_e c + e + 64 \<le> - 34 \<and> 2 ^ 63 \<le> unat (cp_f c) \<and>
     \<bar>real (unat (cp_f c)) * 2 powi cp_e c - 10 powi cp_k c\<bar> \<le> 2 powi cp_e c / 2"
proof -
  obtain j f ec where "j < 79" "kCachedPowers ! j = (f, ec, 8 * int j - 300)" "2 ^ 63 \<le> unat f"
    "- 60 \<le> ec + e + 64" "ec + e + 64 \<le> - 34"
    "get_cached_power_for_binary_exponent e = Inr \<lparr>cp_f = f, cp_e = ec, cp_k = 8 * int j - 300\<rparr>"
    using assms by (auto simp: double_exponent_def intro: cached_power_found [of e])
  with cached_power_accurate [of j] show ?thesis
    by (simp add: accurate_def)
qed

theorem cached_power_fits_witness:
  "\<exists>c. get_cached_power_for_binary_exponent 960 = Inr c \<and> - 60 \<le> cp_e c + 960 + 64 \<and> cp_e c + 960 + 64 \<le> - 34"
  using cached_power_fits [of 960] by auto

end
