(* ===== verification/Grisu_Correct.thy ===== *)
theory Grisu_Correct
  imports Digit_Generation Powers_Of_Ten
begin

text \<open>
  The correctness of the algorithm: the boundaries are the midpoints between a double and its
  two neighbours, and the digits that \<open>grisu2\<close> writes for a positive finite double denote a
  decimal number strictly between these midpoints, so that reading the number back with
  rounding to nearest gives the double again.
\<close>

section \<open>The values of doubles\<close>

definition double_value :: "binary64 \<Rightarrow> real" where
  "double_value b = real (mant b) * 2 powi expo b"

definition diyfp_value :: "diyfp \<Rightarrow> real" where
  "diyfp_value x = real (unat (dfp_f x)) * 2 powi dfp_e x"

definition upper_mid :: "binary64 \<Rightarrow> real" where
  "upper_mid b = (double_value b + double_value (b + 1)) / 2"

definition lower_mid :: "binary64 \<Rightarrow> real" where
  "lower_mid b = (double_value (b - 1) + double_value b) / 2"

lemma two_powi_add_nat: "(2 :: real) powi (e + int n) = 2 powi e * 2 ^ n"
  by (simp add: power_int_add)

lemma two_powi_pred: "(2 :: real) powi (e - int n) * 2 ^ n = 2 powi e"
  using two_powi_add_nat [of "e - int n" n] by simp

lemma scale_powi: "x * 2 ^ n * (2 :: real) powi (e - int n) = x * 2 powi e"
  using two_powi_pred [of e n] by (simp add: mult.assoc mult.commute [of "2 ^ n"])

lemma next_double:
  assumes "positive_finite b"
  shows "double_value (b + 1) = (real (mant b) + 1) * 2 powi expo b"
proof -
  define n where "n = unat b"
  have n: "0 < n" "n < 2047 * 2 ^ 52"
    using assms by (simp_all add: positive_finite_def n_def)
  then have succ: "unat (b + 1) = n + 1"
    by (subst unat_add) (simp_all add: n_def)
  show ?thesis
  proof (cases "n mod 2 ^ 52 = 2 ^ 52 - 1")
    case True
    then have "Suc (n mod 2 ^ 52) = 2 ^ 52" by simp
    then have s: "(n + 1) div 2 ^ 52 = n div 2 ^ 52 + 1" "(n + 1) mod 2 ^ 52 = 0"
      using div_Suc [of n "2 ^ 52"] mod_Suc [of n "2 ^ 52"] by (simp_all del: power_numeral)
    show ?thesis
    proof (cases "n div 2 ^ 52 = 0")
      case True
      then have "mant b = 2 ^ 52 - 1" "expo b = - 1074" "mant (b + 1) = 2 ^ 52" "expo (b + 1) = - 1074"
        using \<open>n mod 2 ^ 52 = 2 ^ 52 - 1\<close> s
        by (simp_all only: decode_double_nat succ n_def [symmetric]) simp_all
      then show ?thesis by (simp add: double_value_def)
    next
      case False
      then have m: "mant b = 2 ^ 53 - 1" "expo b = int (n div 2 ^ 52) - 1075" "mant (b + 1) = 2 ^ 52"
          "expo (b + 1) = expo b + 1"
        using \<open>n mod 2 ^ 52 = 2 ^ 52 - 1\<close> s
        by (simp_all only: decode_double_nat succ n_def [symmetric]) simp_all
      then show ?thesis
        using two_powi_add_nat [of "expo b" 1] by (simp add: double_value_def)
    qed
  next
    case False
    have "n mod 2 ^ 52 < 2 ^ 52" by simp
    then have "Suc (n mod 2 ^ 52) \<noteq> 2 ^ 52" using False by simp
    then have s: "(n + 1) div 2 ^ 52 = n div 2 ^ 52" "(n + 1) mod 2 ^ 52 = n mod 2 ^ 52 + 1"
      using div_Suc [of n "2 ^ 52"] mod_Suc [of n "2 ^ 52"] by (simp_all del: power_numeral)
    then have "mant (b + 1) = mant b + 1" "expo (b + 1) = expo b"
      by (simp_all only: decode_double_nat succ n_def [symmetric] s) simp_all
    then show ?thesis by (simp add: double_value_def add.commute)
  qed
qed

lemma prev_double:
  assumes "positive_finite b"
  shows "double_value (b - 1) =
    (if lower_boundary_is_closer b then (2 * real (mant b) - 1) * 2 powi (expo b - 1)
     else (real (mant b) - 1) * 2 powi expo b)"
proof -
  define n where "n = unat b"
  have n: "0 < n" "n < 2047 * 2 ^ 52"
    using assms by (simp_all add: positive_finite_def n_def)
  then have pred: "unat (b - 1) = n - 1"
    by (simp add: n_def unat_pred_word)
  define E F where "E = n div 2 ^ 52" and "F = n mod 2 ^ 52"
  have nEF: "n = E * 2 ^ 52 + F" "F < 2 ^ 52"
    by (simp_all add: E_def F_def div_mult_mod_eq)
  note decode = decode_double_nat lower_boundary_nat pred n_def [symmetric] E_def [symmetric] F_def [symmetric]
  show ?thesis
  proof (cases "F = 0")
    case True
    then have E: "0 < E" using n(1) nEF by simp
    then have "n - 1 = (E - 1) * 2 ^ 52 + (2 ^ 52 - 1)"
      using nEF(1) True by (cases E) simp_all
    then have s: "(n - 1) div 2 ^ 52 = E - 1" "(n - 1) mod 2 ^ 52 = 2 ^ 52 - 1"
      by simp_all
    show ?thesis
    proof (cases "E = 1")
      case True
      then show ?thesis
        using s \<open>F = 0\<close> by (simp add: double_value_def decode del: power_numeral)
    next
      case False
      then have "lower_boundary_is_closer b" "mant b = 2 ^ 52" "mant (b - 1) = 2 ^ 53 - 1" "expo (b - 1) = expo b - 1"
        using s \<open>F = 0\<close> E by (simp_all add: decode of_nat_diff del: power_numeral) simp
      then show ?thesis by (simp add: double_value_def)
    qed
  next
    case False
    then have "n - 1 = E * 2 ^ 52 + (F - 1)" "F - 1 < 2 ^ 52"
      using nEF by simp_all
    then have s: "(n - 1) div 2 ^ 52 = E" "(n - 1) mod 2 ^ 52 = F - 1"
      by simp_all
    have "\<not> lower_boundary_is_closer b" "mant (b - 1) = mant b - 1" "expo (b - 1) = expo b" "1 \<le> mant b"
      using s False nEF(2) by (auto simp: decode simp del: power_numeral)
    then show ?thesis by (simp add: double_value_def of_nat_diff)
  qed
qed

lemma upper_mid_eq: "positive_finite b \<Longrightarrow> upper_mid b = (2 * real (mant b) + 1) * 2 powi (expo b - 1)"
  using next_double [of b] two_powi_pred [of "expo b" 1]
  by (simp add: upper_mid_def double_value_def field_simps)

lemma lower_mid_eq:
  assumes "positive_finite b"
  shows "lower_mid b = (if lower_boundary_is_closer b then (4 * real (mant b) - 1) * 2 powi (expo b - 2)
    else (2 * real (mant b) - 1) * 2 powi (expo b - 1))"
proof -
  have "(2 :: real) powi expo b = 2 * 2 powi (expo b - 1)" "(2 :: real) powi (expo b - 1) = 2 * 2 powi (expo b - 2)"
    using two_powi_pred [of "expo b" 1] two_powi_pred [of "expo b - 1" 1] by simp_all
  then show ?thesis
    using prev_double [OF assms] by (simp add: lower_mid_def double_value_def algebra_simps)
qed

section \<open>The boundaries\<close>

lemma minus_scaled_value:
  assumes "positive_finite b" "10 \<le> s"
  shows "real (minus_scaled b s) * 2 powi (expo b - 1 - int s) = lower_mid b"
proof (cases "lower_boundary_is_closer b")
  case True
  have "1 \<le> 4 * mant b" using mant_expo_bounds(1) [OF assms(1)] by simp
  then have "real (minus_scaled b s) = (4 * real (mant b) - 1) * 2 ^ (s - 1)"
    using True by (simp add: minus_scaled_def of_nat_diff)
  moreover have "expo b - 1 - int s = expo b - 2 - int (s - 1)"
    using assms(2) by simp
  ultimately show ?thesis
    using True by (simp only: lower_mid_eq [OF assms(1)] scale_powi if_True)
next
  case False
  have "1 \<le> 2 * mant b" using mant_expo_bounds(1) [OF assms(1)] by simp
  then have "real (minus_scaled b s) = (2 * real (mant b) - 1) * 2 ^ s"
    using False by (simp add: minus_scaled_def of_nat_diff)
  then show ?thesis
    using False by (simp only: lower_mid_eq [OF assms(1)] scale_powi if_False)
qed

lemma boundaries_are_midpoints:
  assumes "positive_finite b"
  shows "\<exists>r. compute_boundaries b = Inr r \<and> diyfp_value (bnd_w r) = double_value b \<and>
     diyfp_value (bnd_minus r) = lower_mid b \<and> diyfp_value (bnd_plus r) = upper_mid b \<and>
     dfp_e (bnd_w r) = dfp_e (bnd_plus r) \<and> dfp_e (bnd_minus r) = dfp_e (bnd_plus r) \<and>
     2 ^ 63 \<le> unat (dfp_f (bnd_w r))"
proof -
  obtain s fw fm fp where s: "10 \<le> s" "s \<le> 62" "2 ^ 63 \<le> 2 * mant b * 2 ^ s" "(2 * mant b + 1) * 2 ^ s < 2 ^ 64"
    "compute_boundaries b = Inr \<lparr>bnd_w = new_diyfp fw (expo b - 1 - int s),
       bnd_minus = new_diyfp fm (expo b - 1 - int s), bnd_plus = new_diyfp fp (expo b - 1 - int s)\<rparr>"
    "unat fw = 2 * mant b * 2 ^ s" "unat fp = (2 * mant b + 1) * 2 ^ s" "unat fm = minus_scaled b s"
    by (rule compute_boundaries_eq [OF assms])
  have "diyfp_value (new_diyfp fw (expo b - 1 - int s)) = double_value b"
    using scale_powi [of "real (mant b)" "s + 1" "expo b"]
    by (simp add: diyfp_value_def s(6) double_value_def diff_diff_eq)
  moreover have "diyfp_value (new_diyfp fm (expo b - 1 - int s)) = lower_mid b"
    using minus_scaled_value [OF assms s(1)] by (simp add: diyfp_value_def s(8))
  moreover have "diyfp_value (new_diyfp fp (expo b - 1 - int s)) = upper_mid b"
  proof -
    have "real (unat fp) = (2 * real (mant b) + 1) * 2 ^ s"
      by (simp add: s(7) algebra_simps)
    then show ?thesis
      by (simp only: diyfp_value_def diyfp_sel scale_powi upper_mid_eq [OF assms])
  qed
  ultimately show ?thesis
    using s(3,5,6) by (intro exI) auto
qed

section \<open>Scaling by a power of ten\<close>

text \<open>
  The rounded product with an entry of the table is less than one unit away from the exact
  product with the power of ten.
\<close>

lemma div_bounds_nat: "0 < m \<Longrightarrow> x div m * m \<le> x" "0 < m \<Longrightarrow> x < x div m * m + (m :: nat)"
  using div_mult_mod_eq [of x m] mod_less_divisor [of m x] by linarith+

lemma scaled_error:
  assumes "accurate (f, ec, k)" "x < 2 ^ 64"
  shows "\<bar>real ((x * unat f + 2 ^ 63) div 2 ^ 64) - real x * 10 powi k / (2 powi ec * 2 ^ 64)\<bar> < 1"
proof -
  define C T r where "C = real (unat f)" and "T = 10 powi k / (2 :: real) powi ec" and "r = (x * unat f + 2 ^ 63) div 2 ^ 64"
  have "\<bar>C * 2 powi ec - 10 powi k\<bar> / 2 powi ec \<le> 1 / 2"
    using assms(1) by (simp add: accurate_def C_def divide_le_eq)
  moreover have "\<bar>C * 2 powi ec - 10 powi k\<bar> / 2 powi ec = \<bar>C - T\<bar>"
    by (simp add: T_def abs_div_pos diff_divide_distrib)
  ultimately have CT: "\<bar>C - T\<bar> \<le> 1 / 2" by simp
  have "real x < real (2 ^ 64)"
    using assms(2) by (simp only: of_nat_less_iff)
  then have x: "0 \<le> real x" "real x < 2 ^ 64" by simp_all
  have "\<bar>real x * C - real x * T\<bar> = real x * \<bar>C - T\<bar>"
    by (simp add: abs_mult flip: right_diff_distrib)
  also have "\<dots> \<le> real x * (1 / 2)"
    using CT by (intro mult_left_mono) simp_all
  finally have table: "\<bar>real x * C - real x * T\<bar> < 2 ^ 63"
    using x(2) by simp
  have "r * 2 ^ 64 \<le> x * unat f + 2 ^ 63" "x * unat f + 2 ^ 63 < r * 2 ^ 64 + 2 ^ 64"
    unfolding r_def by (rule div_bounds_nat; simp)+
  then have "real (r * 2 ^ 64) \<le> real (x * unat f + 2 ^ 63)" "real (x * unat f + 2 ^ 63) < real (r * 2 ^ 64 + 2 ^ 64)"
    by (simp_all only: of_nat_le_iff of_nat_less_iff)
  then have "\<bar>real r * 2 ^ 64 - real x * C\<bar> \<le> 2 ^ 63"
    by (simp add: C_def abs_le_iff)
  then have "\<bar>real r * 2 ^ 64 - real x * T\<bar> < 2 ^ 64"
    using table by simp
  then have "\<bar>real r * 2 ^ 64 - real x * T\<bar> / 2 ^ 64 < 1"
    by simp
  moreover have "\<bar>real r * 2 ^ 64 - real x * T\<bar> / 2 ^ 64 = \<bar>real r - real x * T / 2 ^ 64\<bar>"
    by (simp add: abs_div_pos diff_divide_distrib)
  moreover have "real x * T / 2 ^ 64 = real x * 10 powi k / (2 powi ec * 2 ^ 64)"
    by (simp add: T_def)
  ultimately show ?thesis by (simp add: r_def)
qed

text \<open>Rounded products keep a distance of two units when the significands are far enough apart.\<close>

lemma product_gap:
  assumes "2 ^ 63 \<le> (c :: nat)" "x + 2 ^ 9 \<le> y"
  shows "(x * c + 2 ^ 63) div 2 ^ 64 + 2 \<le> (y * c + 2 ^ 63) div 2 ^ 64"
proof -
  have "2 ^ 9 * 2 ^ 63 \<le> 2 ^ 9 * c"
    using assms(1) by (rule mult_le_mono2)
  moreover have "(x + 2 ^ 9) * c \<le> y * c"
    using assms(2) by (rule mult_le_mono1)
  ultimately have "x * c + 2 ^ 63 + 2 * 2 ^ 64 \<le> y * c + 2 ^ 63"
    by (simp add: add_mult_distrib)
  then have "(x * c + 2 ^ 63 + 2 * 2 ^ 64) div 2 ^ 64 \<le> (y * c + 2 ^ 63) div 2 ^ 64"
    by (rule div_le_mono)
  then show ?thesis by simp
qed

text \<open>The width of the interval, relative to its upper end.\<close>

lemma width_enough:
  fixes A B c :: nat
  assumes "2 ^ 63 \<le> c" "A \<le> (A - B) * 2 ^ 53" "3 * 2 ^ 9 \<le> A - B" "B \<le> A"
  defines "wp \<equiv> (A * c + 2 ^ 63) div 2 ^ 64" and "wm \<equiv> (B * c + 2 ^ 63) div 2 ^ 64"
  shows "wp - 1 \<le> (wp - 1 - (wm + 1)) * 10 ^ 16"
proof -
  define X where "X = (A - B) * c"
  have gap: "wm + 2 \<le> wp"
    unfolding wp_def wm_def by (rule product_gap [OF assms(1)]) (use assms(3,4) in simp)
  have "A * c = X + B * c"
    using assms(4) by (simp add: X_def flip: add_mult_distrib)
  have "wm * 2 ^ 64 \<le> B * c + 2 ^ 63"
    unfolding wm_def by (rule div_times_less_eq_dividend)
  moreover have "A * c + 2 ^ 63 < (wp + 1) * 2 ^ 64"
    unfolding wp_def add_mult_distrib mult_1 by (rule div_bounds_nat) simp
  ultimately have h1: "X < (wp - wm + 1) * 2 ^ 64"
    using gap \<open>A * c = X + B * c\<close> by (simp add: diff_mult_distrib)
  have h2: "3 * 2 ^ 9 * 2 ^ 63 \<le> X"
    unfolding X_def using assms(1,3) by (intro mult_le_mono)
  have "A * c \<le> X * 2 ^ 53"
    unfolding X_def using mult_le_mono1 [OF assms(2), of c] by (simp add: mult_ac)
  moreover have "wp * 2 ^ 64 \<le> A * c + 2 ^ 63"
    unfolding wp_def by (rule div_times_less_eq_dividend)
  ultimately have h3: "wp * 2 ^ 64 \<le> X * 2 ^ 53 + 2 ^ 63"
    by linarith
  obtain D where D: "wp = wm + 2 + D"
    using gap le_Suc_ex by blast
  have "X < (D + 3) * 2 ^ 64"
    using h1 D by (simp add: algebra_simps)
  then show ?thesis
    using h2 h3 D by simp
qed

section \<open>The digits\<close>

lemma minus_scaled_bounds:
  assumes b: "positive_finite b" and s: "10 \<le> s"
  defines "W \<equiv> 2 * mant b * 2 ^ s" and "A \<equiv> (2 * mant b + 1) * 2 ^ s" and "B \<equiv> minus_scaled b s"
  shows "B + 2 ^ 9 \<le> W" "W + 2 ^ 9 \<le> A" "3 * 2 ^ 9 \<le> A - B" "A \<le> (A - B) * 2 ^ 53" "B \<le> A"
proof -
  define a t where "a = mant b" and "t = (2 :: nat) ^ (s - 1)"
  have a: "1 \<le> a" "a < 2 ^ 53"
    unfolding a_def by (rule mant_expo_bounds [OF b])+
  have t: "2 ^ s = 2 * t" "2 ^ 9 \<le> t"
  proof -
    show "2 ^ s = 2 * t" using s by (cases s) (simp_all add: t_def)
    show "2 ^ 9 \<le> t" unfolding t_def by (rule power_increasing) (use s in simp_all)
  qed
  define p where "p = a * t"
  have W: "W = 4 * p" and A: "A = 4 * p + 2 * t"
    by (simp_all add: W_def A_def a_def p_def t algebra_simps)
  have "1 * t \<le> a * t" "a * t \<le> (2 ^ 53 - 1) * t"
    by (rule mult_le_mono1; use a in simp)+
  then have at: "t \<le> p" "p \<le> (2 ^ 53 - 1) * t"
    by (simp_all only: p_def mult_1)
  consider "lower_boundary_is_closer b" "a = 2 ^ 52" | "\<not> lower_boundary_is_closer b"
    using lower_boundary_nat [of b] by (auto simp: a_def)
  then have "B + 2 ^ 9 \<le> W \<and> W + 2 ^ 9 \<le> A \<and> 3 * 2 ^ 9 \<le> A - B \<and> A \<le> (A - B) * 2 ^ 53 \<and> B \<le> A"
  proof cases
    case 1
    then have "B = 4 * p - t" "p = 2 ^ 52 * t"
      by (simp_all add: B_def minus_scaled_def t_def a_def p_def diff_mult_distrib)
    then show ?thesis using t(2) unfolding W A by simp
  next
    case 2
    then have "B = 4 * p - 2 * t"
      by (simp add: B_def minus_scaled_def t a_def p_def diff_mult_distrib)
    then have "4 * p = B + 2 * t" using at(1) by simp
    moreover from this have "A - B = 4 * t" unfolding A by simp
    ultimately show ?thesis using t(2) at unfolding W A by simp
  qed
  then show "B + 2 ^ 9 \<le> W" "W + 2 ^ 9 \<le> A" "3 * 2 ^ 9 \<le> A - B" "A \<le> (A - B) * 2 ^ 53" "B \<le> A"
    by simp_all
qed

lemma digits_between:
  assumes found: "digits_found M D q out out'" and D: "D \<le> M" and q: "0 < q"
    and lower: "B * T < real (M - D)" and upper: "real M < A * T"
    and scale: "T * 10 powi db_exponent out = real q * u" and T: "0 < T"
  shows "\<exists>N. 0 < N \<and> written out' = nat_digits N \<and> fits out' \<and> same_place out out' \<and> db_length out' \<le> 17 \<and>
     B * u < real N * 10 powi db_exponent out' \<and> real N * 10 powi db_exponent out' < A * u"
proof -
  obtain N n m where N: "0 < N" "written out' = nat_digits N" "fits out'" "same_place out out'" "db_length out' \<le> 17"
    "db_exponent out' = db_exponent out + int n - int m"
    "N * (10 ^ n * q) \<le> M * 10 ^ m" "M * 10 ^ m \<le> N * (10 ^ n * q) + D * 10 ^ m"
    using found unfolding digits_found_def by blast
  define V where "V = real N * 10 ^ n / 10 ^ m"
  have "real (N * (10 ^ n * q)) \<le> real (M * 10 ^ m)" "real (M * 10 ^ m) \<le> real (N * (10 ^ n * q) + D * 10 ^ m)"
    using N(7,8) by (simp_all only: of_nat_le_iff)
  then have "V * real q \<le> real M" "real M \<le> V * real q + real D"
    by (simp_all add: V_def field_simps)
  then have V: "B * T < V * real q" "V * real q < A * T"
    using lower upper D by (simp_all add: of_nat_diff)
  have val_eq: "real N * 10 powi db_exponent out' = V * 10 powi db_exponent out"
    by (simp add: N(6) V_def power_int_add power_int_diff)
  have up: "0 < u" "0 < (10 :: real) powi db_exponent out"
  proof -
    show "0 < (10 :: real) powi db_exponent out" by simp
    then have "0 < real q * u" using T unfolding scale [symmetric] by simp
    then show "0 < u" using q by (simp add: zero_less_mult_iff)
  qed
  have "V * 10 powi db_exponent out * T = V * real q * u"
    using scale by (simp add: mult_ac)
  moreover have "B * T * u < V * real q * u" "V * real q * u < A * T * u"
    using V up by simp_all
  moreover have "B * u * T = B * T * u" "A * u * T = A * T * u"
    by simp_all
  ultimately have "B * u * T < V * 10 powi db_exponent out * T" "V * 10 powi db_exponent out * T < A * u * T"
    by (simp_all only:)
  then have "B * u < V * 10 powi db_exponent out" "V * 10 powi db_exponent out < A * u"
    using T by simp_all
  then show ?thesis using N(1-5) val_eq by auto
qed

text \<open>
  For a positive finite double the algorithm succeeds: no assertion fails, at most 17 bytes are
  written, and the decimal number they denote lies strictly between the midpoints.
\<close>

lemma grisu2_double_ok:
  assumes b: "positive_finite b" and out: "db_length out = 0" "db_start out + 17 \<le> length (db_array out)"
  shows "\<exists>out' N. grisu2_double b out = Inr out' \<and> 0 < N \<and> written out' = nat_digits N \<and> fits out' \<and>
     same_place out out' \<and> db_length out' \<le> 17 \<and>
     lower_mid b < real N * 10 powi db_exponent out' \<and> real N * 10 powi db_exponent out' < upper_mid b"
proof -
  obtain s fw fm fp where s: "10 \<le> s" "s \<le> 62" "2 ^ 63 \<le> 2 * mant b * 2 ^ s" "(2 * mant b + 1) * 2 ^ s < 2 ^ 64"
    "compute_boundaries b = Inr \<lparr>bnd_w = new_diyfp fw (expo b - 1 - int s),
       bnd_minus = new_diyfp fm (expo b - 1 - int s), bnd_plus = new_diyfp fp (expo b - 1 - int s)\<rparr>"
    "unat fw = 2 * mant b * 2 ^ s" "unat fp = (2 * mant b + 1) * 2 ^ s" "unat fm = minus_scaled b s"
    by (rule compute_boundaries_eq [OF b])
  define e where "e = expo b - 1 - int s"
  have "double_exponent e"
    using mant_expo_bounds(3,4) [OF b] s(1,2) by (simp add: double_exponent_def e_def)
  then obtain j f ec where c: "j < 79" "kCachedPowers ! j = (f, ec, 8 * int j - 300)" "2 ^ 63 \<le> unat f"
    "- 60 \<le> ec + e + 64" "ec + e + 64 \<le> - 34"
    "get_cached_power_for_binary_exponent e = Inr \<lparr>cp_f = f, cp_e = ec, cp_k = 8 * int j - 300\<rparr>"
    by (rule cached_power_found)
  define k where "k = 8 * int j - 300"
  have acc: "accurate (f, ec, k)"
    using cached_power_accurate [OF c(1)] c(2) by (simp add: k_def)
  note gaps = minus_scaled_bounds [OF b s(1), folded s(6-8)]
  define rnd where "rnd x = (x * unat f + 2 ^ 63) div 2 ^ 64" for x :: nat
  let ?c = "new_diyfp f ec"
  have mul: "unat (dfp_f (diyfp_mul (new_diyfp x e) ?c)) = rnd (unat x)" for x
    by (simp only: diyfp_mul_significand diyfp_sel rnd_def)
  have order: "rnd (unat fm) + 2 \<le> rnd (unat fw)" "rnd (unat fw) + 2 \<le> rnd (unat fp)"
    unfolding rnd_def by (rule product_gap [OF c(3)], use gaps in simp)+
  define M_minus M_plus where "M_minus = new_diyfp (dfp_f (diyfp_mul (new_diyfp fm e) ?c) + 1) (ec + e + 64)"
    and "M_plus = new_diyfp (dfp_f (diyfp_mul (new_diyfp fp e) ?c) - 1) (ec + e + 64)"
  have "rnd (unat fw) < 2 ^ 64"
    unfolding mul [symmetric] by (rule unat_less)
  then have minus: "unat (dfp_f M_minus) = rnd (unat fm) + 1"
    using order(1) by (simp add: M_minus_def, subst unat_add) (simp_all add: mul)
  have plus: "unat (dfp_f M_plus) = rnd (unat fp) - 1"
    using order by (simp add: M_plus_def unat_pred_word mul)
  define D where "D = rnd (unat fp) - 1 - (rnd (unat fm) + 1)"
  define q :: nat where "q = 2 ^ nat (- (ec + e + 64))"
  let ?out = "out\<lparr>db_exponent := - k\<rparr>"
  have big: "2 ^ 61 \<le> rnd (unat fp) - 1"
  proof -
    have "2 ^ 63 \<le> unat fp" using s(3,7) by simp
    then have "2 ^ 63 * 2 ^ 63 \<le> unat fp * unat f"
      using c(3) by (rule mult_le_mono)
    then have "(2 ^ 63 * 2 ^ 63) div 2 ^ 64 \<le> rnd (unat fp)"
      unfolding rnd_def by (intro div_le_mono) simp
    then show ?thesis by simp
  qed
  have width: "rnd (unat fp) - 1 \<le> D * 10 ^ 16"
    unfolding D_def rnd_def by (rule width_enough [OF c(3)]) (use gaps in simp_all)
  have "\<exists>out'. grisu2_digit_gen M_minus (diyfp_mul (new_diyfp fw e) ?c) M_plus ?out = Inr out' \<and>
     digits_found (rnd (unat fp) - 1) D q ?out out'"
    unfolding plus [symmetric] q_def
    by (rule grisu2_digit_gen_ok)
      (use c(4,5) order big width out plus minus in \<open>simp_all add: M_minus_def [THEN arg_cong [where f = dfp_e]]
        M_plus_def [THEN arg_cong [where f = dfp_e]] mul D_def\<close>)
  then obtain out' where o: "grisu2_digit_gen M_minus (diyfp_mul (new_diyfp fw e) ?c) M_plus ?out = Inr out'"
    "digits_found (rnd (unat fp) - 1) D q ?out out'"
    by blast
  have "grisu2_double b out = Inr out'"
    using o(1) b s(5) c(6)
    by (simp add: grisu2_double_def grisu2_def positive_finite_iff Let_def M_minus_def M_plus_def k_def add.commute
        flip: e_def)
  moreover have "\<exists>N. 0 < N \<and> written out' = nat_digits N \<and> fits out' \<and> same_place ?out out' \<and> db_length out' \<le> 17 \<and>
     real (unat fm) * 2 powi e < real N * 10 powi db_exponent out' \<and>
     real N * 10 powi db_exponent out' < real (unat fp) * 2 powi e"
  proof (rule digits_between [OF o(2)])
    let ?T = "10 powi k / (2 powi ec * 2 ^ 64) :: real"
    show "D \<le> rnd (unat fp) - 1" by (simp add: D_def)
    show "0 < q" by (simp add: q_def)
    show "0 < ?T" by simp
    have M: "rnd (unat fp) - 1 - D = rnd (unat fm) + 1"
      using order by (simp add: D_def)
    show "real (unat fm) * ?T < real (rnd (unat fp) - 1 - D)"
      using scaled_error [OF acc unat_less [of fm], folded rnd_def] unfolding M by simp
    have "1 \<le> rnd (unat fp)" using order by simp
    then show "real (rnd (unat fp) - 1) < real (unat fp) * ?T"
      using scaled_error [OF acc unat_less [of fp], folded rnd_def] by (simp add: of_nat_diff)
    have "real q = 2 powi (- (ec + e + 64))"
      using c(5) by (simp add: q_def power_int_def)
    moreover have "(2 :: real) powi (- (ec + e + 64)) * (2 powi ec * 2 ^ 64) * 2 powi e = 2 powi (- (ec + e + 64) + (ec + int 64) + e)"
      unfolding two_powi_add_nat [symmetric] by (subst (1 2) power_int_add) simp_all
    ultimately have "real q * (2 powi ec * 2 ^ 64) * 2 powi e = 1"
      by simp
    then show "?T * 10 powi db_exponent ?out = real q * 2 powi e"
      by (simp add: power_int_minus field_simps)
  qed
  moreover have "real (unat fm) * 2 powi e = lower_mid b"
    using minus_scaled_value [OF b s(1)] by (simp add: s(8) e_def)
  moreover have "real (unat fp) * 2 powi e = upper_mid b"
  proof -
    have "real (unat fp) = (2 * real (mant b) + 1) * 2 ^ s"
      by (simp add: s(7) algebra_simps)
    then show ?thesis by (simp only: e_def scale_powi upper_mid_eq [OF b])
  qed
  ultimately show ?thesis by auto
qed

section \<open>Properties\<close>

text \<open>
  C26: The boundaries of a double are exact: for every positive finite \<open>double\<close>, the smallest and the
  largest and the powers of two with their closer neighbour included, \<open>compute_boundaries\<close> gives the
  double itself and the midpoints between it and its two neighbours, without rounding, with one
  exponent and with the double's significand normalized.
\<close>

theorem boundaries_exact:
  assumes "dbl_isfinite b" "dbl_positive b"
  shows "\<exists>r. compute_boundaries b = Inr r \<and> diyfp_value (bnd_w r) = double_value b \<and>
     diyfp_value (bnd_minus r) = (double_value (b - 1) + double_value b) / 2 \<and>
     diyfp_value (bnd_plus r) = (double_value b + double_value (b + 1)) / 2 \<and>
     dfp_e (bnd_w r) = dfp_e (bnd_plus r) \<and> dfp_e (bnd_minus r) = dfp_e (bnd_plus r) \<and>
     2 ^ 63 \<le> unat (dfp_f (bnd_w r))"
  using boundaries_are_midpoints [of b] assms by (simp add: positive_finite_iff lower_mid_def upper_mid_def)

theorem boundaries_exact_witness:
  "\<exists>r. compute_boundaries 0x3FF0000000000000 = Inr r \<and>
     diyfp_value (bnd_w r) = double_value 0x3FF0000000000000 \<and>
     diyfp_value (bnd_minus r) = (double_value 0x3FEFFFFFFFFFFFFF + double_value 0x3FF0000000000000) / 2 \<and>
     diyfp_value (bnd_plus r) = (double_value 0x3FF0000000000000 + double_value 0x3FF0000000000001) / 2"
proof -
  have "dbl_isfinite 0x3FF0000000000000" "dbl_positive 0x3FF0000000000000" by code_simp+
  from boundaries_exact [OF this] show ?thesis by auto
qed

text \<open>
  C12: The digits of a double lie in its interval: for every positive finite \<open>double\<close> no assertion of
  \<open>grisu2\<close> and its parts fails and no byte outside the 17 behind the start is written; the digits,
  at most 17 and the first not 0, with the decimal exponent denote a number strictly between the
  midpoints to the two neighbours, so it is nearer to this double than to any other.
\<close>

theorem grisu2_in_interval:
  assumes "dbl_isfinite b" "dbl_positive b" "db_length out = 0" "db_start out + 17 \<le> length (db_array out)"
  shows "\<exists>out' N. grisu2_double b out = Inr out' \<and> 0 < N \<and> written out' = nat_digits N \<and> same_place out out' \<and>
     db_length out' \<le> 17 \<and> (double_value (b - 1) + double_value b) / 2 < real N * 10 powi db_exponent out' \<and>
     real N * 10 powi db_exponent out' < (double_value b + double_value (b + 1)) / 2"
  using grisu2_double_ok [of b out] assms by (auto simp: positive_finite_iff lower_mid_def upper_mid_def)

theorem grisu2_in_interval_witness:
  "\<exists>out' N. grisu2_double 0x3FB999999999999A \<lparr>db_array = replicate 17 nul, db_start = 0, db_length = 0, db_exponent = 0\<rparr> = Inr out' \<and>
     0 < N \<and> written out' = nat_digits N \<and> db_length out' \<le> 17 \<and>
     (double_value 0x3FB9999999999999 + double_value 0x3FB999999999999A) / 2 < real N * 10 powi db_exponent out'"
proof -
  have "dbl_isfinite 0x3FB999999999999A" "dbl_positive 0x3FB999999999999A" by code_simp+
  from grisu2_in_interval [OF this, of "\<lparr>db_array = replicate 17 nul, db_start = 0, db_length = 0, db_exponent = 0\<rparr>"]
  show ?thesis by auto
qed

end
