(* ===== verification/Buffer_Contents.thy ===== *)
theory Buffer_Contents
  imports Digit_Generation
begin

text \<open>
  The digit generation reads no byte it has not written: on two buffers that differ only
  outside the written digits it gives the same digits, so the text of a double does not depend
  on what the buffer held before.
\<close>

section \<open>Buffers with the same digits\<close>

text \<open>Two buffers agree when the same digits and the same exponent have been written.\<close>

definition same_text :: "digit_buffer \<Rightarrow> digit_buffer \<Rightarrow> bool" where
  "same_text o1 o2 \<longleftrightarrow>
     db_length o1 = db_length o2 \<and> db_exponent o1 = db_exponent o2 \<and> written o1 = written o2 \<and> fits o1 \<and> fits o2"

text \<open>Two calls agree when their results do, provided that both have one.\<close>

definition agree :: "digit_buffer result \<Rightarrow> digit_buffer result \<Rightarrow> bool" where
  "agree r1 r2 \<longleftrightarrow> (\<forall>x y. r1 = Inr x \<longrightarrow> r2 = Inr y \<longrightarrow> same_text x y)"

lemma agree_simps [simp]:
  "agree (Inl e) r" "agree r (Inl e)" "agree (Inr x) (Inr y) \<longleftrightarrow> same_text x y"
  by (simp_all add: agree_def)

lemma same_text_exponent: "same_text o1 o2 \<Longrightarrow> same_text (o1\<lparr>db_exponent := x\<rparr>) (o2\<lparr>db_exponent := x\<rparr>)"
  by (simp add: same_text_def)

lemma agree_rbind:
  assumes "agree m1 m2" "\<And>x y. m1 = Inr x \<Longrightarrow> same_text x y \<Longrightarrow> agree (f1 x) (f2 y)"
  shows "agree (rbind m1 f1) (rbind m2 f2)"
  using assms by (cases m1; cases m2) auto

lemma agree_rbind_same: "(\<And>x. m = Inr x \<Longrightarrow> agree (f1 x) (f2 x)) \<Longrightarrow> agree (rbind m f1) (rbind m f2)"
  by (cases m) auto

lemma written_nth:
  assumes "fits out" "i < db_length out"
  shows "db_array out ! (db_start out + i) = written out ! i"
  using assms by (simp add: written_def fits_def)

lemma append_digit_same:
  assumes "same_text o1 o2"
  shows "agree (append_digit d o1) (append_digit d o2)"
proof (cases "db_start o1 + db_length o1 < length (db_array o1) \<and> db_start o2 + db_length o2 < length (db_array o2)")
  case True
  then have room: "db_start o1 + db_length o1 < length (db_array o1)" "db_start o2 + db_length o2 < length (db_array o2)"
    by simp_all
  obtain p1 where p1: "append_digit d o1 = Inr p1" "written p1 = written o1 @ [digit_char d]" "same_place o1 p1"
    "db_length p1 = db_length o1 + 1" "db_exponent p1 = db_exponent o1" "fits p1"
    by (rule append_digit_ok [OF room(1)])
  obtain p2 where p2: "append_digit d o2 = Inr p2" "written p2 = written o2 @ [digit_char d]" "same_place o2 p2"
    "db_length p2 = db_length o2 + 1" "db_exponent p2 = db_exponent o2" "fits p2"
    by (rule append_digit_ok [OF room(2)])
  show ?thesis
    using assms p1 p2 by (simp add: same_text_def)
next
  case False
  then show ?thesis
    by (auto simp: append_digit_def array_put_def)
qed

lemma written_update_last:
  assumes "fits out" "0 < db_length out"
  shows "written (out\<lparr>db_array := (db_array out)[db_start out + db_length out - 1 := c]\<rparr>) = (written out)[db_length out - 1 := c]"
  using assms by (simp add: written_def drop_update_swap take_update_swap)

lemma grisu2_round_same:
  "same_text o1 o2 \<Longrightarrow>
     agree (grisu2_round distance delta remainder ten_k o1) (grisu2_round distance delta remainder ten_k o2)"
proof (induction distance delta remainder ten_k o1 arbitrary: o2 rule: grisu2_round.induct)
  case (1 distance delta remainder ten_k o1)
  note eq = 1(2) [unfolded same_text_def]
  show ?case
  proof (cases "1 \<le> db_length o1")
    case False
    then show ?thesis
      using eq by (simp add: grisu2_round.simps [of _ _ _ _ o1] grisu2_round.simps [of _ _ _ _ o2])
  next
    case len: True
    let ?last = "db_start o1 + db_length o1 - 1" and ?last2 = "db_start o2 + db_length o2 - 1"
    have at: "vec_at (db_array o1) ?last = Inr (written o1 ! (db_length o1 - 1))"
      "vec_at (db_array o2) ?last2 = Inr (written o1 ! (db_length o1 - 1))"
      using len eq written_nth [of o1 "db_length o1 - 1"] written_nth [of o2 "db_length o2 - 1"]
      by (auto simp: vec_at_eq_Inr fits_def)
    define c where "c = written o1 ! (db_length o1 - 1)"
    let ?c = "char_of ((of_char c :: nat) + 255) :: char"
    let ?u1 = "o1\<lparr>db_array := (db_array o1)[?last := ?c]\<rparr>" and ?u2 = "o2\<lparr>db_array := (db_array o2)[?last2 := ?c]\<rparr>"
    have step: "same_text ?u1 ?u2"
      using len eq written_update_last [of o1 ?c] written_update_last [of o2 ?c]
      by (simp add: same_text_def fits_def)
    define go where "go \<longleftrightarrow> remainder < distance \<and> delta - remainder \<ge> ten_k \<and>
      (remainder + ten_k < distance \<or> distance - remainder > remainder + ten_k - distance)"
    define ok where "ok \<longleftrightarrow> distance \<le> delta \<and> remainder \<le> delta \<and> ten_k > 0"
    have unfold: "grisu2_round distance delta remainder ten_k o1 =
        (if \<not> ok then Inl Abort_Called
         else if go then if c = CHR ''0'' then Inl Abort_Called else grisu2_round distance delta (remainder + ten_k) ten_k ?u1
         else Inr o1)"
      "grisu2_round distance delta remainder ten_k o2 =
        (if \<not> ok then Inl Abort_Called
         else if go then if c = CHR ''0'' then Inl Abort_Called else grisu2_round distance delta (remainder + ten_k) ten_k ?u2
         else Inr o2)"
      using len eq at unfolding ok_def go_def c_def
      by (cases "distance \<le> delta"; cases "remainder \<le> delta";
          simp add: grisu2_round.simps [of _ _ _ _ o1] grisu2_round.simps [of _ _ _ _ o2] Let_def split del: if_split
          cong: if_cong)+
    show ?thesis
    proof (cases "ok \<and> go \<and> c \<noteq> CHR ''0''")
      case True
      then have "agree (grisu2_round distance delta (remainder + ten_k) ten_k ?u1)
          (grisu2_round distance delta (remainder + ten_k) ten_k ?u2)"
        using len step at unfolding ok_def go_def c_def
        by (intro 1(1)) (simp_all only: not_False_eq_True not_not simp_thms)
      then show ?thesis using True by (simp add: unfold)
    next
      case False
      then show ?thesis using 1(2) by (auto simp: unfold)
    qed
  qed
qed


section \<open>The generation on such buffers\<close>

lemma same_text_at: "same_text o1 o2 \<Longrightarrow> db_exponent o1 = db_exponent o2"
  by (simp add: same_text_def)

lemma fractional_loop_same:
  "same_text o1 o2 \<Longrightarrow>
     agree (fractional_loop one delta distance p2 m o1) (fractional_loop one delta distance p2 m o2)"
proof (induction one delta distance p2 m o1 arbitrary: o2 rule: fractional_loop.induct)
  case (1 one delta distance p2 m o1)
  let ?d = "drop_bit (nat (- dfp_e one)) (p2 * 10)" and ?r = "p2 * 10 AND (dfp_f one - 1)"
  show ?case
  proof (cases "p2 \<le> (- 1) div 10 \<and> ?d \<le> 9")
    case False
    then show ?thesis
      by (simp add: fractional_loop.simps [of _ _ _ _ _ o1] fractional_loop.simps [of _ _ _ _ _ o2] Let_def)
  next
    case True
    let ?f = "\<lambda>out. if ?r \<le> delta * 10
        then grisu2_round (distance * 10) (delta * 10) ?r (dfp_f one) (out\<lparr>db_exponent := db_exponent out - (m + 1)\<rparr>)
        else fractional_loop one (delta * 10) (distance * 10) ?r (m + 1) out"
    have "agree (rbind (append_digit (unat ?d) o1) ?f) (rbind (append_digit (unat ?d) o2) ?f)"
    proof (rule agree_rbind [OF append_digit_same [OF 1(2)]])
      fix x y
      assume x: "append_digit (unat ?d) o1 = Inr x" and xy: "same_text x y"
      show "agree (?f x) (?f y)"
      proof (cases "?r \<le> delta * 10")
        case True
        then show ?thesis
          using grisu2_round_same [OF same_text_exponent [OF xy]] by (simp add: same_text_at [OF xy])
      next
        case False
        then have "agree (fractional_loop one (delta * 10) (distance * 10) ?r (m + 1) x)
            (fractional_loop one (delta * 10) (distance * 10) ?r (m + 1) y)"
          using True x xy by (intro 1(1)) simp_all
        then show ?thesis using False by simp
      qed
    qed
    then show ?thesis
      using True by (simp add: fractional_loop.simps [of _ _ _ _ _ o1] fractional_loop.simps [of _ _ _ _ _ o2] Let_def)
  qed
qed

lemma integral_loop_same:
  "same_text o1 o2 \<Longrightarrow>
     agree (integral_loop one delta distance p2 n p1 pow10 o1) (integral_loop one delta distance p2 n p1 pow10 o2)"
proof (induction n arbitrary: o1 o2 p1 pow10)
  case 0
  then show ?case by (simp add: fractional_digits_def fractional_loop_same)
next
  case (Suc n)
  let ?rem = "push_bit (nat (- dfp_e one)) (ucast (p1 mod pow10)) + p2"
  let ?f = "\<lambda>out. if ?rem \<le> delta
      then grisu2_round distance delta ?rem (push_bit (nat (- dfp_e one)) (ucast pow10)) (out\<lparr>db_exponent := db_exponent out + int n\<rparr>)
      else integral_loop one delta distance p2 n (p1 mod pow10) (pow10 div 10) out"
  have "agree (rbind (append_digit (unat (p1 div pow10)) o1) ?f) (rbind (append_digit (unat (p1 div pow10)) o2) ?f)"
  proof (rule agree_rbind [OF append_digit_same [OF Suc.prems]])
    fix x y
    assume xy: "same_text x y"
    show "agree (?f x) (?f y)"
      using grisu2_round_same [OF same_text_exponent [OF xy]] Suc.IH [OF xy] by (simp add: same_text_at [OF xy])
  qed
  then show ?case by (simp add: Let_def)
qed

lemma grisu2_double_same:
  assumes "same_text o1 o2"
  shows "agree (grisu2_double b o1) (grisu2_double b o2)"
proof -
  have gen: "agree (grisu2_digit_gen x w z p1) (grisu2_digit_gen x w z p2)" if "same_text p1 p2" for x w z p1 p2
    unfolding grisu2_digit_gen_def using integral_loop_same [OF that]
    by (auto simp: Let_def split: prod.split intro!: agree_rbind_same)
  have "agree (grisu2 x v z o1) (grisu2 x v z o2)" for x v z
    unfolding grisu2_def using gen [OF same_text_exponent [OF assms]]
    by (auto simp: Let_def intro!: agree_rbind_same)
  then show ?thesis
    unfolding grisu2_double_def by (auto intro!: agree_rbind_same)
qed

end
