(* ===== verification/Double_Layout.thy ===== *)
theory Double_Layout
  imports Double_Text Grisu_Correct Buffer_Contents
begin

text \<open>
  What \<open>format_buffer\<close> and \<open>to_chars\<close> leave in the buffer: a reference layout of the digits
  (a plain number, a number below 1, or scientific notation), for every positive finite
  double, and with it the text of every finite double. No assertion fails and no byte outside
  the 23 bytes behind the start (24 with the sign) is touched.
\<close>

section \<open>The reference layout\<close>

definition exponent_text :: "int \<Rightarrow> string" where
  "exponent_text e =
     (if e < 0 then CHR ''-'' else CHR ''+'') # (if \<bar>e\<bar> < 10 then ''0'' else []) @ nat_digits (nat \<bar>e\<bar>)"

definition float_layout :: "string \<Rightarrow> int \<Rightarrow> string" where
  "float_layout ds x =
     (let n = int (length ds) + x in
      if 0 \<le> x \<and> n \<le> 15 then ds @ replicate (nat x) (CHR ''0'') @ ''.0''
      else if 0 < n \<and> n \<le> 15 then take (nat n) ds @ ''.'' @ drop (nat n) ds
      else if - 4 < n \<and> n \<le> 0 then ''0.'' @ replicate (nat (- n)) (CHR ''0'') @ ds
      else hd ds # (if length ds = 1 then [] else CHR ''.'' # tl ds) @ ''e'' @ exponent_text (n - 1))"

section \<open>Writing at the end of a text\<close>

text \<open>The array holds \<open>t\<close>, then \<open>r\<close>, and the pointer stands behind \<open>t\<close>.\<close>

definition cursor :: "string \<Rightarrow> string \<Rightarrow> string \<times> nat" where
  "cursor t r = (t @ r, length t)"

lemma put_next_cursor [simp]: "put_next c (cursor t (x # r)) = Inr (cursor (t @ [c]) r)"
  by (simp add: put_next_def cursor_def array_put_def)

lemma array_put_at: "i = length xs \<Longrightarrow> array_put (xs @ y # ys) i c = Inr (xs @ c # ys)"
  by (simp add: array_put_def)

lemma split_front:
  assumes "n \<le> length (r :: 'a list)"
  obtains u v where "r = u @ v" "length u = n"
  using assms by (metis append_take_drop_id length_take min_absorb2)

lemma take_two: "2 \<le> length r \<Longrightarrow> \<exists>x y r'. r = x # y # r'"
  by (cases r; cases "tl r") auto

lemma nat_digits_2: "10 \<le> k \<Longrightarrow> k < 100 \<Longrightarrow> nat_digits k = [digit_char (k div 10), digit_char (k mod 10)]"
  by (simp add: nat_digits.simps [of k] nat_digits.simps [of "k div 10"])

lemma nat_digits_3:
  assumes "100 \<le> k" "k < 1000"
  shows "nat_digits k = [digit_char (k div 100), digit_char (k mod 100 div 10), digit_char (k mod 100 mod 10)]"
proof -
  have "k mod 100 = 10 * (k div 10 mod 10) + k mod 10"
    using mod_mult2_eq [of k 10 10] by simp
  then have q: "k div 10 div 10 = k div 100" "k div 10 mod 10 = k mod 100 div 10" "k mod 100 mod 10 = k mod 10"
    by (simp_all add: div_mult2_eq [symmetric])
  have "10 \<le> k div 10" "k div 10 < 100" using assms by simp_all
  then have "nat_digits (k div 10) = [digit_char (k div 100), digit_char (k mod 100 div 10)]"
    by (simp only: nat_digits_2 q)
  then show ?thesis
    using assms by (simp add: nat_digits.simps [of k] q)
qed

lemma append_exponent_text:
  assumes "- 1000 < e" "e < 1000" "4 \<le> length r"
  shows "\<exists>r'. append_exponent (cursor t r) e = Inr (cursor (t @ exponent_text e) r')"
proof -
  obtain x1 x2 x3 x4 r4 where r: "r = x1 # x2 # x3 # x4 # r4"
    using assms(3) by (auto simp: numeral_eq_Suc Suc_le_length_iff)
  define k where "k = nat \<bar>e\<bar>"
  have k: "k < 1000" "\<bar>e\<bar> < 10 \<longleftrightarrow> k < 10" using assms(1,2) by (auto simp: k_def)
  define c where "c = (if e < 0 then CHR ''-'' else CHR ''+'')"
  have sign: "(if e < 0 then put_next (CHR ''-'') (cursor t r) else put_next (CHR ''+'') (cursor t r)) =
      Inr (cursor (t @ [c]) (x2 # x3 # x4 # r4))"
    by (simp add: r c_def)
  have layout: "exponent_text e = c # (if k < 10 then ''0'' else []) @ nat_digits k"
    by (simp add: exponent_text_def c_def k k_def)
  consider "k < 10" | "10 \<le> k" "k < 100" | "100 \<le> k" by linarith
  then show ?thesis
  proof cases
    case 1
    then show ?thesis
      using assms(1,2) unfolding append_exponent_def sign layout
      by (auto simp: k_def [symmetric] nat_digits.simps [of k])
  next
    case 2
    then show ?thesis
      using assms(1,2) unfolding append_exponent_def sign layout
      by (auto simp: k_def [symmetric] nat_digits_2)
  next
    case 3
    then show ?thesis
      using assms(1,2) k(1) unfolding append_exponent_def sign layout
      by (auto simp: k_def [symmetric] nat_digits_3 Let_def)
  qed
qed

section \<open>The layout in place\<close>

lemma array_set_at:
  "i = length xs \<Longrightarrow> n = length ys \<Longrightarrow> array_set (xs @ ys @ zs) i c n = Inr (xs @ replicate n c @ zs)"
  by (simp add: array_set_def)

lemma array_move_right:
  assumes "src = length xs" "n = length ys" "dst = src + d" "d \<le> length zs"
  shows "\<exists>g. length g = d \<and> array_move (xs @ ys @ zs) dst src n = Inr (xs @ g @ ys @ drop d zs)"
proof -
  have "take dst (xs @ ys @ zs) = xs @ take d (ys @ zs)"
    using assms(1,3) by simp
  moreover have "drop (dst + n) (xs @ ys @ zs) = drop d zs"
    using assms(1-3) by simp
  ultimately show ?thesis
    using assms by (intro exI [of _ "take d (ys @ zs)"]) (simp add: array_move_def)
qed

lemma format_plain:
  assumes "0 \<le> x" "int (length ds) + x \<le> 15" "nat x + 2 \<le> length post"
  shows "\<exists>r. format_buffer (pre @ ds @ post) (length pre) (length ds) x (- 4) 15 =
     Inr (cursor (pre @ ds @ replicate (nat x) (CHR ''0'') @ ''.0'') r)"
proof -
  obtain z y1 y2 r where post: "post = z @ y1 # y2 # r" "length z = nat x"
  proof -
    obtain u v where "post = u @ v" "length u = nat x"
      by (rule split_front [of "nat x" post]) (use assms(3) in auto)
    moreover from this assms(3) have "2 \<le> length v" by simp
    ultimately show thesis using take_two [of v] that by blast
  qed
  have n: "nat (int (length ds) + x) = length ds + nat x"
    using assms(1) by (simp add: nat_add_distrib)
  have set: "array_set (pre @ ds @ z @ y1 # y2 # r) (length pre + length ds) (CHR ''0'') (nat x) =
      Inr ((pre @ ds @ replicate (nat x) (CHR ''0'')) @ y1 # y2 # r)"
    using array_set_at [of "length pre + length ds" "pre @ ds" "nat x" z "y1 # y2 # r"] post(2) by simp
  have put1: "array_put ((pre @ ds @ replicate (nat x) (CHR ''0'')) @ y1 # y2 # r) (length pre + (length ds + nat x)) c =
      Inr ((pre @ ds @ replicate (nat x) (CHR ''0'')) @ c # y2 # r)" for c
    by (rule array_put_at) simp
  have put2: "array_put ((pre @ ds @ replicate (nat x) (CHR ''0'')) @ d # y2 # r) (length pre + (length ds + nat x) + 1) c =
      Inr ((pre @ ds @ replicate (nat x) (CHR ''0'')) @ d # c # r)" for c d
    using array_put_at [of "length pre + (length ds + nat x) + 1" "(pre @ ds @ replicate (nat x) (CHR ''0'')) @ [d]" y2 r c]
    by simp
  show ?thesis
    using assms(1,2)
    by (intro exI [of _ r])
      (simp only: format_buffer_def Let_def n post(1) set put1 put2 rbind_simps add_diff_cancel_left',
        simp add: cursor_def)
qed

lemma format_point:
  assumes "x < 0" "0 < int (length ds) + x" "int (length ds) + x \<le> 15" "1 \<le> length post"
  shows "\<exists>r. format_buffer (pre @ ds @ post) (length pre) (length ds) x (- 4) 15 =
     Inr (cursor (pre @ take (nat (int (length ds) + x)) ds @ ''.'' @ drop (nat (int (length ds) + x)) ds) r)"
proof -
  define n where "n = nat (int (length ds) + x)"
  have n: "n < length ds" using assms(1,2) by (simp add: n_def)
  obtain g where g: "length g = 1" "array_move ((pre @ take n ds) @ drop n ds @ post) (length pre + n + 1) (length pre + n) (length ds - n) =
      Inr ((pre @ take n ds) @ g @ drop n ds @ drop 1 post)"
    using array_move_right [of "length pre + n" "pre @ take n ds" "length ds - n" "drop n ds" "length pre + n + 1" 1 post] n assms(4)
    by auto
  obtain y where y: "g = [y]" using g(1) by (auto simp: length_Suc_conv)
  have split: "pre @ ds @ post = (pre @ take n ds) @ drop n ds @ post" by simp
  have put: "array_put ((pre @ take n ds) @ y # drop n ds @ drop 1 post) (length pre + n) c =
      Inr ((pre @ take n ds) @ c # drop n ds @ drop 1 post)" for c
    by (rule array_put_at) (use n in simp)
  have cond: "\<not> (int (length ds) \<le> int (length ds) + x \<and> int (length ds) + x \<le> 15)" "0 < int (length ds) + x \<and> int (length ds) + x \<le> 15"
    "\<not> \<not> int (length ds) + x < int (length ds)"
    using assms(1-3) by simp_all
  show ?thesis
    using n assms(1) unfolding n_def [symmetric]
    by (intro exI [of _ "drop 1 post"])
      (simp only: format_buffer_def Let_def cond if_True if_False n_def [symmetric] split g(2) rbind_simps, simp add: y put [simplified] cursor_def)
qed

lemma format_small:
  assumes "- 4 < int (length ds) + x" "int (length ds) + x \<le> 0" "5 \<le> length post" "ds \<noteq> []"
  shows "\<exists>r. format_buffer (pre @ ds @ post) (length pre) (length ds) x (- 4) 15 =
     Inr (cursor (pre @ ''0.'' @ replicate (nat (- (int (length ds) + x))) (CHR ''0'') @ ds) r)"
proof -
  define k where "k = nat (- (int (length ds) + x))"
  have k: "k \<le> 3" using assms(1) by (simp add: k_def)
  obtain g where g: "length g = 2 + k" "array_move (pre @ ds @ post) (length pre + 2 + k) (length pre) (length ds) =
      Inr (pre @ g @ ds @ drop (2 + k) post)"
    using array_move_right [of "length pre" pre "length ds" ds "length pre + 2 + k" "2 + k" post] assms(3) k by auto
  obtain y1 y2 z where y: "g = y1 # y2 # z" "length z = k"
    using g(1) by (auto simp: numeral_eq_Suc length_Suc_conv)
  have put1: "array_put (pre @ y1 # y2 # z @ u) (length pre) c = Inr (pre @ c # y2 # z @ u)" for c u
    by (rule array_put_at) simp
  have put2: "array_put (pre @ d # y2 # z @ u) (length pre + 1) c = Inr (pre @ d # c # z @ u)" for c d u
    using array_put_at [of "length pre + 1" "pre @ [d]" y2 "z @ u" c] by simp
  have set: "array_set (pre @ d # e # z @ u) (length pre + 2) c k = Inr (pre @ d # e # replicate k c @ u)" for c d e u
    using array_set_at [of "length pre + 2" "pre @ [d, e]" k z u c] y(2) by simp
  have len: "0 < int (length ds)" using assms(4) by simp
  have cond: "\<not> (int (length ds) \<le> int (length ds) + x \<and> int (length ds) + x \<le> 15)"
    "\<not> (0 < int (length ds) + x \<and> int (length ds) + x \<le> 15)" "- 4 < int (length ds) + x \<and> int (length ds) + x \<le> 0"
    using assms(1,2) len by linarith+
  show ?thesis
    unfolding k_def [symmetric]
    by (intro exI [of _ "drop (2 + k) post"])
      (simp only: format_buffer_def Let_def cond if_True if_False k_def [symmetric] g(2) rbind_simps,
       simp add: y put1 put2 [simplified] set [simplified] cursor_def)
qed

lemma format_exponent:
  assumes "\<not> (0 \<le> x \<and> int (length ds) + x \<le> 15)" "\<not> (0 < int (length ds) + x \<and> int (length ds) + x \<le> 15)"
    "\<not> (- 4 < int (length ds) + x \<and> int (length ds) + x \<le> 0)"
    "- 1000 < int (length ds) + x - 1" "int (length ds) + x - 1 < 1000" "6 \<le> length post" "ds \<noteq> []"
  shows "\<exists>r. format_buffer (pre @ ds @ post) (length pre) (length ds) x (- 4) 15 =
     Inr (cursor (pre @ hd ds # (if length ds = 1 then [] else CHR ''.'' # tl ds) @ ''e'' @
       exponent_text (int (length ds) + x - 1)) r)"
proof -
  obtain d ds' where ds: "ds = d # ds'" using assms(7) by (cases ds) auto
  have cond: "\<not> (int (length ds) \<le> int (length ds) + x \<and> int (length ds) + x \<le> 15)"
    using assms(1) by simp
  obtain t r where t: "t = pre @ d # (if length ds = 1 then [] else CHR ''.'' # ds')" "5 \<le> length r"
    "(if length ds = 1 then Inr (pre @ ds @ post, length pre + 1)
      else rbind (array_move (pre @ ds @ post) (length pre + 2) (length pre + 1) (length ds - 1)) (\<lambda>a.
           rbind (array_put a (length pre + 1) (CHR ''.'')) (\<lambda>a. Inr (a, length pre + 1 + length ds)))) =
      Inr (cursor t r)"
  proof (cases "ds' = []")
    case True
    then show ?thesis
      using that [of "pre @ [d]" post] assms(6) by (simp add: ds cursor_def)
  next
    case False
    obtain g where g: "length g = 1" "array_move ((pre @ [d]) @ ds' @ post) (length pre + 2) (length pre + 1) (length ds') =
        Inr ((pre @ [d]) @ g @ ds' @ drop 1 post)"
      using array_move_right [of "length pre + 1" "pre @ [d]" "length ds'" ds' "length pre + 2" 1 post] assms(6) by auto
    obtain y where y: "g = [y]" using g(1) by (auto simp: length_Suc_conv)
    have put: "array_put ((pre @ [d]) @ y # ds' @ drop 1 post) (length pre + 1) c = Inr ((pre @ [d]) @ c # ds' @ drop 1 post)" for c
      by (rule array_put_at) simp
    show ?thesis
      using that [of "pre @ d # CHR ''.'' # ds'" "drop 1 post"] assms(6) g(2) False
      by (simp add: ds cursor_def y put [simplified])
  qed
  obtain x1 r1 where r: "r = x1 # r1" "4 \<le> length r1"
    using t(2) by (cases r) auto
  obtain r' where "append_exponent (cursor (t @ ''e'') r1) (int (length ds) + x - 1) =
      Inr (cursor ((t @ ''e'') @ exponent_text (int (length ds) + x - 1)) r')"
    using append_exponent_text [OF assms(4,5) r(2)] by blast
  moreover have "format_buffer (pre @ ds @ post) (length pre) (length ds) x (- 4) 15 =
      append_exponent (cursor (t @ ''e'') r1) (int (length ds) + x - 1)"
    unfolding format_buffer_def Let_def
    by (simp only: cond assms(2,3) if_False t(3) r(1) rbind_simps put_next_cursor) simp
  ultimately show ?thesis by (auto simp: t(1) ds)
qed

lemma format_buffer_layout:
  assumes "ds \<noteq> []" "length ds \<le> 17" "- 1000 < int (length ds) + x - 1" "int (length ds) + x - 1 < 1000"
    "23 \<le> length ds + length post"
  shows "\<exists>r. format_buffer (pre @ ds @ post) (length pre) (length ds) x (- 4) 15 =
     Inr (cursor (pre @ float_layout ds x) r)"
proof -
  have post: "6 \<le> length post" using assms(2,5) by linarith
  consider (plain) "0 \<le> x" "int (length ds) + x \<le> 15"
    | (point) "\<not> (0 \<le> x \<and> int (length ds) + x \<le> 15)" "0 < int (length ds) + x" "int (length ds) + x \<le> 15"
    | (small) "- 4 < int (length ds) + x" "int (length ds) + x \<le> 0"
    | (exponent) "\<not> (0 \<le> x \<and> int (length ds) + x \<le> 15)" "\<not> (0 < int (length ds) + x \<and> int (length ds) + x \<le> 15)"
        "\<not> (- 4 < int (length ds) + x \<and> int (length ds) + x \<le> 0)"
    by blast
  then show ?thesis
  proof cases
    case plain
    have "nat x + 2 \<le> length post" using plain assms(5) by linarith
    with plain show ?thesis
      using format_plain [of x ds post pre] by (simp add: float_layout_def Let_def)
  next
    case point
    then show ?thesis
      using format_point [of x ds post pre] post by (simp add: float_layout_def Let_def)
  next
    case small
    then have "\<not> 0 \<le> x" using assms(1) by (cases ds) auto
    then show ?thesis
      using small format_small [of ds x post pre] post assms(1) by (simp add: float_layout_def Let_def)
  next
    case exponent
    then show ?thesis
      using format_exponent [of x ds post pre] post assms by (auto simp: float_layout_def Let_def)
  qed
qed

section \<open>The exponent of the text\<close>

lemma nat_digits_bounds:
  "n < 10 ^ length (nat_digits n)" "0 < n \<Longrightarrow> 10 ^ (length (nat_digits n) - 1) \<le> n"
proof -
  have "n < 10 ^ length (nat_digits n) \<and> (0 < n \<longrightarrow> 10 ^ (length (nat_digits n) - 1) \<le> n)"
  proof (induction n rule: nat_digits.induct)
    case (1 n)
    show ?case
    proof (cases "n < 10")
      case True
      then show ?thesis by (simp add: nat_digits.simps [of n])
    next
      case False
      then have ih: "n div 10 < 10 ^ length (nat_digits (n div 10))" "10 ^ (length (nat_digits (n div 10)) - 1) \<le> n div 10"
        using 1 by simp_all
      have len: "length (nat_digits n) = Suc (length (nat_digits (n div 10)))"
        using False by (simp add: nat_digits.simps [of n])
      have "length (nat_digits (n div 10)) \<noteq> 0" by simp
      then obtain l where l: "length (nat_digits (n div 10)) = Suc l" by (cases "length (nat_digits (n div 10))") auto
      have "n < 10 * 10 ^ Suc l" "10 * 10 ^ l \<le> n"
        using ih unfolding l by simp_all
      then show ?thesis by (simp add: len l)
    qed
  qed
  then show "n < 10 ^ length (nat_digits n)" "0 < n \<Longrightarrow> 10 ^ (length (nat_digits n) - 1) \<le> n"
    by simp_all
qed

lemma two_to_ten:
  "(2 :: real) powi (2 * int n) \<le> 10 powi int n" "(10 :: real) powi (- int n) \<le> 2 powi (- 2 * int n)"
proof -
  have "(2 :: real) ^ (2 * n) \<le> 10 ^ n"
    by (simp add: power_mult power_mono)
  moreover have "(2 :: real) powi (2 * int n) = 2 ^ (2 * n)"
    using power_int_of_nat [of "2 :: real" "2 * n"] by simp
  ultimately show le: "(2 :: real) powi (2 * int n) \<le> 10 powi int n"
    by simp
  show "(10 :: real) powi (- int n) \<le> 2 powi (- 2 * int n)"
    using le_imp_inverse_le [OF le] by (simp add: power_int_minus)
qed

lemma mid_bounds:
  assumes "positive_finite b"
  obtains p q where "upper_mid b \<le> 10 powi p" "10 powi q \<le> lower_mid b" "p \<le> 512" "- 538 \<le> q"
proof -
  note mb = mant_expo_bounds [OF assms]
  define p q where "p = (512 :: nat)" and "q = (538 :: nat)"
  have "2 * mant b + 1 \<le> 2 ^ 54"
    using mb(2) by simp
  then have "real (2 * mant b + 1) \<le> real (2 ^ 54)"
    by (simp only: of_nat_le_iff)
  then have "2 * real (mant b) + 1 \<le> 2 powi 54" by simp
  moreover have "(2 :: real) powi (expo b - 1) \<le> 2 powi (2 * int p - 54)"
    using mb(4) by (intro power_int_increasing) (simp_all add: p_def)
  ultimately have "upper_mid b \<le> 2 powi 54 * 2 powi (2 * int p - 54)"
    unfolding upper_mid_eq [OF assms] by (intro mult_mono) simp_all
  also have "\<dots> = 2 powi (54 + (2 * int p - 54))"
    by (rule power_int_add [symmetric]) simp
  also have "\<dots> \<le> 10 powi int p"
    using two_to_ten(1) [of p] by simp
  finally have "upper_mid b \<le> 10 powi int p" .
  moreover have "10 powi (- int q) \<le> lower_mid b"
  proof -
    have two: "(2 :: real) powi (- 2 * int q) \<le> 2 powi (expo b - 2)" "(2 :: real) powi (- 2 * int q) \<le> 2 powi (expo b - 1)"
      using mb(3) by (intro power_int_increasing; simp add: q_def)+
    have "1 \<le> 4 * real (mant b) - 1" "1 \<le> 2 * real (mant b) - 1"
      using mb(1) by simp_all
    then have "1 * 2 powi (- 2 * int q) \<le> (4 * real (mant b) - 1) * 2 powi (expo b - 2)"
      "1 * 2 powi (- 2 * int q) \<le> (2 * real (mant b) - 1) * 2 powi (expo b - 1)"
      using two by (intro mult_mono; simp)+
    then have "2 powi (- 2 * int q) \<le> lower_mid b"
      by (simp add: lower_mid_eq [OF assms])
    then show ?thesis using two_to_ten(2) [of q] by (rule order_trans [rotated])
  qed
  ultimately show ?thesis
    by (rule that) (simp_all only: p_def q_def of_nat_numeral order_refl)
qed

lemma ten_powi_less: "(10 :: real) powi a < 10 powi b \<Longrightarrow> a < b"
  by (metis linorder_not_le power_int_increasing one_le_numeral order_less_irrefl order_less_le_trans)

lemma text_exponent_bounds:
  assumes b: "positive_finite b" and N: "0 < N" "lower_mid b < real N * 10 powi x" "real N * 10 powi x < upper_mid b"
  shows "- 1000 < int (length (nat_digits N)) + x - 1" "int (length (nat_digits N)) + x - 1 < 1000"
proof -
  define l where "l = length (nat_digits N)"
  have "l \<noteq> 0" by (simp add: l_def)
  then have l: "1 \<le> l" by simp
  have "real N < real (10 ^ l)" "real (10 ^ (l - 1)) \<le> real N"
    unfolding of_nat_less_iff of_nat_le_iff l_def by (rule nat_digits_bounds(1), rule nat_digits_bounds(2) [OF N(1)])
  then have "real N \<le> 10 powi int l" "10 powi (int l - 1) \<le> real N"
    using l by (simp_all add: of_nat_diff [symmetric] flip: power_int_of_nat)
  then have "real N * 10 powi x \<le> 10 powi int l * 10 powi x" "10 powi (int l - 1) * 10 powi x \<le> real N * 10 powi x"
    by (intro mult_right_mono; simp)+
  then have "real N * 10 powi x \<le> 10 powi (int l + x)" "10 powi (int l - 1 + x) \<le> real N * 10 powi x"
    by (simp_all add: power_int_add)
  moreover obtain p q where "upper_mid b \<le> 10 powi p" "10 powi q \<le> lower_mid b" and pq: "p \<le> 512" "- 538 \<le> q"
    by (rule mid_bounds [OF b])
  ultimately have "(10 :: real) powi q < 10 powi (int l + x)" "(10 :: real) powi (int l - 1 + x) < 10 powi p"
    using N(2,3) by linarith+
  note less = this [THEN ten_powi_less]
  then show "- 1000 < int l + x - 1" "int l + x - 1 < 1000"
    using pq by linarith+
qed

section \<open>The text of a double\<close>

text \<open>Digits and exponent that \<open>grisu2\<close> computes for a positive double, from an empty buffer.\<close>

definition shortest :: "binary64 \<Rightarrow> string \<times> int" where
  "shortest b =
     (case grisu2_double b \<lparr>db_array = replicate 17 nul, db_start = 0, db_length = 0, db_exponent = 0\<rparr> of
        Inl e \<Rightarrow> ([], 0)
      | Inr out \<Rightarrow> (written out, db_exponent out))"

definition float_text :: "binary64 \<Rightarrow> string" where
  "float_text b =
     (if dbl_signbit b then ''-'' else []) @
     (let m = (if dbl_signbit b then dbl_neg b else b) in
      if dbl_is_zero m then ''0.0'' else float_layout (fst (shortest m)) (snd (shortest m)))"

lemma shortest_between:
  assumes "positive_finite b"
  obtains N x where "shortest b = (nat_digits N, x)" "0 < N" "length (nat_digits N) \<le> 17"
    "lower_mid b < real N * 10 powi x" "real N * 10 powi x < upper_mid b"
proof -
  let ?out = "\<lparr>db_array = replicate 17 nul, db_start = 0, db_length = 0, db_exponent = 0\<rparr>"
  obtain out' N where o: "grisu2_double b ?out = Inr out'" "0 < N" "written out' = nat_digits N" "fits out'"
     "db_length out' \<le> 17" "lower_mid b < real N * 10 powi db_exponent out'" "real N * 10 powi db_exponent out' < upper_mid b"
    using grisu2_double_ok [OF assms, of ?out] by auto
  then show ?thesis
    using that [of N "db_exponent out'"] length_written [OF o(4)] by (simp add: shortest_def)
qed

lemma to_chars_positive_text:
  assumes b: "positive_finite b" and room: "first + 23 \<le> limit" "limit \<le> length a"
  shows "\<exists>r. to_chars_positive a first limit b =
     Inr (cursor (take first a @ float_layout (fst (shortest b)) (snd (shortest b))) r)"
proof -
  obtain N x where short: "shortest b = (nat_digits N, x)" "0 < N" "length (nat_digits N) \<le> 17"
    "lower_mid b < real N * 10 powi x" "real N * 10 powi x < upper_mid b"
    by (rule shortest_between [OF b])
  let ?out = "\<lparr>db_array = a, db_start = first, db_length = 0, db_exponent = 0\<rparr>"
  let ?fresh = "\<lparr>db_array = replicate 17 nul, db_start = 0, db_length = 0, db_exponent = 0\<rparr>"
  obtain out where o: "grisu2_double b ?out = Inr out" "fits out" "same_place ?out out" "db_length out \<le> 17"
    using grisu2_double_ok [OF b, of ?out] room by auto
  obtain out0 where o0: "grisu2_double b ?fresh = Inr out0"
    using grisu2_double_ok [OF b, of ?fresh] by auto
  have "same_text ?out ?fresh"
    using room by (simp add: same_text_def written_def fits_def)
  from grisu2_double_same [OF this, of b] have "same_text out out0"
    unfolding o(1) o0 agree_simps .
  then have out: "written out = nat_digits N" "db_exponent out = x" "db_length out = length (nat_digits N)"
    using short(1) o0 length_written [OF o(2)] by (simp_all add: shortest_def same_text_def)
  have start: "db_start out = first" "length (db_array out) = length a" "take first (db_array out) = take first a"
    using o(3) by (simp_all add: same_place_def)
  have "db_array out = take first a @ drop first (db_array out)"
    by (metis append_take_drop_id start(3))
  also have "drop first (db_array out) = nat_digits N @ drop (length (nat_digits N)) (drop first (db_array out))"
    using out(1,3) start(1) by (metis append_take_drop_id written_def)
  finally have arr: "db_array out = take first a @ nat_digits N @ drop (length (nat_digits N)) (drop first (db_array out))" .
  have len: "length (take first a) = first"
    using room by simp
  have "\<exists>r. format_buffer (db_array out) first (length (nat_digits N)) x (- 4) 15 =
      Inr (cursor (take first a @ float_layout (nat_digits N) x) r)"
    by (subst arr, subst (2) len [symmetric], rule format_buffer_layout)
      (use short(3) room start(2) text_exponent_bounds [OF b short(2,4,5)] in simp_all)
  then show ?thesis
    using o(1,4) room by (simp add: to_chars_positive_def out short(1) max_digits10_def kMinExp10_def kMaxExp10_def)
qed

lemma dbl_neg_nat:
  assumes "dbl_signbit b"
  shows "unat (dbl_neg b) = unat b - 2 ^ 63"
proof -
  have ge: "2 ^ 63 \<le> unat b"
    using assms by (simp add: dbl_signbit_nat)
  have "unat b div 2 ^ 63 = 1"
    using ge unat_less [of b] by simp
  then have "bit (unat b) 63"
    by (simp add: bit_iff_odd)
  then have "bit b 63" by (simp add: bit_unsigned_iff)
  then have "dbl_neg b = b - 2 ^ 63"
    using flip_bit_eq_xor [of 63 b] flip_bit_eq_if [of 63 b] unset_bit_eq [of 63 b]
    by (simp add: dbl_neg_def)
  then show ?thesis
    using ge by (simp add: unat_sub word_le_nat_alt)
qed

lemma dbl_is_zero_nat: "dbl_is_zero b \<longleftrightarrow> unat b = 0 \<or> unat b = 2 ^ 63"
  by (auto simp: dbl_is_zero_def word_unat_eq_iff)

lemma magnitude:
  assumes "dbl_isfinite b"
  defines "m \<equiv> (if dbl_signbit b then dbl_neg b else b)"
  shows "unat m = unat b mod 2 ^ 63" "dbl_is_zero m \<or> positive_finite m"
proof -
  have "unat b = 2 ^ 63 + (unat b - 2 ^ 63)" "unat b - 2 ^ 63 < 2 ^ 63" if "dbl_signbit b"
    using that unat_less [of b] by (simp_all add: dbl_signbit_nat)
  then show m: "unat m = unat b mod 2 ^ 63"
    using dbl_neg_nat [of b] unat_less [of b]
    by (cases "dbl_signbit b") (simp_all add: m_def dbl_signbit_nat mod_if)
  have "unat m div 2 ^ 52 = unat b div 2 ^ 52 mod 2 ^ 11"
    unfolding m using div_exp_mod_exp_eq [of "unat b" 52 11] by simp
  then have "unat m div 2 ^ 52 \<noteq> 2047" "unat m div 2 ^ 52 < 2 ^ 11"
    using assms(1) by (simp_all add: dbl_isfinite_nat)
  then have "unat m div 2 ^ 52 < 2047" by simp
  then have "unat m < 2047 * 2 ^ 52"
    by (simp add: div_less_iff_less_mult)
  then show "dbl_is_zero m \<or> positive_finite m"
    by (auto simp: dbl_is_zero_nat positive_finite_def)
qed

lemma cursor_put:
  assumes "p < length a"
  shows "put_next c (a, p) = Inr (cursor (take p a @ [c]) (drop (Suc p) a))"
proof -
  have "(a, p) = cursor (take p a) (a ! p # drop (Suc p) a)"
    using assms by (simp add: cursor_def Cons_nth_drop_Suc)
  then show ?thesis by simp
qed

text \<open>
  On any buffer with 24 bytes behind the start, \<open>to_chars\<close> writes the text of a finite double
  there and nothing before it.
\<close>

lemma to_chars_text:
  assumes b: "dbl_isfinite b" and room: "first + 24 \<le> limit" "limit \<le> length a"
  shows "\<exists>r. to_chars a first limit b = Inr (cursor (take first a @ float_text b) r)"
proof -
  define m where "m = (if dbl_signbit b then dbl_neg b else b)"
  define sign where "sign = (if dbl_signbit b then ''-'' else [])"
  obtain a' where start: "(if dbl_signbit b then put_next (CHR ''-'') (a, first) else Inr (a, first)) =
      Inr (a', first + length sign)" "take (first + length sign) a' = take first a @ sign" "length a' = length a"
  proof (cases "dbl_signbit b")
    case True
    then show ?thesis
      using that [of "take first a @ ''-'' @ drop (Suc first) a"] room
      by (simp add: cursor_put cursor_def sign_def)
  next
    case False
    then show ?thesis using that [of a] by (simp add: sign_def)
  qed
  let ?first = "first + length sign"
  have sign1: "length sign \<le> 1" by (simp add: sign_def)
  have unfolded: "to_chars a first limit b =
      (if dbl_is_zero m then
         rbind (put_next (CHR ''0'') (a', ?first)) (\<lambda>buf. rbind (put_next (CHR ''.'') buf) (put_next (CHR ''0'')))
       else to_chars_positive a' ?first limit m)"
    using b start(1) by (simp add: to_chars_def Let_def m_def)
  show ?thesis
  proof (cases "dbl_is_zero m")
    case True
    have "2 \<le> length (drop (Suc ?first) a')"
      unfolding length_drop using room start(3) sign1 by linarith
    then obtain x y r where "drop (Suc ?first) a' = x # y # r"
      using take_two by blast
    moreover have "?first < length a'" using room start(3) sign1 by linarith
    ultimately have "to_chars a first limit b = Inr (cursor ((take first a @ sign) @ ''0.0'') r)"
      using True unfolded start(2) by (simp add: cursor_put)
    then show ?thesis
      using True by (auto simp: float_text_def m_def sign_def Let_def)
  next
    case False
    then have "positive_finite m"
      using magnitude(2) [OF b] by (simp add: m_def)
    moreover have "?first + 23 \<le> limit" using room sign1 by linarith
    ultimately obtain r where "to_chars_positive a' ?first limit m =
        Inr (cursor (take ?first a' @ float_layout (fst (shortest m)) (snd (shortest m))) r)"
      using to_chars_positive_text [of m ?first limit a'] room start(3) by auto
    then show ?thesis
      using False unfolded start(2) by (auto simp: float_text_def m_def sign_def Let_def)
  qed
qed

lemma to_chars_fails:
  assumes "\<not> dbl_isfinite b"
  shows "to_chars a first limit b = Inl Abort_Called"
  using assms by (simp add: to_chars_def)

end
