(* ===== verification/Decimal_Numerals.thy ===== *)
theory Decimal_Numerals
  imports Double_Layout
begin

text \<open>
  Decimal numerals as \<open>std::strtod\<close> of the C library reads them (an integral part, an optional
  fraction, an optional exponent), the number they denote, and what it means for a conversion
  to \<open>double\<close> to round correctly. The layouts that the serializer writes are such numerals, and
  they denote the digits times the power of ten.
\<close>

section \<open>Numerals\<close>

definition exponent_part :: "string \<Rightarrow> int option" where
  "exponent_part r =
     (let negative = (r \<noteq> [] \<and> hd r = CHR ''-'');
          ds = (if r \<noteq> [] \<and> (hd r = CHR ''-'' \<or> hd r = CHR ''+'') then tl r else r)
      in if ds \<noteq> [] \<and> list_all is_digit ds
         then Some (if negative then - int (digits_val ds) else int (digits_val ds))
         else None)"

text \<open>The number is the first result times the power of ten given by the second.\<close>

definition numeral_parts :: "string \<Rightarrow> (nat \<times> int) option" where
  "numeral_parts t =
     (let ip = takeWhile is_digit t;
          r = dropWhile is_digit t;
          point = (r \<noteq> [] \<and> hd r = CHR ''.'');
          fp = (if point then takeWhile is_digit (tl r) else []);
          r = (if point then dropWhile is_digit (tl r) else r)
      in if ip = [] then None
         else if r = [] then Some (digits_val (ip @ fp), - int (length fp))
         else if hd r = CHR ''e'' \<or> hd r = CHR ''E'' then
           (case exponent_part (tl r) of
              None \<Rightarrow> None
            | Some e \<Rightarrow> Some (digits_val (ip @ fp), e - int (length fp)))
         else None)"

definition numeral_value :: "nat \<times> int \<Rightarrow> real" where
  "numeral_value = (\<lambda>(m, k). real m * 10 powi k)"

lemma digits_val_foldl: "foldl (\<lambda>n c. 10 * n + digit_val c) a ds = a * 10 ^ length ds + digits_val ds"
proof (induction ds arbitrary: a)
  case (Cons d ds)
  show ?case
    using Cons [of "10 * a + digit_val d"] Cons [of "digit_val d"] by (simp add: digits_val_def algebra_simps)
qed (simp add: digits_val_def)

lemma digits_val_append: "digits_val (xs @ ys) = digits_val xs * 10 ^ length ys + digits_val ys"
  using digits_val_foldl [of "digits_val xs" ys] by (simp add: digits_val_def)

lemma digits_val_Nil [simp]: "digits_val [] = 0"
  by (simp add: digits_val_def)

lemma digits_val_zero [simp]: "digits_val (CHR ''0'' # ds) = digits_val ds"
  by (simp add: digits_val_def digit_val_def)

lemma digits_val_zeros [simp]: "digits_val (replicate n (CHR ''0'') @ ds) = digits_val ds"
  by (induction n) simp_all

lemma digits_val_only_zeros [simp]: "digits_val (replicate n (CHR ''0'')) = 0"
  using digits_val_zeros [of n "[]"] by (simp del: digits_val_zeros)

lemma is_digit_0 [simp]: "is_digit (CHR ''0'')" "\<not> is_digit (CHR ''.'')" "\<not> is_digit (CHR ''e'')" "\<not> is_digit (CHR ''-'')"
    "\<not> is_digit (CHR ''+'')"
  by (simp_all add: is_digit_def)

lemma takeWhile_digits:
  "list_all is_digit ds \<Longrightarrow> takeWhile is_digit (ds @ r) = ds @ takeWhile is_digit r"
  "list_all is_digit ds \<Longrightarrow> dropWhile is_digit (ds @ r) = dropWhile is_digit r"
  by (induction ds) simp_all

lemma nat_digits_all [simp]: "list_all is_digit (nat_digits n)"
  by (simp add: list_all_iff nat_digits_is_digit)

lemma exponent_part_text: "exponent_part (exponent_text e) = Some e"
proof -
  define ds where "ds = (if \<bar>e\<bar> < 10 then ''0'' else []) @ nat_digits (nat \<bar>e\<bar>)"
  have ds: "ds \<noteq> []" "list_all is_digit ds" "digits_val ds = nat \<bar>e\<bar>"
    by (simp_all add: ds_def)
  have "exponent_text e = (if e < 0 then CHR ''-'' else CHR ''+'') # ds"
    by (simp add: exponent_text_def ds_def)
  then show ?thesis
    using ds by (simp add: exponent_part_def Let_def)
qed

lemma list_all_digits_split:
  "list_all is_digit ds \<Longrightarrow> list_all is_digit (take n ds) \<and> list_all is_digit (drop n ds)"
  by (metis append_take_drop_id list_all_append)

lemma list_all_zeros [simp]: "list_all is_digit (replicate n (CHR ''0''))"
  by (simp add: list_all_iff)

text \<open>The three forms of a numeral.\<close>

lemma numeral_parts_fraction:
  assumes "list_all is_digit ip" "ip \<noteq> []" "list_all is_digit fp"
  shows "numeral_parts (ip @ CHR ''.'' # fp) = Some (digits_val (ip @ fp), - int (length fp))"
proof -
  have "takeWhile is_digit fp = fp" "dropWhile is_digit fp = []"
    using takeWhile_digits [OF assms(3), of "[]"] by (simp_all del: takeWhile_eq_all_conv)
  then show ?thesis
    using assms takeWhile_digits [OF assms(1), of "CHR ''.'' # fp"]
    by (simp add: numeral_parts_def Let_def del: takeWhile_eq_all_conv)
qed

lemma numeral_parts_exponent:
  assumes "list_all is_digit ip" "ip \<noteq> []"
  shows "numeral_parts (ip @ CHR ''e'' # exponent_text e) = Some (digits_val ip, e)"
  using assms takeWhile_digits [OF assms(1), of "CHR ''e'' # exponent_text e"] exponent_part_text [of e]
  by (simp add: numeral_parts_def Let_def)

lemma numeral_parts_both:
  assumes "list_all is_digit ip" "ip \<noteq> []" "list_all is_digit fp"
  shows "numeral_parts (ip @ CHR ''.'' # fp @ CHR ''e'' # exponent_text e) = Some (digits_val (ip @ fp), e - int (length fp))"
  using assms takeWhile_digits [OF assms(1), of "CHR ''.'' # fp @ CHR ''e'' # exponent_text e"]
    takeWhile_digits [OF assms(3), of "CHR ''e'' # exponent_text e"] exponent_part_text [of e]
  by (simp add: numeral_parts_def Let_def)

lemma numeral_value_shift: "real m * 10 ^ n * 10 powi (- int n) = (real m :: real)"
  by (simp add: power_int_minus)

lemma float_layout_value:
  assumes "list_all is_digit ds" "ds \<noteq> []"
  shows "\<exists>p. numeral_parts (float_layout ds x) = Some p \<and> numeral_value p = real (digits_val ds) * 10 powi x"
proof -
  define n where "n = int (length ds) + x"
  consider (plain) "0 \<le> x" "n \<le> 15"
    | (point) "\<not> (0 \<le> x \<and> n \<le> 15)" "0 < n" "n \<le> 15"
    | (small) "- 4 < n" "n \<le> 0"
    | (exponent) "\<not> (0 \<le> x \<and> n \<le> 15)" "\<not> (0 < n \<and> n \<le> 15)" "\<not> (- 4 < n \<and> n \<le> 0)"
    by blast
  then show ?thesis
  proof cases
    case plain
    then have "float_layout ds x = (ds @ replicate (nat x) (CHR ''0'')) @ CHR ''.'' # ''0''"
      by (simp add: float_layout_def n_def)
    moreover have "(10 :: real) powi x = 10 ^ nat x"
      using plain(1) by (simp add: power_int_def)
    ultimately show ?thesis
      using assms numeral_parts_fraction [of "ds @ replicate (nat x) (CHR ''0'')" "''0''"]
      by (simp add: numeral_value_def digits_val_append power_int_minus)
  next
    case point
    then have "float_layout ds x = take (nat n) ds @ CHR ''.'' # drop (nat n) ds"
      by (auto simp: float_layout_def n_def Let_def)
    moreover have "x < 0" "nat n < length ds" using point by (auto simp: n_def)
    moreover from this have "- int (length (drop (nat n) ds)) = x" using point(2) by (simp add: n_def of_nat_diff)
    ultimately show ?thesis
      using assms point(2) list_all_digits_split [OF assms(1), of "nat n"]
        numeral_parts_fraction [of "take (nat n) ds" "drop (nat n) ds"]
      by (simp add: numeral_value_def)
  next
    case small
    have "\<not> 0 \<le> x" using small assms(2) by (cases ds) (auto simp: n_def)
    then have "float_layout ds x = ''0'' @ CHR ''.'' # (replicate (nat (- n)) (CHR ''0'') @ ds)"
      using small by (simp add: float_layout_def n_def)
    moreover have "- int (length (replicate (nat (- n)) (CHR ''0'') @ ds)) = x"
      using small by (simp add: n_def)
    ultimately show ?thesis
      using assms numeral_parts_fraction [of "''0''" "replicate (nat (- n)) (CHR ''0'') @ ds"]
      by (simp add: numeral_value_def)
  next
    case exponent
    then have layout: "float_layout ds x = hd ds # (if length ds = 1 then [] else CHR ''.'' # tl ds) @ ''e'' @ exponent_text (n - 1)"
      by (auto simp: float_layout_def n_def Let_def)
    obtain d ds' where ds: "ds = d # ds'" using assms(2) by (cases ds) auto
    show ?thesis
    proof (cases "ds' = []")
      case True
      then show ?thesis
        using layout assms numeral_parts_exponent [of "[d]" "n - 1"] by (simp add: ds numeral_value_def n_def)
    next
      case False
      then show ?thesis
        using layout assms numeral_parts_both [of "[d]" ds' "n - 1"] by (simp add: ds numeral_value_def n_def)
    qed
  qed
qed

end
