(* ===== verification/Double_Bounds.thy ===== *)
theory Double_Bounds
  imports Double_Layout
begin

text \<open>
  The writes of \<open>detail::to_chars\<close>: the array keeps its size, and the text of a double has at most
  24 bytes, so the buffer of 64 bytes in the serializer is enough.
\<close>

section \<open>The array keeps its size\<close>

definition gives :: "('a \<Rightarrow> bool) \<Rightarrow> 'a result \<Rightarrow> bool" where
  "gives P r \<longleftrightarrow> (\<forall>x. r = Inr x \<longrightarrow> P x)"

lemma gives_simps [simp]: "gives P (Inl e)" "gives P (Inr x) = P x"
  by (simp_all add: gives_def)

lemma gives_if: "(b \<Longrightarrow> gives P r) \<Longrightarrow> (\<not> b \<Longrightarrow> gives P q) \<Longrightarrow> gives P (if b then r else q)"
  by simp

definition sized :: "nat \<Rightarrow> string \<times> nat \<Rightarrow> bool" where
  "sized n = (\<lambda>(a, p). length a = n)"

lemma gives_bind:
  "gives (\<lambda>a. length a = n) m \<Longrightarrow> (\<And>a. length a = n \<Longrightarrow> gives P (f a)) \<Longrightarrow> gives P (rbind m f)"
  "gives (sized n) buf \<Longrightarrow> (\<And>b. sized n b \<Longrightarrow> gives P (g b)) \<Longrightarrow> gives P (rbind buf g)"
  by (auto simp: gives_def rbind_eq_Inr)

lemma gives_array:
  "length a = n \<Longrightarrow> gives (\<lambda>a. length a = n) (array_put a i c)"
  "length a = n \<Longrightarrow> gives (\<lambda>a. length a = n) (array_move a i j k)"
  "length a = n \<Longrightarrow> gives (\<lambda>a. length a = n) (array_set a i c k)"
  "length a = n \<Longrightarrow> gives (sized n) (Inr (a, p))"
  by (auto simp: array_put_def array_move_def array_set_def sized_def)

lemma gives_put_next: "sized n buf \<Longrightarrow> gives (sized n) (put_next c buf)"
  by (cases buf) (auto simp: put_next_def sized_def array_put_def)

lemma gives_append_exponent: "sized n buf \<Longrightarrow> gives (sized n) (append_exponent buf e)"
  unfolding append_exponent_def Let_def
  by (intro gives_if gives_simps(1) gives_bind(2) [where n = n] gives_put_next; assumption)

lemma gives_format_buffer:
  "length a = n \<Longrightarrow> gives (sized n) (format_buffer a buf len x min_exp max_exp)"
  unfolding format_buffer_def Let_def
  by (intro gives_if gives_simps(1) gives_bind [where n = n] gives_array gives_put_next
      gives_append_exponent; (assumption | simp add: sized_def)?)

lemma gives_to_chars_positive:
  assumes "positive_finite b" "length a = n" "first + 17 \<le> n"
  shows "gives (sized n) (to_chars_positive a first limit b)"
proof -
  let ?out = "\<lparr>db_array = a, db_start = first, db_length = 0, db_exponent = 0\<rparr>"
  obtain out where o: "grisu2_double b ?out = Inr out" "same_place ?out out"
    using grisu2_double_ok [OF assms(1), of ?out] assms(2,3) by auto
  then have "length (db_array out) = n" using assms(2) by (simp add: same_place_def)
  then show ?thesis
    unfolding to_chars_positive_def o(1) rbind_simps
    by (intro gives_if gives_simps(1) gives_format_buffer)
qed

lemma gives_to_chars:
  assumes b: "dbl_isfinite b" and room: "length a = n" "first + 18 \<le> n"
  shows "gives (sized n) (to_chars a first limit b)"
proof -
  define m where "m = (if dbl_signbit b then dbl_neg b else b)"
  have *: "gives (sized n) (if dbl_is_zero m then
      rbind (put_next (CHR ''0'') (a', p)) (\<lambda>buf. rbind (put_next (CHR ''.'') buf) (put_next (CHR ''0'')))
      else to_chars_positive a' p limit m)" if "length a' = n" "p + 17 \<le> n" for a' p
    using that magnitude(2) [OF b, folded m_def]
    by (intro gives_if gives_bind(2) [where n = n] gives_put_next gives_to_chars_positive;
        (assumption | simp add: sized_def)?)
  have "gives (\<lambda>(a', p). length a' = n \<and> p + 17 \<le> n)
      (if dbl_signbit b then put_next (CHR ''-'') (a, first) else Inr (a, first))"
    using room by (auto simp: put_next_def array_put_def)
  then show ?thesis
    using b * unfolding to_chars_def Let_def m_def
    by (cases "if dbl_signbit b then put_next (CHR ''-'') (a, first) else Inr (a, first)") auto
qed

section \<open>At most 24 bytes\<close>

lemma length_float_text:
  assumes "dbl_isfinite b"
  shows "length (float_text b) \<le> 24"
proof -
  let ?a = "replicate 24 nul"
  obtain r where r: "to_chars ?a 0 24 b = Inr (cursor (float_text b) r)"
    using to_chars_text [OF assms, of 0 24 ?a] by auto
  have "length (float_text b @ r) = 24"
    using gives_to_chars [OF assms, of ?a 24 0 24] r by (simp add: sized_def cursor_def)
  then show ?thesis by simp
qed

lemma float_text_not_Nil: "float_text b \<noteq> []"
  by (auto simp: float_text_def float_layout_def Let_def)

lemma to_chars_writes:
  assumes "dbl_isfinite b" "first + 24 \<le> limit" "limit \<le> length a"
  obtains a' where "to_chars a first limit b = Inr (a', first + length (float_text b))" "length a' = length a"
    "take first a' = take first a" "take (length (float_text b)) (drop first a') = float_text b"
proof -
  obtain r where r: "to_chars a first limit b = Inr (cursor (take first a @ float_text b) r)"
    using to_chars_text [OF assms] by blast
  moreover have "length (take first a @ float_text b @ r) = length a"
    using gives_to_chars [OF assms(1) refl, of first a limit] r assms(2,3) by (simp add: sized_def cursor_def)
  ultimately show ?thesis
    using that [of "take first a @ float_text b @ r"] assms(2,3) by (simp add: cursor_def)
qed

section \<open>Properties\<close>

text \<open>
  C13: Writing a double stays in its buffer: for every finite \<open>double\<close> (zeros, subnormal numbers and
  negative ones included) and 24 free bytes, whatever is in them, no assertion of \<open>to_chars\<close>, of the
  digit generation or of the formatting fails and every access is inside the array; the bytes before
  the start are untouched, and the text, of at most 24 bytes, depends on the double alone.
\<close>

theorem to_chars_in_bounds:
  assumes "dbl_isfinite b" "first + 24 \<le> limit" "limit \<le> length a"
  shows "\<exists>a' past. to_chars a first limit b = Inr (a', past) \<and> first < past \<and> past \<le> first + 24 \<and>
    length a' = length a \<and> take first a' = take first a \<and> take (past - first) (drop first a') = float_text b"
proof -
  obtain a' where "to_chars a first limit b = Inr (a', first + length (float_text b))" "length a' = length a"
    "take first a' = take first a" "take (length (float_text b)) (drop first a') = float_text b"
    by (rule to_chars_writes [OF assms])
  then show ?thesis
    using length_float_text [OF assms(1)] float_text_not_Nil [of b] by auto
qed

theorem to_chars_in_bounds_witness:
  "\<exists>a' past. to_chars (replicate 30 nul) 2 30 0xBFB999999999999A = Inr (a', past) \<and> 2 < past \<and> past \<le> 26 \<and>
    length a' = 30 \<and> take 2 a' = [nul, nul] \<and> take (past - 2) (drop 2 a') = float_text 0xBFB999999999999A"
proof -
  have "dbl_isfinite 0xBFB999999999999A" by code_simp
  from to_chars_in_bounds [OF this, of 2 30 "replicate 30 nul"] show ?thesis
    by (simp add: numeral_2_eq_2)
qed

end
