(* ===== verification/Double_Roundtrip.thy ===== *)
theory Double_Roundtrip
  imports Decimal_Numerals Double_Bounds
begin

text \<open>
  The text of a double read back. \<open>std::strtod\<close> is a parameter of which only correct rounding is
  assumed: a numeral strictly between the midpoints around a double gives that double. Under
  this assumption every finite double, \<open>-0.0\<close> included, survives the round trip through its
  text. An executable conversion that rounds correctly shows that the assumption can be met.
\<close>

section \<open>Correct rounding\<close>

definition nearest_to :: "real \<Rightarrow> binary64 \<Rightarrow> bool" where
  "nearest_to v b \<longleftrightarrow> v = 0 \<and> b = 0 \<or> positive_finite b \<and> lower_mid b < v \<and> v < upper_mid b"

definition rounds_to_nearest :: "(string \<Rightarrow> binary64) \<Rightarrow> bool" where
  "rounds_to_nearest str2d \<longleftrightarrow>
     (\<forall>t p b. numeral_parts t = Some p \<and> nearest_to (numeral_value p) b \<longrightarrow>
        str2d t = b \<and> str2d (CHR ''-'' # t) = dbl_neg b)"

lemma dbl_neg_neg [simp]: "dbl_neg (dbl_neg b) = b"
  by (simp add: dbl_neg_def xor.assoc)

text \<open>The text of the magnitude is a numeral nearest to it.\<close>

lemma magnitude_text:
  assumes "dbl_is_zero m \<or> positive_finite m" "unat m < 2 ^ 63"
  shows "\<exists>p. numeral_parts (if dbl_is_zero m then ''0.0'' else float_layout (fst (shortest m)) (snd (shortest m))) = Some p \<and>
     nearest_to (numeral_value p) m"
proof (cases "dbl_is_zero m")
  case True
  then have "m = 0" using assms(2) by (auto simp: dbl_is_zero_nat unat_eq_0)
  moreover have "numeral_parts ''0.0'' = Some (0, - 1)"
    using numeral_parts_fraction [of "''0''" "''0''"] by simp
  ultimately show ?thesis using True by (simp add: nearest_to_def numeral_value_def)
next
  case False
  then have m: "positive_finite m" using assms(1) by simp
  obtain N x where "shortest m = (nat_digits N, x)" "0 < N" "length (nat_digits N) \<le> 17"
    "lower_mid m < real N * 10 powi x" "real N * 10 powi x < upper_mid m"
    by (rule shortest_between [OF m])
  then show ?thesis
    using False m float_layout_value [of "nat_digits N" x] by (auto simp: nearest_to_def)
qed

lemma float_text_read:
  assumes str2d: "rounds_to_nearest str2d" and b: "dbl_isfinite b"
  shows "str2d (float_text b) = b"
proof -
  define m where "m = (if dbl_signbit b then dbl_neg b else b)"
  define t where "t = (if dbl_is_zero m then ''0.0'' else float_layout (fst (shortest m)) (snd (shortest m)))"
  have "dbl_is_zero m \<or> positive_finite m" "unat m < 2 ^ 63"
    using magnitude [OF b] by (simp_all add: m_def)
  then obtain p where "numeral_parts t = Some p" "nearest_to (numeral_value p) m"
    using magnitude_text unfolding t_def by blast
  then have "str2d t = m" "str2d (CHR ''-'' # t) = dbl_neg m"
    using str2d unfolding rounds_to_nearest_def by blast+
  moreover have "float_text b = (if dbl_signbit b then ''-'' else []) @ t"
    by (simp add: float_text_def t_def m_def Let_def)
  ultimately show ?thesis
    by (cases "dbl_signbit b") (simp_all add: m_def)
qed

section \<open>A conversion that rounds correctly\<close>

text \<open>Whether the midpoint below a double is at most the number given by a numeral.\<close>

definition lower_mid_parts :: "binary64 \<Rightarrow> nat \<times> int" where
  "lower_mid_parts b =
     (if lower_boundary_is_closer b then (4 * mant b - 1, expo b - 2) else (2 * mant b - 1, expo b - 1))"

definition at_least :: "nat \<times> int \<Rightarrow> binary64 \<Rightarrow> bool" where
  "at_least = (\<lambda>(m, k) b. case lower_mid_parts b of (c, e) \<Rightarrow>
     c * 2 ^ nat e * 10 ^ nat (- k) \<le> m * 10 ^ nat k * 2 ^ nat (- e))"

text \<open>The largest representation whose lower midpoint is at most the number, bit by bit.\<close>

fun search :: "nat \<times> int \<Rightarrow> nat \<Rightarrow> nat \<Rightarrow> nat" where
  "search p 0 lo = lo"
| "search p (Suc i) lo =
     (if lo + 2 ^ i < 2047 * 2 ^ 52 \<and> at_least p (of_nat (lo + 2 ^ i)) then search p i (lo + 2 ^ i) else search p i lo)"

definition nearest_double :: "string \<Rightarrow> binary64" where
  "nearest_double s =
     (let negative = (s \<noteq> [] \<and> hd s = CHR ''-'');
          b = (case numeral_parts (if negative then tl s else s) of None \<Rightarrow> 0 | Some p \<Rightarrow> of_nat (search p 63 0))
      in if negative then dbl_neg b else b)"

lemma powi_scale: "(c :: real) > 0 \<Longrightarrow> c powi e * c ^ nat (- e) = c ^ nat e"
  by (cases "0 \<le> e") (simp_all add: power_int_def flip: power_mult_distrib)

lemma lower_mid_parts_value:
  assumes "positive_finite b" "lower_mid_parts b = (c, e)"
  shows "lower_mid b = real c * 2 powi e"
proof -
  have "1 \<le> mant b" by (rule mant_expo_bounds(1) [OF assms(1)])
  then show ?thesis
    using assms(2) by (auto simp: lower_mid_eq [OF assms(1)] lower_mid_parts_def of_nat_diff split: if_splits)
qed

lemma at_least_iff:
  assumes "positive_finite b"
  shows "at_least p b \<longleftrightarrow> lower_mid b \<le> numeral_value p"
proof -
  obtain m k c e where p: "p = (m, k)" and c: "lower_mid_parts b = (c, e)"
    by (cases p; cases "lower_mid_parts b") auto
  define s where "s = (2 :: real) ^ nat (- e) * 10 ^ nat (- k)"
  have "s > 0" by (simp add: s_def)
  have l: "real c * 2 powi e * s = real (c * 2 ^ nat e * 10 ^ nat (- k))"
    using powi_scale [of 2 e] by (simp add: s_def mult.assoc flip: mult.assoc [of "2 powi e"])
  have r: "real m * 10 powi k * s = real (m * 10 ^ nat k * 2 ^ nat (- e))"
    using powi_scale [of 10 k] by (simp add: s_def mult_ac)
  have "lower_mid b \<le> numeral_value p \<longleftrightarrow> real c * 2 powi e * s \<le> real m * 10 powi k * s"
    using \<open>s > 0\<close> by (simp add: lower_mid_parts_value [OF assms c] p numeral_value_def)
  also have "\<dots> \<longleftrightarrow> c * 2 ^ nat e * 10 ^ nat (- k) \<le> m * 10 ^ nat k * 2 ^ nat (- e)"
    unfolding l r of_nat_le_iff ..
  finally show ?thesis by (simp add: at_least_def p c)
qed

section \<open>The midpoints are ordered\<close>

lemma lower_less_upper:
  assumes "positive_finite b"
  shows "0 < lower_mid b" "lower_mid b < upper_mid b"
proof -
  have a: "1 \<le> real (mant b)" using mant_expo_bounds(1) [OF assms] by simp
  then show "0 < lower_mid b" by (simp add: lower_mid_eq [OF assms])
  have "(2 :: real) powi (expo b - 1) = 2 * 2 powi (expo b - 2)"
    using two_powi_pred [of "expo b - 1" 1] by simp
  moreover have "(0 :: real) < 2 powi (expo b - 2)" by simp
  ultimately show "lower_mid b < upper_mid b"
    using a by (simp add: lower_mid_eq [OF assms] upper_mid_eq [OF assms] algebra_simps)
qed

definition pattern :: "nat \<Rightarrow> binary64" where
  "pattern n = of_nat n"

lemma pattern_simps:
  "n < 2047 * 2 ^ 52 \<Longrightarrow> unat (pattern n) = n"
  "0 < n \<Longrightarrow> n < 2047 * 2 ^ 52 \<Longrightarrow> positive_finite (pattern n)"
  by (simp_all add: pattern_def positive_finite_def unsigned_of_nat take_bit_nat_eq_self)

lemma mid_step:
  assumes "0 < n" "n < 2047 * 2 ^ 52"
  shows "lower_mid (pattern (n + 1)) = upper_mid (pattern n)"
  by (simp add: lower_mid_def upper_mid_def pattern_def add.commute)

lemma lower_mid_mono:
  assumes "0 < i" "i < j" "j < 2047 * 2 ^ 52"
  shows "upper_mid (pattern i) \<le> lower_mid (pattern j)"
  using assms
proof (induction j)
  case (Suc j)
  show ?case
  proof (cases "i = j")
    case True
    then show ?thesis using Suc.prems mid_step [of j] by simp
  next
    case False
    then have "upper_mid (pattern i) \<le> lower_mid (pattern j)"
      using Suc by simp
    also have "\<dots> < upper_mid (pattern j)"
      using Suc.prems by (intro lower_less_upper pattern_simps) simp_all
    also have "\<dots> = lower_mid (pattern (Suc j))"
      using mid_step [of j] Suc.prems by simp
    finally show ?thesis by simp
  qed
qed simp

lemma search_ok:
  assumes "lower_mid (pattern n) \<le> numeral_value p" "numeral_value p < upper_mid (pattern n)"
    and n: "0 < n" "n < 2047 * 2 ^ 52" and "lo \<le> n" "n < lo + 2 ^ i"
  shows "search p i lo = n"
  using assms(5,6)
proof (induction i arbitrary: lo)
  case (Suc i)
  have "at_least p (pattern (lo + 2 ^ i)) \<longleftrightarrow> lo + 2 ^ i \<le> n" if "lo + 2 ^ i < 2047 * 2 ^ 52"
  proof -
    have pos: "positive_finite (pattern (lo + 2 ^ i))"
      using that by (intro pattern_simps) simp_all
    consider "lo + 2 ^ i < n" | "lo + 2 ^ i = n" | "n < lo + 2 ^ i" by linarith
    then show ?thesis
    proof cases
      case 1
      then have "lower_mid (pattern (lo + 2 ^ i)) \<le> numeral_value p"
        using lower_mid_mono [of "lo + 2 ^ i" n] lower_less_upper(2) [OF pos] n assms(1) by simp
      then show ?thesis using 1 by (simp add: at_least_iff [OF pos])
    next
      case 2
      then show ?thesis using assms(1) at_least_iff [OF pos, of p] by (simp only: order_refl)
    next
      case 3
      then have "numeral_value p < lower_mid (pattern (lo + 2 ^ i))"
        using lower_mid_mono [of n "lo + 2 ^ i"] n that assms(2) by simp
      then show ?thesis using 3 by (simp add: at_least_iff [OF pos])
    qed
  qed
  then show ?case
    using Suc n by (auto simp: pattern_def)
qed simp

lemma search_zero:
  assumes "numeral_value p = 0"
  shows "search p i 0 = 0"
proof (induction i)
  case (Suc i)
  have "\<not> at_least p (pattern (2 ^ i))" if "2 ^ i < 2047 * (2 :: nat) ^ 52"
    using that lower_less_upper(1) [OF pattern_simps(2) [OF _ that]]
    by (simp add: at_least_iff [OF pattern_simps(2) [OF _ that]] assms)
  then show ?case using Suc by (auto simp: pattern_def)
qed simp

lemma numeral_starts_with_digit: "numeral_parts t = Some p \<Longrightarrow> t \<noteq> [] \<and> hd t \<noteq> CHR ''-''"
  by (cases t; cases "is_digit (hd t)") (auto simp: numeral_parts_def Let_def)

lemma nearest_double_rounds: "rounds_to_nearest nearest_double"
  unfolding rounds_to_nearest_def
proof (intro allI impI, elim conjE)
  fix t p b
  assume t: "numeral_parts t = Some p" and b: "nearest_to (numeral_value p) b"
  have "of_nat (search p 63 0) = b"
    using b unfolding nearest_to_def
  proof (elim disjE conjE)
    assume "numeral_value p = 0" "b = 0"
    then show ?thesis by (simp add: search_zero)
  next
    assume pos: "positive_finite b" "lower_mid b < numeral_value p" "numeral_value p < upper_mid b"
    have eq: "pattern (unat b) = b" by (simp add: pattern_def)
    have "search p 63 0 = unat b"
      by (rule search_ok) (use pos in \<open>simp_all add: eq positive_finite_def\<close>)
    then show ?thesis by simp
  qed
  moreover have "t \<noteq> []" "hd t \<noteq> CHR ''-''"
    using numeral_starts_with_digit [OF t] by simp_all
  ultimately show "nearest_double t = b \<and> nearest_double (CHR ''-'' # t) = dbl_neg b"
    using t by (simp add: nearest_double_def)
qed

section \<open>Properties\<close>

text \<open>
  C6: Doubles round-trip through their text: for every finite \<open>double\<close>, \<open>-0.0\<close> and the subnormal
  numbers included, \<open>to_chars\<close> gives a text of at most 24 bytes, and a \<open>strtod\<close> that rounds to
  the nearest double reads back the same bits.
\<close>

theorem double_text_roundtrip:
  assumes "rounds_to_nearest str2d" "dbl_isfinite b"
  shows "\<exists>t. double_text b = Inr t \<and> length t \<le> 24 \<and> str2d t = b"
proof -
  obtain a' where "to_chars (replicate 64 nul) 0 64 b = Inr (a', 0 + length (float_text b))"
    "take (length (float_text b)) (drop 0 a') = float_text b"
    by (rule to_chars_writes [OF assms(2), of 0 64 "replicate 64 nul"]) simp_all
  then have "double_text b = Inr (float_text b)" by (simp add: double_text_def)
  then show ?thesis using length_float_text [OF assms(2)] float_text_read [OF assms] by simp
qed

theorem double_text_roundtrip_witness:
  "\<exists>t. double_text 0xBFB999999999999A = Inr t \<and> length t \<le> 24 \<and> nearest_double t = 0xBFB999999999999A"
  by (rule double_text_roundtrip [OF nearest_double_rounds]) code_simp

end
