(* ===== verification/Json_Doubles.thy ===== *)
theory Json_Doubles
  imports Json_Canonical Json_Merge Double_Roundtrip
begin

text \<open>
  The JSON library with the doubles of the machine: the operations on \<open>double\<close> that the parser,
  the conversions and the serializer use, on bit patterns. Only \<open>std::strtod\<close> stays a parameter.
  The serializer's \<open>dump_float\<close> on its own number buffer writes the text of the value, and with a
  \<open>strtod\<close> that rounds correctly every value with finite doubles survives the round trip.
\<close>

section \<open>Operations\<close>

text \<open>
  \<open>static_cast<int>\<close> drops the fraction; a value whose integral part is no \<open>int\<close> is undefined
  behaviour, as is an infinity or a NaN.
\<close>

definition dbl_truncate :: "binary64 \<Rightarrow> int" where
  "dbl_truncate b =
     (let m = (if dbl_signbit b then dbl_neg b else b);
          t = (if 0 \<le> expo m then mant m * 2 ^ nat (expo m) else mant m div 2 ^ nat (- expo m))
      in if dbl_signbit b then - int t else int t)"

definition dbl_to_int32 :: "binary64 \<Rightarrow> int result" where
  "dbl_to_int32 b =
     (if dbl_isfinite b \<and> - (2 ^ 31) \<le> dbl_truncate b \<and> dbl_truncate b < 2 ^ 31
      then Inr (dbl_truncate b) else Inl Undefined_Behaviour)"

definition ieee_doubles :: "(string \<Rightarrow> binary64) \<Rightarrow> binary64 double_ops" where
  "ieee_doubles str2d =
     \<lparr>dbl_zero = 0, strtod = str2d, isfinite = dbl_isfinite, dbl_to_int = dbl_to_int32,
      dbl_to_chars = float_text\<rparr>"

section \<open>Floating-point numbers of the serializer\<close>

text \<open>\<open>dump_float\<close> with the text made in the number buffer.\<close>

definition dump_double :: "binary64 \<Rightarrow> serializer \<Rightarrow> serializer result" where
  "dump_double x s =
     (if \<not> dbl_isfinite x then Inr (write_characters ''null'' s)
      else
        rbind (to_chars (number_buffer s) 0 (length (number_buffer s)) x) (\<lambda>(buffer, past).
        Inr (write_characters (take past buffer) (s\<lparr>number_buffer := buffer\<rparr>))))"

lemma dump_double_text:
  assumes "length (number_buffer s) = 64"
  shows "wrote (if dbl_isfinite x then float_text x else ''null'') s (dump_double x s)"
proof (cases "dbl_isfinite x")
  case True
  obtain a' where "to_chars (number_buffer s) 0 64 x = Inr (a', 0 + length (float_text x))"
    "length a' = length (number_buffer s)" "take (length (float_text x)) (drop 0 a') = float_text x"
    by (rule to_chars_writes [OF True, of 0 64 "number_buffer s"]) (simp_all add: assms)
  then show ?thesis
    using True assms unfolding wrote_def by (intro exI [of _ a']) (simp add: dump_double_def)
next
  case False
  with wrote_refl [OF assms, of "''null''"] show ?thesis by (simp add: dump_double_def)
qed

text \<open>It is \<open>dump_float\<close> of the serializer but for the bytes left in the number buffer.\<close>

lemma dump_double_dump_float:
  assumes "length (number_buffer s) = 64"
  shows "\<exists>buffer. length buffer = 64 \<and>
    dump_double x s = Inr (dump_float (ieee_doubles str2d) x s\<lparr>number_buffer := buffer\<rparr>)"
  using dump_double_text [OF assms, of x]
  by (auto simp: wrote_def dump_float_def ieee_doubles_def write_characters_def)

section \<open>The texts are JSON numbers\<close>

lemma digit_char_val:
  assumes "is_digit d"
  shows "digit_val d < 10" "digit_char (digit_val d) = d"
proof -
  have "(48 :: nat) \<le> of_char d" "of_char d \<le> (57 :: nat)"
    using assms by (simp_all add: is_digit_def)
  then show "digit_val d < 10" "digit_char (digit_val d) = d"
    by (simp_all add: digit_val_def digit_char_def)
qed

lemma digits_val_append1: "digits_val (ds @ [d]) = 10 * digits_val ds + digit_val d"
  by (simp add: digits_val_def)

lemma digits_val_positive: "list_all is_digit ds \<Longrightarrow> ds \<noteq> [] \<Longrightarrow> hd ds \<noteq> CHR ''0'' \<Longrightarrow> 0 < digits_val ds"
proof (induction ds rule: rev_induct)
  case (snoc d ds)
  show ?case
  proof (cases "ds = []")
    case True
    have "digit_val d \<noteq> 0"
    proof
      assume "digit_val d = 0"
      then have "digit_char 0 = d" using snoc.prems(1) digit_char_val [of d] by simp
      with snoc.prems(3) True show False by (simp add: digit_char_0)
    qed
    with True digits_val_append1 [of "[]" d] show ?thesis by simp
  next
    case False
    with snoc show ?thesis by (simp add: digits_val_append1)
  qed
qed simp

lemma nat_digits_of_digits:
  "list_all is_digit ds \<Longrightarrow> ds \<noteq> [] \<Longrightarrow> hd ds \<noteq> CHR ''0'' \<Longrightarrow> nat_digits (digits_val ds) = ds"
proof (induction ds rule: rev_induct)
  case (snoc d ds)
  have d: "digit_val d < 10" "digit_char (digit_val d) = d"
    using snoc.prems(1) digit_char_val [of d] by simp_all
  show ?case
  proof (cases "ds = []")
    case True
    with d digits_val_append1 [of "[]" d] show ?thesis by (simp add: nat_digits.simps [of "digit_val d"])
  next
    case False
    then have "0 < digits_val ds" "nat_digits (digits_val ds) = ds"
      using snoc digits_val_positive [of ds] by simp_all
    with d show ?thesis
      by (simp add: digits_val_append1 nat_digits.simps [of "10 * digits_val ds + digit_val d"])
  qed
qed simp

lemma float_lexeme_parts:
  assumes ip: "list_all is_digit ip" "nat_digits (digits_val ip) = ip" and u: "number_tail u"
  shows "float_lexeme (ip @ u)" "float_lexeme (CHR ''-'' # ip @ u)"
proof -
  have "u = [] \<or> \<not> is_digit (hd u)"
  proof (cases "u \<noteq> [] \<and> hd u = CHR ''.''")
    case False
    then have "exponent_lexeme u" using u unfolding number_tail_def by meson
    then show ?thesis by (auto simp: exponent_lexeme_def is_digit_def)
  qed (auto simp: is_digit_def)
  then have t: "takeWhile is_digit (ip @ u) = ip" "dropWhile is_digit (ip @ u) = u"
    using takeWhile_digits [OF ip(1), of u] by (cases u; simp)+
  have "ip \<noteq> []" using ip(2) nat_digits_not_Nil by metis
  then have "hd (ip @ u) \<noteq> CHR ''-''" using ip(1) by (cases ip) (auto simp: is_digit_def)
  then show "float_lexeme (ip @ u)" "float_lexeme (CHR ''-'' # ip @ u)"
    using t ip(2) u by (simp_all add: float_lexeme_def Let_def)
qed

lemma exponent_text_lexeme: "exponent_lexeme (CHR ''e'' # exponent_text e)"
  by (simp add: exponent_lexeme_def exponent_text_def digit_run_def)

lemma number_tails:
  "list_all is_digit fp \<Longrightarrow> fp \<noteq> [] \<Longrightarrow> number_tail (CHR ''.'' # fp)"
  "number_tail (CHR ''e'' # exponent_text e)"
  "list_all is_digit fp \<Longrightarrow> fp \<noteq> [] \<Longrightarrow> number_tail (CHR ''.'' # fp @ CHR ''e'' # exponent_text e)"
  using takeWhile_digits [of fp "[]"] takeWhile_digits [of fp "CHR ''e'' # exponent_text e"]
    exponent_text_lexeme [of e]
  by (simp_all add: number_tail_def digit_run_def del: takeWhile_eq_all_conv dropWhile_eq_Nil_conv)

lemma float_layout_lexeme:
  assumes ds: "list_all is_digit ds" "ds \<noteq> []" "hd ds \<noteq> CHR ''0''"
  shows "\<exists>ip u. float_layout ds x = ip @ u \<and> list_all is_digit ip \<and> nat_digits (digits_val ip) = ip \<and> number_tail u"
proof -
  define n where "n = int (length ds) + x"
  have zero: "nat_digits (digits_val ''0'') = ''0''" by code_simp
  have canonical: "nat_digits (digits_val (ds' @ r)) = ds' @ r"
    if "list_all is_digit (ds' @ r)" "ds' \<noteq> []" "hd ds' = hd ds" for ds' r
    using that ds(3) by (intro nat_digits_of_digits) (auto simp: hd_append)
  consider (plain) "0 \<le> x" "n \<le> 15"
    | (point) "\<not> (0 \<le> x \<and> n \<le> 15)" "0 < n" "n \<le> 15"
    | (small) "- 4 < n" "n \<le> 0"
    | (exponent) "\<not> (0 \<le> x \<and> n \<le> 15)" "\<not> (0 < n \<and> n \<le> 15)" "\<not> (- 4 < n \<and> n \<le> 0)"
    by blast
  then show ?thesis
  proof cases
    case plain
    then have "float_layout ds x = (ds @ replicate (nat x) (CHR ''0'')) @ ''.0''"
      by (simp add: float_layout_def n_def Let_def)
    moreover have "number_tail ''.0''" using number_tails(1) [of "''0''"] by simp
    ultimately show ?thesis
      using canonical [of ds "replicate (nat x) (CHR ''0'')"] ds by (intro exI conjI) (assumption | simp)+
  next
    case point
    then have l: "float_layout ds x = take (nat n) ds @ ''.'' @ drop (nat n) ds" "nat n < length ds" "0 < nat n"
      by (auto simp: float_layout_def n_def Let_def)
    then have "number_tail (''.'' @ drop (nat n) ds)"
      using number_tails(1) [of "drop (nat n) ds"] list_all_digits_split [OF ds(1)] by simp
    moreover have "nat_digits (digits_val (take (nat n) ds)) = take (nat n) ds"
      using canonical [of "take (nat n) ds" "[]"] l ds list_all_digits_split [OF ds(1)] by simp
    ultimately show ?thesis using l(1) list_all_digits_split [OF ds(1)] by blast
  next
    case small
    then have "float_layout ds x = ''0'' @ CHR ''.'' # replicate (nat (- n)) (CHR ''0'') @ ds"
      using ds(2) by (cases ds) (auto simp: float_layout_def n_def Let_def)
    moreover have "number_tail (CHR ''.'' # replicate (nat (- n)) (CHR ''0'') @ ds)"
      using number_tails(1) ds by simp
    moreover have "list_all is_digit ''0''" by simp
    ultimately show ?thesis using zero by blast
  next
    case exponent
    obtain d ds' where dd: "ds = d # ds'" using ds(2) by (cases ds) auto
    have l: "float_layout ds x = [d] @ (if ds' = [] then [] else CHR ''.'' # ds') @ CHR ''e'' # exponent_text (n - 1)"
      using exponent unfolding float_layout_def Let_def n_def [symmetric] by (auto simp: dd)
    have "number_tail ((if ds' = [] then [] else CHR ''.'' # ds') @ CHR ''e'' # exponent_text (n - 1))"
      using number_tails(2) [of "n - 1"] number_tails(3) [of ds' "n - 1"] ds dd by simp
    moreover have "nat_digits (digits_val [d]) = [d]" "list_all is_digit [d]"
      using canonical [of "[d]" "[]"] ds dd by simp_all
    ultimately show ?thesis using l by blast
  qed
qed

lemma float_text_lexeme:
  assumes "dbl_isfinite b"
  shows "float_lexeme (float_text b)"
proof -
  define m where "m = (if dbl_signbit b then dbl_neg b else b)"
  define t where "t = (if dbl_is_zero m then ''0.0'' else float_layout (fst (shortest m)) (snd (shortest m)))"
  have "\<exists>ip u. t = ip @ u \<and> list_all is_digit ip \<and> nat_digits (digits_val ip) = ip \<and> number_tail u"
  proof (cases "dbl_is_zero m")
    case True
    have "number_tail ''.0''" "nat_digits (digits_val ''0'') = ''0''" "list_all is_digit ''0''" by code_simp+
    moreover have "t = ''0'' @ ''.0''" using True by (simp add: t_def)
    ultimately show ?thesis by blast
  next
    case False
    then have "positive_finite m" using magnitude(2) [OF assms] by (simp add: m_def)
    then obtain N x where "shortest m = (nat_digits N, x)" "0 < N" by (rule shortest_between)
    then show ?thesis
      using False float_layout_lexeme [of "nat_digits N" x] hd_nat_digits [of N] by (simp add: t_def)
  qed
  then have "float_lexeme t" "float_lexeme (CHR ''-'' # t)" using float_lexeme_parts by auto
  moreover have "float_text b = (if dbl_signbit b then ''-'' else []) @ t"
    by (simp add: float_text_def t_def m_def Let_def)
  ultimately show ?thesis by simp
qed

section \<open>Values with doubles\<close>

text \<open>
  Values as the parser builds them: integers of 64 bits, negative ones signed; finite doubles;
  well-formed strings; members in the order of their keys.
\<close>

fun json_finite :: "binary64 json \<Rightarrow> bool"
  and members_finite :: "(string \<times> binary64 json) list \<Rightarrow> bool"
  and elements_finite :: "binary64 json list \<Rightarrow> bool" where
  "json_finite (JInteger i) = (- (2 ^ 63) \<le> i \<and> i < 0)"
| "json_finite (JUnsigned i) = (0 \<le> i \<and> i < 2 ^ 64)"
| "json_finite (JFloat d) = dbl_isfinite d"
| "json_finite (JString s) = valid_utf8 s"
| "json_finite (JArray vs) = elements_finite vs"
| "json_finite (JObject m) = (sorted_wrt (<) (List.map fst m) \<and> members_finite m)"
| "json_finite JNull = True"
| "json_finite (JBoolean b) = True"
| "members_finite [] = True"
| "members_finite ((k, v) # m) = (valid_utf8 k \<and> json_finite v \<and> members_finite m)"
| "elements_finite [] = True"
| "elements_finite (v # vs) = (json_finite v \<and> elements_finite vs)"

lemma ieee_canonical:
  assumes "rounds_to_nearest str2d" "dbl_isfinite d"
  shows "float_canonical (ieee_doubles str2d) d"
  using float_text_lexeme [OF assms(2)] float_text_read [OF assms] assms(2)
  by (simp add: float_canonical_def ieee_doubles_def)

lemma finite_canonical:
  assumes "rounds_to_nearest str2d"
  shows
    "json_finite v \<Longrightarrow> json_canonical (ieee_doubles str2d) v"
    "members_finite m \<Longrightarrow> members_canonical (ieee_doubles str2d) m"
    "elements_finite vs \<Longrightarrow> elements_canonical (ieee_doubles str2d) vs"
  by (induction v and m and vs rule: json_finite_members_finite_elements_finite.induct)
    (auto simp: ieee_canonical [OF assms])

lemma json_text_read:
  assumes "rounds_to_nearest str2d" "json_finite v"
  shows "json_dump (ieee_doubles str2d) v = Inr (json_text (ieee_doubles str2d) v)"
    and "json_parse (ieee_doubles str2d) (json_text (ieee_doubles str2d) v) = Inr v"
  using json_dump_text [OF canonical_valid(1) [OF finite_canonical(1) [OF assms]]]
    json_parse_text [OF finite_canonical(1) [OF assms]] by blast+

section \<open>Values that do not come back as they were\<close>

text \<open>
  The text does not tell a signed from an unsigned integer, so an integer from 0 on is read as an
  unsigned one; and an infinity or a NaN is written, and so read, as null.
\<close>

fun read_back :: "binary64 json \<Rightarrow> binary64 json"
  and members_back :: "(string \<times> binary64 json) list \<Rightarrow> (string \<times> binary64 json) list"
  and elements_back :: "binary64 json list \<Rightarrow> binary64 json list" where
  "read_back (JInteger i) = (if i < 0 then JInteger i else JUnsigned i)"
| "read_back (JFloat d) = (if dbl_isfinite d then JFloat d else JNull)"
| "read_back (JArray vs) = JArray (elements_back vs)"
| "read_back (JObject m) = JObject (members_back m)"
| "read_back JNull = JNull"
| "read_back (JBoolean b) = JBoolean b"
| "read_back (JUnsigned u) = JUnsigned u"
| "read_back (JString s) = JString s"
| "members_back [] = []"
| "members_back ((k, v) # m) = (k, read_back v) # members_back m"
| "elements_back [] = []"
| "elements_back (v # vs) = read_back v # elements_back vs"

lemma members_back_keys [simp]: "List.map fst (members_back m) = List.map fst m"
  by (induction m) auto

lemma back_eq_Nil [simp]: "members_back m = [] \<longleftrightarrow> m = []" "elements_back vs = [] \<longleftrightarrow> vs = []"
  by (cases m; auto) (cases vs; auto)

lemma back_finite:
  "json_valid v \<Longrightarrow> json_ordered v \<Longrightarrow> json_finite (read_back v)"
  "members_valid m \<Longrightarrow> members_ordered m \<Longrightarrow> members_finite (members_back m)"
  "elements_valid vs \<Longrightarrow> elements_ordered vs \<Longrightarrow> elements_finite (elements_back vs)"
  by (induction v and m and vs rule: read_back_members_back_elements_back.induct) (auto simp: obj_ordered_def)

lemma back_text:
  "json_text (ieee_doubles str2d) (read_back v) = json_text (ieee_doubles str2d) v"
  "members_text (ieee_doubles str2d) (members_back m) = members_text (ieee_doubles str2d) m"
  "elements_text (ieee_doubles str2d) (elements_back vs) = elements_text (ieee_doubles str2d) vs"
  by (induction v and m and vs rule: read_back_members_back_elements_back.induct)
    (simp_all add: ieee_doubles_def)

lemma back_same:
  "json_finite v \<Longrightarrow> read_back v = v" "members_finite m \<Longrightarrow> members_back m = m"
  "elements_finite vs \<Longrightarrow> elements_back vs = vs"
  by (induction v and m and vs rule: read_back_members_back_elements_back.induct) auto

section \<open>Conversion to an integer\<close>

text \<open>The number a double stands for, with its sign.\<close>

definition signed_value :: "binary64 \<Rightarrow> real" where
  "signed_value b = (if dbl_signbit b then - double_value (dbl_neg b) else double_value b)"

lemma truncate_magnitude:
  "int (if 0 \<le> expo m then mant m * 2 ^ nat (expo m) else mant m div 2 ^ nat (- expo m)) = \<lfloor>double_value m\<rfloor>"
proof (cases "0 \<le> expo m")
  case True
  have p: "(2 :: real) powi expo m = 2 ^ nat (expo m)" using True by (simp add: power_int_def)
  have "double_value m = real_of_int (int (mant m * 2 ^ nat (expo m)))"
    unfolding double_value_def p by simp
  then have "\<lfloor>double_value m\<rfloor> = int (mant m * 2 ^ nat (expo m))" by (simp only: floor_of_int)
  then show ?thesis unfolding if_P [OF True] by (rule sym)
next
  case False
  have p: "(2 :: real) powi expo m = inverse (2 ^ nat (- expo m))"
    using False by (simp add: power_int_def power_one_over inverse_eq_divide)
  have v: "double_value m = real (mant m) / real (2 ^ nat (- expo m))"
    unfolding double_value_def p by (simp add: divide_inverse)
  show ?thesis unfolding v floor_divide_of_nat_eq if_not_P [OF False] by (rule refl)
qed

lemma dbl_truncate_value:
  "dbl_truncate b = (if 0 \<le> signed_value b then \<lfloor>signed_value b\<rfloor> else \<lceil>signed_value b\<rceil>)"
proof (cases "dbl_signbit b")
  case True
  have "0 \<le> double_value (dbl_neg b)" by (simp add: double_value_def)
  moreover have "dbl_truncate b = - \<lfloor>double_value (dbl_neg b)\<rfloor>"
    unfolding dbl_truncate_def Let_def truncate_magnitude using True by simp
  ultimately show ?thesis
    using True by (cases "double_value (dbl_neg b) = 0") (simp_all add: signed_value_def ceiling_minus)
next
  case False
  have "0 \<le> double_value b" by (simp add: double_value_def)
  moreover have "dbl_truncate b = \<lfloor>double_value b\<rfloor>"
    unfolding dbl_truncate_def Let_def truncate_magnitude using False by simp
  ultimately show ?thesis using False by (simp add: signed_value_def)
qed

section \<open>Properties\<close>

text \<open>
  C5: Values round-trip through their text, floating-point numbers included: with a \<open>strtod\<close> that
  rounds correctly, \<open>dump\<close> writes every value (integers of 64 bits, any double, well-formed
  strings, members in the order of their keys) without an exception, and \<open>parse\<close> reads it back:
  every finite double bit for bit, an infinity or a NaN as null, a signed integer from 0 on as an
  unsigned one, and everything else as it was. A value without these three is read back exactly.
\<close>

theorem json_roundtrip_doubles:
  assumes "rounds_to_nearest str2d" "json_valid v" "json_ordered v"
  shows "\<exists>s. json_dump (ieee_doubles str2d) v = Inr s \<and>
    json_parse (ieee_doubles str2d) s = Inr (read_back v) \<and> (json_finite v \<longrightarrow> read_back v = v)"
  using json_dump_text [OF assms(2), of "ieee_doubles str2d"] back_same(1) [of v]
    json_text_read(2) [OF assms(1) back_finite(1) [OF assms(2,3)]] by (simp add: back_text)

theorem json_roundtrip_doubles_witness:
  "\<exists>s. json_dump (ieee_doubles nearest_double)
      (JArray [JFloat 0xBFB999999999999A, JInteger (- 5), JInteger 0, JFloat 0x7FF0000000000000, JObject [(''k'', JFloat 0)]]) = Inr s \<and>
    json_parse (ieee_doubles nearest_double) s =
      Inr (JArray [JFloat 0xBFB999999999999A, JInteger (- 5), JUnsigned 0, JNull, JObject [(''k'', JFloat 0)]])"
proof -
  let ?v = "JArray [JFloat 0xBFB999999999999A, JInteger (- 5), JInteger 0, JFloat 0x7FF0000000000000, JObject [(''k'', JFloat 0)]]
    :: binary64 json"
  have ok: "json_valid ?v" "json_ordered ?v" by code_simp+
  have "read_back ?v =
      JArray [JFloat 0xBFB999999999999A, JInteger (- 5), JUnsigned 0, JNull, JObject [(''k'', JFloat 0)]]"
    by code_simp
  with json_roundtrip_doubles [OF nearest_double_rounds ok] show ?thesis by auto
qed

text \<open>
  C25: The serializer writes a double as specified: \<open>dump_float\<close>, which runs Grisu2 in the 64 bytes of
  the number buffer, appends exactly the text of the double (\<open>null\<close> for an infinity or a NaN) to the
  output and changes nothing else but the bytes left in that buffer.
\<close>

theorem dump_double_refines:
  assumes "length (number_buffer s) = 64"
  shows "\<exists>buffer. length buffer = 64 \<and>
    dump_double x s = Inr (dump_float (ieee_doubles str2d) x s\<lparr>number_buffer := buffer\<rparr>)"
  using dump_double_dump_float [OF assms] .

theorem dump_double_refines_witness:
  "\<exists>buffer. length buffer = 64 \<and> dump_double 0x3FF8000000000000 (new_serializer [] (CHR '' '') Strict) =
    Inr (dump_float (ieee_doubles nearest_double) 0x3FF8000000000000 (new_serializer [] (CHR '' '') Strict)\<lparr>number_buffer := buffer\<rparr>)"
  by (rule dump_double_refines) (simp add: new_serializer_def)

text \<open>An integer read from a floating-point number, as for the time of an event.\<close>

theorem get_int_of_double:
  "get_int (ieee_doubles str2d) (JFloat d) =
     (let i = (if 0 \<le> signed_value d then \<lfloor>signed_value d\<rfloor> else \<lceil>signed_value d\<rceil>) in
      if dbl_isfinite d \<and> - (2 ^ 31) \<le> i \<and> i < 2 ^ 31 then Inr i else Inl Undefined_Behaviour)"
  by (simp add: ieee_doubles_def dbl_to_int32_def dbl_truncate_value Let_def)

end
