(* ===== verification/Json_Pointer.thy ===== *)
theory Json_Pointer
  imports Json_Tokens Json_Parser
begin

text \<open>
  The class \<open>json_pointer\<close> of client/include/json.hpp (RFC 6901) and the element access of
  \<open>basic_json\<close> it uses. A pointer is its list of reference tokens. A C++ reference to a value
  inside a document is the path from the root of the document to it, as in the DOM parser;
  memory is not bounded.
\<close>

section \<open>Exceptions\<close>

text \<open>The classes of exceptions of the library with the number each is created with.\<close>

datatype json_error =
    Parse_Error nat
  | Invalid_Iterator nat
  | Type_Error nat
  | Out_Of_Range nat
  | Other_Error nat
  | Failed cpp_error

type_synonym 'a outcome = "json_error + 'a"

section \<open>Escaping\<close>

text \<open>
  The loop of \<open>replace_substring\<close>, which goes on behind each replacement. Its assertion that the
  searched text is not empty holds in all calls, where this text is a constant.
\<close>

function replace_loop :: "string \<Rightarrow> string \<Rightarrow> string \<Rightarrow> string" where
  "replace_loop f t [] = []"
| "replace_loop f t (c # s) =
     (if f \<noteq> [] \<and> take (length f) (c # s) = f then t @ replace_loop f t (drop (length f - 1) s)
      else c # replace_loop f t s)"
  by pat_completeness auto
termination by (relation "measure (\<lambda>(_, _, s). length s)") auto

definition escape :: "string \<Rightarrow> string" where
  "escape s = replace_loop ''/'' ''~1'' (replace_loop ''~'' ''~0'' s)"

definition unescape :: "string \<Rightarrow> string" where
  "unescape s = replace_loop ''~0'' ''~'' (replace_loop ''~1'' ''/'' s)"

section \<open>Pointers and their texts\<close>

text \<open>Every \<open>~\<close> is followed by 0 or 1.\<close>

fun escapes_ok :: "string \<Rightarrow> bool" where
  "escapes_ok [] = True"
| "escapes_ok (c # s) =
     ((c = CHR ''~'' \<longrightarrow> s \<noteq> [] \<and> (hd s = CHR ''0'' \<or> hd s = CHR ''1'')) \<and> escapes_ok s)"

function split_loop :: "string \<Rightarrow> string list outcome" where
  "split_loop s =
     (let reference_token = takeWhile (\<lambda>c. c \<noteq> CHR ''/'') s;
          rest_of_string = dropWhile (\<lambda>c. c \<noteq> CHR ''/'') s
      in if \<not> escapes_ok reference_token then Inl (Parse_Error 108)
         else if rest_of_string = [] then Inr [unescape reference_token]
         else
           rbind (split_loop (tl rest_of_string)) (\<lambda>result.
           Inr (unescape reference_token # result)))"
  by pat_completeness auto
termination
proof (relation "measure length", goal_cases)
  case (2 s t r)
  have "length r \<le> length s" unfolding 2(2) by (rule length_dropWhile_le)
  moreover have "length (tl r) < length r" using 2(4) by simp
  ultimately show ?case unfolding in_measure by linarith
qed simp

declare split_loop.simps [simp del]

definition pointer_split :: "string \<Rightarrow> string list outcome" where
  "pointer_split reference_string =
     (if reference_string = [] then Inr []
      else if hd reference_string \<noteq> CHR ''/'' then Inl (Parse_Error 107)
      else split_loop (tl reference_string))"

definition pointer_string :: "string list \<Rightarrow> string" where
  "pointer_string reference_tokens = foldl (\<lambda>a b. a @ ''/'' @ escape b) [] reference_tokens"

definition pointer_pop_back :: "string list \<Rightarrow> string list outcome" where
  "pointer_pop_back ptr = (if ptr = [] then Inl (Out_Of_Range 405) else Inr (butlast ptr))"

definition pointer_back :: "string list \<Rightarrow> string outcome" where
  "pointer_back ptr = (if ptr = [] then Inl (Out_Of_Range 405) else Inr (last ptr))"

definition pointer_top :: "string list \<Rightarrow> string list outcome" where
  "pointer_top ptr = (if ptr = [] then Inl (Out_Of_Range 405) else Inr [hd ptr])"

definition parent_pointer :: "string list \<Rightarrow> string list outcome" where
  "parent_pointer ptr = (if ptr = [] then Inr ptr else pointer_pop_back ptr)"

text \<open>A reference token as an array index; \<open>strtoull\<close> reads digits up to the first other byte.\<close>

definition pointer_array_index :: "string \<Rightarrow> nat outcome" where
  "pointer_array_index s =
     (if length s > 1 \<and> s ! 0 = CHR ''0'' then Inl (Parse_Error 106)
      else if length s > 1 \<and> \<not> is_digit (s ! 0) then Inl (Parse_Error 109)
      else
        let ds = takeWhile is_digit s; res = digits_val ds in
        if ds = [] \<or> res \<ge> 2 ^ 64 \<or> length ds \<noteq> length s then Inl (Out_Of_Range 404)
        else if res \<ge> 2 ^ 64 - 1 then Inl (Out_Of_Range 410)
        else Inr res)"

section \<open>Element access\<close>

definition at_index :: "'d json \<Rightarrow> nat \<Rightarrow> 'd json outcome" where
  "at_index j idx =
     (case j of
        JArray vs \<Rightarrow> if idx < length vs then Inr (vs ! idx) else Inl (Out_Of_Range 401)
      | _ \<Rightarrow> Inl (Type_Error 304))"

definition at_key :: "'d json \<Rightarrow> string \<Rightarrow> 'd json outcome" where
  "at_key j key =
     (case j of
        JObject m \<Rightarrow> (case map_of m key of Some v \<Rightarrow> Inr v | None \<Rightarrow> Inl (Out_Of_Range 403))
      | _ \<Rightarrow> Inl (Type_Error 304))"

text \<open>\<open>get_checked\<close>: the reference to the value pointed to.\<close>

fun get_checked :: "'d json \<Rightarrow> string list \<Rightarrow> ref outcome" where
  "get_checked ptr [] = Inr []"
| "get_checked ptr (reference_token # reference_tokens) =
     (case ptr of
        JObject m \<Rightarrow>
          rbind (at_key ptr reference_token) (\<lambda>v.
          rbind (get_checked v reference_tokens) (\<lambda>p. Inr (Member reference_token # p)))
      | JArray vs \<Rightarrow>
          if reference_token = ''-'' then Inl (Out_Of_Range 402)
          else
            rbind (pointer_array_index reference_token) (\<lambda>idx.
            rbind (at_index ptr idx) (\<lambda>v.
            rbind (get_checked v reference_tokens) (\<lambda>p. Inr (Elem idx # p))))
      | _ \<Rightarrow> Inl (Out_Of_Range 404))"

definition at_pointer :: "'d json \<Rightarrow> string list \<Rightarrow> 'd json outcome" where
  "at_pointer j ptr =
     rbind (get_checked j ptr) (\<lambda>p.
     case json_at j p of Some v \<Rightarrow> Inr v | None \<Rightarrow> Inl (Failed Undefined_Behaviour))"

fun pointer_contains :: "'d json \<Rightarrow> string list \<Rightarrow> bool outcome" where
  "pointer_contains ptr [] = Inr True"
| "pointer_contains ptr (reference_token # reference_tokens) =
     (case ptr of
        JObject m \<Rightarrow>
          (case map_of m reference_token of
             None \<Rightarrow> Inr False
           | Some v \<Rightarrow> pointer_contains v reference_tokens)
      | JArray vs \<Rightarrow>
          if reference_token = ''-'' then Inr False
          else if length reference_token = 1 \<and> \<not> is_digit (reference_token ! 0) then Inr False
          else if length reference_token > 1 \<and>
            (\<not> (is_digit (reference_token ! 0) \<and> reference_token ! 0 \<noteq> CHR ''0'') \<or> \<not> list_all is_digit (tl reference_token))
          then Inr False
          else
            rbind (pointer_array_index reference_token) (\<lambda>idx.
            if idx \<ge> length vs then Inr False else pointer_contains (vs ! idx) reference_tokens)
      | _ \<Rightarrow> Inr False)"

section \<open>Texts of pointers\<close>

fun escape_char_pointer :: "char \<Rightarrow> string" where
  "escape_char_pointer c = (if c = CHR ''~'' then ''~0'' else if c = CHR ''/'' then ''~1'' else [c])"

lemma escape_map: "escape s = concat (List.map escape_char_pointer s)"
proof -
  have tilde: "replace_loop ''~'' ''~0'' s = concat (List.map (\<lambda>c. if c = CHR ''~'' then ''~0'' else [c]) s)" for s
    by (induction s) auto
  have "replace_loop ''/'' ''~1'' (concat (List.map (\<lambda>c. if c = CHR ''~'' then ''~0'' else [c]) s)) =
      concat (List.map escape_char_pointer s)" for s
    by (induction s) auto
  then show ?thesis by (simp add: escape_def tilde)
qed

lemma escape_no_slash: "CHR ''/'' \<notin> set (escape s)"
  by (auto simp: escape_map split: if_splits)

lemma escapes_ok_escape: "escapes_ok (escape s)"
proof -
  have "escapes_ok (concat (List.map escape_char_pointer s))" by (induction s) auto
  then show ?thesis by (simp add: escape_map)
qed

lemma unescape_escape: "unescape (escape s) = s"
proof -
  have slash: "replace_loop ''~1'' ''/'' (concat (List.map escape_char_pointer s)) =
      concat (List.map (\<lambda>c. if c = CHR ''~'' then ''~0'' else [c]) s)" for s
    by (induction s) (auto simp: numeral_2_eq_2)
  have "replace_loop ''~0'' ''~'' (concat (List.map (\<lambda>c. if c = CHR ''~'' then ''~0'' else [c]) s)) = s" for s
    by (induction s) (auto simp: numeral_2_eq_2)
  then show ?thesis by (simp add: unescape_def escape_map slash)
qed

text \<open>The two passes of \<open>unescape\<close> as one.\<close>

fun unescape_once :: "string \<Rightarrow> string" where
  "unescape_once [] = []"
| "unescape_once [c] = [c]"
| "unescape_once (c # d # s) =
     (if c = CHR ''~'' \<and> d = CHR ''1'' then CHR ''/'' # unescape_once s
      else if c = CHR ''~'' \<and> d = CHR ''0'' then CHR ''~'' # unescape_once s
      else c # unescape_once (d # s))"

lemma escape_unescape_once: "escapes_ok u \<Longrightarrow> CHR ''/'' \<notin> set u \<Longrightarrow> escape (unescape_once u) = u"
  by (induction u rule: unescape_once.induct) (auto simp: escape_map)

lemma escape_unescape:
  assumes "escapes_ok u" "CHR ''/'' \<notin> set u"
  shows "escape (unescape u) = u"
proof -
  have "unescape (escape (unescape_once u)) = unescape_once u" by (rule unescape_escape)
  then show ?thesis using escape_unescape_once [OF assms] by simp
qed

lemma pointer_string_concat: "pointer_string ts = concat (List.map (\<lambda>t. CHR ''/'' # escape t) ts)"
proof -
  have "foldl (\<lambda>a b. a @ ''/'' @ escape b) a ts = a @ concat (List.map (\<lambda>t. CHR ''/'' # escape t) ts)" for a
    by (induction ts arbitrary: a) auto
  then show ?thesis by (simp add: pointer_string_def)
qed

lemma pointer_string_snoc: "pointer_string (ts @ [t]) = pointer_string ts @ ''/'' @ escape t"
  by (simp add: pointer_string_concat)

lemma split_loop_last: "split_loop (escape t) = Inr [t]"
proof -
  have *: "takeWhile (\<lambda>c. c \<noteq> CHR ''/'') (escape t) = escape t" "dropWhile (\<lambda>c. c \<noteq> CHR ''/'') (escape t) = []"
    using escape_no_slash [of t] by (auto simp: takeWhile_eq_all_conv dropWhile_eq_Nil_conv)
  show ?thesis
    unfolding split_loop.simps [of "escape t"] Let_def * by (simp add: escapes_ok_escape unescape_escape)
qed

lemma split_loop_more:
  "split_loop (escape t @ CHR ''/'' # s) = rbind (split_loop s) (\<lambda>ts. Inr (t # ts))"
proof -
  have "\<forall>c \<in> set (escape t). c \<noteq> CHR ''/''" using escape_no_slash [of t] by blast
  then have "takeWhile (\<lambda>c. c \<noteq> CHR ''/'') (escape t @ CHR ''/'' # s) = escape t"
    "dropWhile (\<lambda>c. c \<noteq> CHR ''/'') (escape t @ CHR ''/'' # s) = CHR ''/'' # s"
    by (simp_all add: takeWhile_append2 dropWhile_append2)
  then show ?thesis
    by (subst split_loop.simps) (simp add: escapes_ok_escape unescape_escape)
qed

lemma pointer_split_string: "pointer_split (pointer_string ts) = Inr ts"
proof (cases ts)
  case Nil
  then show ?thesis by (simp add: pointer_split_def pointer_string_def)
next
  case (Cons t ts')
  have "split_loop (escape t @ concat (List.map (\<lambda>t. CHR ''/'' # escape t) ts')) = Inr (t # ts')"
    by (induction ts' arbitrary: t) (simp_all add: split_loop_last split_loop_more)
  with Cons show ?thesis by (simp add: pointer_split_def pointer_string_concat)
qed

lemma split_loop_string: "split_loop s = Inr ts \<Longrightarrow> concat (List.map (\<lambda>t. CHR ''/'' # escape t) ts) = CHR ''/'' # s"
proof (induction s arbitrary: ts rule: split_loop.induct)
  case (1 s)
  let ?t = "takeWhile (\<lambda>c. c \<noteq> CHR ''/'') s" and ?r = "dropWhile (\<lambda>c. c \<noteq> CHR ''/'') s"
  have ok: "escapes_ok ?t"
    using "1.prems" by (subst (asm) split_loop.simps) (simp add: Let_def split: if_splits)
  have e: "escape (unescape ?t) = ?t"
    by (rule escape_unescape [OF ok]) (auto dest: set_takeWhileD)
  have s: "s = ?t @ ?r" by simp
  show ?case
  proof (cases "?r = []")
    case True
    then have "ts = [unescape ?t]"
      using "1.prems" ok by (subst (asm) split_loop.simps) (simp add: Let_def)
    then show ?thesis using e s True by simp
  next
    case False
    then obtain ts' where ts': "split_loop (tl ?r) = Inr ts'" "ts = unescape ?t # ts'"
      using "1.prems" ok by (subst (asm) split_loop.simps) (auto simp: Let_def rbind_eq_Inr simp del: dropWhile_eq_Nil_conv)
    have IH: "concat (List.map (\<lambda>t. CHR ''/'' # escape t) ts') = CHR ''/'' # tl ?r"
      by (rule "1.IH" [OF refl refl _ False ts'(1)]) (simp add: ok)
    have "hd ?r = CHR ''/''" using hd_dropWhile [OF False] by simp
    then have "CHR ''/'' # tl ?r = ?r" using False by (metis list.collapse)
    then have "concat (List.map (\<lambda>t. CHR ''/'' # escape t) ts) = CHR ''/'' # (?t @ ?r)"
      unfolding ts'(2) list.map concat.simps IH e by simp
    then show ?thesis by simp
  qed
qed

lemma pointer_string_split: "pointer_split s = Inr ts \<Longrightarrow> pointer_string ts = s"
  using split_loop_string [of "tl s" ts]
  by (cases s) (auto simp: pointer_split_def pointer_string_concat split: if_splits)

section \<open>Indices\<close>

lemma pointer_index_digits:
  assumes "n < 2 ^ 64 - 1"
  shows "pointer_array_index (nat_digits n) = Inr n" "nat_digits n \<noteq> ''-''"
proof -
  have d: "takeWhile is_digit (nat_digits n) = nat_digits n" "\<forall>c \<in> set (nat_digits n). is_digit c"
    using nat_digits_is_digit [of _ n] by (auto simp: takeWhile_eq_all_conv)
  then have first: "is_digit (nat_digits n ! 0)" by (metis length_greater_0_conv nat_digits_not_Nil nth_mem)
  have zero: "\<not> (length (nat_digits n) > 1 \<and> nat_digits n ! 0 = CHR ''0'')"
    by (cases n rule: nat_digits_split) simp_all
  show "pointer_array_index (nat_digits n) = Inr n"
    using assms zero first unfolding pointer_array_index_def Let_def d(1) by (simp add: Let_def)
  show "nat_digits n \<noteq> ''-''" using d(2) by (auto simp: is_digit_def)
qed

lemma to_string_index: "to_string (int i) = nat_digits i"
  by (simp add: to_string_def)

lemma escape_index: "escape (nat_digits i) = nat_digits i"
proof -
  have "concat (List.map escape_char_pointer s) = s" if "\<forall>c \<in> set s. is_digit c" for s
    using that by (induction s) (auto simp: is_digit_def)
  then show ?thesis using nat_digits_is_digit [of _ i] by (simp add: escape_map)
qed

lemma pointer_index_shape:
  assumes "pointer_array_index s = Inr i"
  shows "s \<noteq> []" "list_all is_digit s" "length s > 1 \<longrightarrow> s ! 0 \<noteq> CHR ''0''"
proof -
  let ?ds = "takeWhile is_digit s"
  have *: "?ds \<noteq> []" "length ?ds = length s" "length s > 1 \<longrightarrow> s ! 0 \<noteq> CHR ''0''"
    using assms by (auto simp: pointer_array_index_def Let_def split: if_splits)
  then have "?ds = s" by (metis takeWhile_dropWhile_id append_Nil2 length_append add_cancel_right_right length_0_conv)
  with * show "s \<noteq> []" "list_all is_digit s" "length s > 1 \<longrightarrow> s ! 0 \<noteq> CHR ''0''"
    by (auto simp: takeWhile_eq_all_conv list_all_iff)
qed

section \<open>Access\<close>

lemma get_checked_json_at: "get_checked j ptr = Inr p \<Longrightarrow> \<exists>v. json_at j p = Some v"
  by (induction j ptr arbitrary: p rule: get_checked.induct)
    (auto simp: rbind_eq_Inr at_index_def at_key_def split: json.splits if_splits option.splits)

lemma contains_iff: "pointer_contains j ptr = Inr True \<longleftrightarrow> (\<exists>p. get_checked j ptr = Inr p)"
proof (induction j ptr rule: pointer_contains.induct)
  case (2 j t ts)
  show ?case
  proof (cases j)
    case (JObject m)
    with 2 show ?thesis by (auto simp: rbind_eq_Inr at_key_def split: option.splits)
  next
    case (JArray vs)
    show ?thesis
    proof (cases "pointer_array_index t")
      case (Inl e)
      with JArray show ?thesis by auto
    next
      case (Inr i)
      note shape = pointer_index_shape [OF Inr]
      then have "t \<noteq> ''-''" by (auto simp: is_digit_def)
      moreover have "\<not> (length t = 1 \<and> \<not> is_digit (t ! 0))"
        using shape by (cases t) auto
      moreover have "\<not> (length t > 1 \<and> (\<not> (is_digit (t ! 0) \<and> t ! 0 \<noteq> CHR ''0'') \<or> \<not> list_all is_digit (tl t)))"
        using shape by (cases t) auto
      ultimately show ?thesis
        using JArray Inr 2(2) [OF JArray] by (auto simp: at_index_def rbind_eq_Inr)
    qed
  qed simp_all
qed simp

lemma contains_empty_token: "pointer_contains (JArray vs) [[]] = Inl (Out_Of_Range 404)"
  by (simp add: pointer_array_index_def)

section \<open>Properties\<close>

text \<open>
  C40: Texts and pointers correspond one to one: a text is read as the reference tokens whose
  escaped text it is, and as nothing else.
\<close>

theorem pointer_texts: "pointer_split s = Inr ts \<longleftrightarrow> pointer_string ts = s"
  using pointer_split_string [of ts] pointer_string_split [of s ts] by auto

text \<open>
  \<open>contains\<close> is true of exactly the pointers at which \<open>at\<close> returns a value.
\<close>

theorem contains_agrees_with_at: "pointer_contains j ptr = Inr True \<longleftrightarrow> (\<exists>v. at_pointer j ptr = Inr v)"
proof -
  have "at_pointer j ptr = Inr v \<longleftrightarrow> (\<exists>p. get_checked j ptr = Inr p \<and> json_at j p = Some v)" for v
    by (auto simp: at_pointer_def rbind_eq_Inr split: option.splits)
  then show ?thesis unfolding contains_iff using get_checked_json_at by blast
qed

end
