(* ===== verification/Json_Compare.thy ===== *)
theory Json_Compare
  imports Json
begin

text \<open>
  \<open>operator==\<close> and \<open>operator<\<close> on the values of client/include/json.hpp. Comparing doubles and
  converting an integer to a double are parameters.
\<close>

record 'd double_compare =
  dbl_eq :: "'d \<Rightarrow> 'd \<Rightarrow> bool"
  dbl_less :: "'d \<Rightarrow> 'd \<Rightarrow> bool"
  dbl_of_int :: "int \<Rightarrow> 'd"

text \<open>\<open>static_cast<number_integer_t>\<close> of an unsigned number.\<close>

definition to_int64 :: "int \<Rightarrow> int" where
  "to_int64 i = (i + 2 ^ 63) mod 2 ^ 64 - 2 ^ 63"

text \<open>Arrays are vectors and objects are maps: these compare element by element.\<close>

fun json_equal :: "'d double_compare \<Rightarrow> 'd json \<Rightarrow> 'd json \<Rightarrow> bool"
  and arrays_equal :: "'d double_compare \<Rightarrow> 'd json list \<Rightarrow> 'd json list \<Rightarrow> bool"
  and objects_equal :: "'d double_compare \<Rightarrow> (string \<times> 'd json) list \<Rightarrow> (string \<times> 'd json) list \<Rightarrow> bool" where
  "json_equal c (JArray vs) rhs = (case rhs of JArray ws \<Rightarrow> arrays_equal c vs ws | _ \<Rightarrow> False)"
| "json_equal c (JObject m) rhs = (case rhs of JObject n \<Rightarrow> objects_equal c m n | _ \<Rightarrow> False)"
| "json_equal c JNull rhs = (case rhs of JNull \<Rightarrow> True | _ \<Rightarrow> False)"
| "json_equal c (JString s) rhs = (case rhs of JString t \<Rightarrow> s = t | _ \<Rightarrow> False)"
| "json_equal c (JBoolean b) rhs = (case rhs of JBoolean a \<Rightarrow> b = a | _ \<Rightarrow> False)"
| "json_equal c (JInteger i) rhs =
     (case rhs of
        JInteger k \<Rightarrow> i = k
      | JFloat d \<Rightarrow> dbl_eq c (dbl_of_int c i) d
      | JUnsigned u \<Rightarrow> i = to_int64 u
      | _ \<Rightarrow> False)"
| "json_equal c (JUnsigned u) rhs =
     (case rhs of
        JUnsigned w \<Rightarrow> u = w
      | JFloat d \<Rightarrow> dbl_eq c (dbl_of_int c u) d
      | JInteger i \<Rightarrow> to_int64 u = i
      | _ \<Rightarrow> False)"
| "json_equal c (JFloat d) rhs =
     (case rhs of
        JFloat e \<Rightarrow> dbl_eq c d e
      | JInteger i \<Rightarrow> dbl_eq c d (dbl_of_int c i)
      | JUnsigned u \<Rightarrow> dbl_eq c d (dbl_of_int c u)
      | _ \<Rightarrow> False)"
| "arrays_equal c [] ws = (ws = [])"
| "arrays_equal c (v # vs) ws =
     (case ws of [] \<Rightarrow> False | w # ws' \<Rightarrow> json_equal c v w \<and> arrays_equal c vs ws')"
| "objects_equal c [] n = (n = [])"
| "objects_equal c ((k, v) # m) n =
     (case n of [] \<Rightarrow> False | (l, w) # n' \<Rightarrow> (k = l \<and> json_equal c v w) \<and> objects_equal c m n')"

text \<open>\<open>operator<\<close> of the types: all numbers have the same place.\<close>

fun type_order :: "value_t \<Rightarrow> nat" where
  "type_order V_null = 0"
| "type_order V_object = 3"
| "type_order V_array = 4"
| "type_order V_string = 5"
| "type_order V_boolean = 1"
| "type_order V_number_integer = 2"
| "type_order V_number_unsigned = 2"
| "type_order V_number_float = 2"

text \<open>
  Vectors, maps and their pairs compare lexicographically: an element decides if it is less than
  its counterpart or the other way round.
\<close>

function json_less :: "'d double_compare \<Rightarrow> 'd json \<Rightarrow> 'd json \<Rightarrow> bool"
  and arrays_less :: "'d double_compare \<Rightarrow> 'd json list \<Rightarrow> 'd json list \<Rightarrow> bool"
  and objects_less :: "'d double_compare \<Rightarrow> (string \<times> 'd json) list \<Rightarrow> (string \<times> 'd json) list \<Rightarrow> bool" where
  "json_less c lhs rhs =
     (case (lhs, rhs) of
        (JArray vs, JArray ws) \<Rightarrow> arrays_less c vs ws
      | (JObject m, JObject n) \<Rightarrow> objects_less c m n
      | (JString s, JString t) \<Rightarrow> s < t
      | (JBoolean a, JBoolean b) \<Rightarrow> \<not> a \<and> b
      | (JInteger i, JInteger k) \<Rightarrow> i < k
      | (JUnsigned u, JUnsigned w) \<Rightarrow> u < w
      | (JFloat d, JFloat e) \<Rightarrow> dbl_less c d e
      | (JInteger i, JFloat d) \<Rightarrow> dbl_less c (dbl_of_int c i) d
      | (JFloat d, JInteger i) \<Rightarrow> dbl_less c d (dbl_of_int c i)
      | (JUnsigned u, JFloat d) \<Rightarrow> dbl_less c (dbl_of_int c u) d
      | (JFloat d, JUnsigned u) \<Rightarrow> dbl_less c d (dbl_of_int c u)
      | (JUnsigned u, JInteger i) \<Rightarrow> to_int64 u < i
      | (JInteger i, JUnsigned u) \<Rightarrow> i < to_int64 u
      | _ \<Rightarrow> type_order (json_type lhs) < type_order (json_type rhs))"
| "arrays_less c vs ws =
     (case ws of
        [] \<Rightarrow> False
      | w # ws' \<Rightarrow>
          (case vs of
             [] \<Rightarrow> True
           | v # vs' \<Rightarrow> json_less c v w \<or> \<not> json_less c w v \<and> arrays_less c vs' ws'))"
| "objects_less c m n =
     (case n of
        [] \<Rightarrow> False
      | (l, w) # n' \<Rightarrow>
          (case m of
             [] \<Rightarrow> True
           | (k, v) # m' \<Rightarrow>
               (k < l \<or> \<not> l < k \<and> json_less c v w) \<or>
               \<not> (l < k \<or> \<not> k < l \<and> json_less c w v) \<and> objects_less c m' n'))"
  by pat_completeness auto
termination
  by (relation "measure (case_sum (\<lambda>(c, v, w). size v + size w)
      (case_sum (\<lambda>(c, vs, ws). size_list size vs + size_list size ws)
        (\<lambda>(c, m, n). size_list (size_prod (\<lambda>_. 0) size) m + size_list (size_prod (\<lambda>_. 0) size) n)))") auto

declare json_less.simps [simp del] arrays_less.simps [simp del] objects_less.simps [simp del]

lemma arrays_equal_iff: "arrays_equal c vs ws \<longleftrightarrow> list_all2 (json_equal c) vs ws"
  by (induction vs arbitrary: ws) (auto split: list.splits)

lemma objects_equal_iff: "objects_equal c m n \<longleftrightarrow> list_all2 (\<lambda>(k, v) (l, w). k = l \<and> json_equal c v w) m n"
  by (induction m arbitrary: n) (auto split: list.splits)

text \<open>
  An unsigned number of 64 bits equals the negative number with the same bits, as the cast wraps.
\<close>

lemma unsigned_equals_negative:
  assumes "2 ^ 63 \<le> u" "u < 2 ^ 64"
  shows "json_equal c (JUnsigned u) (JInteger (u - 2 ^ 64))"
proof -
  have "(u - 2 ^ 63 + 2 ^ 64) mod 2 ^ 64 = u - 2 ^ 63"
    unfolding mod_add_self2 using assms by (intro mod_pos_pos_trivial) simp_all
  moreover have "u - 2 ^ 63 + 2 ^ 64 = u + 2 ^ 63" by simp
  ultimately have "(u + 2 ^ 63) mod 2 ^ 64 = u - 2 ^ 63" by (simp only:)
  then have "to_int64 u = u - 2 ^ 63 - 2 ^ 63" by (simp only: to_int64_def)
  then have "to_int64 u = u - 2 ^ 64" by simp
  then show ?thesis by simp
qed

text \<open>A comparison for examples without doubles.\<close>

definition unit_compare :: "unit double_compare" where
  "unit_compare = \<lparr>dbl_eq = (=), dbl_less = (\<lambda>_ _. False), dbl_of_int = (\<lambda>_. ())\<rparr>"

end
