(* ===== verification/Json_Patch.thy ===== *)
theory Json_Patch
  imports Json_Pointer Json_Compare Json_Members
begin

text \<open>
  JSON Patch (RFC 6902) of client/include/json.hpp: \<open>basic_json::patch_inplace\<close>, \<open>patch\<close> and
  \<open>diff\<close>. \<open>patch_inplace\<close> changes the document operation by operation and keeps what was changed
  when it throws: its result is the document and the exception, if any. \<open>replace\<close> reads its value
  before it looks for the place, which the standard leaves open before C++17.
\<close>

section \<open>Changing a container\<close>

text \<open>\<open>parent[key] = val\<close>: the member is entered, then assigned.\<close>

definition key_assign :: "'d json \<Rightarrow> string \<Rightarrow> 'd json \<Rightarrow> 'd json outcome" where
  "key_assign parent key val =
     (case (if is_null parent then JObject [] else parent) of
        JObject m \<Rightarrow> Inr (JObject (obj_assign key val (obj_emplace key JNull m)))
      | _ \<Rightarrow> Inl (Type_Error 305))"

definition push_back :: "'d json \<Rightarrow> 'd json \<Rightarrow> 'd json outcome" where
  "push_back j val =
     (case (if is_null j then JArray [] else j) of
        JArray vs \<Rightarrow> Inr (JArray (vs @ [val]))
      | _ \<Rightarrow> Inl (Type_Error 308))"

text \<open>\<open>insert(begin() + idx, val)\<close>.\<close>

definition insert_index :: "'d json \<Rightarrow> nat \<Rightarrow> 'd json \<Rightarrow> 'd json outcome" where
  "insert_index j idx val =
     (case j of
        JArray vs \<Rightarrow>
          if idx \<le> length vs then Inr (JArray (take idx vs @ val # drop idx vs))
          else Inl (Failed Undefined_Behaviour)
      | _ \<Rightarrow> Inl (Type_Error 309))"

definition erase_index :: "'d json \<Rightarrow> nat \<Rightarrow> 'd json outcome" where
  "erase_index j idx =
     (case j of
        JArray vs \<Rightarrow>
          if idx \<ge> length vs then Inl (Out_Of_Range 401)
          else Inr (JArray (take idx vs @ drop (Suc idx) vs))
      | _ \<Rightarrow> Inl (Type_Error 307))"

text \<open>The value a reference stands for, and the document after this value has been changed.\<close>

definition change_at :: "'d json \<Rightarrow> ref \<Rightarrow> ('d json \<Rightarrow> 'd json outcome) \<Rightarrow> 'd json outcome" where
  "change_at result p f =
     (case json_at result p of
        None \<Rightarrow> Inl (Failed Undefined_Behaviour)
      | Some parent \<Rightarrow> rbind (f parent) (\<lambda>parent. Inr (json_put p parent result)))"

section \<open>Operations\<close>

definition add_child :: "string \<Rightarrow> 'd json \<Rightarrow> 'd json \<Rightarrow> 'd json outcome" where
  "add_child last_path val parent =
     (case parent of
        JNull \<Rightarrow> key_assign parent last_path val
      | JObject m \<Rightarrow> key_assign parent last_path val
      | JArray vs \<Rightarrow>
          if last_path = ''-'' then push_back parent val
          else
            rbind (pointer_array_index last_path) (\<lambda>idx.
            if idx > length vs then Inl (Out_Of_Range 401) else insert_index parent idx val)
      | _ \<Rightarrow> Inl (Failed Abort_Called))"

definition operation_add :: "'d json \<Rightarrow> string list \<Rightarrow> 'd json \<Rightarrow> 'd json outcome" where
  "operation_add result ptr val =
     (if ptr = [] then Inr val
      else
        rbind (pointer_top ptr) (\<lambda>top_pointer.
        rbind (if top_pointer \<noteq> ptr then rbind (get_checked result top_pointer) (\<lambda>_. Inr ()) else Inr ()) (\<lambda>_.
        rbind (pointer_back ptr) (\<lambda>last_path.
        rbind (pointer_pop_back ptr) (\<lambda>ptr.
        rbind (get_checked result ptr) (\<lambda>p.
        change_at result p (add_child last_path val)))))))"

definition remove_child :: "string \<Rightarrow> 'd json \<Rightarrow> 'd json outcome" where
  "remove_child last_path parent =
     (case parent of
        JObject m \<Rightarrow>
          (case map_of m last_path of
             Some _ \<Rightarrow> Inr (JObject (obj_erase last_path m))
           | None \<Rightarrow> Inl (Out_Of_Range 403))
      | JArray vs \<Rightarrow> rbind (pointer_array_index last_path) (\<lambda>idx. erase_index parent idx)
      | _ \<Rightarrow> Inr parent)"

definition operation_remove :: "'d json \<Rightarrow> string list \<Rightarrow> 'd json outcome" where
  "operation_remove result ptr =
     rbind (pointer_back ptr) (\<lambda>last_path.
     rbind (pointer_pop_back ptr) (\<lambda>ptr.
     rbind (get_checked result ptr) (\<lambda>p.
     change_at result p (remove_child last_path))))"

definition operation_replace :: "'d json \<Rightarrow> string list \<Rightarrow> 'd json \<Rightarrow> 'd json outcome" where
  "operation_replace result ptr val = rbind (get_checked result ptr) (\<lambda>p. Inr (json_put p val result))"

text \<open>
  \<open>test\<close> counts every \<open>out_of_range\<close> exception as a failed test. In \<open>result.at(ptr) == get_value(...)\<close>
  the order of the two operands is unspecified; here \<open>at\<close> comes first, which matters only when the
  path is wrong and the member \<open>value\<close> is missing as well.
\<close>

definition operation_test ::
    "'d double_compare \<Rightarrow> 'd double_ops \<Rightarrow> 'd json \<Rightarrow> 'd json \<Rightarrow> string list \<Rightarrow> 'd json outcome \<Rightarrow> unit outcome" where
  "operation_test c fo val result ptr expected =
     (case rbind (at_pointer result ptr) (\<lambda>v. rbind expected (\<lambda>w. Inr (json_equal c v w))) of
        Inr True \<Rightarrow> Inr ()
      | Inl (Out_Of_Range _) \<Rightarrow>
          (case json_dump fo val of Inl e \<Rightarrow> Inl (Failed e) | Inr _ \<Rightarrow> Inl (Other_Error 501))
      | Inr False \<Rightarrow>
          (case json_dump fo val of Inl e \<Rightarrow> Inl (Failed e) | Inr _ \<Rightarrow> Inl (Other_Error 501))
      | Inl e \<Rightarrow> Inl e)"

section \<open>Patches\<close>

text \<open>The lambda \<open>get_value\<close>; \<open>op\<close> only enters its messages.\<close>

definition get_value :: "'d json \<Rightarrow> string \<Rightarrow> bool \<Rightarrow> 'd json outcome" where
  "get_value val member string_type =
     (case val of
        JObject m \<Rightarrow>
          (case map_of m member of
             None \<Rightarrow> Inl (Parse_Error 105)
           | Some v \<Rightarrow> if string_type \<and> \<not> is_string v then Inl (Parse_Error 105) else Inr v)
      | _ \<Rightarrow> Inl (Failed Undefined_Behaviour))"

definition get_text :: "'d json \<Rightarrow> string \<Rightarrow> string outcome" where
  "get_text val member =
     rbind (get_value val member True) (\<lambda>v.
     case v of JString s \<Rightarrow> Inr s | _ \<Rightarrow> Inl (Type_Error 302))"

type_synonym 'd patched = "'d json \<times> json_error option"

definition commit :: "'d json \<Rightarrow> 'd json outcome \<Rightarrow> 'd patched" where
  "commit result r = (case r of Inl e \<Rightarrow> (result, Some e) | Inr changed \<Rightarrow> (changed, None))"

definition move_step :: "'d json \<Rightarrow> 'd json \<Rightarrow> string list \<Rightarrow> 'd patched" where
  "move_step result val ptr =
     (case rbind (get_text val ''from'') (\<lambda>from_path.
           rbind (pointer_split from_path) (\<lambda>from_ptr.
           rbind (at_pointer result from_ptr) (\<lambda>v.
           rbind (operation_remove result from_ptr) (\<lambda>removed. Inr (v, removed))))) of
        Inl e \<Rightarrow> (result, Some e)
      | Inr (v, removed) \<Rightarrow> commit removed (operation_add removed ptr v))"

definition dispatch :: "'d double_compare \<Rightarrow> 'd double_ops \<Rightarrow> 'd json \<Rightarrow> 'd json \<Rightarrow> string \<Rightarrow> string list \<Rightarrow> 'd patched" where
  "dispatch c fo result val op ptr =
     (if op = ''add'' then
        commit result (rbind (get_value val ''value'' False) (operation_add result ptr))
      else if op = ''remove'' then commit result (operation_remove result ptr)
      else if op = ''replace'' then
        commit result (rbind (get_value val ''value'' False) (operation_replace result ptr))
      else if op = ''move'' then move_step result val ptr
      else if op = ''copy'' then
        commit result
          (rbind (get_text val ''from'') (\<lambda>from_path.
           rbind (pointer_split from_path) (\<lambda>from_ptr.
           rbind (at_pointer result from_ptr) (operation_add result ptr))))
      else if op = ''test'' then
        commit result
          (rbind (operation_test c fo val result ptr (get_value val ''value'' False)) (\<lambda>_. Inr result))
      else (result, Some (Parse_Error 105)))"

definition patch_step :: "'d double_compare \<Rightarrow> 'd double_ops \<Rightarrow> 'd json \<Rightarrow> 'd json \<Rightarrow> 'd patched" where
  "patch_step c fo result val =
     (if \<not> is_object val then (result, Some (Parse_Error 104))
      else
        case rbind (get_text val ''op'') (\<lambda>op.
             rbind (get_text val ''path'') (\<lambda>path.
             rbind (pointer_split path) (\<lambda>ptr. Inr (op, ptr)))) of
          Inl e \<Rightarrow> (result, Some e)
        | Inr (op, ptr) \<Rightarrow> dispatch c fo result val op ptr)"

fun patch_loop :: "'d double_compare \<Rightarrow> 'd double_ops \<Rightarrow> 'd json \<Rightarrow> 'd json list \<Rightarrow> 'd patched" where
  "patch_loop c fo result [] = (result, None)"
| "patch_loop c fo result (val # vals) =
     (case patch_step c fo result val of
        (result, None) \<Rightarrow> patch_loop c fo result vals
      | (result, Some e) \<Rightarrow> (result, Some e))"

definition patch_inplace :: "'d double_compare \<Rightarrow> 'd double_ops \<Rightarrow> 'd json \<Rightarrow> 'd json \<Rightarrow> 'd patched" where
  "patch_inplace c fo result json_patch =
     (case json_patch of
        JArray vals \<Rightarrow> patch_loop c fo result vals
      | _ \<Rightarrow> (result, Some (Parse_Error 104)))"

definition patch :: "'d double_compare \<Rightarrow> 'd double_ops \<Rightarrow> 'd json \<Rightarrow> 'd json \<Rightarrow> 'd json outcome" where
  "patch c fo j json_patch =
     (case patch_inplace c fo j json_patch of
        (result, None) \<Rightarrow> Inr result
      | (_, Some e) \<Rightarrow> Inl e)"

section \<open>Diff\<close>

definition op_replace :: "string \<Rightarrow> 'd json \<Rightarrow> 'd json" where
  "op_replace path target = JObject [(''op'', JString ''replace''), (''path'', JString path), (''value'', target)]"

definition op_remove :: "string \<Rightarrow> 'd json" where
  "op_remove path = JObject [(''op'', JString ''remove''), (''path'', JString path)]"

definition op_add :: "string \<Rightarrow> 'd json \<Rightarrow> 'd json" where
  "op_add path target = JObject [(''op'', JString ''add''), (''path'', JString path), (''value'', target)]"

text \<open>
  The elements of the array \<open>diff\<close> returns. The removals of the elements behind the end of the
  target are inserted at one place, so the last element is removed first.
\<close>

fun diff_list :: "'d double_compare \<Rightarrow> 'd json \<Rightarrow> 'd json \<Rightarrow> string \<Rightarrow> 'd json list"
  and diff_common :: "'d double_compare \<Rightarrow> 'd json list \<Rightarrow> 'd json list \<Rightarrow> string \<Rightarrow> nat \<Rightarrow> 'd json list"
  and diff_members :: "'d double_compare \<Rightarrow> (string \<times> 'd json) list \<Rightarrow> (string \<times> 'd json) list \<Rightarrow> string \<Rightarrow> 'd json list"
where
  "diff_list c source target path =
     (if json_equal c source target then []
      else if json_type source \<noteq> json_type target then [op_replace path target]
      else
        case source of
          JArray vs \<Rightarrow>
            (case target of
               JArray ws \<Rightarrow>
                 diff_common c vs ws path 0 @
                 foldl (\<lambda>removals i. op_remove (path @ ''/'' @ to_string (int i)) # removals) []
                   [min (length vs) (length ws)..<length vs] @
                 List.map (\<lambda>v. op_add (path @ ''/-'') v) (drop (length vs) ws)
             | _ \<Rightarrow> [])
        | JObject m \<Rightarrow>
            (case target of
               JObject n \<Rightarrow>
                 diff_members c m n path @
                 List.map (\<lambda>(k, v). op_add (path @ ''/'' @ escape k) v) (filter (\<lambda>(k, v). map_of m k = None) n)
             | _ \<Rightarrow> [])
        | _ \<Rightarrow> [op_replace path target])"
| "diff_common c [] ws path i = []"
| "diff_common c (v # vs) ws path i =
     (case ws of
        [] \<Rightarrow> []
      | w # ws' \<Rightarrow> diff_list c v w (path @ ''/'' @ to_string (int i)) @ diff_common c vs ws' path (i + 1))"
| "diff_members c [] n path = []"
| "diff_members c ((k, v) # m) n path =
     (case map_of n k of
        Some w \<Rightarrow> diff_list c v w (path @ ''/'' @ escape k)
      | None \<Rightarrow> [op_remove (path @ ''/'' @ escape k)]) @ diff_members c m n path"

declare diff_list.simps [simp del]

definition diff :: "'d double_compare \<Rightarrow> 'd json \<Rightarrow> 'd json \<Rightarrow> 'd json" where
  "diff c source target = JArray (diff_list c source target [])"

section \<open>Where the patch of a document differs from the standard\<close>

text \<open>
  An addition below a value that is neither an object nor an array fails an assertion; below null it
  makes an object. A removal below such a value does nothing.
\<close>

lemma add_below_primitive:
  "operation_add (JBoolean b) [t] v = Inl (Failed Abort_Called)"
  "operation_add JNull [t] v = Inr (JObject [(t, v)])"
  "operation_remove (JBoolean b) [t] = Inr (JBoolean b)"
  by (simp_all add: operation_add_def operation_remove_def pointer_top_def pointer_back_def pointer_pop_back_def
      change_at_def add_child_def remove_child_def key_assign_def is_null_def)

text \<open>A removal of the whole document is an exception.\<close>

lemma remove_root: "operation_remove j [] = Inl (Out_Of_Range 405)"
  by (simp add: operation_remove_def pointer_back_def)

text \<open>The wrapping cast in \<open>operator==\<close> hides a difference.\<close>

lemma diff_misses_sign: "diff c (JUnsigned (2 ^ 64 - 1)) (JInteger (- 1)) = JArray []"
  using unsigned_equals_negative [of "2 ^ 64 - 1" c] by (simp add: diff_def diff_list.simps)

end
