(* ===== verification/Json_Diff.thy ===== *)
theory Json_Diff
  imports Json_Patch Json_Canonical
begin

text \<open>
  \<open>patch\<close> applied to the result of \<open>diff\<close> turns the source into a value that equals the target.
  The proof reads a patch as a list of edits on lists of reference tokens, and shows that an edit
  of an element or member acts on the whole container as it does on this element or member.
\<close>

section \<open>Edits\<close>

datatype 'd edit =
    Replace "string list" "'d json"
  | Remove "string list"
  | Add "string list" "'d json"

fun encode_at :: "string \<Rightarrow> 'd edit \<Rightarrow> 'd json" where
  "encode_at path (Replace ts v) = op_replace (path @ pointer_string ts) v"
| "encode_at path (Remove ts) = op_remove (path @ pointer_string ts)"
| "encode_at path (Add ts v) = op_add (path @ pointer_string ts) v"

fun apply_edit :: "'d edit \<Rightarrow> 'd json \<Rightarrow> 'd json outcome" where
  "apply_edit (Replace ts v) j = operation_replace j ts v"
| "apply_edit (Remove ts) j = operation_remove j ts"
| "apply_edit (Add ts v) j = operation_add j ts v"

fun apply_edits :: "'d edit list \<Rightarrow> 'd json \<Rightarrow> 'd json outcome" where
  "apply_edits [] j = Inr j"
| "apply_edits (e # es) j = rbind (apply_edit e j) (apply_edits es)"

lemma apply_edits_append: "apply_edits (es @ es') j = rbind (apply_edits es j) (apply_edits es')"
  by (induction es arbitrary: j) (auto simp: rbind_def split: sum.splits)

lemma patch_step_edit: "patch_step c fo j (encode_at [] e) = commit j (apply_edit e j)"
  by (cases e) (simp_all add: patch_step_def op_replace_def op_remove_def op_add_def is_object_def
      get_text_def get_value_def is_string_def pointer_split_string dispatch_def)

lemma patch_loop_edits:
  "apply_edits es j = Inr r \<Longrightarrow> patch_loop c fo j (List.map (encode_at []) es) = (r, None)"
  by (induction es arbitrary: j) (auto simp: patch_step_edit commit_def rbind_eq_Inr)

text \<open>Additions and removals name a place below the root; so do all edits below a token.\<close>

fun edit_inner :: "'d edit \<Rightarrow> bool" where
  "edit_inner (Replace ts v) = True"
| "edit_inner (Remove ts) = (ts \<noteq> [])"
| "edit_inner (Add ts v) = (ts \<noteq> [])"

fun below :: "string \<Rightarrow> 'd edit \<Rightarrow> 'd edit" where
  "below t (Replace ts v) = Replace (t # ts) v"
| "below t (Remove ts) = Remove (t # ts)"
| "below t (Add ts v) = Add (t # ts) v"

lemma encode_below: "encode_at path (below t e) = encode_at (path @ ''/'' @ escape t) e"
  by (cases e) (simp_all add: pointer_string_concat)

lemma map_encode_below:
  "List.map (encode_at (path @ ''/'' @ escape t)) es = List.map (encode_at path) (List.map (below t) es)"
  by (simp add: encode_below)

lemma edit_inner_below: "edit_inner (below t e)"
  by (cases e) simp_all

section \<open>Edits of a part\<close>

text \<open>
  \<open>plug v\<close> is a value with \<open>v\<close> in one place, which the token \<open>t\<close> names and where the step \<open>s\<close>
  of a reference leads.
\<close>

definition part_at :: "('d json \<Rightarrow> 'd json) \<Rightarrow> string \<Rightarrow> ref_step \<Rightarrow> bool" where
  "part_at plug t s \<longleftrightarrow>
     (\<forall>v ts. get_checked (plug v) (t # ts) = rbind (get_checked v ts) (\<lambda>p. Inr (s # p))) \<and>
     (\<forall>v p. json_at (plug v) (s # p) = json_at v p) \<and>
     (\<forall>v p w. json_put (s # p) w (plug v) = plug (json_put p w v))"

lemma frame_element:
  assumes "length done < 2 ^ 64 - 1"
  shows "part_at (\<lambda>v. JArray (done @ v # vs)) (nat_digits (length done)) (Elem (length done))"
  using pointer_index_digits [OF assms] by (auto simp: part_at_def at_index_def)

lemma obj_assign_middle:
  "k \<notin> fst ` set done \<Longrightarrow> obj_assign k w (done @ (k, v) # m) = done @ (k, w) # m"
  by (induction "done") auto

lemma map_of_middle: "k \<notin> fst ` set done \<Longrightarrow> map_of (done @ (k, v) # m) k = Some v"
  by (induction "done") auto

lemma frame_member:
  assumes "k \<notin> fst ` set done"
  shows "part_at (\<lambda>v. JObject (done @ (k, v) # m)) k (Member k)"
  using assms by (auto simp: part_at_def at_key_def map_of_middle obj_assign_middle simp del: map_of_append)

lemma get_checked_prefix: "get_checked v (ts @ us) = Inr p \<Longrightarrow> \<exists>q. get_checked v ts = Inr q"
proof (induction v ts arbitrary: p rule: get_checked.induct)
  case (2 v t ts)
  then show ?case by (cases v) (auto simp: rbind_eq_Inr)
qed simp

lemma change_below:
  assumes "part_at plug t s" "change_at v p f = Inr r"
  shows "change_at (plug v) (s # p) f = Inr (plug r)"
  using assms by (auto simp: change_at_def part_at_def rbind_eq_Inr split: option.splits)

lemma apply_below:
  assumes f: "part_at plug t s" and e: "edit_inner e" "apply_edit e v = Inr r"
  shows "apply_edit (below t e) (plug v) = Inr (plug r)"
proof -
  have checked: "get_checked (plug v) (t # ts) = Inr (s # p)" if "get_checked v ts = Inr p" for ts p
    using f that by (simp add: part_at_def)
  show ?thesis
  proof (cases e)
    case (Replace ts w)
    with e obtain p where "get_checked v ts = Inr p" "r = json_put p w v"
      by (auto simp: operation_replace_def rbind_eq_Inr)
    with Replace checked f show ?thesis by (simp add: operation_replace_def part_at_def)
  next
    case (Remove ts)
    with e obtain p where "get_checked v (butlast ts) = Inr p" "change_at v p (remove_child (last ts)) = Inr r"
      by (auto simp: operation_remove_def pointer_back_def pointer_pop_back_def rbind_eq_Inr)
    with Remove e(1) checked change_below [OF f] show ?thesis
      by (simp add: operation_remove_def pointer_back_def pointer_pop_back_def)
  next
    case (Add ts w)
    with e obtain p where p: "get_checked v (butlast ts) = Inr p" "change_at v p (add_child (last ts) w) = Inr r"
      by (auto simp: operation_add_def pointer_back_def pointer_pop_back_def pointer_top_def rbind_eq_Inr)
    have top: "get_checked (plug v) [t] = Inr [s]" using checked [of "[]" "[]"] by simp
    from p Add e(1) checked [OF p(1)] change_below [OF f p(2)] top show ?thesis
      by (simp add: operation_add_def pointer_back_def pointer_pop_back_def pointer_top_def)
  qed
qed

lemma apply_edits_below:
  assumes "part_at plug t s" "list_all edit_inner es" "apply_edits es v = Inr r"
  shows "apply_edits (List.map (below t) es) (plug v) = Inr (plug r)"
  using assms(2,3)
  by (induction es arbitrary: v) (auto simp: rbind_eq_Inr apply_below [OF assms(1)])


section \<open>Values a patch can be made for\<close>

text \<open>
  What the types of the code ensure: the members of an object are in the strict order of their
  keys, and the length of an array is a \<open>size_t\<close>.
\<close>

fun patchable :: "'d json \<Rightarrow> bool"
  and elements_patchable :: "'d json list \<Rightarrow> bool"
  and members_patchable :: "(string \<times> 'd json) list \<Rightarrow> bool" where
  "patchable (JArray vs) = (length vs < 2 ^ 64 \<and> elements_patchable vs)"
| "patchable (JObject m) = (sorted_wrt (<) (List.map fst m) \<and> members_patchable m)"
| "patchable JNull = True"
| "patchable (JString s) = True"
| "patchable (JBoolean b) = True"
| "patchable (JInteger i) = True"
| "patchable (JUnsigned i) = True"
| "patchable (JFloat d) = True"
| "elements_patchable [] = True"
| "elements_patchable (v # vs) = (patchable v \<and> elements_patchable vs)"
| "members_patchable [] = True"
| "members_patchable ((k, v) # m) = (patchable v \<and> members_patchable m)"

lemma members_patchable_lookup: "members_patchable m \<Longrightarrow> map_of m k = Some v \<Longrightarrow> patchable v"
  by (induction m) (auto split: if_splits)

section \<open>Arrays\<close>

lemma escape_minus: "escape ''-'' = ''-''"
  by (simp add: escape_map)

lemma apply_append:
  "apply_edits (List.map (Add [''-'']) ws) (JArray vs) = Inr (JArray (vs @ ws))"
  by (induction ws arbitrary: vs)
    (simp_all add: operation_add_def pointer_top_def pointer_back_def pointer_pop_back_def change_at_def
      add_child_def push_back_def is_null_def)

lemma apply_remove_last:
  assumes "length vs < 2 ^ 64 - 1"
  shows "apply_edit (Remove [nat_digits (length vs)]) (JArray (vs @ [v])) = Inr (JArray vs)"
  using pointer_index_digits(1) [OF assms]
  by (simp add: operation_remove_def pointer_back_def pointer_pop_back_def change_at_def
      remove_child_def erase_index_def)

lemma apply_remove_end:
  assumes "length (vs @ us) < 2 ^ 64"
  shows "apply_edits (rev (List.map (\<lambda>i. Remove [nat_digits i]) [length vs..<length (vs @ us)])) (JArray (vs @ us)) =
    Inr (JArray vs)"
  using assms
proof (induction us rule: rev_induct)
  case (snoc u us)
  then have "length (vs @ us) < 2 ^ 64 - 1" by simp
  from apply_remove_last [OF this] snoc show ?case by simp
qed simp

lemma foldl_prepend: "foldl (\<lambda>a x. g x # a) a xs = rev (List.map g xs) @ a"
  by (induction xs arbitrary: a) auto

section \<open>Objects\<close>

lemma apply_remove_member:
  assumes "k \<notin> fst ` set done"
  shows "apply_edit (Remove [k]) (JObject (done @ (k, v) # m)) = Inr (JObject (done @ m))"
proof -
  have "obj_erase k (done @ (k, v) # m) = done @ m"
    using assms by (induction "done") auto
  then show ?thesis
    using map_of_middle [OF assms]
    by (simp add: operation_remove_def pointer_back_def pointer_pop_back_def change_at_def
      remove_child_def del: map_of_append)
qed

lemma apply_add_member: "apply_edit (Add [k] v) (JObject m) = Inr (JObject (obj_set k v m))"
  by (simp add: operation_add_def pointer_top_def pointer_back_def pointer_pop_back_def change_at_def
      add_child_def key_assign_def is_null_def obj_set_def)

lemma apply_add_members:
  "apply_edits (List.map (\<lambda>(k, v). Add [k] v) n) (JObject m) =
     Inr (JObject (foldl (\<lambda>m (k, v). obj_set k v m) m n))"
  by (induction n arbitrary: m) (auto simp del: apply_edit.simps simp add: apply_add_member)


lemma look_set_all:
  "obj_ordered m \<Longrightarrow> distinct (List.map fst n) \<Longrightarrow>
     map_of (foldl (\<lambda>m (k, v). obj_set k v m) m n) l = (map_of m ++ map_of n) l"
proof (induction n arbitrary: m)
  case (Cons kv n)
  then have "map_of n (fst kv) = None" by (simp add: map_of_eq_None_iff)
  with Cons show ?case
    by (cases kv) (auto simp: obj_set_look obj_set_ordered map_add_def split: option.splits)
qed simp

lemma ordered_set_all: "obj_ordered m \<Longrightarrow> obj_ordered (foldl (\<lambda>m (k, v). obj_set k v m) m n)"
  by (induction n arbitrary: m) (auto simp: obj_set_ordered)

lemma map_of_filter_key: "map_of (filter (\<lambda>(k, v). P k) n) k = (if P k then map_of n k else None)"
  by (induction n) auto

lemma objects_equal_look:
  assumes "obj_ordered m" "obj_ordered n" "\<And>k. rel_option (json_equal c) (map_of m k) (map_of n k)"
  shows "objects_equal c m n"
proof -
  have "map_of m k = None \<longleftrightarrow> map_of n k = None" for k
    using assms(3) [of k] by (auto simp: option.rel_sel)
  then have "dom (map_of m) = dom (map_of n)" unfolding dom_def by simp
  then have keys: "List.map fst m = List.map fst n"
    using assms(1,2) by (intro sorted_distinct_set_unique)
      (auto simp: obj_ordered_def strict_sorted_iff dom_map_of_conv_image_fst)
  have "fst (m ! i) = fst (n ! i) \<and> json_equal c (snd (m ! i)) (snd (n ! i))" if "i < length m" for i
  proof -
    have i: "i < length n" "fst (m ! i) = fst (n ! i)"
      using keys that by (metis length_map, metis length_map nth_map)
    have "map_of m (fst (m ! i)) = Some (snd (m ! i))" "map_of n (fst (n ! i)) = Some (snd (n ! i))"
      using that i(1) obj_ordered_distinct [OF assms(1)] obj_ordered_distinct [OF assms(2)] by simp_all
    with assms(3) [of "fst (m ! i)"] i(2) show ?thesis by simp
  qed
  then show ?thesis
    using map_eq_imp_length_eq [OF keys]
    by (simp add: objects_equal_iff list_all2_conv_all_nth case_prod_unfold)
qed

text \<open>The members left by the first pass.\<close>

definition kept :: "'d double_compare \<Rightarrow> (string \<times> 'd json) list \<Rightarrow> (string \<times> 'd json) list \<Rightarrow> (string \<times> 'd json) list \<Rightarrow> bool" where
  "kept c n m rm \<longleftrightarrow>
     List.map fst rm = filter (\<lambda>k. map_of n k \<noteq> None) (List.map fst m) \<and>
     (\<forall>(k, r) \<in> set rm. \<exists>w. map_of n k = Some w \<and> json_equal c r w)"

lemma kept_completed:
  assumes "kept c n m rm" "obj_ordered m" "obj_ordered n" "objects_equal c n n"
  shows "objects_equal c (foldl (\<lambda>m (k, v). obj_set k v m) rm (filter (\<lambda>(k, v). map_of m k = None) n)) n"
    (is "objects_equal c ?r n")
proof (rule objects_equal_look)
  have keys: "List.map fst rm = filter (\<lambda>k. map_of n k \<noteq> None) (List.map fst m)"
    using assms(1) by (simp add: kept_def)
  then have rm: "obj_ordered rm" using assms(2) by (simp add: obj_ordered_def sorted_wrt_filter)
  then show "obj_ordered ?r" by (rule ordered_set_all)
  have d: "distinct (List.map fst (filter P n))" for P
    using obj_ordered_distinct [OF assms(3)] by (rule distinct_map_filter)
  have look: "map_of ?r k = (map_of rm ++ (\<lambda>k. if map_of m k = None then map_of n k else None)) k" for k
    using look_set_all [OF rm d] by (simp add: map_add_def map_of_filter_key)
  have rm_None: "map_of rm k = None \<longleftrightarrow> map_of n k = None \<or> map_of m k = None" for k
  proof -
    have "map_of rm k = None \<longleftrightarrow> k \<notin> set (List.map fst rm)" by (simp add: map_of_eq_None_iff)
    then show ?thesis unfolding keys by (auto simp: map_of_eq_None_iff)
  qed
  show "rel_option (json_equal c) (map_of ?r k) (map_of n k)" for k
  proof (cases "map_of rm k")
    case None
    have "json_equal c w w" if "map_of n k = Some w" for w
      using assms(4) map_of_SomeD [OF that] by (auto simp: objects_equal_iff list_all2_same)
    with None show ?thesis
      using rm_None [of k] look [of k] by (cases "map_of n k") (auto simp: map_add_def)
  next
    case (Some r)
    then obtain w where "map_of n k = Some w" "json_equal c r w"
      using assms(1) map_of_SomeD [OF Some] by (auto simp: kept_def)
    with Some show ?thesis using rm_None [of k] look [of k] by (auto simp: map_add_def)
  qed
qed (rule assms(3))

section \<open>Correctness\<close>

definition edits_to :: "'d double_compare \<Rightarrow> 'd json \<Rightarrow> 'd json \<Rightarrow> 'd edit list \<Rightarrow> 'd json \<Rightarrow> bool" where
  "edits_to c source target es r \<longleftrightarrow>
     list_all edit_inner es \<and> apply_edits es source = Inr r \<and> json_equal c r target"

lemma edits_to_same: "json_equal c source target \<Longrightarrow> edits_to c source target [] source"
  by (simp add: edits_to_def)

lemma edits_to_replace: "json_equal c target target \<Longrightarrow> edits_to c source target [Replace [] target] target"
  by (simp add: edits_to_def operation_replace_def)

lemma common_step:
  assumes "edits_to c v w es1 r" "length done < 2 ^ 64 - 1"
    and "\<And>done'. length done' = Suc (length done) \<Longrightarrow>
      apply_edits es2 (JArray (done' @ vs)) = Inr (JArray (done' @ rs @ us))"
  shows "apply_edits (List.map (below (nat_digits (length done))) es1 @ es2) (JArray (done @ v # vs)) =
    Inr (JArray (done @ (r # rs) @ us))"
  using apply_edits_below [OF frame_element [OF assms(2)], of es1 v r vs] assms(1) assms(3) [of "done @ [r]"]
  by (simp add: apply_edits_append edits_to_def)

lemma member_step:
  assumes "edits_to c v w es1 r" "k \<notin> fst ` set done"
    and "apply_edits es2 (JObject ((done @ [(k, r)]) @ m)) = Inr (JObject ((done @ [(k, r)]) @ rm))"
  shows "apply_edits (List.map (below k) es1 @ es2) (JObject (done @ (k, v) # m)) =
    Inr (JObject (done @ (k, r) # rm))"
  using apply_edits_below [OF frame_member [OF assms(2)], of es1 v r m] assms(1,3)
  by (simp add: apply_edits_append edits_to_def)


text \<open>The second pass over the arrays.\<close>

definition end_edits :: "'d json list \<Rightarrow> 'd json list \<Rightarrow> 'd edit list" where
  "end_edits vs ws =
     rev (List.map (\<lambda>i. Remove [nat_digits i]) [min (length vs) (length ws)..<length vs]) @
     List.map (Add [''-'']) (drop (length vs) ws)"

lemma encode_end:
  "foldl (\<lambda>removals i. op_remove (path @ CHR ''/'' # to_string (int i)) # removals) [] xs =
     List.map (encode_at path) (rev (List.map (\<lambda>i. Remove [nat_digits i]) xs))"
  "List.map (op_add (path @ ''/-'')) us = List.map (encode_at path) (List.map (Add [''-'']) us)"
proof -
  have "foldl (\<lambda>removals i. op_remove (path @ CHR ''/'' # to_string (int i)) # removals) [] xs =
      rev (List.map (\<lambda>i. op_remove (path @ CHR ''/'' # to_string (int i))) xs)"
    by (simp only: foldl_prepend append_Nil2)
  then show "foldl (\<lambda>removals i. op_remove (path @ CHR ''/'' # to_string (int i)) # removals) [] xs =
      List.map (encode_at path) (rev (List.map (\<lambda>i. Remove [nat_digits i]) xs))"
    by (simp add: rev_map to_string_index pointer_string_concat escape_index comp_def)
  show "List.map (op_add (path @ ''/-'')) us = List.map (encode_at path) (List.map (Add [''-'']) us)"
    by (simp add: pointer_string_concat escape_minus)
qed

lemma encode_new:
  "List.map (\<lambda>(k, v). op_add (path @ CHR ''/'' # escape k) v) m =
     List.map (encode_at path) (List.map (\<lambda>(k, v). Add [k] v) m)"
  by (simp add: pointer_string_concat case_prod_unfold)

lemma array_end:
  assumes "arrays_equal c rs (take (length vs) ws)" "arrays_equal c ws ws" "length vs < 2 ^ 64"
  shows "list_all edit_inner (end_edits vs ws)"
    and "apply_edits (end_edits vs ws) (JArray (rs @ drop (length ws) vs)) = Inr (JArray (rs @ drop (length vs) ws))"
    and "arrays_equal c (rs @ drop (length vs) ws) ws"
proof -
  have rs: "length rs = min (length vs) (length ws)"
    using assms(1) by (simp add: arrays_equal_iff list_all2_lengthD min.commute)
  then have len: "length (rs @ drop (length ws) vs) = length vs" by (cases "length vs \<le> length ws") simp_all
  show "list_all edit_inner (end_edits vs ws)" by (auto simp: end_edits_def list_all_iff)
  show "apply_edits (end_edits vs ws) (JArray (rs @ drop (length ws) vs)) = Inr (JArray (rs @ drop (length vs) ws))"
    using apply_remove_end [of rs "drop (length ws) vs"] assms(3) unfolding len rs
    by (simp add: end_edits_def apply_edits_append apply_append)
  have "list_all2 (json_equal c) (drop (length vs) ws) (drop (length vs) ws)"
    using assms(2) by (simp add: arrays_equal_iff)
  with assms(1) show "arrays_equal c (rs @ drop (length vs) ws) ws"
    unfolding arrays_equal_iff using list_all2_appendI [of "json_equal c" rs "take (length vs) ws"] by fastforce
qed

lemma diff_edits:
  fixes source target :: "'d json" and vs ws :: "'d json list" and m n :: "(string \<times> 'd json) list"
    and path :: string and i :: nat
  shows
  "patchable source \<Longrightarrow> patchable target \<Longrightarrow> json_equal c target target \<Longrightarrow>
     \<exists>es r. (\<forall>path. diff_list c source target path = List.map (encode_at path) es) \<and> edits_to c source target es r"
  "elements_patchable vs \<Longrightarrow> elements_patchable ws \<Longrightarrow> arrays_equal c ws ws \<Longrightarrow> i + length vs < 2 ^ 64 \<Longrightarrow>
     \<exists>es rs. (\<forall>path. diff_common c vs ws path i = List.map (encode_at path) es) \<and> list_all edit_inner es \<and>
       arrays_equal c rs (take (length vs) ws) \<and>
       (\<forall>done. length done = i \<longrightarrow>
          apply_edits es (JArray (done @ vs)) = Inr (JArray (done @ rs @ drop (length ws) vs)))"
  "members_patchable m \<Longrightarrow> obj_ordered m \<Longrightarrow> members_patchable n \<Longrightarrow> objects_equal c n n \<Longrightarrow>
     \<exists>es rm. (\<forall>path. diff_members c m n path = List.map (encode_at path) es) \<and> list_all edit_inner es \<and>
       kept c n m rm \<and>
       (\<forall>done. fst ` set done \<inter> fst ` set m = {} \<longrightarrow>
          apply_edits es (JObject (done @ m)) = Inr (JObject (done @ rm)))"
proof (induction c source target path and c vs ws path i and c m n path
    rule: diff_list_diff_common_diff_members.induct)
  case (1 c source target path)
  show ?case
  proof (cases "json_equal c source target")
    case True
    then show ?thesis using edits_to_same [OF True] by (auto simp: diff_list.simps intro!: exI [of _ "[]"])
  next
    case ne: False
    note replaced = edits_to_replace [OF "1.prems"(3), of source]
    show ?thesis
    proof (cases "json_type source = json_type target \<and> json_type source \<in> {V_array, V_object}")
      case False
      then have "diff_list c source target path = List.map (encode_at path) [Replace [] target]" for path
        using ne by (cases source) (auto simp: diff_list.simps pointer_string_def)
      with replaced show ?thesis by blast
    next
      case True
      then consider (array) vs ws where "source = JArray vs" "target = JArray ws"
        | (object) m n where "source = JObject m" "target = JObject n"
        by (cases source; cases target) auto
      moreover have same: "\<not> json_type source \<noteq> json_type target" using True by simp
      ultimately show ?thesis
      proof cases
        case array
        have prems: "elements_patchable vs" "elements_patchable ws" "arrays_equal c ws ws" "0 + length vs < 2 ^ 64"
          using "1.prems" array by simp_all
        obtain es rs where es:
          "\<And>path. diff_common c vs ws path 0 = List.map (encode_at path) es" "list_all edit_inner es"
          "arrays_equal c rs (take (length vs) ws)"
          "\<And>done. length done = 0 \<Longrightarrow>
            apply_edits es (JArray (done @ vs)) = Inr (JArray (done @ rs @ drop (length ws) vs))"
          using "1.IH"(2) [OF ne same array prems] by blast
        note rest_ok = array_end [OF es(3) prems(3,4) [unfolded add_0]]
        let ?es = "es @ end_edits vs ws"
        have "diff_list c source target path = List.map (encode_at path) ?es" for path
          using ne array es(1) [of path] by (simp add: diff_list.simps end_edits_def encode_end)
        moreover have "edits_to c source target ?es (JArray (rs @ drop (length vs) ws))"
          using array es(2) es(4) [of "[]"] rest_ok by (simp add: edits_to_def apply_edits_append)
        ultimately show ?thesis by blast
      next
        case object
        have prems: "members_patchable m" "obj_ordered m" "members_patchable n" "objects_equal c n n"
          using "1.prems" object by (simp_all add: obj_ordered_def)
        obtain es rm where es:
          "\<And>path. diff_members c m n path = List.map (encode_at path) es" "list_all edit_inner es"
          "kept c n m rm"
          "\<And>done. fst ` set done \<inter> fst ` set m = {} \<Longrightarrow>
            apply_edits es (JObject (done @ m)) = Inr (JObject (done @ rm))"
          using "1.IH"(1) [OF ne same object prems] by blast
        have n: "obj_ordered n" using "1.prems"(2) object by (simp add: obj_ordered_def)
        let ?new = "filter (\<lambda>(k, v). map_of m k = None) n"
        let ?es = "es @ List.map (\<lambda>(k, v). Add [k] v) ?new"
        have "diff_list c source target path = List.map (encode_at path) ?es" for path
          using ne object es(1) [of path] by (simp add: diff_list.simps encode_new)
        moreover have "edits_to c source target ?es (JObject (foldl (\<lambda>m (k, v). obj_set k v m) rm ?new))"
          using object es(2) es(4) [of "[]"] kept_completed [OF es(3) prems(2) n prems(4)]
          by (auto simp: edits_to_def apply_edits_append apply_add_members list_all_iff)
        ultimately show ?thesis by blast
      qed
    qed
  qed
next
  case (2 c ws path i)
  then show ?case by (auto intro!: exI [of _ "[]"])
next
  case (3 c v vs ws path i)
  show ?case
  proof (cases ws)
    case Nil
    then show ?thesis by (auto intro!: exI [of _ "[]"])
  next
    case (Cons w ws')
    have prems: "patchable v" "elements_patchable vs" "patchable w" "elements_patchable ws'"
      "json_equal c w w" "arrays_equal c ws' ws'" "i + 1 + length vs < 2 ^ 64"
      using "3.prems" Cons by simp_all
    obtain es1 r where 1: "\<And>path. diff_list c v w path = List.map (encode_at path) es1" "edits_to c v w es1 r"
      using "3.IH"(1) [OF Cons prems(1,3,5)] by blast
    obtain es2 rs where 2: "\<And>path. diff_common c vs ws' path (i + 1) = List.map (encode_at path) es2"
      "list_all edit_inner es2" "arrays_equal c rs (take (length vs) ws')"
      "\<And>done. length done = i + 1 \<Longrightarrow>
        apply_edits es2 (JArray (done @ vs)) = Inr (JArray (done @ rs @ drop (length ws') vs))"
      using "3.IH"(2) [OF Cons prems(2,4,6,7)] by blast
    let ?es = "List.map (below (nat_digits i)) es1 @ es2"
    have "diff_common c (v # vs) ws path i = List.map (encode_at path) ?es" for path
      using Cons 1(1) 2(1) map_encode_below [of path "nat_digits i" es1]
      by (simp add: to_string_index escape_index)
    moreover have "list_all edit_inner ?es" using 2(2) by (auto simp: list_all_iff edit_inner_below)
    moreover have "arrays_equal c (r # rs) (take (length (v # vs)) ws)"
      using Cons 1(2) 2(3) by (simp add: edits_to_def)
    moreover have "apply_edits ?es (JArray (done @ v # vs)) = Inr (JArray (done @ (r # rs) @ drop (length ws) (v # vs)))"
      if "length done = i" for "done"
      using common_step [OF 1(2), of "done" es2 vs rs "drop (length ws') vs"] 2(4) that "3.prems"(4) Cons by simp
    ultimately show ?thesis by blast
  qed
next
  case (4 c n path)
  then show ?case by (auto simp: kept_def intro!: exI [of _ "[]"])
next
  case (5 c k v m n path)
  have prems: "patchable v" "members_patchable m" "obj_ordered m"
    using "5.prems" by simp_all
  have k: "k \<notin> fst ` set m" using "5.prems"(2) by auto
  obtain es2 rm where 2: "\<And>path. diff_members c m n path = List.map (encode_at path) es2"
    "list_all edit_inner es2" "kept c n m rm"
    "\<And>done. fst ` set done \<inter> fst ` set m = {} \<Longrightarrow>
      apply_edits es2 (JObject (done @ m)) = Inr (JObject (done @ rm))"
    using "5.IH"(2) [OF prems(2,3) "5.prems"(3,4)] by blast
  show ?case
  proof (cases "map_of n k")
    case None
    let ?es = "Remove [k] # es2"
    have "diff_members c ((k, v) # m) n path = List.map (encode_at path) ?es" for path
      using None 2(1) [of path] by (simp add: pointer_string_concat)
    moreover have "kept c n ((k, v) # m) rm" using 2(3) None by (simp add: kept_def)
    moreover have "apply_edits ?es (JObject (done @ (k, v) # m)) = Inr (JObject (done @ rm))"
      if "fst ` set done \<inter> fst ` set ((k, v) # m) = {}" for "done"
      using apply_remove_member [of k "done" v m] 2(4) [of "done"] that by auto
    ultimately show ?thesis using 2(2) by (intro exI [of _ ?es] exI [of _ rm]) simp
  next
    case (Some w)
    have w: "patchable w" using "5.prems"(3) Some by (rule members_patchable_lookup)
    have "json_equal c w w" using "5.prems"(4) map_of_SomeD [OF Some] by (auto simp: objects_equal_iff list_all2_same)
    with "5.IH"(1) [OF Some prems(1) w] obtain es1 r where 1:
      "\<And>path. diff_list c v w path = List.map (encode_at path) es1" "edits_to c v w es1 r"
      by blast
    let ?es = "List.map (below k) es1 @ es2"
    have "diff_members c ((k, v) # m) n path = List.map (encode_at path) ?es" for path
      using Some 1(1) 2(1) map_encode_below [of path k es1] by simp
    moreover have "kept c n ((k, v) # m) ((k, r) # rm)"
      using 2(3) Some 1(2) by (simp add: kept_def edits_to_def)
    moreover have "apply_edits ?es (JObject (done @ (k, v) # m)) = Inr (JObject (done @ (k, r) # rm))"
      if d: "fst ` set done \<inter> fst ` set ((k, v) # m) = {}" for "done"
    proof (rule member_step [OF 1(2)])
      show "k \<notin> fst ` set done" using d by auto
      have "fst ` set (done @ [(k, r)]) \<inter> fst ` set m = {}" using d k by auto
      then show "apply_edits es2 (JObject ((done @ [(k, r)]) @ m)) = Inr (JObject ((done @ [(k, r)]) @ rm))"
        by (rule 2(4))
    qed
    moreover have "list_all edit_inner ?es" using 2(2) by (auto simp: list_all_iff edit_inner_below)
    ultimately show ?thesis by blast
  qed
qed


lemma patch_of_diff:
  assumes "patchable source" "patchable target" "json_equal c target target"
  obtains r where "patch c fo source (diff c source target) = Inr r" "json_equal c r target"
proof -
  obtain es r where es: "\<And>path. diff_list c source target path = List.map (encode_at path) es"
    "edits_to c source target es r"
    using diff_edits(1) [OF assms] by blast
  then have "patch_loop c fo source (diff_list c source target []) = (r, None)"
    by (simp add: edits_to_def patch_loop_edits)
  then have "patch c fo source (diff c source target) = Inr r"
    by (simp add: patch_def patch_inplace_def diff_def)
  with es(2) that show thesis by (simp add: edits_to_def)
qed

text \<open>
  C14: Applied to the source, the patch \<open>diff\<close> computes never throws and gives a value that equals
  the target. The source and the target are any values with ordered members and arrays of
  a length a \<open>size_t\<close> holds; the target equals itself, so contains no NaN.
\<close>

theorem patch_undoes_diff:
  assumes "patchable source" "patchable target" "json_equal c target target"
  shows "\<exists>r. patch c fo source (diff c source target) = Inr r \<and> json_equal c r target"
  using patch_of_diff [OF assms] by blast

lemma diff_list_cases:
  "diff_list c (JArray vs) (JArray ws) path =
     (if arrays_equal c vs ws then []
      else diff_common c vs ws path 0 @
        foldl (\<lambda>removals i. op_remove (path @ ''/'' @ to_string (int i)) # removals) []
          [min (length vs) (length ws)..<length vs] @
        List.map (op_add (path @ ''/-'')) (drop (length vs) ws))"
  "diff_list c (JObject m) (JObject n) path =
     (if objects_equal c m n then []
      else diff_members c m n path @
        List.map (\<lambda>(k, v). op_add (path @ ''/'' @ escape k) v) (filter (\<lambda>(k, v). map_of m k = None) n))"
  "json_type s \<noteq> json_type t \<Longrightarrow> \<not> json_equal c s t \<Longrightarrow> diff_list c s t path = [op_replace path t]"
  "diff_list c (JUnsigned i) (JUnsigned i) path = []"
  "diff_list c (JBoolean b) (JBoolean b) path = []"
  by (simp_all add: diff_list.simps)

lemma to_string_small: "to_string 1 = ''1''" "to_string 2 = ''2''" "to_string 3 = ''3''"
  by code_simp+

definition diff_source :: "unit json" where
  "diff_source = JObject [(''a/b'', JArray [JUnsigned 1, JNull, JString ''x'', JUnsigned 4]), (''old'', JNull), (''t'', JBoolean True)]"

definition diff_target :: "unit json" where
  "diff_target = JObject [(''a/b'', JArray [JUnsigned 1, JUnsigned 2]), (''new'', JArray []), (''t'', JBoolean True)]"

theorem patch_undoes_diff_witness:
  "(\<exists>r. patch unit_compare unit_doubles diff_source (diff unit_compare diff_source diff_target) = Inr r \<and>
      json_equal unit_compare r diff_target) \<and>
   diff unit_compare diff_source diff_target = JArray
     [op_replace ''/a~1b/1'' (JUnsigned 2), op_remove ''/a~1b/3'', op_remove ''/a~1b/2'',
      op_remove ''/old'', op_add ''/new'' (JArray [])]"
proof
  have "patchable diff_source" by (simp add: diff_source_def)
  moreover have "patchable diff_target" by (simp add: diff_target_def)
  moreover have "json_equal unit_compare diff_target diff_target" by (simp add: diff_target_def)
  ultimately show "\<exists>r. patch unit_compare unit_doubles diff_source (diff unit_compare diff_source diff_target) = Inr r \<and>
      json_equal unit_compare r diff_target"
    by (rule patch_undoes_diff)
  show "diff unit_compare diff_source diff_target = JArray
     [op_replace ''/a~1b/1'' (JUnsigned 2), op_remove ''/a~1b/3'', op_remove ''/a~1b/2'',
      op_remove ''/old'', op_add ''/new'' (JArray [])]"
    by (simp add: diff_def diff_source_def diff_target_def diff_list_cases escape_map to_string_small)
qed

end
