(* ===== verification/Json_Flatten.thy ===== *)
theory Json_Flatten
  imports Json_Pointer Json_Members
begin

text \<open>
  \<open>flatten\<close> and \<open>unflatten\<close> of client/include/json.hpp: a value as one object from pointers to
  primitive values, and back. What \<open>unflatten\<close> has built when it throws is lost with its local
  variable.
\<close>

section \<open>Flatten\<close>

text \<open>\<open>result\<close> is always an object, here the list of its members.\<close>

fun flatten_into :: "string \<Rightarrow> 'd json \<Rightarrow> (string \<times> 'd json) list \<Rightarrow> (string \<times> 'd json) list"
  and flatten_elements :: "string \<Rightarrow> nat \<Rightarrow> 'd json list \<Rightarrow> (string \<times> 'd json) list \<Rightarrow> (string \<times> 'd json) list"
  and flatten_members :: "string \<Rightarrow> (string \<times> 'd json) list \<Rightarrow> (string \<times> 'd json) list \<Rightarrow> (string \<times> 'd json) list"
where
  "flatten_into reference_string (JArray vs) result =
     (if vs = [] then obj_assign reference_string JNull (obj_emplace reference_string JNull result)
      else flatten_elements reference_string 0 vs result)"
| "flatten_into reference_string (JObject m) result =
     (if m = [] then obj_assign reference_string JNull (obj_emplace reference_string JNull result)
      else flatten_members reference_string m result)"
| "flatten_into reference_string value result =
     obj_assign reference_string value (obj_emplace reference_string JNull result)"
| "flatten_elements reference_string i [] result = result"
| "flatten_elements reference_string i (v # vs) result =
     flatten_elements reference_string (i + 1) vs
       (flatten_into (reference_string @ ''/'' @ to_string (int i)) v result)"
| "flatten_members reference_string [] result = result"
| "flatten_members reference_string ((k, v) # m) result =
     flatten_members reference_string m (flatten_into (reference_string @ ''/'' @ escape k) v result)"

definition flatten :: "'d json \<Rightarrow> 'd json" where
  "flatten j = JObject (flatten_into [] j [])"

section \<open>Unflatten\<close>

text \<open>
  \<open>operator[]\<close> with an index or a key: the element or member and the changed value. The index
  read from a token is below the largest \<open>size_t\<close>.
\<close>

definition index_create :: "'d json \<Rightarrow> nat \<Rightarrow> ('d json \<times> 'd json) outcome" where
  "index_create j idx =
     (case (if is_null j then JArray [] else j) of
        JArray vs \<Rightarrow>
          let vs = (if idx \<ge> length vs then vs @ replicate (idx + 1 - length vs) JNull else vs)
          in Inr (vs ! idx, JArray vs)
      | _ \<Rightarrow> Inl (Type_Error 305))"

definition key_create :: "'d json \<Rightarrow> string \<Rightarrow> ('d json \<times> 'd json) outcome" where
  "key_create j key = (case json_index j key of Inl _ \<Rightarrow> Inl (Type_Error 305) | Inr r \<Rightarrow> Inr r)"

text \<open>The changed value and the reference into it.\<close>

fun get_and_create :: "'d json \<Rightarrow> string list \<Rightarrow> ('d json \<times> ref) outcome" where
  "get_and_create j [] = Inr (j, [])"
| "get_and_create j (reference_token # reference_tokens) =
     (let create_member =
            rbind (key_create j reference_token) (\<lambda>(v, j).
            rbind (get_and_create v reference_tokens) (\<lambda>(v, p).
            Inr (json_put [Member reference_token] v j, Member reference_token # p)));
          create_element = (\<lambda>idx.
            rbind (index_create j idx) (\<lambda>(v, j).
            rbind (get_and_create v reference_tokens) (\<lambda>(v, p).
            Inr (json_put [Elem idx] v j, Elem idx # p))))
      in case j of
           JNull \<Rightarrow> if reference_token = ''0'' then create_element 0 else create_member
         | JObject m \<Rightarrow> create_member
         | JArray vs \<Rightarrow> rbind (pointer_array_index reference_token) create_element
         | _ \<Rightarrow> Inl (Type_Error 313))"

definition is_primitive :: "'d json \<Rightarrow> bool" where
  "is_primitive j \<longleftrightarrow> is_null j \<or> is_string j \<or> json_type j = V_boolean \<or>
     json_type j \<in> {V_number_integer, V_number_unsigned, V_number_float}"

text \<open>\<open>get_and_create(result) = value\<close>.\<close>

definition create_assign :: "'d json \<Rightarrow> string list \<Rightarrow> 'd json \<Rightarrow> 'd json outcome" where
  "create_assign result ptr val = rbind (get_and_create result ptr) (\<lambda>(result, p). Inr (json_put p val result))"

fun unflatten_loop :: "(string \<times> 'd json) list \<Rightarrow> 'd json \<Rightarrow> 'd json outcome" where
  "unflatten_loop [] result = Inr result"
| "unflatten_loop ((k, v) # m) result =
     (if \<not> is_primitive v then Inl (Type_Error 315)
      else
        rbind (pointer_split k) (\<lambda>ptr.
        rbind (create_assign result ptr v) (unflatten_loop m)))"

definition unflatten :: "'d json \<Rightarrow> 'd json outcome" where
  "unflatten j = (case j of JObject m \<Rightarrow> unflatten_loop m JNull | _ \<Rightarrow> Inl (Type_Error 314))"

section \<open>Creation\<close>

lemma obj_assign_twice: "obj_assign k v (obj_assign k u m) = obj_assign k v m"
  by (induction m) auto

definition grown :: "'d json list \<Rightarrow> nat \<Rightarrow> 'd json list" where
  "grown vs i = (if i \<ge> length vs then vs @ replicate (i + 1 - length vs) JNull else vs)"

lemma grown_simps:
  "length (grown vs i) = max (length vs) (i + 1)"
  "j < length vs \<Longrightarrow> grown vs i ! j = vs ! j"
  "length vs \<le> j \<Longrightarrow> j \<le> i \<Longrightarrow> grown vs i ! j = JNull"
  by (auto simp: grown_def nth_append)

text \<open>An assignment below a token assigns below the element or member it names.\<close>

lemma create_assign_Nil: "create_assign r [] w = Inr w"
  by (simp add: create_assign_def)

lemma create_assign_element:
  assumes "i < 2 ^ 64 - 1" "r = JArray rs \<or> r = JNull \<and> i = 0 \<and> rs = []"
  shows "create_assign r (nat_digits i # ts) w =
    rbind (create_assign (grown rs i ! i) ts w) (\<lambda>u. Inr (JArray ((grown rs i)[i := u])))"
proof -
  have i: "i < length (grown rs i)" by (simp add: grown_simps)
  have "index_create r i = Inr (grown rs i ! i, JArray (grown rs i))"
    using assms(2) by (auto simp: index_create_def is_null_def grown_def Let_def)
  moreover have "json_put (Elem i # p) w (json_put [Elem i] v (JArray (grown rs i))) =
      JArray ((grown rs i)[i := json_put p w v])" for p v
    using i by simp
  ultimately show ?thesis
    using assms(2) pointer_index_digits [OF assms(1)]
    by (auto simp: create_assign_def Let_def nat_digits_0 rbind_def split: sum.splits)
qed

lemma create_assign_member:
  assumes "obj_ordered m" "r = JObject m \<or> r = JNull \<and> m = [] \<and> t \<noteq> ''0''"
  shows "create_assign r (t # ts) w =
    rbind (create_assign (case map_of m t of None \<Rightarrow> JNull | Some v \<Rightarrow> v) ts w) (\<lambda>u. Inr (JObject (obj_set t u m)))"
proof -
  let ?m = "obj_emplace t JNull m" and ?v = "case map_of m t of None \<Rightarrow> JNull | Some v \<Rightarrow> v"
  have look: "map_of ?m t = Some ?v" using assms(1) by (simp add: obj_emplace_look split: option.split)
  have "key_create r t = Inr (?v, JObject ?m)"
    using assms(2) look by (auto simp: key_create_def json_index_def is_null_def obj_find_def)
  moreover have "json_put (Member t # p) w (json_put [Member t] v (JObject ?m)) = JObject (obj_set t (json_put p w v) m)" for p v
    using look by (simp add: obj_assign_look obj_assign_twice obj_set_def)
  ultimately show ?thesis
    using assms(2) by (auto simp: create_assign_def Let_def rbind_def split: sum.splits)
qed

section \<open>Values that can be restored\<close>

text \<open>
  Containers are not empty, the members of an object are in order and none has the key 0, and a
  token for every index can be read.
\<close>

fun flattenable :: "'d json \<Rightarrow> bool"
  and elements_flattenable :: "'d json list \<Rightarrow> bool"
  and members_flattenable :: "(string \<times> 'd json) list \<Rightarrow> bool" where
  "flattenable (JArray vs) = (vs \<noteq> [] \<and> length vs < 2 ^ 64 \<and> elements_flattenable vs)"
| "flattenable (JObject m) = (m \<noteq> [] \<and> obj_ordered m \<and> ''0'' \<notin> fst ` set m \<and> members_flattenable m)"
| "flattenable JNull = True"
| "flattenable (JString s) = True"
| "flattenable (JBoolean b) = True"
| "flattenable (JInteger i) = True"
| "flattenable (JUnsigned i) = True"
| "flattenable (JFloat d) = True"
| "elements_flattenable [] = True"
| "elements_flattenable (v # vs) = (flattenable v \<and> elements_flattenable vs)"
| "members_flattenable [] = True"
| "members_flattenable ((k, v) # m) = (flattenable v \<and> members_flattenable m)"

lemma elements_flattenable_iff: "elements_flattenable vs \<longleftrightarrow> (\<forall>v \<in> set vs. flattenable v)"
  by (induction vs) auto

lemma members_flattenable_iff: "members_flattenable m \<longleftrightarrow> (\<forall>(k, v) \<in> set m. flattenable v)"
  by (induction m) auto

text \<open>The primitive values inside a value, with the tokens that lead to them.\<close>

fun leaves :: "'d json \<Rightarrow> (string list \<times> 'd json) list"
  and element_leaves :: "nat \<Rightarrow> 'd json list \<Rightarrow> (string list \<times> 'd json) list"
  and member_leaves :: "(string \<times> 'd json) list \<Rightarrow> (string list \<times> 'd json) list" where
  "leaves (JArray vs) = element_leaves 0 vs"
| "leaves (JObject m) = member_leaves m"
| "leaves JNull = [([], JNull)]"
| "leaves (JString s) = [([], JString s)]"
| "leaves (JBoolean b) = [([], JBoolean b)]"
| "leaves (JInteger i) = [([], JInteger i)]"
| "leaves (JUnsigned i) = [([], JUnsigned i)]"
| "leaves (JFloat d) = [([], JFloat d)]"
| "element_leaves i [] = []"
| "element_leaves i (v # vs) = List.map (\<lambda>(ts, w). (nat_digits i # ts, w)) (leaves v) @ element_leaves (i + 1) vs"
| "member_leaves [] = []"
| "member_leaves ((k, v) # m) = List.map (\<lambda>(ts, w). (k # ts, w)) (leaves v) @ member_leaves m"

lemma element_leaves_iff:
  "(ts, w) \<in> set (element_leaves i vs) \<longleftrightarrow>
     (\<exists>j < length vs. \<exists>us. ts = nat_digits (i + j) # us \<and> (us, w) \<in> set (leaves (vs ! j)))"
proof (induction vs arbitrary: i)
  case (Cons v vs)
  show ?case (is "?l = ?r")
  proof
    assume ?l
    then consider us where "ts = nat_digits (i + 0) # us" "(us, w) \<in> set (leaves v)"
      | "(ts, w) \<in> set (element_leaves (i + 1) vs)" by auto
    then show ?r
    proof cases
      case 2
      then show ?thesis unfolding Cons.IH by fastforce
    qed force
  next
    assume ?r
    then obtain j us where j: "j < length (v # vs)" "ts = nat_digits (i + j) # us" "(us, w) \<in> set (leaves ((v # vs) ! j))"
      by blast
    show ?l
    proof (cases j)
      case 0
      with j show ?thesis by force
    next
      case (Suc k)
      with j have "(ts, w) \<in> set (element_leaves (i + 1) vs)" unfolding Cons.IH by auto
      then show ?thesis by simp
    qed
  qed
qed simp

lemma leaves_array_iff:
  "(ts, w) \<in> set (leaves (JArray vs)) \<longleftrightarrow>
     (\<exists>j < length vs. \<exists>us. ts = nat_digits j # us \<and> (us, w) \<in> set (leaves (vs ! j)))"
  by (simp add: element_leaves_iff)

lemma leaves_object_iff:
  "(ts, w) \<in> set (leaves (JObject m)) \<longleftrightarrow>
     (\<exists>k v us. (k, v) \<in> set m \<and> ts = k # us \<and> (us, w) \<in> set (leaves v))"
proof (induction m)
  case (Cons kv m)
  obtain k v where kv: "kv = (k, v)" by (cases kv)
  have "(ts, w) \<in> set (leaves (JObject (kv # m))) \<longleftrightarrow>
      (\<exists>us. ts = k # us \<and> (us, w) \<in> set (leaves v)) \<or> (ts, w) \<in> set (leaves (JObject m))"
    by (auto simp: kv)
  then show ?case unfolding Cons.IH by (auto simp: kv)
qed simp

lemma leaves_exist: "flattenable v \<Longrightarrow> \<exists>ts w. (ts, w) \<in> set (leaves v)"
proof (induction v)
  case (JArray vs)
  then have "0 < length vs" "vs ! 0 \<in> set vs" "flattenable (vs ! 0)" by (simp_all add: elements_flattenable_iff)
  with JArray.IH show ?case unfolding leaves_array_iff by blast
next
  case (JObject m)
  then obtain k v m' where m: "m = (k, v) # m'" by (cases m) auto
  with JObject.prems JObject.IH [of "(k, v)" v] obtain ts w where "(ts, w) \<in> set (leaves v)" by auto
  then have "(k # ts, w) \<in> set (leaves (JObject m))" unfolding leaves_object_iff m by auto
  then show ?case by blast
qed auto

lemma leaves_primitive: "(ts, w) \<in> set (leaves v) \<Longrightarrow> is_primitive w"
proof (induction v arbitrary: ts)
  case (JArray vs)
  then show ?case unfolding leaves_array_iff by (auto dest: nth_mem)
next
  case (JObject m)
  then show ?case unfolding leaves_object_iff by fastforce
qed (auto simp: is_primitive_def is_null_def is_string_def)

text \<open>What \<open>flatten\<close> collects.\<close>

lemma flatten_into_leaves:
  fixes v :: "'d json" and vs :: "'d json list" and m r :: "(string \<times> 'd json) list"
  shows
  "flattenable v \<Longrightarrow> flatten_into (pointer_string ts) v r =
     foldl (\<lambda>r (us, w). obj_set (pointer_string (ts @ us)) w r) r (leaves v)"
  "elements_flattenable vs \<Longrightarrow> flatten_elements (pointer_string ts) i vs r =
     foldl (\<lambda>r (us, w). obj_set (pointer_string (ts @ us)) w r) r (element_leaves i vs)"
  "members_flattenable m \<Longrightarrow> flatten_members (pointer_string ts) m r =
     foldl (\<lambda>r (us, w). obj_set (pointer_string (ts @ us)) w r) r (member_leaves m)"
proof (induction v and i vs and m arbitrary: ts r and ts r and ts r
    rule: leaves_element_leaves_member_leaves.induct)
  case (10 i v vs)
  have "pointer_string ts @ ''/'' @ to_string (int i) = pointer_string (ts @ [nat_digits i])"
    by (simp add: pointer_string_snoc to_string_index escape_index)
  with 10 show ?case by (simp add: foldl_map case_prod_unfold)
next
  case (12 k v m)
  have "pointer_string ts @ ''/'' @ escape k = pointer_string (ts @ [k])"
    by (simp add: pointer_string_snoc)
  with 12 show ?case by (simp add: foldl_map case_prod_unfold)
qed (auto simp: obj_set_def)

section \<open>Partly restored values\<close>

text \<open>
  A value that \<open>unflatten\<close> has built so far: null stands for what is still missing, arrays may be
  too short and objects may lack members.
\<close>

inductive part_of :: "'d json \<Rightarrow> 'd json \<Rightarrow> bool" where
  part_null: "part_of JNull v"
| part_same: "is_primitive v \<Longrightarrow> part_of v v"
| part_array: "length rs \<le> length vs \<Longrightarrow> (\<And>i. i < length rs \<Longrightarrow> part_of (rs ! i) (vs ! i)) \<Longrightarrow>
    part_of (JArray rs) (JArray vs)"
| part_object: "obj_ordered rm \<Longrightarrow>
    (\<And>k r. map_of rm k = Some r \<Longrightarrow> \<exists>v. map_of m k = Some v \<and> part_of r v) \<Longrightarrow>
    part_of (JObject rm) (JObject m)"

inductive_cases part_of_array: "part_of r (JArray vs)"
inductive_cases part_of_object: "part_of r (JObject m)"

lemma part_empty: "part_of (JArray []) (JArray vs)" "part_of (JObject []) (JObject m)"
  by (auto intro: part_of.intros)

lemma is_primitive_simps [simp]:
  "\<not> is_primitive (JArray vs)" "\<not> is_primitive (JObject m)" "is_primitive JNull"
  "is_primitive (JString s)" "is_primitive (JBoolean b)" "is_primitive (JInteger i)"
  "is_primitive (JUnsigned i)" "is_primitive (JFloat d)"
  by (simp_all add: is_primitive_def is_null_def is_string_def)

lemma at_pointer_simps:
  "at_pointer j [] = Inr j"
  "at_pointer (JObject m) (t # ts) =
     (case map_of m t of None \<Rightarrow> Inl (Out_Of_Range 403) | Some v \<Rightarrow> at_pointer v ts)"
  "i < 2 ^ 64 - 1 \<Longrightarrow> at_pointer (JArray vs) (nat_digits i # ts) =
     (if i < length vs then at_pointer (vs ! i) ts else Inl (Out_Of_Range 401))"
  "is_primitive j \<Longrightarrow> at_pointer j (t # ts) = Inl (Out_Of_Range 404)"
proof -
  show "at_pointer j [] = Inr j" by (simp add: at_pointer_def)
  show "at_pointer (JObject m) (t # ts) =
     (case map_of m t of None \<Rightarrow> Inl (Out_Of_Range 403) | Some v \<Rightarrow> at_pointer v ts)"
    by (auto simp: at_pointer_def at_key_def rbind_def split: option.splits sum.splits)
  show "at_pointer (JArray vs) (nat_digits i # ts) =
     (if i < length vs then at_pointer (vs ! i) ts else Inl (Out_Of_Range 401))" if "i < 2 ^ 64 - 1"
    using pointer_index_digits [OF that] by (auto simp: at_pointer_def at_index_def rbind_def split: option.splits sum.splits)
  show "at_pointer j (t # ts) = Inl (Out_Of_Range 404)" if "is_primitive j"
    using that by (cases j) (simp_all add: at_pointer_def)
qed

text \<open>The order in which the members of the flattened object come.\<close>

lemma pointer_string_less: "pointer_string us < pointer_string ts \<Longrightarrow> pointer_string (t # us) < pointer_string (t # ts)"
proof -
  have "xs < ys \<Longrightarrow> zs @ xs < zs @ ys" for xs ys zs :: string by (induction zs) auto
  then show "pointer_string us < pointer_string ts \<Longrightarrow> pointer_string (t # us) < pointer_string (t # ts)"
    by (simp add: pointer_string_concat)
qed

lemma pointer_string_first: "0 < i \<Longrightarrow> pointer_string (nat_digits 0 # us) < pointer_string (nat_digits i # ts)"
proof (cases i rule: nat_digits_split)
  case (2 d ds)
  have "(of_char d :: nat) \<noteq> of_char (CHR ''0'')" using 2(3) by (metis of_char_eq_iff)
  with 2(4) have "CHR ''0'' < d" by (simp add: is_digit_def less_char_def)
  moreover have "escape (nat_digits i) = d # ds" "escape (nat_digits 0) = ''0''"
    using escape_index [of i] escape_index [of 0] 2(2) nat_digits_0 by simp_all
  ultimately show ?thesis unfolding pointer_string_concat list.map concat.simps by simp
qed simp

section \<open>A leaf is put in its place\<close>

text \<open>
  The condition on the leaves that come before is what keeps an array from being taken for an object:
  its first element comes first.
\<close>

definition leaf_placed :: "'d json \<Rightarrow> 'd json \<Rightarrow> string list \<Rightarrow> 'd json \<Rightarrow> 'd json \<Rightarrow> bool" where
  "leaf_placed v r ts w r' \<longleftrightarrow>
     part_of r' v \<and> at_pointer r' ts = Inr w \<and>
     (\<forall>us u. (us, u) \<in> set (leaves v) \<longrightarrow> at_pointer r us = Inr u \<longrightarrow> at_pointer r' us = Inr u)"

definition earlier_placed :: "'d json \<Rightarrow> 'd json \<Rightarrow> string list \<Rightarrow> bool" where
  "earlier_placed v r ts \<longleftrightarrow>
     (\<forall>us u. (us, u) \<in> set (leaves v) \<longrightarrow> pointer_string us < pointer_string ts \<longrightarrow> at_pointer r us = Inr u)"

lemma leaves_primitive_value: "is_primitive v \<Longrightarrow> leaves v = [([], v)]"
  by (cases v) simp_all

lemma place_primitive:
  assumes "is_primitive v" "(ts, w) \<in> set (leaves v)"
  shows "\<exists>r'. create_assign r ts w = Inr r' \<and> leaf_placed v r ts w r'"
  using assms by (auto simp: leaves_primitive_value create_assign_Nil leaf_placed_def at_pointer_simps
      intro: part_same)

lemma place_element:
  assumes size: "length vs < 2 ^ 64" and i: "i < length vs"
    and r: "r = JArray rs \<or> r = JNull \<and> i = 0 \<and> rs = []" "part_of (JArray rs) (JArray vs)"
    and u: "create_assign (grown rs i ! i) ts w = Inr u" "leaf_placed (vs ! i) (grown rs i ! i) ts w u"
  shows "\<exists>r'. create_assign r (nat_digits i # ts) w = Inr r' \<and> leaf_placed (JArray vs) r (nat_digits i # ts) w r'"
proof (intro exI conjI)
  let ?r = "JArray ((grown rs i)[i := u])"
  have small: "j < 2 ^ 64 - 1" if "j < length vs" for j using size that by simp
  show "create_assign r (nat_digits i # ts) w = Inr ?r"
    using create_assign_element [OF small [OF i] r(1)] u(1) by simp
  have parts: "length rs \<le> length vs" "\<And>j. j < length rs \<Longrightarrow> part_of (rs ! j) (vs ! j)"
    using r(2) by (auto elim: part_of_array)
  have "part_of ((grown rs i)[i := u] ! j) (vs ! j)" if "j < max (length rs) (i + 1)" for j
    using u(2) parts(2) [of j] that
    by (cases "j = i"; cases "j < length rs") (auto simp: leaf_placed_def grown_simps intro: part_null)
  then have "part_of ?r (JArray vs)"
    using parts(1) i by (intro part_array) (simp_all add: grown_simps)
  moreover have "at_pointer ?r (nat_digits i # ts) = Inr w"
    using u(2) by (simp add: at_pointer_simps(3) [OF small [OF i]] leaf_placed_def grown_simps)
  moreover have "at_pointer ?r us = Inr x" if l: "(us, x) \<in> set (leaves (JArray vs))" and at: "at_pointer r us = Inr x" for us x
  proof -
    from l obtain j us' where j: "j < length vs" "us = nat_digits j # us'" "(us', x) \<in> set (leaves (vs ! j))"
      unfolding leaves_array_iff by blast
    have "r = JArray rs" using r(1) at j(2) by (auto simp: at_pointer_simps(4))
    with at j(2) have "j < length rs" "at_pointer (rs ! j) us' = Inr x"
      by (simp_all add: at_pointer_simps(3) [OF small [OF j(1)]] split: if_splits)
    then show ?thesis
      using u(2) j(3) unfolding j(2) at_pointer_simps(3) [OF small [OF j(1)]]
      by (cases "j = i") (auto simp: leaf_placed_def grown_simps)
  qed
  ultimately show "leaf_placed (JArray vs) r (nat_digits i # ts) w ?r" by (simp add: leaf_placed_def)
qed

lemma place_member:
  assumes m: "obj_ordered m" "map_of m k = Some v"
    and r: "r = JObject rm \<or> r = JNull \<and> rm = [] \<and> k \<noteq> ''0''" "part_of (JObject rm) (JObject m)"
    and u: "create_assign (case map_of rm k of None \<Rightarrow> JNull | Some v \<Rightarrow> v) ts w = Inr u"
      "leaf_placed v (case map_of rm k of None \<Rightarrow> JNull | Some v \<Rightarrow> v) ts w u"
  shows "\<exists>r'. create_assign r (k # ts) w = Inr r' \<and> leaf_placed (JObject m) r (k # ts) w r'"
proof (intro exI conjI)
  let ?r = "JObject (obj_set k u rm)"
  have rm: "obj_ordered rm" "\<And>l x. map_of rm l = Some x \<Longrightarrow> \<exists>v. map_of m l = Some v \<and> part_of x v"
    using r(2) by (auto elim: part_of_object)
  show "create_assign r (k # ts) w = Inr ?r"
    using create_assign_member [OF rm(1) r(1)] u(1) by simp
  have "part_of ?r (JObject m)"
    using rm u(2) m(2) by (intro part_object) (auto simp: obj_set_ordered obj_set_look leaf_placed_def split: if_splits)
  moreover have "at_pointer ?r (k # ts) = Inr w"
    using u(2) rm(1) by (simp add: at_pointer_simps obj_set_look leaf_placed_def)
  moreover have "at_pointer ?r us = Inr x" if l: "(us, x) \<in> set (leaves (JObject m))" and at: "at_pointer r us = Inr x" for us x
  proof -
    from l obtain l v' us' where l: "map_of m l = Some v'" "us = l # us'" "(us', x) \<in> set (leaves v')"
      unfolding leaves_object_iff using obj_ordered_distinct [OF m(1)] by (metis map_of_is_SomeI)
    have "r = JObject rm" using r(1) at l(2) by (auto simp: at_pointer_simps(4))
    with at l(2) obtain y where "map_of rm l = Some y" "at_pointer y us' = Inr x"
      by (auto simp: at_pointer_simps split: option.splits)
    then show ?thesis
      using u(2) l m(2) rm(1) by (cases "l = k") (auto simp: at_pointer_simps obj_set_look leaf_placed_def)
  qed
  ultimately show "leaf_placed (JObject m) r (k # ts) w ?r" by (simp add: leaf_placed_def)
qed

lemma array_so_far:
  assumes "flattenable (JArray vs)" "part_of r (JArray vs)" "(ts, w) \<in> set (leaves (vs ! i))" "i < length vs"
    and "earlier_placed (JArray vs) r (nat_digits i # ts)"
  obtains rs where "r = JArray rs \<or> r = JNull \<and> i = 0 \<and> rs = []" "part_of (JArray rs) (JArray vs)"
proof -
  consider (null) "r = JNull" | (array) rs where "r = JArray rs"
    using assms(2) by (auto elim: part_of_array)
  then show thesis
  proof cases
    case null
    have "i = 0"
    proof (rule ccontr)
      assume "i \<noteq> 0"
      obtain us u where "(us, u) \<in> set (leaves (vs ! 0))"
        using assms(1) leaves_exist [of "vs ! 0"] by (auto simp: elements_flattenable_iff)
      then have "(nat_digits 0 # us, u) \<in> set (leaves (JArray vs))"
        unfolding leaves_array_iff using assms(4) by (intro exI [of _ 0]) auto
      then have "at_pointer r (nat_digits 0 # us) = Inr u"
        using assms(5) pointer_string_first [of i us ts] \<open>i \<noteq> 0\<close> by (simp add: earlier_placed_def del: leaves.simps)
      then show False unfolding null at_pointer_simps(4) [OF is_primitive_simps(3)] by simp
    qed
    with null that [of "[]"] show thesis using part_empty(1) [of vs] by blast
  next
    case array
    then show thesis using that [of rs] assms(2) by simp
  qed
qed

lemma earlier_in_element:
  assumes e: "earlier_placed (JArray vs) r (nat_digits i # ts)" and i: "i < length vs" "length vs < 2 ^ 64"
    and r: "r = JArray rs \<or> r = JNull \<and> i = 0 \<and> rs = []"
  shows "earlier_placed (vs ! i) (grown rs i ! i) ts"
  unfolding earlier_placed_def
proof (intro allI impI)
  fix us u
  assume u: "(us, u) \<in> set (leaves (vs ! i))" "pointer_string us < pointer_string ts"
  have "(nat_digits i # us, u) \<in> set (leaves (JArray vs))" unfolding leaves_array_iff using u(1) i(1) by blast
  then have at: "at_pointer r (nat_digits i # us) = Inr u"
    using e pointer_string_less [OF u(2)] unfolding earlier_placed_def by blast
  then have "r = JArray rs" using r by (auto simp: at_pointer_simps(4))
  with at show "at_pointer (grown rs i ! i) us = Inr u"
    using i at_pointer_simps(3) [of i rs us] by (simp add: grown_simps split: if_splits)
qed

lemma earlier_in_member:
  assumes e: "earlier_placed (JObject m) r (k # ts)" and k: "(k, v) \<in> set m"
    and r: "r = JObject rm \<or> r = JNull \<and> rm = []"
  shows "earlier_placed v (case map_of rm k of None \<Rightarrow> JNull | Some v \<Rightarrow> v) ts"
  unfolding earlier_placed_def
proof (intro allI impI)
  fix us u
  assume u: "(us, u) \<in> set (leaves v)" "pointer_string us < pointer_string ts"
  have "(k # us, u) \<in> set (leaves (JObject m))" unfolding leaves_object_iff using u(1) k by blast
  then have at: "at_pointer r (k # us) = Inr u"
    using e pointer_string_less [OF u(2)] unfolding earlier_placed_def by blast
  then have "r = JObject rm" using r by (auto simp: at_pointer_simps(4))
  with at show "at_pointer (case map_of rm k of None \<Rightarrow> JNull | Some v \<Rightarrow> v) us = Inr u"
    by (auto simp: at_pointer_simps split: option.splits)
qed

lemma place_leaf:
  "flattenable v \<Longrightarrow> (ts, w) \<in> set (leaves v) \<Longrightarrow> part_of r v \<Longrightarrow> earlier_placed v r ts \<Longrightarrow>
     \<exists>r'. create_assign r ts w = Inr r' \<and> leaf_placed v r ts w r'"
proof (induction v arbitrary: r ts)
  case (JArray vs)
  from JArray.prems(2) obtain i us where i: "i < length vs" "ts = nat_digits i # us" "(us, w) \<in> set (leaves (vs ! i))"
    unfolding leaves_array_iff by blast
  have size: "length vs < 2 ^ 64" and wf: "flattenable (vs ! i)"
    using JArray.prems(1) i(1) by (simp_all add: elements_flattenable_iff)
  obtain rs where rs: "r = JArray rs \<or> r = JNull \<and> i = 0 \<and> rs = []" "part_of (JArray rs) (JArray vs)"
    by (rule array_so_far [OF JArray.prems(1,3) i(3,1) JArray.prems(4) [unfolded i(2)]])
  have "part_of (grown rs i ! i) (vs ! i)"
    using rs(2) by (cases "i < length rs") (auto simp: grown_simps intro: part_null elim: part_of_array)
  with JArray.IH [OF nth_mem [OF i(1)] wf i(3)] earlier_in_element [OF JArray.prems(4) [unfolded i(2)] i(1) size rs(1)]
  obtain u where "create_assign (grown rs i ! i) us w = Inr u" "leaf_placed (vs ! i) (grown rs i ! i) us w u"
    by blast
  from place_element [OF size i(1) rs this] show ?case unfolding i(2) .
next
  case (JObject m)
  from JObject.prems(2) obtain k v us where k: "(k, v) \<in> set m" "ts = k # us" "(us, w) \<in> set (leaves v)"
    unfolding leaves_object_iff by blast
  have o: "obj_ordered m" and wf: "flattenable v"
    using JObject.prems(1) k(1) by (auto simp: members_flattenable_iff)
  have "k \<in> fst ` set m" using k(1) by force
  then have zero: "k \<noteq> ''0''" using JObject.prems(1) by (metis flattenable.simps(2))
  have look: "map_of m k = Some v" using obj_ordered_distinct [OF o] k(1) by simp
  obtain rm where rm: "r = JObject rm \<or> r = JNull \<and> rm = [] \<and> k \<noteq> ''0''" "part_of (JObject rm) (JObject m)"
    using JObject.prems(3) zero part_empty(2) [of m] by (cases rule: part_of_object) auto
  have "part_of (case map_of rm k of None \<Rightarrow> JNull | Some v \<Rightarrow> v) v"
    using rm(2) look by (cases rule: part_of_object) (force intro: part_null split: option.splits)+
  with JObject.IH [OF k(1) _ wf k(3)] earlier_in_member [OF JObject.prems(4) [unfolded k(2)] k(1), of rm] rm(1)
  obtain u where "create_assign (case map_of rm k of None \<Rightarrow> JNull | Some v \<Rightarrow> v) us w = Inr u"
    "leaf_placed v (case map_of rm k of None \<Rightarrow> JNull | Some v \<Rightarrow> v) us w u"
    by fastforce
  from place_member [OF o look rm this] show ?case unfolding k(2) .
qed (simp_all add: place_primitive del: leaves.simps)

section \<open>All leaves\<close>

lemma restored:
  "flattenable v \<Longrightarrow> part_of r v \<Longrightarrow> (\<And>us u. (us, u) \<in> set (leaves v) \<Longrightarrow> at_pointer r us = Inr u) \<Longrightarrow> r = v"
proof (induction v arbitrary: r)
  case (JArray vs)
  have small: "j < 2 ^ 64 - 1" if "j < length vs" for j using JArray.prems(1) that by simp
  have at: "at_pointer r (nat_digits j # us) = Inr u" if "j < length vs" "(us, u) \<in> set (leaves (vs ! j))" for j us u
    using JArray.prems(3) that unfolding leaves_array_iff by blast
  have wf: "flattenable (vs ! j)" if "j < length vs" for j
    using JArray.prems(1) that by (simp add: elements_flattenable_iff)
  let ?n = "length vs - 1"
  have n: "?n < length vs" using JArray.prems(1) by simp
  from leaves_exist [OF wf [OF n]] at [OF n] obtain us u where last: "at_pointer r (nat_digits ?n # us) = Inr u" by blast
  from JArray.prems(2) last obtain rs where rs: "r = JArray rs" "length rs \<le> length vs"
    "\<And>i. i < length rs \<Longrightarrow> part_of (rs ! i) (vs ! i)"
    by (cases rule: part_of_array) (auto simp: at_pointer_simps(4))
  have len: "length rs = length vs"
    using last rs(2) n unfolding rs(1) at_pointer_simps(3) [OF small [OF n]] by (simp split: if_splits)
  have "rs ! j = vs ! j" if j: "j < length vs" for j
    using at [OF j] rs(1,3) len j
    by (intro JArray.IH [OF nth_mem [OF j] wf [OF j]]) (simp_all add: at_pointer_simps(3) [OF small [OF j]])
  with rs(1) len show ?case by (simp add: nth_equalityI)
next
  case (JObject m)
  have o: "obj_ordered m" using JObject.prems(1) by simp
  have at: "at_pointer r (k # us) = Inr u" if "(k, v) \<in> set m" "(us, u) \<in> set (leaves v)" for k v us u
    using JObject.prems(3) that unfolding leaves_object_iff by blast
  have wf: "flattenable v" if "(k, v) \<in> set m" for k v
    using JObject.prems(1) that by (auto simp: members_flattenable_iff)
  obtain k0 v0 where "(k0, v0) \<in> set m" using JObject.prems(1) by (cases m) auto
  with leaves_exist [OF wf] at obtain us u where "at_pointer r (k0 # us) = Inr u" by blast
  with JObject.prems(2) obtain rm where rm: "r = JObject rm" "obj_ordered rm"
    "\<And>k x. map_of rm k = Some x \<Longrightarrow> \<exists>v. map_of m k = Some v \<and> part_of x v"
    by (cases rule: part_of_object) (auto simp: at_pointer_simps(4))
  have "map_of rm k = map_of m k" for k
  proof (cases "map_of m k")
    case None
    with rm(3) [of k] show ?thesis by (cases "map_of rm k") auto
  next
    case (Some v)
    note kv = map_of_SomeD [OF Some]
    from leaves_exist [OF wf [OF kv]] at [OF kv] rm(1) obtain x where x: "map_of rm k = Some x"
      by (fastforce simp: at_pointer_simps split: option.splits)
    have "x = v"
      using rm(3) [OF x] Some x at [OF kv] rm(1)
      by (intro JObject.IH [OF kv _ wf [OF kv]]) (auto simp: at_pointer_simps)
    with x Some show ?thesis by simp
  qed
  then have "rm = m" using rm(2) o by (intro obj_inject ext)
  with rm(1) show ?case by simp
qed (auto simp: at_pointer_simps)

lemma look_set_list:
  "obj_ordered r \<Longrightarrow> map_of (foldl (\<lambda>r (k, w). obj_set k w r) r n) = map_of r ++ map_of (rev n) \<and>
     obj_ordered (foldl (\<lambda>r (k, w). obj_set k w r) r n)"
  by (induction n arbitrary: r) (auto simp: obj_set_look obj_set_ordered)

text \<open>The flattened object has one member for each leaf.\<close>

lemma flatten_members_leaves:
  assumes "flattenable v"
  obtains m where "flatten v = JObject m" "obj_ordered m"
    "\<And>k w. (k, w) \<in> set m \<Longrightarrow> \<exists>ts. k = pointer_string ts \<and> (ts, w) \<in> set (leaves v)"
    "\<And>ts w. (ts, w) \<in> set (leaves v) \<Longrightarrow> pointer_string ts \<in> fst ` set m"
proof -
  let ?n = "List.map (\<lambda>(ts, w). (pointer_string ts, w)) (leaves v)"
  let ?m = "foldl (\<lambda>r (k, w). obj_set k w r) [] ?n"
  have "pointer_string [] = []" by (simp add: pointer_string_def)
  then have "flatten_into [] v [] = ?m"
    using flatten_into_leaves(1) [OF assms, of "[]" "[]"] by (simp add: foldl_map case_prod_unfold)
  then have f: "flatten v = JObject ?m" by (simp add: flatten_def)
  have m: "obj_ordered ?m" "map_of ?m = map_of (rev ?n)"
    using look_set_list [of "[]" ?n] by simp_all
  have d: "distinct (List.map fst ?m)" using m(1) by (rule obj_ordered_distinct)
  have "\<exists>ts. k = pointer_string ts \<and> (ts, w) \<in> set (leaves v)" if "(k, w) \<in> set ?m" for k w
  proof -
    have "map_of (rev ?n) k = Some w" using d that unfolding m(2) [symmetric] by simp
    from map_of_SomeD [OF this] show ?thesis by auto
  qed
  moreover have "pointer_string ts \<in> fst ` set ?m" if "(ts, w) \<in> set (leaves v)" for ts w
  proof -
    have "pointer_string ts \<in> fst ` set (rev ?n)" using that by force
    then have "pointer_string ts \<in> dom (map_of (rev ?n))" by (simp only: dom_map_of_conv_image_fst)
    then show ?thesis unfolding m(2) [symmetric] dom_map_of_conv_image_fst .
  qed
  ultimately show thesis using that f m(1) by blast
qed

lemma leaf_at: "flattenable v \<Longrightarrow> (ts, w) \<in> set (leaves v) \<Longrightarrow> at_pointer v ts = Inr w"
proof (induction v arbitrary: ts)
  case (JArray vs)
  from JArray.prems(2) obtain i us where i: "i < length vs" "ts = nat_digits i # us" "(us, w) \<in> set (leaves (vs ! i))"
    unfolding leaves_array_iff by blast
  then have "i < 2 ^ 64 - 1" "flattenable (vs ! i)" using JArray.prems(1) by (simp_all add: elements_flattenable_iff)
  with i JArray.IH [OF nth_mem [OF i(1)]] show ?case by (simp add: at_pointer_simps(3))
next
  case (JObject m)
  from JObject.prems(2) obtain k v us where k: "(k, v) \<in> set m" "ts = k # us" "(us, w) \<in> set (leaves v)"
    unfolding leaves_object_iff by blast
  have "map_of m k = Some v" "flattenable v"
    using obj_ordered_distinct [of m] JObject.prems(1) k(1) by (auto simp: members_flattenable_iff)
  with JObject.IH [OF k(1) _ _ k(3)] k(2) show ?case by (simp add: at_pointer_simps)
qed (simp_all add: at_pointer_simps)

lemma unflatten_leaves:
  assumes v: "flattenable v"
    and todo: "\<And>k w. (k, w) \<in> set m \<Longrightarrow> \<exists>ts. k = pointer_string ts \<and> (ts, w) \<in> set (leaves v)"
    and "obj_ordered m" "part_of r v"
    and rest_placed: "\<And>ts w. (ts, w) \<in> set (leaves v) \<Longrightarrow> pointer_string ts \<notin> fst ` set m \<Longrightarrow> at_pointer r ts = Inr w"
  shows "unflatten_loop m r = Inr v"
  using todo assms(3,4) rest_placed
proof (induction m arbitrary: r)
  case Nil
  have "r = v" by (rule restored [OF v Nil(3)]) (use Nil(4) in simp)
  then show ?case by simp
next
  case (Cons kw m)
  obtain k w where kw: "kw = (k, w)" by (cases kw)
  with Cons.prems(1) obtain ts where ts: "k = pointer_string ts" "(ts, w) \<in> set (leaves v)" by auto
  have less: "k < l" if "l \<in> fst ` set m" for l using Cons.prems(2) kw that by auto
  have "earlier_placed v r ts"
    unfolding earlier_placed_def
  proof (intro allI impI)
    fix us u
    assume u: "(us, u) \<in> set (leaves v)" "pointer_string us < pointer_string ts"
    then have "pointer_string us \<notin> fst ` set (kw # m)" using less kw ts(1) by fastforce
    with u(1) show "at_pointer r us = Inr u" by (rule Cons.prems(4))
  qed
  with place_leaf [OF v ts(2) Cons.prems(3)] obtain r' where
    r': "create_assign r ts w = Inr r'" "leaf_placed v r ts w r'" by blast
  have "unflatten_loop m r' = Inr v"
  proof (rule Cons.IH)
    show "\<exists>ts. k = pointer_string ts \<and> (ts, w) \<in> set (leaves v)" if "(k, w) \<in> set m" for k w
      using Cons.prems(1) that by simp
    show "obj_ordered m" using Cons.prems(2) kw by simp
    show "part_of r' v" using r'(2) by (simp add: leaf_placed_def)
    show "at_pointer r' us = Inr u" if u: "(us, u) \<in> set (leaves v)" "pointer_string us \<notin> fst ` set m" for us u
    proof (cases "pointer_string us = k")
      case True
      then have "us = ts" using ts(1) by (metis pointer_split_string sum.inject(2))
      with leaf_at [OF v u(1)] leaf_at [OF v ts(2)] have "u = w" by simp
      with \<open>us = ts\<close> r'(2) show ?thesis by (simp add: leaf_placed_def)
    next
      case False
      then have "at_pointer r us = Inr u" using u kw by (intro Cons.prems(4)) auto
      with u(1) r'(2) show ?thesis by (simp add: leaf_placed_def)
    qed
  qed
  with r'(1) leaves_primitive [OF ts(2)] show ?case
    by (simp add: kw ts(1) pointer_split_string)
qed

section \<open>Properties\<close>

text \<open>
  C37: Flattening is undone by unflattening: every value without empty containers and without a member whose
  key is 0 comes back, although the elements of a long array are assigned out of their order.
\<close>

theorem unflatten_flatten:
  assumes "flattenable v"
  shows "unflatten (flatten v) = Inr v"
proof -
  obtain m where m: "flatten v = JObject m" "obj_ordered m"
    "\<And>k w. (k, w) \<in> set m \<Longrightarrow> \<exists>ts. k = pointer_string ts \<and> (ts, w) \<in> set (leaves v)"
    "\<And>ts w. (ts, w) \<in> set (leaves v) \<Longrightarrow> pointer_string ts \<in> fst ` set m"
    using flatten_members_leaves [OF assms] by metis
  have "unflatten_loop m JNull = Inr v"
    using m(3,4) by (intro unflatten_leaves [OF assms _ m(2) part_null]) blast+
  with m(1) show ?thesis by (simp add: unflatten_def)
qed

text \<open>An object whose only key is 0 comes back as an array, an empty container as null.\<close>

lemma unflatten_zero_key:
  "unflatten (flatten (JObject [(''0'', JBoolean b)])) = Inr (JArray [JBoolean b])"
  "unflatten (flatten (JArray [])) = Inr JNull"
  by (simp_all add: flatten_def unflatten_def escape_map pointer_split_def split_loop.simps unescape_def numeral_eq_Suc
      create_assign_def index_create_def is_null_def Let_def)

definition flat_sample :: "unit json" where
  "flat_sample = JObject [(''a/b'', JArray [JUnsigned 1, JNull, JObject [([], JString ''x'')]]), (''c'', JBoolean True)]"

theorem unflatten_flatten_witness:
  "unflatten (flatten flat_sample) = Inr flat_sample \<and>
   flatten flat_sample = JObject
     [(''/a~1b/0'', JUnsigned 1), (''/a~1b/1'', JNull), (''/a~1b/2/'', JString ''x''), (''/c'', JBoolean True)]"
proof
  have "flattenable flat_sample" by (simp add: flat_sample_def)
  then show "unflatten (flatten flat_sample) = Inr flat_sample" by (rule unflatten_flatten)
  show "flatten flat_sample = JObject
     [(''/a~1b/0'', JUnsigned 1), (''/a~1b/1'', JNull), (''/a~1b/2/'', JString ''x''), (''/c'', JBoolean True)]"
    by code_simp
qed

end
