(* ===== verification/Json_Order.thy ===== *)
theory Json_Order
  imports Json_Compare
begin

text \<open>
  When \<open>operator<\<close> of client/include/json.hpp is an order. Every value is given a code, a list of
  integers, such that the lexicographic order of the codes is the order of the values; this
  needs that there are no doubles and no unsigned numbers which the comparison with a signed one wraps.
\<close>

section \<open>Codes\<close>

definition string_code :: "string \<Rightarrow> int list" where
  "string_code s = List.map (\<lambda>c. 1 + int (of_char c)) s @ [0]"

fun order_code :: "'d json \<Rightarrow> int list"
  and elements_code :: "'d json list \<Rightarrow> int list"
  and members_code :: "(string \<times> 'd json) list \<Rightarrow> int list" where
  "order_code JNull = [0]"
| "order_code (JBoolean b) = [1, if b then 1 else 0]"
| "order_code (JInteger i) = [2, i]"
| "order_code (JUnsigned u) = [2, u]"
| "order_code (JObject m) = 3 # members_code m"
| "order_code (JArray vs) = 4 # elements_code vs"
| "order_code (JString s) = 5 # string_code s"
| "order_code (JFloat d) = [6]"
| "elements_code [] = [0]"
| "elements_code (v # vs) = 1 # order_code v @ elements_code vs"
| "members_code [] = [0]"
| "members_code ((k, v) # m) = 1 # string_code k @ order_code v @ members_code m"

fun comparable :: "'d json \<Rightarrow> bool"
  and elements_comparable :: "'d json list \<Rightarrow> bool"
  and members_comparable :: "(string \<times> 'd json) list \<Rightarrow> bool" where
  "comparable (JArray vs) = elements_comparable vs"
| "comparable (JObject m) = members_comparable m"
| "comparable (JUnsigned u) = (0 \<le> u \<and> u < 2 ^ 63)"
| "comparable (JFloat d) = False"
| "comparable JNull = True"
| "comparable (JString s) = True"
| "comparable (JBoolean b) = True"
| "comparable (JInteger i) = True"
| "elements_comparable [] = True"
| "elements_comparable (v # vs) = (comparable v \<and> elements_comparable vs)"
| "members_comparable [] = True"
| "members_comparable ((k, v) # m) = (comparable v \<and> members_comparable m)"

lemma to_int64_small: "0 \<le> u \<Longrightarrow> u < 2 ^ 63 \<Longrightarrow> to_int64 u = u"
proof -
  assume "0 \<le> u" "u < 2 ^ 63"
  then have "(u + 2 ^ 63) mod 2 ^ 64 = u + 2 ^ 63" by (intro mod_pos_pos_trivial) simp_all
  then show "to_int64 u = u" unfolding to_int64_def by simp
qed

text \<open>No code is the beginning of another.\<close>

lemma string_code_append: "string_code s @ xs = string_code t @ ys \<longleftrightarrow> s = t \<and> xs = ys"
proof (induction s arbitrary: t)
  case Nil
  then show ?case by (cases t) (auto simp: string_code_def)
next
  case (Cons c s)
  then show ?case by (cases t) (auto simp: string_code_def of_char_eq_iff)
qed

lemma code_append:
  fixes a b :: "'d json" and vs ws :: "'d json list" and m n :: "(string \<times> 'd json) list"
  shows
  "order_code a @ xs = order_code b @ ys \<Longrightarrow> order_code a = order_code b \<and> xs = ys"
  "elements_code vs @ xs = elements_code ws @ ys \<Longrightarrow> elements_code vs = elements_code ws \<and> xs = ys"
  "members_code m @ xs = members_code n @ ys \<Longrightarrow> members_code m = members_code n \<and> xs = ys"
proof (induction a and vs and m arbitrary: b xs ys and ws xs ys and n xs ys
    rule: order_code_elements_code_members_code.induct)
  case (5 m)
  show ?case
  proof (cases b)
    case (JObject n)
    with "5.prems" have "members_code m @ xs = members_code n @ ys" by simp
    from "5.IH" [OF this] JObject show ?thesis by simp
  qed (use "5.prems" in simp_all)
next
  case (6 vs)
  show ?case
  proof (cases b)
    case (JArray ws)
    with "6.prems" have "elements_code vs @ xs = elements_code ws @ ys" by simp
    from "6.IH" [OF this] JArray show ?thesis by simp
  qed (use "6.prems" in simp_all)
next
  case (7 s)
  then show ?case by (cases b) (auto simp: string_code_append)
next
  case (10 v vs)
  show ?case
  proof (cases ws)
    case (Cons w ws')
    with "10.prems" have "order_code v @ (elements_code vs @ xs) = order_code w @ (elements_code ws' @ ys)" by simp
    from "10.IH"(1) [OF this] have v: "order_code v = order_code w" "elements_code vs @ xs = elements_code ws' @ ys"
      by simp_all
    from v(1) "10.IH"(2) [OF v(2)] Cons show ?thesis by simp
  qed (use "10.prems" in simp)
next
  case (12 k v m)
  show ?case
  proof (cases n)
    case (Cons lw n')
    obtain l w where lw: "lw = (l, w)" by (cases lw)
    with "12.prems" Cons have "string_code k @ (order_code v @ members_code m @ xs) =
        string_code l @ (order_code w @ members_code n' @ ys)" by simp
    then have "k = l" and *: "order_code v @ (members_code m @ xs) = order_code w @ (members_code n' @ ys)"
      unfolding string_code_append by blast+
    from "12.IH"(1) [OF *] have v: "order_code v = order_code w" "members_code m @ xs = members_code n' @ ys"
      by simp_all
    from \<open>k = l\<close> v(1) "12.IH"(2) [OF v(2)] Cons lw show ?thesis by simp
  qed (use "12.prems" in simp)
next
  case (1)
  then show ?case by (cases b) auto
next
  case (2 x)
  then show ?case by (cases b) auto
next
  case (3 x)
  then show ?case by (cases b) auto
next
  case (4 x)
  then show ?case by (cases b) auto
next
  case (8 x)
  then show ?case by (cases b) auto
next
  case 9
  then show ?case by (cases ws) auto
next
  case 11
  then show ?case by (cases n) auto
qed

lemma code_append_iff:
  fixes a b :: "'d json" and vs ws :: "'d json list" and m n :: "(string \<times> 'd json) list"
  shows
  "order_code a @ xs = order_code b @ ys \<longleftrightarrow> order_code a = order_code b \<and> xs = ys"
  "elements_code vs @ xs = elements_code ws @ ys \<longleftrightarrow> elements_code vs = elements_code ws \<and> xs = ys"
  "members_code m @ xs = members_code n @ ys \<longleftrightarrow> members_code m = members_code n \<and> xs = ys"
  using code_append(1) [of a xs b ys] code_append(2) [of vs xs ws ys] code_append(3) [of m xs n ys] by auto

lemma string_code_less: "string_code s @ xs < string_code t @ ys \<longleftrightarrow> s < t \<or> s = t \<and> xs < ys"
proof (induction s arbitrary: t)
  case Nil
  then show ?case by (cases t) (auto simp: string_code_def)
next
  case (Cons c s)
  then show ?case by (cases t) (auto simp: string_code_def less_char_def of_char_eq_iff)
qed

section \<open>Equality and order\<close>

lemma equal_code:
  fixes a b :: "'d json" and vs ws :: "'d json list" and m n :: "(string \<times> 'd json) list"
  shows
  "comparable a \<Longrightarrow> comparable b \<Longrightarrow> json_equal c a b \<longleftrightarrow> order_code a = order_code b"
  "elements_comparable vs \<Longrightarrow> elements_comparable ws \<Longrightarrow> arrays_equal c vs ws \<longleftrightarrow> elements_code vs = elements_code ws"
  "members_comparable m \<Longrightarrow> members_comparable n \<Longrightarrow> objects_equal c m n \<longleftrightarrow> members_code m = members_code n"
proof (induction a and vs and m arbitrary: b and ws and n rule: order_code_elements_code_members_code.induct)
  case 1
  then show ?case by (cases b) auto
next
  case (2 x)
  then show ?case by (cases b) auto
next
  case (3 i)
  then show ?case by (cases b) (auto simp: to_int64_small)
next
  case (4 u)
  then show ?case by (cases b) (auto simp: to_int64_small)
next
  case (5 m)
  then show ?case by (cases b) auto
next
  case (6 vs)
  then show ?case by (cases b) auto
next
  case (7 s)
  then show ?case using string_code_append [of s "[]" _ "[]"] by (cases b) auto
next
  case (10 v vs)
  then show ?case by (cases ws) (auto simp: code_append_iff)
next
  case (12 k v m)
  show ?case
  proof (cases n)
    case (Cons lw n')
    then show ?thesis
      using 12 by (cases lw) (auto simp: string_code_append code_append_iff)
  qed simp
next
  case 9
  then show ?case by (cases ws) auto
next
  case 11
  then show ?case by (cases n) auto
qed simp

lemma less_code:
  fixes a b :: "'d json" and vs ws :: "'d json list" and m n :: "(string \<times> 'd json) list"
  shows
  "comparable a \<Longrightarrow> comparable b \<Longrightarrow>
     order_code a @ xs < order_code b @ ys \<longleftrightarrow> json_less c a b \<or> order_code a = order_code b \<and> xs < ys"
  "elements_comparable vs \<Longrightarrow> elements_comparable ws \<Longrightarrow>
     elements_code vs @ xs < elements_code ws @ ys \<longleftrightarrow> arrays_less c vs ws \<or> elements_code vs = elements_code ws \<and> xs < ys"
  "members_comparable m \<Longrightarrow> members_comparable n \<Longrightarrow>
     members_code m @ xs < members_code n @ ys \<longleftrightarrow> objects_less c m n \<or> members_code m = members_code n \<and> xs < ys"
proof (induction c a b and c vs ws and c m n arbitrary: xs ys and xs ys and xs ys
    rule: json_less_arrays_less_objects_less.induct)
  case (1 c a b)
  show ?case
  proof (cases a; cases b)
    fix vs ws assume "a = JArray vs" "b = JArray ws"
    with 1 show ?thesis by (simp add: json_less.simps)
  next
    fix m n assume "a = JObject m" "b = JObject n"
    with 1 show ?thesis by (simp add: json_less.simps)
  next
    fix s t assume "a = JString s" "b = JString t"
    then show ?thesis
      using string_code_less [of s xs t ys] string_code_append [of s "[]" t "[]"] by (simp add: json_less.simps)
  qed (use "1.prems" in \<open>simp_all add: json_less.simps to_int64_small\<close>)
next
  case (2 c vs ws)
  show ?case
  proof (cases ws)
    case Nil
    then show ?thesis by (cases vs) (simp_all add: arrays_less.simps)
  next
    case ws: (Cons w ws')
    show ?thesis
    proof (cases vs)
      case Nil
      with ws show ?thesis by (simp add: arrays_less.simps)
    next
      case vs: (Cons v vs')
      have prems: "comparable v" "comparable w" "elements_comparable vs'" "elements_comparable ws'"
        using "2.prems" vs ws by simp_all
      note first = "2.IH"(1) [OF ws vs prems(1,2)]
      show ?thesis
      proof (cases "json_less c v w")
        case True
        then show ?thesis using first by (simp add: vs ws arrays_less.simps)
      next
        case False
        note second = "2.IH"(2) [OF ws vs prems(2,1)]
        show ?thesis
        proof (cases "json_less c w v")
          case True
          then have "order_code v \<noteq> order_code w" using second [of "[]" "[]"] by auto
          with True False first show ?thesis by (simp add: vs ws arrays_less.simps code_append_iff)
        next
          case same: False
          have "order_code v = order_code w"
            using first [of "[]" "[]"] second [of "[]" "[]"] False same by auto
          with same False first "2.IH"(3) [OF ws vs prems(3,4)] show ?thesis
            by (simp add: vs ws arrays_less.simps)
        qed
      qed
    qed
  qed
next
  case (3 c m n)
  show ?case
  proof (cases n)
    case Nil
    then show ?thesis by (cases m) (auto simp: objects_less.simps)
  next
    case n: (Cons lw n')
    obtain l w where lw: "lw = (l, w)" by (cases lw)
    show ?thesis
    proof (cases m)
      case Nil
      with n lw show ?thesis by (simp add: objects_less.simps)
    next
      case m: (Cons kv m')
      obtain k v where kv: "kv = (k, v)" by (cases kv)
      have prems: "comparable v" "comparable w" "members_comparable m'" "members_comparable n'"
        using "3.prems" m n lw kv by simp_all
      have code: "members_code m @ xs < members_code n @ ys \<longleftrightarrow>
          k < l \<or> k = l \<and> order_code v @ (members_code m' @ xs) < order_code w @ (members_code n' @ ys)"
        by (simp add: m n kv lw string_code_less)
      have eq: "members_code m = members_code n \<longleftrightarrow> k = l \<and> order_code v = order_code w \<and> members_code m' = members_code n'"
        by (simp add: m n kv lw string_code_append code_append_iff)
      show ?thesis
      proof (cases "k = l")
        case False
        then show ?thesis using code eq by (auto simp: m n kv lw objects_less.simps)
      next
        case kl: True
        then have nk: "\<not> k < l" "\<not> l < k" by simp_all
        have step: "objects_less c m n \<longleftrightarrow> json_less c v w \<or> \<not> json_less c w v \<and> objects_less c m' n'"
          unfolding m n kv lw by (subst objects_less.simps) (use kl in simp)
        note first = "3.IH"(1) [OF n lw [symmetric] m kv [symmetric] prems(1,2)]
        note second = "3.IH"(2) [OF n lw [symmetric] m kv [symmetric] prems(2,1)]
        show ?thesis
        proof (cases "json_less c v w")
          case True
          then show ?thesis using first kl code step by simp
        next
          case False
          show ?thesis
          proof (cases "json_less c w v")
            case True
            then have "order_code v \<noteq> order_code w" using second [of "[]" "[]"] by auto
            with True False first kl code eq step show ?thesis by simp
          next
            case same: False
            have "order_code v = order_code w"
              using first [of "[]" "[]"] second [of "[]" "[]"] False same by auto
            with same False first kl code eq step "3.IH"(3) [OF n lw [symmetric] m kv [symmetric] prems(3,4)]
            show ?thesis by simp
          qed
        qed
      qed
    qed
  qed
qed

text \<open>
  Outside these values it is no order: with numbers from 2 to the 63 on three values, all of which the parser
  can produce, are each less than the next one around a cycle.
\<close>

lemma less_cycle:
  "json_less c (JUnsigned (2 ^ 63)) (JInteger (- 1))"
  "json_less c (JInteger (- 1)) (JUnsigned 0)"
  "json_less c (JUnsigned 0) (JUnsigned (2 ^ 63))"
  by (simp_all add: json_less.simps to_int64_def)

section \<open>Properties\<close>

text \<open>
  C38: On values without doubles and without unsigned numbers from 2 to the 63 on, \<open>operator<\<close> and
  \<open>operator==\<close> are the order and the equality of the codes of the values, so a total order: of two
  values exactly one is less or they are equal, and less is transitive.
\<close>

theorem less_total_order:
  assumes "comparable a" "comparable b" "comparable d"
  shows "(json_less c a b \<longleftrightarrow> order_code a < order_code b) \<and>
    (json_equal c a b \<longleftrightarrow> order_code a = order_code b) \<and>
    (json_less c a b \<or> json_equal c a b \<or> json_less c b a) \<and>
    \<not> (json_less c a b \<and> json_equal c a b) \<and> \<not> (json_less c a b \<and> json_less c b a) \<and>
    (json_less c a b \<and> json_less c b d \<longrightarrow> json_less c a d)"
proof -
  have less: "json_less c v w \<longleftrightarrow> order_code v < order_code w" if "comparable v" "comparable w" for v w
    using less_code(1) [OF that, of "[]" "[]" c] by simp
  note equal = equal_code(1) [OF assms(1,2), of c]
  show ?thesis unfolding less [OF assms(1,2)] less [OF assms(2,1)] less [OF assms(2,3)] less [OF assms(1,3)] equal
    by auto
qed

theorem less_total_order_witness:
  "json_less unit_compare (JArray [JInteger 1, JBoolean False]) (JArray [JUnsigned 1, JBoolean True]) \<and>
   \<not> json_less unit_compare (JArray [JUnsigned 1, JBoolean True]) (JArray [JInteger 1, JBoolean False])"
proof -
  let ?a = "JArray [JInteger 1, JBoolean False]" and ?b = "JArray [JUnsigned 1, JBoolean True]"
  have "comparable ?a" "comparable ?b" "order_code ?a < order_code ?b" by simp_all
  with less_total_order [of ?a ?b ?b unit_compare] show ?thesis by simp
qed

end
