(* ===== verification/Json_Msgpack.thy ===== *)
theory Json_Msgpack
  imports Json_Lexer Json_Compare
begin

text \<open>
  MessagePack in client/include/json.hpp: \<open>binary_writer::write_msgpack\<close> and the part of
  \<open>binary_reader\<close> for this format. Bytes are characters. The machine is little endian. The reader
  reports to a SAX consumer that accepts every event but an error, as the DOM parser does; the events
  are collected in the state of the reader. Binary values are read but not written, since the values
  of Json have none.
\<close>

section \<open>Doubles\<close>

text \<open>What is used of \<open>double\<close> and \<open>float\<close>: their bits, the casts and the comparisons.\<close>

record 'd float_ops =
  dbl_bits :: "'d \<Rightarrow> nat"
  bits_dbl :: "nat \<Rightarrow> 'd"
  in_float_range :: "'d \<Rightarrow> bool"
  float_bits :: "'d \<Rightarrow> nat"
  float_to_dbl :: "nat \<Rightarrow> 'd"
  dbl_same :: "'d \<Rightarrow> 'd \<Rightarrow> bool"

section \<open>The writer\<close>

text \<open>The bytes of a number of \<open>k\<close> bytes in memory, and the number they stand for.\<close>

fun little_bytes :: "nat \<Rightarrow> nat \<Rightarrow> string" where
  "little_bytes 0 n = []"
| "little_bytes (Suc k) n = char_of (n mod 256) # little_bytes k (n div 256)"

fun little_value :: "string \<Rightarrow> nat" where
  "little_value [] = 0"
| "little_value (c # cs) = of_char c + 256 * little_value cs"

definition write_number :: "nat \<Rightarrow> int \<Rightarrow> string" where
  "write_number k n = rev (little_bytes k (nat (n mod 2 ^ (8 * k))))"

definition write_byte :: "nat \<Rightarrow> string" where
  "write_byte n = [char_of n]"

definition write_unsigned :: "int \<Rightarrow> string" where
  "write_unsigned n =
     (if n < 128 then write_number 1 n
      else if n < 2 ^ 8 then write_byte 0xCC @ write_number 1 n
      else if n < 2 ^ 16 then write_byte 0xCD @ write_number 2 n
      else if n < 2 ^ 32 then write_byte 0xCE @ write_number 4 n
      else if n < 2 ^ 64 then write_byte 0xCF @ write_number 8 n
      else [])"

definition write_integer :: "int \<Rightarrow> string" where
  "write_integer n =
     (if n \<ge> 0 then write_unsigned n
      else if n \<ge> - 32 then write_number 1 n
      else if n \<ge> - (2 ^ 7) then write_byte 0xD0 @ write_number 1 n
      else if n \<ge> - (2 ^ 15) then write_byte 0xD1 @ write_number 2 n
      else if n \<ge> - (2 ^ 31) then write_byte 0xD2 @ write_number 4 n
      else if n \<ge> - (2 ^ 63) then write_byte 0xD3 @ write_number 8 n
      else [])"

definition write_compact_float :: "'d float_ops \<Rightarrow> 'd \<Rightarrow> string" where
  "write_compact_float fl n =
     (if in_float_range fl n \<and> dbl_same fl (float_to_dbl fl (float_bits fl n)) n
      then write_byte 0xCA @ write_number 4 (int (float_bits fl n))
      else write_byte 0xCB @ write_number 8 (int (dbl_bits fl n)))"

text \<open>The control bytes of a string, an array and an object; nothing for sizes from 2 to the 32 on.\<close>

definition write_string_size :: "nat \<Rightarrow> string" where
  "write_string_size n =
     (if n \<le> 31 then write_number 1 (int (0xA0 + n))
      else if n < 2 ^ 8 then write_byte 0xD9 @ write_number 1 (int n)
      else if n < 2 ^ 16 then write_byte 0xDA @ write_number 2 (int n)
      else if n < 2 ^ 32 then write_byte 0xDB @ write_number 4 (int n)
      else [])"

definition write_array_size :: "nat \<Rightarrow> string" where
  "write_array_size n =
     (if n \<le> 15 then write_number 1 (int (0x90 + n))
      else if n < 2 ^ 16 then write_byte 0xDC @ write_number 2 (int n)
      else if n < 2 ^ 32 then write_byte 0xDD @ write_number 4 (int n)
      else [])"

definition write_object_size :: "nat \<Rightarrow> string" where
  "write_object_size n =
     (if n \<le> 15 then write_number 1 (int (0x80 + n))
      else if n < 2 ^ 16 then write_byte 0xDE @ write_number 2 (int n)
      else if n < 2 ^ 32 then write_byte 0xDF @ write_number 4 (int n)
      else [])"

fun write_msgpack :: "'d float_ops \<Rightarrow> 'd json \<Rightarrow> string"
  and write_elements :: "'d float_ops \<Rightarrow> 'd json list \<Rightarrow> string"
  and write_members :: "'d float_ops \<Rightarrow> (string \<times> 'd json) list \<Rightarrow> string" where
  "write_msgpack fl JNull = write_byte 0xC0"
| "write_msgpack fl (JBoolean b) = write_byte (if b then 0xC3 else 0xC2)"
| "write_msgpack fl (JInteger i) = write_integer i"
| "write_msgpack fl (JUnsigned u) = write_unsigned u"
| "write_msgpack fl (JFloat d) = write_compact_float fl d"
| "write_msgpack fl (JString s) = write_string_size (length s) @ s"
| "write_msgpack fl (JArray vs) = write_array_size (length vs) @ write_elements fl vs"
| "write_msgpack fl (JObject m) = write_object_size (length m) @ write_members fl m"
| "write_elements fl [] = []"
| "write_elements fl (v # vs) = write_msgpack fl v @ write_elements fl vs"
| "write_members fl [] = []"
| "write_members fl ((k, v) # m) =
     (write_string_size (length k) @ k) @ write_msgpack fl v @ write_members fl m"

section \<open>The reader\<close>

datatype 'd sax_event =
    Sax_null
  | Sax_boolean bool
  | Sax_integer int
  | Sax_unsigned nat
  | Sax_float 'd
  | Sax_string string
  | Sax_binary string "nat option"
  | Sax_start_object nat
  | Sax_key string
  | Sax_end_object
  | Sax_start_array nat
  | Sax_end_array
  | Sax_error nat nat string string

record 'd binary_reader =
  br_ia :: string
  br_current :: "char option"
  br_chars_read :: nat
  br_events :: "'d sax_event list"

definition new_binary_reader :: "string \<Rightarrow> 'd binary_reader" where
  "new_binary_reader adapter = \<lparr>br_ia = adapter, br_current = None, br_chars_read = 0, br_events = []\<rparr>"

definition emit :: "'d sax_event \<Rightarrow> 'd binary_reader \<Rightarrow> 'd binary_reader" where
  "emit e br = br\<lparr>br_events := br_events br @ [e]\<rparr>"

definition br_get :: "'d binary_reader \<Rightarrow> 'd binary_reader" where
  "br_get br =
     (case br_ia br of
        [] \<Rightarrow> br\<lparr>br_current := None, br_chars_read := br_chars_read br + 1\<rparr>
      | c # cs \<Rightarrow> br\<lparr>br_ia := cs, br_current := Some c, br_chars_read := br_chars_read br + 1\<rparr>)"

definition br_token_string :: "'d binary_reader \<Rightarrow> string" where
  "br_token_string br =
     (let b = (case br_current br of Some c \<Rightarrow> of_char c | None \<Rightarrow> 255)
      in [hex_upper (b div 16), hex_upper (b mod 16)])"

definition br_error :: "nat \<Rightarrow> string \<Rightarrow> string \<Rightarrow> string \<Rightarrow> 'd binary_reader \<Rightarrow> bool \<times> 'd binary_reader" where
  "br_error error_id token detail ctx br =
     (False, emit (Sax_error error_id (br_chars_read br) token
        (''syntax error while parsing MessagePack '' @ ctx @ '': '' @ detail)) br)"

definition unexpect_eof :: "string \<Rightarrow> 'd binary_reader \<Rightarrow> bool \<times> 'd binary_reader" where
  "unexpect_eof ctx br =
     (if br_current br = None then br_error 110 ''<end of file>'' ''unexpected end of input'' ctx br
      else (True, br))"

text \<open>The bytes of a number are stored from the end of the array on.\<close>

fun number_loop :: "nat \<Rightarrow> string \<Rightarrow> 'd binary_reader \<Rightarrow> string option \<times> 'd binary_reader" where
  "number_loop 0 vec br = (Some vec, br)"
| "number_loop (Suc k) vec br =
     (case unexpect_eof ''number'' (br_get br) of
        (False, br) \<Rightarrow> (None, br)
      | (True, br) \<Rightarrow> number_loop k (the (br_current br) # vec) br)"

definition get_number :: "nat \<Rightarrow> 'd binary_reader \<Rightarrow> nat option \<times> 'd binary_reader" where
  "get_number k br =
     (case number_loop k [] br of
        (None, br) \<Rightarrow> (None, br)
      | (Some vec, br) \<Rightarrow> (Some (little_value vec), br))"

definition to_signed :: "nat \<Rightarrow> nat \<Rightarrow> int" where
  "to_signed k n = (if n < 2 ^ (8 * k - 1) then int n else int n - 2 ^ (8 * k))"

text \<open>\<open>get_string\<close> and \<open>get_binary\<close>.\<close>

fun bytes_loop :: "string \<Rightarrow> nat \<Rightarrow> string \<Rightarrow> 'd binary_reader \<Rightarrow> string option \<times> 'd binary_reader" where
  "bytes_loop ctx 0 result br = (Some result, br)"
| "bytes_loop ctx (Suc k) result br =
     (case unexpect_eof ctx (br_get br) of
        (False, br) \<Rightarrow> (None, br)
      | (True, br) \<Rightarrow> bytes_loop ctx k (result @ [the (br_current br)]) br)"

definition sized :: "nat \<Rightarrow> (nat \<Rightarrow> 'd binary_reader \<Rightarrow> 'a option \<times> 'd binary_reader) \<Rightarrow>
    'd binary_reader \<Rightarrow> 'a option \<times> 'd binary_reader" where
  "sized k f br = (case get_number k br of (None, br) \<Rightarrow> (None, br) | (Some n, br) \<Rightarrow> f n br)"

definition get_msgpack_string :: "'d binary_reader \<Rightarrow> string option \<times> 'd binary_reader" where
  "get_msgpack_string br =
     (case br_current br of
        None \<Rightarrow> (None, snd (unexpect_eof ''string'' br))
      | Some c \<Rightarrow>
          let b = (of_char c :: nat) in
          if 0xA0 \<le> b \<and> b \<le> 0xBF then bytes_loop ''string'' (b mod 0x20) [] br
          else if b = 0xD9 then sized 1 (\<lambda>len. bytes_loop ''string'' len []) br
          else if b = 0xDA then sized 2 (\<lambda>len. bytes_loop ''string'' len []) br
          else if b = 0xDB then sized 4 (\<lambda>len. bytes_loop ''string'' len []) br
          else
            (None, snd (br_error 113 (br_token_string br)
              (''expected length specification (0xA0-0xBF, 0xD9-0xDB); last byte: 0x'' @ br_token_string br)
              ''string'' br)))"

text \<open>A byte array with its subtype; the subtype is signed in the input and unsigned in the result.\<close>

definition get_binary :: "nat \<Rightarrow> 'd binary_reader \<Rightarrow> (string \<times> nat option) option \<times> 'd binary_reader" where
  "get_binary len br = (case bytes_loop ''binary'' len [] br of (r, br) \<Rightarrow> (map_option (\<lambda>b. (b, None)) r, br))"

definition get_ext :: "nat \<Rightarrow> 'd binary_reader \<Rightarrow> (string \<times> nat option) option \<times> 'd binary_reader" where
  "get_ext len =
     sized 1 (\<lambda>subtype br.
       case bytes_loop ''binary'' len [] br of (r, br) \<Rightarrow> (map_option (\<lambda>b. (b, Some subtype)) r, br))"

definition get_msgpack_binary :: "nat \<Rightarrow> 'd binary_reader \<Rightarrow> (string \<times> nat option) option \<times> 'd binary_reader" where
  "get_msgpack_binary b br =
     (if b = 0xC4 then sized 1 get_binary br
      else if b = 0xC5 then sized 2 get_binary br
      else if b = 0xC6 then sized 4 get_binary br
      else if b = 0xC7 then sized 1 get_ext br
      else if b = 0xC8 then sized 2 get_ext br
      else if b = 0xC9 then sized 4 get_ext br
      else if b = 0xD4 then get_ext 1 br
      else if b = 0xD5 then get_ext 2 br
      else if b = 0xD6 then get_ext 4 br
      else if b = 0xD7 then get_ext 8 br
      else if b = 0xD8 then get_ext 16 br
      else (None, br))"

text \<open>
  The switch of \<open>parse_msgpack_internal\<close>: a value without parts is reported, for a container its
  size is found.
\<close>

datatype 'd started =
    Finished bool "'d binary_reader"
  | Array_Of nat "'d binary_reader"
  | Object_Of nat "'d binary_reader"

definition report :: "('a \<Rightarrow> 'd sax_event) \<Rightarrow> 'a option \<times> 'd binary_reader \<Rightarrow> 'd started" where
  "report f r = (case r of (None, br) \<Rightarrow> Finished False br | (Some x, br) \<Rightarrow> Finished True (emit (f x) br))"

definition with_size :: "(nat \<Rightarrow> 'd binary_reader \<Rightarrow> 'd started) \<Rightarrow> nat option \<times> 'd binary_reader \<Rightarrow> 'd started" where
  "with_size f r = (case r of (None, br) \<Rightarrow> Finished False br | (Some n, br) \<Rightarrow> f n br)"

definition begin_value :: "'d float_ops \<Rightarrow> 'd binary_reader \<Rightarrow> 'd started" where
  "begin_value fl br =
     (case br_current br of
        None \<Rightarrow> (case unexpect_eof ''value'' br of (ok, br) \<Rightarrow> Finished ok br)
      | Some c \<Rightarrow>
          let b = (of_char c :: nat) in
          if b \<le> 0x7F then Finished True (emit (Sax_unsigned b) br)
          else if b \<le> 0x8F then Object_Of (b mod 0x10) br
          else if b \<le> 0x9F then Array_Of (b mod 0x10) br
          else if b \<le> 0xBF \<or> b = 0xD9 \<or> b = 0xDA \<or> b = 0xDB then report Sax_string (get_msgpack_string br)
          else if b = 0xC0 then Finished True (emit Sax_null br)
          else if b = 0xC2 then Finished True (emit (Sax_boolean False) br)
          else if b = 0xC3 then Finished True (emit (Sax_boolean True) br)
          else if 0xC4 \<le> b \<and> b \<le> 0xC9 \<or> 0xD4 \<le> b \<and> b \<le> 0xD8
          then report (\<lambda>(bs, subtype). Sax_binary bs subtype) (get_msgpack_binary b br)
          else if b = 0xCA then report (\<lambda>n. Sax_float (float_to_dbl fl n)) (get_number 4 br)
          else if b = 0xCB then report (\<lambda>n. Sax_float (bits_dbl fl n)) (get_number 8 br)
          else if b = 0xCC then report Sax_unsigned (get_number 1 br)
          else if b = 0xCD then report Sax_unsigned (get_number 2 br)
          else if b = 0xCE then report Sax_unsigned (get_number 4 br)
          else if b = 0xCF then report Sax_unsigned (get_number 8 br)
          else if b = 0xD0 then report (\<lambda>n. Sax_integer (to_signed 1 n)) (get_number 1 br)
          else if b = 0xD1 then report (\<lambda>n. Sax_integer (to_signed 2 n)) (get_number 2 br)
          else if b = 0xD2 then report (\<lambda>n. Sax_integer (to_signed 4 n)) (get_number 4 br)
          else if b = 0xD3 then report (\<lambda>n. Sax_integer (to_signed 8 n)) (get_number 8 br)
          else if b = 0xDC then with_size Array_Of (get_number 2 br)
          else if b = 0xDD then with_size Array_Of (get_number 4 br)
          else if b = 0xDE then with_size Object_Of (get_number 2 br)
          else if b = 0xDF then with_size Object_Of (get_number 4 br)
          else if b \<ge> 0xE0 then Finished True (emit (Sax_integer (to_signed 1 b)) br)
          else
            (case br_error 112 (br_token_string br) (''invalid byte: 0x'' @ br_token_string br) ''value'' br of
               (ok, br) \<Rightarrow> Finished ok br))"

text \<open>A value and the loops over the parts of containers.\<close>

function parse_msgpack_internal :: "'d float_ops \<Rightarrow> 'd binary_reader \<Rightarrow> bool \<times> 'd binary_reader"
  and array_loop :: "'d float_ops \<Rightarrow> nat \<Rightarrow> 'd binary_reader \<Rightarrow> bool \<times> 'd binary_reader"
  and object_loop :: "'d float_ops \<Rightarrow> nat \<Rightarrow> 'd binary_reader \<Rightarrow> bool \<times> 'd binary_reader" where
  "parse_msgpack_internal fl br =
     (case begin_value fl (br_get br) of
        Finished ok br \<Rightarrow> (ok, br)
      | Array_Of len br \<Rightarrow>
          (case array_loop fl len (emit (Sax_start_array len) br) of
             (False, br) \<Rightarrow> (False, br)
           | (True, br) \<Rightarrow> (True, emit Sax_end_array br))
      | Object_Of len br \<Rightarrow>
          (case object_loop fl len (emit (Sax_start_object len) br) of
             (False, br) \<Rightarrow> (False, br)
           | (True, br) \<Rightarrow> (True, emit Sax_end_object br)))"
| "array_loop fl 0 br = (True, br)"
| "array_loop fl (Suc n) br =
     (case parse_msgpack_internal fl br of
        (False, br) \<Rightarrow> (False, br)
      | (True, br) \<Rightarrow> array_loop fl n br)"
| "object_loop fl 0 br = (True, br)"
| "object_loop fl (Suc n) br =
     (case get_msgpack_string (br_get br) of
        (None, br) \<Rightarrow> (False, br)
      | (Some key, br) \<Rightarrow>
          (case parse_msgpack_internal fl (emit (Sax_key key) br) of
             (False, br) \<Rightarrow> (False, br)
           | (True, br) \<Rightarrow> object_loop fl n br))"
  by pat_completeness auto

text \<open>No byte is put back, so the input gets shorter with every value.\<close>

lemma emit_ia [simp]: "br_ia (emit e br) = br_ia br" "br_current (emit e br) = br_current br"
  by (simp_all add: emit_def)

lemma br_get_ia:
  "length (br_ia (br_get br)) \<le> length (br_ia br)"
  "br_current (br_get br) \<noteq> None \<Longrightarrow> length (br_ia (br_get br)) < length (br_ia br)"
  by (auto simp: br_get_def split: list.splits)

lemma unexpect_eof_ia: "unexpect_eof ctx br = (ok, br') \<Longrightarrow> br_ia br' = br_ia br"
  by (auto simp: unexpect_eof_def br_error_def split: if_splits)

lemma next_byte_ia:
  assumes "unexpect_eof ctx (br_get br) = (ok, br')"
  shows "length (br_ia br') \<le> length (br_ia br)"
  using br_get_ia(1) [of br] unexpect_eof_ia [OF assms] by simp

lemma number_loop_ia: "number_loop k vec br = (r, br') \<Longrightarrow> length (br_ia br') \<le> length (br_ia br)"
proof (induction k arbitrary: vec br)
  case (Suc k)
  obtain ok br1 where e: "unexpect_eof ''number'' (br_get br) = (ok, br1)" by (rule prod.exhaust)
  show ?case
  proof (cases ok)
    case True
    with Suc.prems e have "number_loop k (the (br_current br1) # vec) br1 = (r, br')" by simp
    from Suc.IH [OF this] next_byte_ia [OF e] show ?thesis by simp
  qed (use Suc.prems e next_byte_ia [OF e] in simp)
qed simp

lemma bytes_loop_ia: "bytes_loop ctx k bs br = (r, br') \<Longrightarrow> length (br_ia br') \<le> length (br_ia br)"
proof (induction k arbitrary: bs br)
  case (Suc k)
  obtain ok br1 where e: "unexpect_eof ctx (br_get br) = (ok, br1)" by (rule prod.exhaust)
  show ?case
  proof (cases ok)
    case True
    with Suc.prems e have "bytes_loop ctx k (bs @ [the (br_current br1)]) br1 = (r, br')" by simp
    from Suc.IH [OF this] next_byte_ia [OF e] show ?thesis by simp
  qed (use Suc.prems e next_byte_ia [OF e] in simp)
qed simp

lemma get_number_ia: "get_number k br = (r, br') \<Longrightarrow> length (br_ia br') \<le> length (br_ia br)"
  by (auto simp: get_number_def split: prod.splits option.splits dest: number_loop_ia)

lemma sized_ia:
  assumes "sized k f br = (r, br')" "\<And>n br r br'. f n br = (r, br') \<Longrightarrow> length (br_ia br') \<le> length (br_ia br)"
  shows "length (br_ia br') \<le> length (br_ia br)"
  using assms(1) by (auto simp: sized_def split: prod.splits option.splits dest!: get_number_ia assms(2))

lemma get_msgpack_string_ia: "get_msgpack_string br = (r, br') \<Longrightarrow> length (br_ia br') \<le> length (br_ia br)"
  by (auto simp: get_msgpack_string_def Let_def unexpect_eof_def br_error_def bytes_loop_ia
      split: option.splits if_splits dest!: sized_ia bytes_loop_ia)

lemma get_binary_ia: "get_binary k br = (r, br') \<Longrightarrow> length (br_ia br') \<le> length (br_ia br)"
  by (auto simp: get_binary_def split: prod.splits dest: bytes_loop_ia)

lemma get_ext_ia: "get_ext k br = (r, br') \<Longrightarrow> length (br_ia br') \<le> length (br_ia br)"
  unfolding get_ext_def by (erule sized_ia) (auto split: prod.splits dest: bytes_loop_ia)

lemma get_msgpack_binary_ia: "get_msgpack_binary b br = (r, br') \<Longrightarrow> length (br_ia br') \<le> length (br_ia br)"
  unfolding get_msgpack_binary_def
  by (auto split: if_splits intro: get_ext_ia get_binary_ia sized_ia [OF _ get_ext_ia] sized_ia [OF _ get_binary_ia])

fun started_reader :: "'d started \<Rightarrow> 'd binary_reader" where
  "started_reader (Finished ok br) = br"
| "started_reader (Array_Of n br) = br"
| "started_reader (Object_Of n br) = br"

lemma report_ia: "br_ia (started_reader (report f p)) = br_ia (snd p)"
  by (cases p; cases "fst p") (simp_all add: report_def)

lemma with_size_ia:
  "(\<And>n br. br_ia (started_reader (f n br)) = br_ia br) \<Longrightarrow> br_ia (started_reader (with_size f p)) = br_ia (snd p)"
  by (cases p; cases "fst p") (simp_all add: with_size_def)

lemma reads_ia:
  "length (br_ia (snd (get_number k br))) \<le> length (br_ia br)"
  "length (br_ia (snd (get_msgpack_string br))) \<le> length (br_ia br)"
  "length (br_ia (snd (get_msgpack_binary b br))) \<le> length (br_ia br)"
  by (metis prod.exhaust_sel get_number_ia, metis prod.exhaust_sel get_msgpack_string_ia,
      metis prod.exhaust_sel get_msgpack_binary_ia)

lemma started_if:
  "length (br_ia (started_reader x)) \<le> n \<Longrightarrow> length (br_ia (started_reader y)) \<le> n \<Longrightarrow>
     length (br_ia (started_reader (if b then x else y))) \<le> n"
  by simp

lemma begin_value_ia: "length (br_ia (started_reader (begin_value fl br))) \<le> length (br_ia br)"
proof (cases "br_current br")
  case None
  then show ?thesis by (simp add: begin_value_def unexpect_eof_def br_error_def)
next
  case (Some c)
  have w: "br_ia (started_reader (with_size Array_Of p)) = br_ia (snd p)"
    "br_ia (started_reader (with_size Object_Of p)) = br_ia (snd p)" for p :: "nat option \<times> 'a binary_reader"
    by (rule with_size_ia; simp)+
  show ?thesis
    unfolding begin_value_def Some option.case Let_def br_error_def
    by (intro started_if) (simp_all add: report_ia w reads_ia)
qed

lemma begin_value_eof: "br_current br = None \<Longrightarrow> \<exists>br'. begin_value fl br = Finished False br'"
  by (simp add: begin_value_def unexpect_eof_def br_error_def)

lemma begin_value_container:
  "begin_value fl br = Array_Of n br' \<Longrightarrow> br_current br \<noteq> None"
  "begin_value fl br = Object_Of n br' \<Longrightarrow> br_current br \<noteq> None"
  using begin_value_eof [of br fl] by (cases "br_current br"; force)+

lemma started_ia:
  assumes "begin_value fl (br_get br) = st" "st = Array_Of n br' \<or> st = Object_Of n br'"
  shows "length (br_ia br') < length (br_ia br)"
proof -
  have "length (br_ia br') \<le> length (br_ia (br_get br))"
    using begin_value_ia [of fl "br_get br"] assms by auto
  moreover have "br_current (br_get br) \<noteq> None"
    using assms begin_value_container [of fl "br_get br" n br'] by auto
  ultimately show ?thesis using br_get_ia(2) [of br] by simp
qed

lemma parse_ia:
  "parse_msgpack_internal_array_loop_object_loop_dom (Inl (fl, br)) \<Longrightarrow>
     length (br_ia (snd (parse_msgpack_internal fl br))) \<le> length (br_ia br)"
  "parse_msgpack_internal_array_loop_object_loop_dom (Inr (Inl (fl, n, br))) \<Longrightarrow>
     length (br_ia (snd (array_loop fl n br))) \<le> length (br_ia br)"
  "parse_msgpack_internal_array_loop_object_loop_dom (Inr (Inr (fl, n, br))) \<Longrightarrow>
     length (br_ia (snd (object_loop fl n br))) \<le> length (br_ia br)"
proof (induction fl br and fl n br and fl n br rule: parse_msgpack_internal_array_loop_object_loop.pinduct)
  case (1 fl br)
  note dom = "1.hyps"
  show ?case
  proof (cases "begin_value fl (br_get br)")
    case (Finished ok br')
    then show ?thesis
      using begin_value_ia [of fl "br_get br"] br_get_ia(1) [of br] by (simp add: parse_msgpack_internal.psimps [OF dom])
  next
    case (Array_Of n br')
    with "1.IH"(1) [OF Array_Of] started_ia [OF Array_Of] show ?thesis
      by (auto simp: parse_msgpack_internal.psimps [OF dom] split: prod.split bool.split)
  next
    case (Object_Of n br')
    with "1.IH"(2) [OF Object_Of] started_ia [OF Object_Of] show ?thesis
      by (auto simp: parse_msgpack_internal.psimps [OF dom] split: prod.split bool.split)
  qed
next
  case (2 fl br)
  then show ?case by (simp add: array_loop.psimps)
next
  case (3 fl n br)
  obtain ok br1 where p: "parse_msgpack_internal fl br = (ok, br1)" by (rule prod.exhaust)
  with "3.IH"(1) have "length (br_ia br1) \<le> length (br_ia br)" by simp
  moreover have "ok \<Longrightarrow> length (br_ia (snd (array_loop fl n br1))) \<le> length (br_ia br1)"
    using "3.IH"(2) [OF p [symmetric]] by simp
  ultimately show ?case using p by (cases ok) (auto simp: array_loop.psimps(2) [OF "3.hyps"])
next
  case (4 fl br)
  then show ?case by (simp add: object_loop.psimps)
next
  case (5 fl n br)
  obtain key br1 where k: "get_msgpack_string (br_get br) = (key, br1)" by (rule prod.exhaust)
  have l: "length (br_ia br1) \<le> length (br_ia br)"
    using get_msgpack_string_ia [OF k] br_get_ia(1) [of br] by simp
  show ?case
  proof (cases key)
    case None
    with k l show ?thesis by (simp add: object_loop.psimps(2) [OF "5.hyps"])
  next
    case (Some s)
    note k = k [unfolded Some]
    let ?br = "emit (Sax_key s) br1"
    obtain ok br2 where p: "parse_msgpack_internal fl ?br = (ok, br2)" by (rule prod.exhaust)
    have "length (br_ia br2) \<le> length (br_ia br1)"
      using "5.IH"(1) [OF k [symmetric]] p by simp
    moreover have "ok \<Longrightarrow> length (br_ia (snd (object_loop fl n br2))) \<le> length (br_ia br2)"
      using "5.IH"(2) [OF k [symmetric] _ p [symmetric]] by simp
    ultimately show ?thesis using k p l by (cases ok) (auto simp: object_loop.psimps(2) [OF "5.hyps"])
  qed
qed

lemma parse_ia_result:
  "parse_msgpack_internal_array_loop_object_loop_dom (Inl (fl, br)) \<Longrightarrow>
     (ok, br1) = parse_msgpack_internal fl br \<Longrightarrow> length (br_ia br1) \<le> length (br_ia br)"
  by (metis parse_ia(1) snd_conv)

termination parse_msgpack_internal
proof (relation "measures
    [case_sum (\<lambda>(fl, br). length (br_ia br)) (case_sum (\<lambda>(fl, n, br). length (br_ia br)) (\<lambda>(fl, n, br). length (br_ia br))),
     case_sum (\<lambda>_. 0) (case_sum (\<lambda>(fl, n, br). n + 1) (\<lambda>(fl, n, br). n + 1))]", goal_cases)
  case (2 fl br n br')
  then show ?case using started_ia [of fl br "Array_Of n br'" n br'] by simp
next
  case (3 fl br n br')
  then show ?case using started_ia [of fl br "Object_Of n br'" n br'] by simp
next
  case (5 fl n br ok br1)
  then show ?case using parse_ia_result [of fl br ok br1] by auto
next
  case (6 fl n br key br1 s)
  then show ?case using get_msgpack_string_ia [of "br_get br" key br1] br_get_ia(1) [of br] by auto
next
  case (7 fl n br key br1 s ok br2)
  then show ?case
    using get_msgpack_string_ia [of "br_get br" key br1] br_get_ia(1) [of br]
      parse_ia_result [of fl "emit (Sax_key s) br1" ok br2] by auto
qed auto

text \<open>\<open>sax_parse\<close> for this format; in strict mode the input must end behind the value.\<close>

definition sax_parse_msgpack :: "'d float_ops \<Rightarrow> bool \<Rightarrow> 'd binary_reader \<Rightarrow> bool \<times> 'd binary_reader" where
  "sax_parse_msgpack fl strict br =
     (case parse_msgpack_internal fl br of
        (False, br) \<Rightarrow> (False, br)
      | (True, br) \<Rightarrow>
          if strict then
            let br = br_get br in
            if br_current br \<noteq> None then
              br_error 110 (br_token_string br)
                (''expected end of input; last byte: 0x'' @ br_token_string br) ''value'' br
            else (True, br)
          else (True, br))"

end
