(* ===== verification/Json_Msgpack_Roundtrip.thy ===== *)
theory Json_Msgpack_Roundtrip
  imports Json_Msgpack
begin

text \<open>
  Reading what \<open>write_msgpack\<close> wrote reports exactly the events of the value, whatever follows in
  the input.
\<close>

section \<open>Numbers as bytes\<close>

lemma little_bytes_numeral:
  "little_bytes (numeral k) n = char_of (n mod 256) # little_bytes (pred_numeral k) (n div 256)"
  unfolding numeral_eq_Suc [of k] by (rule little_bytes.simps)

lemma length_little_bytes [simp]: "length (little_bytes k n) = k"
  by (induction k arbitrary: n) simp_all

lemma little_value_bytes: "little_value (little_bytes k n) = n mod 256 ^ k"
proof (induction k arbitrary: n)
  case (Suc k)
  have "n mod 256 + 256 * (n div 256 mod 256 ^ k) = n mod (256 * 256 ^ k)"
    by (simp add: mod_mult2_eq)
  with Suc show ?case by simp
qed simp

lemma length_write_number [simp]: "length (write_number k n) = k"
  by (simp add: write_number_def)

lemma power_256: "(256 :: nat) ^ k = 2 ^ (8 * k)"
  by (simp add: power_mult)

lemma little_value_number: "little_value (rev (write_number k n)) = nat (n mod 2 ^ (8 * k))"
proof -
  have "nat (n mod 2 ^ (8 * k)) < 2 ^ (8 * k)"
    by (simp add: nat_less_iff)
  then show ?thesis by (simp add: write_number_def little_value_bytes power_256)
qed

lemma to_signed_number:
  assumes "0 < k" "- (2 ^ (8 * k - 1)) \<le> n" "n < 0"
  shows "to_signed k (nat (n mod 2 ^ (8 * k))) = n"
proof -
  obtain j where j: "8 * k = Suc j" "8 * k - 1 = j" using assms(1) by (cases "8 * k") auto
  have "n mod 2 ^ Suc j = n + 2 ^ Suc j"
  proof -
    have "(n + 2 ^ Suc j) mod 2 ^ Suc j = n + 2 ^ Suc j"
      using assms(2,3) j by (intro mod_pos_pos_trivial) simp_all
    then show ?thesis by simp
  qed
  moreover have "\<not> nat (n + 2 ^ Suc j) < 2 ^ j" using assms(2) j by (simp add: nat_less_iff)
  moreover have "0 \<le> n + 2 ^ Suc j"
  proof -
    have "(0::int) < 2 ^ j" by simp
    with assms(2) [unfolded j(2)] show ?thesis unfolding power_Suc by linarith
  qed
  ultimately show ?thesis by (simp add: to_signed_def j)
qed

section \<open>Reading\<close>

text \<open>The input shrinks to \<open>rest\<close> and events are appended.\<close>

definition reads_to :: "'d binary_reader \<Rightarrow> string \<Rightarrow> 'd sax_event list \<Rightarrow> 'd binary_reader \<Rightarrow> bool" where
  "reads_to br bs es br' \<longleftrightarrow>
     br_ia br = bs @ br_ia br' \<and> br_events br' = br_events br @ es \<and> br_chars_read br' = br_chars_read br + length bs"

lemma reads_to_trans:
  "reads_to br as es br1 \<Longrightarrow> reads_to br1 bs fs br2 \<Longrightarrow> reads_to br (as @ bs) (es @ fs) br2"
  by (simp add: reads_to_def)

lemma reads_to_emit: "reads_to br bs es br' \<Longrightarrow> reads_to br bs (es @ [e]) (emit e br')"
  by (simp add: reads_to_def emit_def)

lemma br_get_reads:
  assumes "br_ia br = c # cs"
  shows "reads_to br [c] [] (br_get br)" "br_current (br_get br) = Some c" "br_ia (br_get br) = cs"
  using assms by (simp_all add: br_get_def reads_to_def)

lemma number_loop_reads:
  "br_ia br = bs @ cs \<Longrightarrow>
     \<exists>br'. number_loop (length bs) vec br = (Some (rev bs @ vec), br') \<and> reads_to br bs [] br' \<and> br_ia br' = cs"
proof (induction bs arbitrary: br vec)
  case Nil
  then show ?case by (simp add: reads_to_def)
next
  case (Cons b bs)
  from Cons.prems have ia: "br_ia br = b # (bs @ cs)" by simp
  note get = br_get_reads [OF ia]
  from Cons.IH [OF get(3)] obtain br' where
    "number_loop (length bs) (b # vec) (br_get br) = (Some (rev bs @ b # vec), br')"
    "reads_to (br_get br) bs [] br'" "br_ia br' = cs" by blast
  with get reads_to_trans [OF get(1) this(2)] show ?case by (simp add: unexpect_eof_def)
qed

lemma get_number_reads:
  assumes "br_ia br = write_number k n @ cs"
  shows "\<exists>br'. get_number k br = (Some (nat (n mod 2 ^ (8 * k))), br') \<and> reads_to br (write_number k n) [] br' \<and> br_ia br' = cs"
  using number_loop_reads [OF assms, of "[]"] by (auto simp: get_number_def little_value_number)

lemma bytes_loop_reads:
  "br_ia br = bs @ cs \<Longrightarrow>
     \<exists>br'. bytes_loop ctx (length bs) result br = (Some (result @ bs), br') \<and> reads_to br bs [] br' \<and> br_ia br' = cs"
proof (induction bs arbitrary: br result)
  case Nil
  then show ?case by (simp add: reads_to_def)
next
  case (Cons b bs)
  from Cons.prems have ia: "br_ia br = b # (bs @ cs)" by simp
  note get = br_get_reads [OF ia]
  from Cons.IH [OF get(3)] obtain br' where
    "bytes_loop ctx (length bs) (result @ [b]) (br_get br) = (Some ((result @ [b]) @ bs), br')"
    "reads_to (br_get br) bs [] br'" "br_ia br' = cs" by blast
  with get reads_to_trans [OF get(1) this(2)] show ?case by (simp add: unexpect_eof_def)
qed

text \<open>The byte at which a value starts.\<close>

definition at_byte :: "nat \<Rightarrow> 'd binary_reader \<Rightarrow> bool" where
  "at_byte b br \<longleftrightarrow> (\<exists>c. br_current br = Some c \<and> of_char c = b)"

lemma write_byte_get:
  assumes "br_ia br = write_byte b @ cs" "b < 256"
  shows "at_byte b (br_get br)" "reads_to br (write_byte b) [] (br_get br)" "br_ia (br_get br) = cs"
proof -
  from assms(1) have ia: "br_ia br = char_of b # cs" by (simp add: write_byte_def)
  note get = br_get_reads [OF ia]
  from get(2) assms(2) show "at_byte b (br_get br)" by (simp add: at_byte_def)
  from get(1,3) show "reads_to br (write_byte b) [] (br_get br)" "br_ia (br_get br) = cs"
    by (simp_all add: write_byte_def)
qed

lemma write_one: "0 \<le> n \<Longrightarrow> n < 256 \<Longrightarrow> write_number 1 n = write_byte (nat n)"
  by (simp add: write_number_def write_byte_def)

lemma write_one_negative: "- 128 \<le> n \<Longrightarrow> n < 0 \<Longrightarrow> write_number 1 n = write_byte (nat (n + 256))"
proof -
  assume "- 128 \<le> n" "n < 0"
  then have "n mod 256 = n + 256" by (subst mod_add_self2 [symmetric], intro mod_pos_pos_trivial) auto
  moreover have "nat (n + 256) mod 256 = nat (n + 256)" using \<open>n < 0\<close> by simp
  ultimately show ?thesis by (simp add: write_number_def write_byte_def)
qed

lemma byte_low_bits:
  "n \<le> 0x1F \<Longrightarrow> (0xA0 + n) mod 0x20 = n" "n \<le> 0xF \<Longrightarrow> (0x80 + n) mod 0x10 = n"
  "n \<le> 0xF \<Longrightarrow> (0x90 + n) mod 0x10 = n" for n :: nat
  using mod_mult_self3 [of 5 "0x20" n] mod_mult_self3 [of 8 "0x10" n] mod_mult_self3 [of 9 "0x10" n] by simp_all

text \<open>A sized string, behind its control byte.\<close>

lemma sized_string_reads:
  assumes "br_ia br = write_number k (int (length s)) @ s @ cs" "length s < 2 ^ (8 * k)"
  shows "\<exists>br'. sized k (\<lambda>len. bytes_loop ''string'' len []) br = (Some s, br') \<and>
    reads_to br (write_number k (int (length s)) @ s) [] br' \<and> br_ia br' = cs"
proof -
  have "nat (int (length s) mod 2 ^ (8 * k)) = length s"
    using assms(2) by (simp add: nat_mod_distrib nat_power_eq)
  with get_number_reads [OF assms(1)] obtain br1 where
    1: "get_number k br = (Some (length s), br1)" "reads_to br (write_number k (int (length s))) [] br1" "br_ia br1 = s @ cs"
    by auto
  from bytes_loop_reads [OF 1(3), of "''string''" "[]"] obtain br2 where
    2: "bytes_loop ''string'' (length s) [] br1 = (Some s, br2)" "reads_to br1 s [] br2" "br_ia br2 = cs" by auto
  with 1 reads_to_trans [OF 1(2) 2(2)] show ?thesis by (simp add: sized_def)
qed

lemma get_string_sized:
  assumes "\<And>br :: 'd binary_reader. at_byte b br \<Longrightarrow>
      get_msgpack_string br = sized k (\<lambda>len. bytes_loop ''string'' len []) br"
    and "b < 256" "length s < 2 ^ (8 * k)"
    and "br_ia br = (write_byte b @ write_number k (int (length s))) @ s @ cs"
  shows "\<exists>br'. get_msgpack_string (br_get br) = (Some s, br') \<and>
    reads_to (br :: 'd binary_reader) ((write_byte b @ write_number k (int (length s))) @ s) [] br' \<and> br_ia br' = cs"
proof -
  from assms(4) have "br_ia br = write_byte b @ write_number k (int (length s)) @ s @ cs" by simp
  note get = write_byte_get [OF this assms(2)]
  from sized_string_reads [OF get(3) assms(3)] assms(1) [OF get(1)] reads_to_trans [OF get(2)]
  show ?thesis by fastforce
qed

lemma get_string_reads:
  assumes "length s < 2 ^ 32" "br_ia br = write_string_size (length s) @ s @ cs"
  shows "\<exists>br'. get_msgpack_string (br_get br) = (Some s, br') \<and>
    reads_to br (write_string_size (length s) @ s) [] br' \<and> br_ia br' = cs"
proof -
  have sized: "at_byte 0xD9 br \<Longrightarrow> get_msgpack_string br = sized 1 (\<lambda>len. bytes_loop ''string'' len []) br"
    "at_byte 0xDA br \<Longrightarrow> get_msgpack_string br = sized 2 (\<lambda>len. bytes_loop ''string'' len []) br"
    "at_byte 0xDB br \<Longrightarrow> get_msgpack_string br = sized 4 (\<lambda>len. bytes_loop ''string'' len []) br"
    for br :: "'a binary_reader"
    by (auto simp: at_byte_def get_msgpack_string_def)
  consider "length s \<le> 31" | "31 < length s" "length s < 2 ^ 8" | "2 ^ 8 \<le> length s" "length s < 2 ^ 16"
    | "2 ^ 16 \<le> length s" "length s < 2 ^ 32" using assms(1) by linarith
  then show ?thesis
  proof cases
    case 1
    then have w: "write_string_size (length s) = write_byte (0xA0 + length s)"
      using write_one [of "int (0xA0 + length s)"] by (simp add: write_string_size_def nat_add_distrib)
    with assms(2) have "br_ia br = write_byte (0xA0 + length s) @ s @ cs" by simp
    note get = write_byte_get [OF this]
    have "get_msgpack_string (br_get br) = bytes_loop ''string'' (length s) [] (br_get br)"
      using get(1) 1 by (auto simp: at_byte_def get_msgpack_string_def Let_def byte_low_bits)
    with bytes_loop_reads [OF get(3), of "''string''" "[]"] reads_to_trans [OF get(2)] w 1 show ?thesis by fastforce
  next
    case 2
    then have "write_string_size (length s) = write_byte 0xD9 @ write_number 1 (int (length s))"
      by (simp add: write_string_size_def)
    with get_string_sized [OF sized(1), where s = s and br = br and cs = cs] assms(2) 2 show ?thesis by simp
  next
    case 3
    then have "write_string_size (length s) = write_byte 0xDA @ write_number 2 (int (length s))"
      by (simp add: write_string_size_def)
    with get_string_sized [OF sized(2), where s = s and br = br and cs = cs] assms(2) 3 show ?thesis by simp
  next
    case 4
    then have "write_string_size (length s) = write_byte 0xDB @ write_number 4 (int (length s))"
      by (simp add: write_string_size_def)
    with get_string_sized [OF sized(3), where s = s and br = br and cs = cs] assms(2) 4 show ?thesis by simp
  qed
qed

section \<open>The start of a value\<close>

definition starts :: "'d float_ops \<Rightarrow> 'd binary_reader \<Rightarrow> string \<Rightarrow> ('d binary_reader \<Rightarrow> 'd started) \<Rightarrow> string \<Rightarrow> bool" where
  "starts fl br bs f cs \<longleftrightarrow>
     (\<exists>br'. begin_value fl (br_get br) = f br' \<and> reads_to br bs [] br' \<and> br_ia br' = cs)"

definition finish :: "'d sax_event \<Rightarrow> 'd binary_reader \<Rightarrow> 'd started" where
  "finish e br = Finished True (emit e br)"

lemma begins_byte:
  assumes "\<And>br. at_byte b br \<Longrightarrow> begin_value fl br = f br" "b < 256" "br_ia br = write_byte b @ cs"
  shows "starts fl br (write_byte b) f cs"
  using write_byte_get [OF assms(3,2)] assms(1) unfolding starts_def by blast

lemma begins_number:
  assumes "\<And>br. at_byte b br \<Longrightarrow> begin_value fl br = h (get_number k br)" "b < 256"
    and "\<And>br. h (Some (nat (n mod 2 ^ (8 * k))), br) = f br"
    and "br_ia br = (write_byte b @ write_number k n) @ cs"
  shows "starts fl br (write_byte b @ write_number k n) f cs"
proof -
  from assms(4) have "br_ia br = write_byte b @ write_number k n @ cs" by simp
  note get = write_byte_get [OF this assms(2)]
  from get_number_reads [OF get(3)] obtain br' where
    "get_number k (br_get br) = (Some (nat (n mod 2 ^ (8 * k))), br')"
    "reads_to (br_get br) (write_number k n) [] br'" "br_ia br' = cs" by blast
  with assms(1) [OF get(1)] assms(3) reads_to_trans [OF get(2)] show ?thesis
    unfolding starts_def by fastforce
qed

lemma report_number: "f n = e \<Longrightarrow> report f (Some n, br) = finish e br"
  by (simp add: report_def finish_def)

text \<open>The value a control byte starts.\<close>

lemma begin_value_control:
  "at_byte 0xC0 br \<Longrightarrow> begin_value fl br = finish Sax_null br"
  "at_byte 0xC2 br \<Longrightarrow> begin_value fl br = finish (Sax_boolean False) br"
  "at_byte 0xC3 br \<Longrightarrow> begin_value fl br = finish (Sax_boolean True) br"
  "at_byte 0xCA br \<Longrightarrow> begin_value fl br = report (\<lambda>n. Sax_float (float_to_dbl fl n)) (get_number 4 br)"
  "at_byte 0xCB br \<Longrightarrow> begin_value fl br = report (\<lambda>n. Sax_float (bits_dbl fl n)) (get_number 8 br)"
  "at_byte 0xCC br \<Longrightarrow> begin_value fl br = report Sax_unsigned (get_number 1 br)"
  "at_byte 0xCD br \<Longrightarrow> begin_value fl br = report Sax_unsigned (get_number 2 br)"
  "at_byte 0xCE br \<Longrightarrow> begin_value fl br = report Sax_unsigned (get_number 4 br)"
  "at_byte 0xCF br \<Longrightarrow> begin_value fl br = report Sax_unsigned (get_number 8 br)"
  "at_byte 0xD0 br \<Longrightarrow> begin_value fl br = report (\<lambda>n. Sax_integer (to_signed 1 n)) (get_number 1 br)"
  "at_byte 0xD1 br \<Longrightarrow> begin_value fl br = report (\<lambda>n. Sax_integer (to_signed 2 n)) (get_number 2 br)"
  "at_byte 0xD2 br \<Longrightarrow> begin_value fl br = report (\<lambda>n. Sax_integer (to_signed 4 n)) (get_number 4 br)"
  "at_byte 0xD3 br \<Longrightarrow> begin_value fl br = report (\<lambda>n. Sax_integer (to_signed 8 n)) (get_number 8 br)"
  "at_byte 0xD9 br \<Longrightarrow> begin_value fl br = report Sax_string (get_msgpack_string br)"
  "at_byte 0xDA br \<Longrightarrow> begin_value fl br = report Sax_string (get_msgpack_string br)"
  "at_byte 0xDB br \<Longrightarrow> begin_value fl br = report Sax_string (get_msgpack_string br)"
  "at_byte 0xDC br \<Longrightarrow> begin_value fl br = with_size Array_Of (get_number 2 br)"
  "at_byte 0xDD br \<Longrightarrow> begin_value fl br = with_size Array_Of (get_number 4 br)"
  "at_byte 0xDE br \<Longrightarrow> begin_value fl br = with_size Object_Of (get_number 2 br)"
  "at_byte 0xDF br \<Longrightarrow> begin_value fl br = with_size Object_Of (get_number 4 br)"
  by (auto simp: at_byte_def begin_value_def finish_def Let_def)

lemma begin_value_fix:
  "b \<le> 0x7F \<Longrightarrow> at_byte b br \<Longrightarrow> begin_value fl br = finish (Sax_unsigned b) br"
  "n \<le> 0xF \<Longrightarrow> at_byte (0x80 + n) br \<Longrightarrow> begin_value fl br = Object_Of n br"
  "n \<le> 0xF \<Longrightarrow> at_byte (0x90 + n) br \<Longrightarrow> begin_value fl br = Array_Of n br"
  "n \<le> 0x1F \<Longrightarrow> at_byte (0xA0 + n) br \<Longrightarrow> begin_value fl br = report Sax_string (get_msgpack_string br)"
  "0xE0 \<le> b \<Longrightarrow> at_byte b br \<Longrightarrow> begin_value fl br = finish (Sax_integer (to_signed 1 b)) br"
proof -
  show "b \<le> 0x7F \<Longrightarrow> at_byte b br \<Longrightarrow> begin_value fl br = finish (Sax_unsigned b) br"
    by (auto simp: at_byte_def begin_value_def finish_def Let_def)
  show "n \<le> 0xF \<Longrightarrow> at_byte (0x80 + n) br \<Longrightarrow> begin_value fl br = Object_Of n br"
    "n \<le> 0xF \<Longrightarrow> at_byte (0x90 + n) br \<Longrightarrow> begin_value fl br = Array_Of n br"
    by (auto simp: at_byte_def begin_value_def Let_def byte_low_bits)
  show "n \<le> 0x1F \<Longrightarrow> at_byte (0xA0 + n) br \<Longrightarrow> begin_value fl br = report Sax_string (get_msgpack_string br)"
    by (auto simp: at_byte_def begin_value_def Let_def)
  show "0xE0 \<le> b \<Longrightarrow> at_byte b br \<Longrightarrow> begin_value fl br = finish (Sax_integer (to_signed 1 b)) br"
    by (auto simp: at_byte_def begin_value_def finish_def Let_def)
qed

text \<open>Numbers, strings and sizes as they were written.\<close>

lemma begins_unsigned:
  assumes "\<And>br. at_byte b br \<Longrightarrow> begin_value fl br = report Sax_unsigned (get_number k br)" "b < 256"
    and "0 \<le> n" "n < 2 ^ (8 * k)" "br_ia br = write_byte b @ write_number k n @ cs"
  shows "starts fl br (write_byte b @ write_number k n) (finish (Sax_unsigned (nat n))) cs"
proof (rule begins_number [OF assms(1,2)])
  show "report Sax_unsigned (Some (nat (n mod 2 ^ (8 * k))), br) = finish (Sax_unsigned (nat n)) br" for br
    using assms(3,4) by (intro report_number) simp
qed (use assms(5) in simp_all)

lemma begins_negative:
  assumes "\<And>br. at_byte b br \<Longrightarrow> begin_value fl br = report (\<lambda>n. Sax_integer (to_signed k n)) (get_number k br)"
    and "b < 256" "0 < k" "- (2 ^ (8 * k - 1)) \<le> n" "n < 0" "br_ia br = write_byte b @ write_number k n @ cs"
  shows "starts fl br (write_byte b @ write_number k n) (finish (Sax_integer n)) cs"
proof (rule begins_number [OF assms(1,2)])
  show "report (\<lambda>n. Sax_integer (to_signed k n)) (Some (nat (n mod 2 ^ (8 * k))), br) = finish (Sax_integer n) br" for br
    using to_signed_number [OF assms(3-5)] by (intro report_number) simp
qed (use assms(6) in simp_all)

lemma unsigned_starts:
  assumes "0 \<le> n" "n < 2 ^ 64" "br_ia br = write_unsigned n @ cs"
  shows "starts fl br (write_unsigned n) (finish (Sax_unsigned (nat n))) cs"
proof -
  consider "n < 128" | "128 \<le> n" "n < 2 ^ 8" | "2 ^ 8 \<le> n" "n < 2 ^ 16" | "2 ^ 16 \<le> n" "n < 2 ^ 32"
    | "2 ^ 32 \<le> n" "n < 2 ^ 64" using assms(2) by linarith
  then show ?thesis
  proof cases
    case 1
    then have w: "write_unsigned n = write_byte (nat n)" and small: "nat n \<le> 0x7F"
      using write_one [of n] assms(1) by (simp_all add: write_unsigned_def)
    with begins_byte [of "nat n", OF begin_value_fix(1) [OF small]] assms show ?thesis by simp
  next
    case 2
    then show ?thesis using assms by (simp add: write_unsigned_def begins_unsigned begin_value_control)
  next
    case 3
    then show ?thesis using assms by (simp add: write_unsigned_def begins_unsigned begin_value_control)
  next
    case 4
    then show ?thesis using assms by (simp add: write_unsigned_def begins_unsigned begin_value_control)
  next
    case 5
    then show ?thesis using assms by (simp add: write_unsigned_def begins_unsigned begin_value_control)
  qed
qed

lemma negative_starts:
  assumes "- (2 ^ 63) \<le> n" "n < 0" "br_ia br = write_integer n @ cs"
  shows "starts fl br (write_integer n) (finish (Sax_integer n)) cs"
proof -
  consider "- 32 \<le> n" | "- (2 ^ 7) \<le> n" "n < - 32" | "- (2 ^ 15) \<le> n" "n < - (2 ^ 7)"
    | "- (2 ^ 31) \<le> n" "n < - (2 ^ 15)" | "- (2 ^ 63) \<le> n" "n < - (2 ^ 31)"
    using assms(1) by linarith
  then show ?thesis
  proof cases
    case 1
    then have w: "write_integer n = write_byte (nat (n + 256))" and large: "0xE0 \<le> nat (n + 256)"
      using write_one_negative [of n] assms(2) by (simp_all add: write_integer_def)
    have "to_signed 1 (nat (n + 256)) = n" "nat (n + 256) < 256"
      using 1 assms(2) by (simp_all add: to_signed_def)
    with begins_byte [of "nat (n + 256)", OF begin_value_fix(5) [OF large]] 1 assms w show ?thesis by simp
  next
    case 2
    then show ?thesis using assms by (simp add: write_integer_def begins_negative begin_value_control)
  next
    case 3
    then show ?thesis using assms by (simp add: write_integer_def begins_negative begin_value_control)
  next
    case 4
    then show ?thesis using assms by (simp add: write_integer_def begins_negative begin_value_control)
  next
    case 5
    then show ?thesis using assms by (simp add: write_integer_def begins_negative begin_value_control)
  qed
qed

text \<open>Of a double: its bits are read back, and so are those of the float it is equal to.\<close>

definition float_ok :: "'d float_ops \<Rightarrow> 'd \<Rightarrow> bool" where
  "float_ok fl d \<longleftrightarrow> dbl_bits fl d < 2 ^ 64 \<and> bits_dbl fl (dbl_bits fl d) = d \<and> float_bits fl d < 2 ^ 32 \<and>
     (in_float_range fl d \<and> dbl_same fl (float_to_dbl fl (float_bits fl d)) d \<longrightarrow>
        float_to_dbl fl (float_bits fl d) = d)"

lemma float_starts:
  assumes "float_ok fl d" "br_ia br = write_compact_float fl d @ cs"
  shows "starts fl br (write_compact_float fl d) (finish (Sax_float d)) cs"
proof (cases "in_float_range fl d \<and> dbl_same fl (float_to_dbl fl (float_bits fl d)) d")
  case True
  then have w: "write_compact_float fl d = write_byte 0xCA @ write_number 4 (int (float_bits fl d))"
    by (simp add: write_compact_float_def)
  have "report (\<lambda>n. Sax_float (float_to_dbl fl n)) (Some (nat (int (float_bits fl d) mod 2 ^ (8 * 4))), br) = finish (Sax_float d) br" for br
    using assms(1) True by (intro report_number) (simp add: float_ok_def)
  from begins_number [of "0xCA", OF begin_value_control(4) _ this] assms(2) w show ?thesis by simp
next
  case False
  then have w: "write_compact_float fl d = write_byte 0xCB @ write_number 8 (int (dbl_bits fl d))"
    by (auto simp: write_compact_float_def)
  have "report (\<lambda>n. Sax_float (bits_dbl fl n)) (Some (nat (int (dbl_bits fl d) mod 2 ^ (8 * 8))), br) = finish (Sax_float d) br" for br
    using assms(1) by (intro report_number) (simp add: float_ok_def)
  from begins_number [of "0xCB", OF begin_value_control(5) _ this] assms(2) w show ?thesis by simp
qed

lemma string_begins: "get_msgpack_string br = (Some s, br') \<Longrightarrow> begin_value fl br = finish (Sax_string s) br'"
  by (cases "br_current br")
    (auto simp: get_msgpack_string_def begin_value_def Let_def br_error_def report_def finish_def split: if_splits)

lemma string_starts:
  assumes "length s < 2 ^ 32" "br_ia br = write_string_size (length s) @ s @ cs"
  shows "starts fl br (write_string_size (length s) @ s) (finish (Sax_string s)) cs"
  using get_string_reads [OF assms] string_begins unfolding starts_def by blast

lemma begins_size:
  assumes "\<And>br. at_byte b br \<Longrightarrow> begin_value fl br = with_size f (get_number k br)" "b < 256"
    and "n < 2 ^ (8 * k)" "br_ia br = write_byte b @ write_number k (int n) @ cs"
  shows "starts fl br (write_byte b @ write_number k (int n)) (f n) cs"
proof (rule begins_number [OF assms(1,2)])
  have "nat (int n mod 2 ^ (8 * k)) = n" using assms(3) by (simp add: nat_mod_distrib nat_power_eq)
  then show "with_size f (Some (nat (int n mod 2 ^ (8 * k))), br) = f n br" for br by (simp add: with_size_def)
qed (use assms(4) in simp_all)

lemma write_one_size: "b + n < 256 \<Longrightarrow> write_number 1 (int (b + n)) = write_byte (b + n)"
  using write_one [of "int (b + n)"] by (simp only: nat_int)

lemma array_starts:
  assumes "n < 2 ^ 32" "br_ia br = write_array_size n @ cs"
  shows "starts fl br (write_array_size n) (Array_Of n) cs"
proof -
  consider "n \<le> 15" | "15 < n" "n < 2 ^ 16" | "2 ^ 16 \<le> n" "n < 2 ^ 32" using assms(1) by linarith
  then show ?thesis
  proof cases
    case 1
    then have "write_array_size n = write_byte (0x90 + n)"
      using write_one_size [of "0x90" n] by (simp add: write_array_size_def)
    with begins_byte [of "0x90 + n", OF begin_value_fix(3) [OF 1]] 1 assms(2) show ?thesis by simp
  next
    case 2
    then show ?thesis using assms by (simp add: write_array_size_def begins_size begin_value_control)
  next
    case 3
    then show ?thesis using assms by (simp add: write_array_size_def begins_size begin_value_control)
  qed
qed

lemma object_starts:
  assumes "n < 2 ^ 32" "br_ia br = write_object_size n @ cs"
  shows "starts fl br (write_object_size n) (Object_Of n) cs"
proof -
  consider "n \<le> 15" | "15 < n" "n < 2 ^ 16" | "2 ^ 16 \<le> n" "n < 2 ^ 32" using assms(1) by linarith
  then show ?thesis
  proof cases
    case 1
    then have "write_object_size n = write_byte (0x80 + n)"
      using write_one_size [of "0x80" n] by (simp add: write_object_size_def)
    with begins_byte [of "0x80 + n", OF begin_value_fix(2) [OF 1]] 1 assms(2) show ?thesis by simp
  next
    case 2
    then show ?thesis using assms by (simp add: write_object_size_def begins_size begin_value_control)
  next
    case 3
    then show ?thesis using assms by (simp add: write_object_size_def begins_size begin_value_control)
  qed
qed

section \<open>Values\<close>

fun value_events :: "'d json \<Rightarrow> 'd sax_event list"
  and element_events :: "'d json list \<Rightarrow> 'd sax_event list"
  and member_events :: "(string \<times> 'd json) list \<Rightarrow> 'd sax_event list" where
  "value_events JNull = [Sax_null]"
| "value_events (JBoolean b) = [Sax_boolean b]"
| "value_events (JInteger i) = [if i < 0 then Sax_integer i else Sax_unsigned (nat i)]"
| "value_events (JUnsigned u) = [Sax_unsigned (nat u)]"
| "value_events (JFloat d) = [Sax_float d]"
| "value_events (JString s) = [Sax_string s]"
| "value_events (JArray vs) = Sax_start_array (length vs) # element_events vs @ [Sax_end_array]"
| "value_events (JObject m) = Sax_start_object (length m) # member_events m @ [Sax_end_object]"
| "element_events [] = []"
| "element_events (v # vs) = value_events v @ element_events vs"
| "member_events [] = []"
| "member_events ((k, v) # m) = Sax_key k # value_events v @ member_events m"

text \<open>The values whose parts MessagePack has sizes for.\<close>

fun packable :: "'d float_ops \<Rightarrow> 'd json \<Rightarrow> bool"
  and packable_elements :: "'d float_ops \<Rightarrow> 'd json list \<Rightarrow> bool"
  and packable_members :: "'d float_ops \<Rightarrow> (string \<times> 'd json) list \<Rightarrow> bool" where
  "packable fl JNull = True"
| "packable fl (JBoolean b) = True"
| "packable fl (JInteger i) = (- (2 ^ 63) \<le> i \<and> i < 2 ^ 63)"
| "packable fl (JUnsigned u) = (0 \<le> u \<and> u < 2 ^ 64)"
| "packable fl (JFloat d) = float_ok fl d"
| "packable fl (JString s) = (length s < 2 ^ 32)"
| "packable fl (JArray vs) = (length vs < 2 ^ 32 \<and> packable_elements fl vs)"
| "packable fl (JObject m) = (length m < 2 ^ 32 \<and> packable_members fl m)"
| "packable_elements fl [] = True"
| "packable_elements fl (v # vs) = (packable fl v \<and> packable_elements fl vs)"
| "packable_members fl [] = True"
| "packable_members fl ((k, v) # m) = (length k < 2 ^ 32 \<and> packable fl v \<and> packable_members fl m)"

definition parses_to :: "(bool \<times> 'd binary_reader) \<Rightarrow> 'd binary_reader \<Rightarrow> string \<Rightarrow> 'd sax_event list \<Rightarrow> string \<Rightarrow> bool" where
  "parses_to r br bs es cs \<longleftrightarrow> (\<exists>br'. r = (True, br') \<and> reads_to br bs es br' \<and> br_ia br' = cs)"

lemma parses_leaf:
  "starts fl br bs (finish e) cs \<Longrightarrow> parses_to (parse_msgpack_internal fl br) br bs [e] cs"
  by (auto simp: starts_def parses_to_def finish_def intro: reads_to_emit [where es = "[]", simplified])

lemma parses_packed_array:
  assumes "starts fl br bs (Array_Of n) (as @ cs)"
    and "\<And>br'. br_ia br' = as @ cs \<Longrightarrow> parses_to (array_loop fl n br') br' as es cs"
  shows "parses_to (parse_msgpack_internal fl br) br (bs @ as) (Sax_start_array n # es @ [Sax_end_array]) cs"
proof -
  from assms(1) obtain br1 where 1: "begin_value fl (br_get br) = Array_Of n br1" "reads_to br bs [] br1" "br_ia br1 = as @ cs"
    unfolding starts_def by blast
  let ?br = "emit (Sax_start_array n) br1"
  from assms(2) [of ?br] 1(3) obtain br2 where
    2: "array_loop fl n ?br = (True, br2)" "reads_to ?br as es br2" "br_ia br2 = cs"
    unfolding parses_to_def by auto
  from reads_to_emit [OF reads_to_trans [OF reads_to_emit [OF 1(2)] 2(2)], of Sax_end_array]
  show ?thesis using 1 2 by (simp add: parses_to_def)
qed

lemma parses_packed_object:
  assumes "starts fl br bs (Object_Of n) (as @ cs)"
    and "\<And>br'. br_ia br' = as @ cs \<Longrightarrow> parses_to (object_loop fl n br') br' as es cs"
  shows "parses_to (parse_msgpack_internal fl br) br (bs @ as) (Sax_start_object n # es @ [Sax_end_object]) cs"
proof -
  from assms(1) obtain br1 where 1: "begin_value fl (br_get br) = Object_Of n br1" "reads_to br bs [] br1" "br_ia br1 = as @ cs"
    unfolding starts_def by blast
  let ?br = "emit (Sax_start_object n) br1"
  from assms(2) [of ?br] 1(3) obtain br2 where
    2: "object_loop fl n ?br = (True, br2)" "reads_to ?br as es br2" "br_ia br2 = cs"
    unfolding parses_to_def by auto
  from reads_to_emit [OF reads_to_trans [OF reads_to_emit [OF 1(2)] 2(2)], of Sax_end_object]
  show ?thesis using 1 2 by (simp add: parses_to_def)
qed

declare parse_msgpack_internal.simps [simp del]

lemma parses_written:
  fixes v :: "'d json" and vs :: "'d json list" and m :: "(string \<times> 'd json) list"
  shows "packable fl v \<Longrightarrow> br_ia br = write_msgpack fl v @ cs \<Longrightarrow>
      parses_to (parse_msgpack_internal fl br) br (write_msgpack fl v) (value_events v) cs"
    "packable_elements fl vs \<Longrightarrow> br_ia br = write_elements fl vs @ cs \<Longrightarrow>
      parses_to (array_loop fl (length vs) br) br (write_elements fl vs) (element_events vs) cs"
    "packable_members fl m \<Longrightarrow> br_ia br = write_members fl m @ cs \<Longrightarrow>
      parses_to (object_loop fl (length m) br) br (write_members fl m) (member_events m) cs"
proof (induction v and vs and m arbitrary: br cs and br cs and br cs rule: value_events_element_events_member_events.induct)
  case 1
  then show ?case by (auto intro!: parses_leaf simp: begins_byte begin_value_control)
next
  case (2 b)
  then show ?case by (cases b) (auto intro!: parses_leaf simp: begins_byte begin_value_control)
next
  case (3 i)
  then show ?case
    using negative_starts [of i br cs fl] unsigned_starts [of i br cs fl]
    by (cases "i < 0") (auto intro!: parses_leaf simp: write_integer_def)
next
  case (4 u)
  then show ?case using unsigned_starts [of u br cs fl] by (auto intro!: parses_leaf)
next
  case (5 d)
  then show ?case using float_starts [of fl d br cs] by (auto intro!: parses_leaf)
next
  case (6 s)
  then show ?case using string_starts [of s br cs fl] by (auto intro!: parses_leaf)
next
  case (7 vs)
  then show ?case
    using array_starts [of "length vs" br "write_elements fl vs @ cs" fl] "7.IH"
    by (auto intro!: parses_packed_array)
next
  case (8 m)
  then show ?case
    using object_starts [of "length m" br "write_members fl m @ cs" fl] "8.IH"
    by (auto intro!: parses_packed_object)
next
  case 9
  then show ?case by (simp add: parses_to_def reads_to_def)
next
  case (10 v vs)
  from 10 have "parses_to (parse_msgpack_internal fl br) br (write_msgpack fl v) (value_events v) (write_elements fl vs @ cs)"
    by simp
  then obtain br1 where 1: "parse_msgpack_internal fl br = (True, br1)"
    "reads_to br (write_msgpack fl v) (value_events v) br1" "br_ia br1 = write_elements fl vs @ cs"
    unfolding parses_to_def by blast
  from "10.IH"(2) [OF _ 1(3)] "10.prems"(1) obtain br2 where
    2: "array_loop fl (length vs) br1 = (True, br2)" "reads_to br1 (write_elements fl vs) (element_events vs) br2" "br_ia br2 = cs"
    unfolding parses_to_def by auto
  from reads_to_trans [OF 1(2) 2(2)] 1 2 show ?case by (simp add: parses_to_def)
next
  case 11
  then show ?case by (simp add: parses_to_def reads_to_def)
next
  case (12 k v m)
  let ?k = "write_string_size (length k) @ k"
  from "12.prems" have "length k < 2 ^ 32" "br_ia br = write_string_size (length k) @ k @ write_msgpack fl v @ write_members fl m @ cs"
    by simp_all
  from get_string_reads [OF this] obtain br1 where
    1: "get_msgpack_string (br_get br) = (Some k, br1)" "reads_to br ?k [] br1" "br_ia br1 = write_msgpack fl v @ write_members fl m @ cs"
    by blast
  let ?br = "emit (Sax_key k) br1"
  from "12.IH"(1) [of ?br "write_members fl m @ cs"] "12.prems"(1) 1(3) obtain br2 where
    2: "parse_msgpack_internal fl ?br = (True, br2)"
    "reads_to ?br (write_msgpack fl v) (value_events v) br2" "br_ia br2 = write_members fl m @ cs"
    unfolding parses_to_def by auto
  from "12.IH"(2) [OF _ 2(3)] "12.prems"(1) obtain br3 where
    3: "object_loop fl (length m) br2 = (True, br3)" "reads_to br2 (write_members fl m) (member_events m) br3" "br_ia br3 = cs"
    unfolding parses_to_def by auto
  from reads_to_trans [OF reads_to_trans [OF reads_to_emit [OF 1(2)] 2(2)] 3(2)] 1 2 3 show ?case
    by (simp add: parses_to_def)
qed

end
