(* ===== verification/Json_Msgpack_Dom.thy ===== *)
theory Json_Msgpack_Dom
  imports Json_Msgpack_Roundtrip Json_Canonical Json_Merge
begin

text \<open>
  \<open>basic_json::from_msgpack\<close> of client/include/json.hpp: the events of the binary reader given to the
  DOM parser of Json_Parser. Reading what \<open>write_msgpack\<close> wrote gives the value back.
\<close>

section \<open>The events as calls of the DOM parser\<close>

text \<open>
  With exceptions, an error the reader reports is thrown with its text. The values of Json have no
  byte arrays: there the model stops with \<open>Byte_Array\<close>. A reader that fails without an error gives
  a discarded value.
\<close>

datatype binary_exception =
    Binary_Parse_Error nat nat string
  | Byte_Array
  | Discarded
  | Dom_Failure json_exception

definition parse_error_text :: "nat \<Rightarrow> nat \<Rightarrow> string \<Rightarrow> string" where
  "parse_error_text error_id byte_index what_arg =
     ''[json.exception.parse_error.'' @ nat_digits error_id @ ''] '' @ ''parse error'' @
     (if byte_index \<noteq> 0 then '' at byte '' @ nat_digits byte_index else []) @ '': '' @ what_arg"

text \<open>A size is below the greatest size of a vector or a map, as it has at most 32 bits.\<close>

fun dom_event :: "'d sax_event \<Rightarrow> 'd json_sax_dom_parser \<Rightarrow> binary_exception + 'd json_sax_dom_parser" where
  "dom_event Sax_null sdp = map_sum Dom_Failure id (sax_value JNull sdp)"
| "dom_event (Sax_boolean b) sdp = map_sum Dom_Failure id (sax_value (JBoolean b) sdp)"
| "dom_event (Sax_integer i) sdp = map_sum Dom_Failure id (sax_value (JInteger i) sdp)"
| "dom_event (Sax_unsigned u) sdp = map_sum Dom_Failure id (sax_value (JUnsigned (int u)) sdp)"
| "dom_event (Sax_float d) sdp = map_sum Dom_Failure id (sax_value (JFloat d) sdp)"
| "dom_event (Sax_string s) sdp = map_sum Dom_Failure id (sax_value (JString s) sdp)"
| "dom_event (Sax_binary bs subtype) sdp = Inl Byte_Array"
| "dom_event (Sax_start_object len) sdp = map_sum Dom_Failure id (start_object sdp)"
| "dom_event (Sax_key k) sdp = map_sum Dom_Failure id (sax_key k sdp)"
| "dom_event Sax_end_object sdp = map_sum Dom_Failure id (end_object sdp)"
| "dom_event (Sax_start_array len) sdp = map_sum Dom_Failure id (start_array sdp)"
| "dom_event Sax_end_array sdp = map_sum Dom_Failure id (end_array sdp)"
| "dom_event (Sax_error error_id byte_index last_tok what_arg) sdp =
     Inl (Binary_Parse_Error error_id byte_index (parse_error_text error_id byte_index what_arg))"

fun dom_events :: "'d sax_event list \<Rightarrow> 'd json_sax_dom_parser \<Rightarrow> binary_exception + 'd json_sax_dom_parser" where
  "dom_events [] sdp = Inr sdp"
| "dom_events (e # es) sdp = rbind (dom_event e sdp) (dom_events es)"

definition to_msgpack :: "'d float_ops \<Rightarrow> 'd json \<Rightarrow> string" where
  "to_msgpack fl j = write_msgpack fl j"

definition from_msgpack :: "'d float_ops \<Rightarrow> string \<Rightarrow> bool \<Rightarrow> binary_exception + 'd json" where
  "from_msgpack fl i strict =
     (case sax_parse_msgpack fl strict (new_binary_reader i) of
        (res, br) \<Rightarrow>
          rbind (dom_events (br_events br) (new_sax_dom_parser JNull)) (\<lambda>sdp.
            if res then Inr (root sdp) else Inl Discarded))"

section \<open>The value the events build\<close>

text \<open>A number from 0 on comes back as an unsigned one.\<close>

fun reread :: "'d json \<Rightarrow> 'd json"
  and reread_elements :: "'d json list \<Rightarrow> 'd json list"
  and reread_members :: "(string \<times> 'd json) list \<Rightarrow> (string \<times> 'd json) list" where
  "reread (JArray vs) = JArray (reread_elements vs)"
| "reread (JObject m) = JObject (reread_members m)"
| "reread (JInteger i) = (if i < 0 then JInteger i else JUnsigned i)"
| "reread JNull = JNull"
| "reread (JBoolean b) = JBoolean b"
| "reread (JUnsigned u) = JUnsigned u"
| "reread (JFloat d) = JFloat d"
| "reread (JString s) = JString s"
| "reread_elements [] = []"
| "reread_elements (v # vs) = reread v # reread_elements vs"
| "reread_members [] = []"
| "reread_members ((k, v) # m) = (k, reread v) # reread_members m"

lemma reread_keys [simp]: "List.map fst (reread_members m) = List.map fst m"
  by (induction m) auto

text \<open>The DOM parser with an open array or object, as in the proof for the text parser.\<close>

definition dom_state :: "'d json_sax_dom_parser \<Rightarrow> 'd parse_state" where
  "dom_state sdp = \<lparr>prs = undefined, sax = sdp, states = [True], skip_to_state_evaluation = False\<rparr>"

lemma dom_state_sax [simp]: "sax (dom_state sdp) = sdp" "states (dom_state sdp) = [True]"
  by (simp_all add: dom_state_def)

definition placed :: "'d json_sax_dom_parser \<Rightarrow> 'd json \<Rightarrow> 'd json_sax_dom_parser \<Rightarrow> bool" where
  "placed sdp v sdp' \<longleftrightarrow> ref_stack sdp' = ref_stack sdp \<and> root sdp' = root_with sdp v"

lemma placed_leaf:
  assumes "ready sdp"
  shows "\<exists>sdp'. rbind (map_sum Dom_Failure id (sax_value v sdp)) f = f sdp' \<and> placed sdp v sdp'"
  using handle_value_ready [OF assms, of v]
  by (intro exI [of _ "sdp\<lparr>root := root_with sdp v\<rparr>"]) (simp add: sax_value_def placed_def)

lemma array_opens:
  assumes "ready sdp"
  shows "\<exists>sdp'. start_array sdp = Inr sdp' \<and> in_array sdp [] [] (dom_state sdp')"
  using assms handle_value_ready [OF assms, of "JArray []"] by (simp add: start_array_def push_ref_def in_array_def)

lemma array_ends:
  assumes "in_array s0 [] us (dom_state sdp)"
  shows "\<exists>sdp'. end_array sdp = Inr sdp' \<and> placed s0 (JArray us) sdp'"
  using assms in_array_ready(3) [OF assms] by (simp add: end_array_def in_array_def placed_def)

lemma array_goes_on:
  assumes "in_array s0 [] us (dom_state sdp)" "placed sdp v sdp'"
  shows "in_array s0 [] (us @ [v]) (dom_state sdp')"
  using assms in_array_ready(2) [OF assms(1), of v] by (simp add: in_array_def placed_def)

lemma object_opens:
  assumes "ready sdp"
  shows "\<exists>sdp'. start_object sdp = Inr sdp' \<and> in_object sdp [] (dom_state sdp')"
  using assms handle_value_ready [OF assms, of "JObject []"] by (simp add: start_object_def push_ref_def in_object_def)

lemma object_ends:
  assumes "in_object s0 mm (dom_state sdp)"
  shows "\<exists>sdp'. end_object sdp = Inr sdp' \<and> placed s0 (JObject mm) sdp'"
  using assms in_object_at [OF assms] by (simp add: end_object_def in_object_def placed_def)

lemma object_key:
  assumes "in_object s0 mm (dom_state sdp)"
  shows "\<exists>sdp'. sax_key k sdp = Inr sdp' \<and> in_member s0 k mm (dom_state sdp')"
  using assms in_object_at [OF assms] slot_holds(2) [of s0]
  by (simp add: sax_key_def in_object_def in_member_def)

lemma object_goes_on:
  assumes "in_member s0 k mm (dom_state sdp)" "placed sdp v sdp'"
  shows "in_object s0 (obj_set k v mm) (dom_state sdp')"
  using assms in_member_ready(2) [OF assms(1), of v] by (simp add: in_member_def in_object_def placed_def)

lemma dom_value_events:
  fixes v :: "'d json" and vs :: "'d json list" and m :: "(string \<times> 'd json) list"
  shows "json_ordered v \<Longrightarrow> packable fl v \<Longrightarrow> ready sdp \<Longrightarrow>
      \<exists>sdp'. dom_events (value_events v @ es) sdp = dom_events es sdp' \<and> placed sdp (reread v) sdp'"
    "elements_ordered vs \<Longrightarrow> packable_elements fl vs \<Longrightarrow> in_array s0 [] us (dom_state sdp) \<Longrightarrow>
      \<exists>sdp'. dom_events (element_events vs @ es) sdp = dom_events es sdp' \<and>
        in_array s0 [] (us @ reread_elements vs) (dom_state sdp')"
    "members_ordered m \<Longrightarrow> packable_members fl m \<Longrightarrow> sorted_wrt (<) (List.map fst (mm @ m)) \<Longrightarrow>
      in_object s0 mm (dom_state sdp) \<Longrightarrow>
      \<exists>sdp'. dom_events (member_events m @ es) sdp = dom_events es sdp' \<and>
        in_object s0 (mm @ reread_members m) (dom_state sdp')"
proof (induction v and vs and m arbitrary: sdp es and sdp es us s0 and sdp es mm s0
    rule: value_events_element_events_member_events.induct)
  case (7 vs)
  from array_opens [OF "7.prems"(3)] obtain sdp1 where
    1: "start_array sdp = Inr sdp1" "in_array sdp [] [] (dom_state sdp1)" by blast
  from "7.IH" [OF _ _ 1(2), of "Sax_end_array # es"] "7.prems"(1,2) obtain sdp2 where
    2: "dom_events (element_events vs @ Sax_end_array # es) sdp1 = dom_events (Sax_end_array # es) sdp2"
    "in_array sdp [] (reread_elements vs) (dom_state sdp2)" by auto
  from array_ends [OF 2(2)] 1 2 show ?case by auto
next
  case (8 m)
  from object_opens [OF "8.prems"(3)] obtain sdp1 where
    1: "start_object sdp = Inr sdp1" "in_object sdp [] (dom_state sdp1)" by blast
  from "8.IH" [OF _ _ _ 1(2), of "Sax_end_object # es"] "8.prems"(1,2) obtain sdp2 where
    2: "dom_events (member_events m @ Sax_end_object # es) sdp1 = dom_events (Sax_end_object # es) sdp2"
    "in_object sdp (reread_members m) (dom_state sdp2)" by (auto simp: obj_ordered_def)
  from object_ends [OF 2(2)] 1 2 show ?case by auto
next
  case (10 v vs)
  from "10.IH"(1) [OF _ _ in_array_ready(1) [OF "10.prems"(3), unfolded dom_state_sax], of "element_events vs @ es"]
    "10.prems"(1,2) obtain sdp1 where
    1: "dom_events (value_events v @ element_events vs @ es) sdp = dom_events (element_events vs @ es) sdp1"
    "placed sdp (reread v) sdp1" by auto
  from "10.IH"(2) [OF _ _ array_goes_on [OF "10.prems"(3) 1(2)], of es] "10.prems"(1,2) 1 show ?case by auto
next
  case (12 k v m)
  from object_key [OF "12.prems"(4)] obtain sdp1 where
    1: "sax_key k sdp = Inr sdp1" "in_member s0 k mm (dom_state sdp1)" by blast
  from "12.IH"(1) [OF _ _ in_member_ready(1) [OF 1(2), unfolded dom_state_sax], of "member_events m @ es"]
    "12.prems"(1,2) obtain sdp2 where
    2: "dom_events (value_events v @ member_events m @ es) sdp1 = dom_events (member_events m @ es) sdp2"
    "placed sdp1 (reread v) sdp2" by auto
  have "obj_set k (reread v) mm = mm @ [(k, reread v)]"
    using "12.prems"(3) by (intro obj_set_last) (auto simp: sorted_wrt_append)
  with object_goes_on [OF 1(2) 2(2)] have o: "in_object s0 (mm @ [(k, reread v)]) (dom_state sdp2)" by simp
  from "12.IH"(2) [OF _ _ _ o, of es] "12.prems"(1-3) 1 2 show ?case by auto
qed (auto intro!: placed_leaf)

section \<open>Written and read back\<close>

lemma sax_parse_written:
  assumes "packable fl v"
  shows "\<exists>br'. sax_parse_msgpack fl True (new_binary_reader (to_msgpack fl v)) = (True, br') \<and> br_events br' = value_events v"
proof -
  let ?br = "new_binary_reader (to_msgpack fl v)"
  have "br_ia ?br = write_msgpack fl v @ []" by (simp add: new_binary_reader_def to_msgpack_def)
  from parses_written(1) [OF assms this] obtain br1 where
    1: "parse_msgpack_internal fl ?br = (True, br1)" "reads_to ?br (write_msgpack fl v) (value_events v) br1" "br_ia br1 = []"
    unfolding parses_to_def by blast
  then show ?thesis
    by (simp add: sax_parse_msgpack_def br_get_def Let_def reads_to_def new_binary_reader_def)
qed

lemma msgpack_read_back:
  assumes "packable fl v" "json_ordered v"
  shows "from_msgpack fl (to_msgpack fl v) True = Inr (reread v)"
proof -
  from sax_parse_written [OF assms(1)] obtain br' where
    1: "sax_parse_msgpack fl True (new_binary_reader (to_msgpack fl v)) = (True, br')" "br_events br' = value_events v"
    by blast
  have "ready (new_sax_dom_parser JNull :: 'a json_sax_dom_parser)" by (simp add: ready_def new_sax_dom_parser_def)
  from dom_value_events(1) [OF assms(2,1) this, of "[]"] obtain sdp' where
    "dom_events (value_events v) (new_sax_dom_parser JNull) = Inr sdp'" "placed (new_sax_dom_parser JNull) (reread v) sdp'"
    by auto
  with 1 show ?thesis
    by (simp add: from_msgpack_def placed_def root_with_def handle_value_def new_sax_dom_parser_def)
qed

section \<open>The casts of IEEE 754\<close>

text \<open>
  A double is its 64 bits. \<open>narrow\<close> is the cast to \<open>float\<close>, to the nearest and of two to the even one:
  the significand, of 53 bits for a normal number, loses at least 29 of them, and more where the
  result is subnormal. \<open>widen\<close> is the cast back, which is exact.
\<close>

definition half_even :: "nat \<Rightarrow> nat \<Rightarrow> nat" where
  "half_even m k =
     (let q = m div 2 ^ k; r = 2 * (m mod 2 ^ k)
      in if r < 2 ^ k \<or> r = 2 ^ k \<and> even q then q else q + 1)"

definition narrow :: "nat \<Rightarrow> nat" where
  "narrow d =
     (let E = d div 2 ^ 52 mod 2 ^ 11; F = d mod 2 ^ 52; e = max E 1;
          m = (if E = 0 then F else 2 ^ 52 + F); k = max 29 (926 - e);
          magnitude = (if E = 2047 then 255 * 2 ^ 23 + (if F = 0 then 0 else 2 ^ 22)
                       else min (255 * 2 ^ 23) ((e + k - 926) * 2 ^ 23 + half_even m k))
      in d div 2 ^ 63 * 2 ^ 31 + magnitude)"

fun bit_length :: "nat \<Rightarrow> nat" where
  "bit_length n = (if n = 0 then 0 else bit_length (n div 2) + 1)"

declare bit_length.simps [simp del]

definition widen :: "nat \<Rightarrow> nat" where
  "widen f =
     (let E = f div 2 ^ 23 mod 2 ^ 8; F = f mod 2 ^ 23; p = bit_length F - 1;
          magnitude = (if E = 255 then 2047 * 2 ^ 52 + F * 2 ^ 29
                       else if E \<noteq> 0 then (E + 896) * 2 ^ 52 + F * 2 ^ 29
                       else if F = 0 then 0
                       else (p + 874) * 2 ^ 52 + (F - 2 ^ p) * 2 ^ (52 - p))
      in f div 2 ^ 31 * 2 ^ 63 + magnitude)"

text \<open>The comparison with the greatest float, which is 0x47EFFFFFE0000000 as a double, and \<open>==\<close>.\<close>

definition ieee_floats :: "nat float_ops" where
  "ieee_floats = \<lparr>dbl_bits = \<lambda>d. d, bits_dbl = \<lambda>n. n,
     in_float_range = \<lambda>d. d mod 2 ^ 63 \<le> 0x47EFFFFFE0000000, float_bits = narrow, float_to_dbl = widen,
     dbl_same = \<lambda>a b. a mod 2 ^ 63 \<le> 2047 * 2 ^ 52 \<and> b mod 2 ^ 63 \<le> 2047 * 2 ^ 52 \<and>
       (a = b \<or> a mod 2 ^ 63 = 0 \<and> b mod 2 ^ 63 = 0)\<rparr>"

lemma narrow_less:
  assumes "d < 2 ^ 64"
  shows "narrow d < 2 ^ 32"
proof -
  define magnitude :: nat where "magnitude = narrow d - d div 2 ^ 63 * 2 ^ 31"
  have "magnitude \<le> 255 * 2 ^ 23 + 2 ^ 22" "narrow d = d div 2 ^ 63 * 2 ^ 31 + magnitude"
    unfolding magnitude_def narrow_def Let_def by (auto simp: min_def)
  moreover have "d div 2 ^ 63 \<le> 1" using assms by auto
  ultimately show ?thesis by simp
qed

lemma widen_zero: "widen (narrow 0) = 0" "widen (narrow (2 ^ 63)) = 2 ^ 63"
  by (simp_all add: narrow_def widen_def half_even_def Let_def)

lemma float_ok_ieee [simp]: "float_ok ieee_floats d \<longleftrightarrow> d < 2 ^ 64"
proof
  show "d < 2 ^ 64" if "float_ok ieee_floats d"
    using that by (simp add: float_ok_def ieee_floats_def)
  assume d: "d < 2 ^ 64"
  have zero: "d = 0 \<or> d = 2 ^ 63" if "d mod 2 ^ 63 = 0"
  proof -
    have "d = 2 ^ 63 * (d div 2 ^ 63)" using that by (metis mult_div_mod_eq add.right_neutral)
    moreover have "d div 2 ^ 63 = 0 \<or> d div 2 ^ 63 = 1" using d by (auto simp: less_Suc_eq)
    ultimately show ?thesis by (metis mult_0_right mult.right_neutral)
  qed
  have "widen (narrow d) = d" if "dbl_same ieee_floats (widen (narrow d)) d"
    using that zero widen_zero by (auto simp: ieee_floats_def)
  with d narrow_less [OF d] show "float_ok ieee_floats d" by (auto simp: float_ok_def ieee_floats_def)
qed

end
