(* ===== verification/Json_Msgpack_Prefix.thy ===== *)
theory Json_Msgpack_Prefix
  imports Json_Msgpack_Dom "HOL-Library.Sublist"
begin

text \<open>
  Cut off input: the MessagePack form of a value from which bytes are missing at the end is refused, with
  the error for an unexpected end at the byte behind the input. The reader is compared with itself on a
  longer input: until the end is met, both do the same.
\<close>

section \<open>Steps that may fail\<close>

definition and_then :: "('a \<Rightarrow> bool) \<Rightarrow> 'b \<Rightarrow> 'a \<times> 'd binary_reader \<Rightarrow>
    ('a \<Rightarrow> 'd binary_reader \<Rightarrow> 'b \<times> 'd binary_reader) \<Rightarrow> 'b \<times> 'd binary_reader" where
  "and_then failed bad r g = (case r of (x, br) \<Rightarrow> if failed x then (bad, br) else g x br)"

abbreviation none :: "'a option \<Rightarrow> bool" where
  "none x \<equiv> x = None"

lemma number_loop_then:
  "number_loop (Suc k) vec br = and_then Not None (unexpect_eof ''number'' (br_get br))
     (\<lambda>_ br. number_loop k (the (br_current br) # vec) br)"
  by (simp add: and_then_def split: prod.split bool.split)

lemma bytes_loop_then:
  "bytes_loop ctx (Suc k) bs br = and_then Not None (unexpect_eof ctx (br_get br))
     (\<lambda>_ br. bytes_loop ctx k (bs @ [the (br_current br)]) br)"
  by (simp add: and_then_def split: prod.split bool.split)

lemma get_number_then:
  "get_number k br = and_then none None (number_loop k [] br) (\<lambda>vec br. (Some (little_value (the vec)), br))"
  by (auto simp: get_number_def and_then_def split: prod.split option.split)

lemma sized_then: "sized k f br = and_then none None (get_number k br) (\<lambda>n br. f (the n) br)"
  by (auto simp: sized_def and_then_def split: prod.split option.split)

lemma get_binary_then:
  "get_binary len br = and_then none None (bytes_loop ''binary'' len [] br) (\<lambda>b br. (Some (the b, None), br))"
  by (auto simp: get_binary_def and_then_def split: prod.split)

lemma get_ext_then:
  "get_ext len br = sized 1 (\<lambda>subtype br.
     and_then none None (bytes_loop ''binary'' len [] br) (\<lambda>b br. (Some (the b, Some subtype), br))) br"
proof -
  have "(case bytes_loop ''binary'' len [] br of (r, br) \<Rightarrow> (map_option (\<lambda>b. (b, Some subtype)) r, br)) =
      and_then none None (bytes_loop ''binary'' len [] br) (\<lambda>b br. (Some (the b, Some subtype), br))"
    for subtype :: nat and br :: "'a binary_reader"
    by (auto simp: and_then_def split: prod.split)
  then show ?thesis by (simp only: get_ext_def)
qed

text \<open>What \<open>begin_value\<close> found, apart from the reader.\<close>

datatype kind = Done bool | Array nat | Object nat

fun unstart :: "'d started \<Rightarrow> kind \<times> 'd binary_reader" where
  "unstart (Finished ok br) = (Done ok, br)"
| "unstart (Array_Of n br) = (Array n, br)"
| "unstart (Object_Of n br) = (Object n, br)"

abbreviation failed :: "kind \<Rightarrow> bool" where
  "failed k \<equiv> k = Done False"

lemma report_then:
  "unstart (report f r) = and_then none (Done False) r (\<lambda>x br. (Done True, emit (f (the x)) br))"
  by (cases r; cases "fst r") (simp_all add: report_def and_then_def)

lemma with_size_then:
  "(\<And>n br. unstart (f n br) = (h n, br)) \<Longrightarrow>
     unstart (with_size f r) = and_then none (Done False) r (\<lambda>n br. (h (the n), br))"
  by (cases r; cases "fst r") (simp_all add: with_size_def and_then_def)

definition value_rest :: "'d float_ops \<Rightarrow> kind \<Rightarrow> 'd binary_reader \<Rightarrow> bool \<times> 'd binary_reader" where
  "value_rest fl k br =
     (case k of
        Done ok \<Rightarrow> (ok, br)
      | Array n \<Rightarrow> and_then Not False (array_loop fl n (emit (Sax_start_array n) br)) (\<lambda>_ br. (True, emit Sax_end_array br))
      | Object n \<Rightarrow> and_then Not False (object_loop fl n (emit (Sax_start_object n) br)) (\<lambda>_ br. (True, emit Sax_end_object br)))"

lemma parse_then:
  "parse_msgpack_internal fl br = and_then failed False (unstart (begin_value fl (br_get br))) (value_rest fl)"
  by (cases "begin_value fl (br_get br)")
    (auto simp: parse_msgpack_internal.simps and_then_def value_rest_def split: prod.split bool.split)

lemma array_loop_then:
  "array_loop fl (Suc n) br = and_then Not False (parse_msgpack_internal fl br) (\<lambda>_ br. array_loop fl n br)"
  by (simp add: and_then_def split: prod.split bool.split)

lemma object_loop_then:
  "object_loop fl (Suc n) br = and_then none False (get_msgpack_string (br_get br)) (\<lambda>key br.
     and_then Not False (parse_msgpack_internal fl (emit (Sax_key (the key)) br)) (\<lambda>_ br. object_loop fl n br))"
  by (auto simp: and_then_def split: prod.split option.split bool.split)

section \<open>Events are only added\<close>

definition adds :: "'d binary_reader \<Rightarrow> 'a \<times> 'd binary_reader \<Rightarrow> bool" where
  "adds br r \<longleftrightarrow> prefix (br_events br) (br_events (snd r))"

named_theorems adds_rules

lemma adds_pair [adds_rules]: "adds br (x, br)" "adds br (x, emit e br)"
  by (simp_all add: adds_def emit_def)

lemma adds_then [adds_rules]:
  assumes "adds br r" "\<And>x br'. r = (x, br') \<Longrightarrow> \<not> f x \<Longrightarrow> adds br' (g x br')"
  shows "adds br (and_then f bad r g)"
  using assms by (cases r) (auto simp: adds_def and_then_def)

lemma adds_emit: "adds (emit e br) r \<Longrightarrow> adds br r"
  by (auto simp: adds_def emit_def intro: append_prefixD)

lemma adds_if [adds_rules]: "adds br r \<Longrightarrow> adds br r' \<Longrightarrow> adds br (if b then r else r')"
  by simp

lemma adds_next [adds_rules]: "adds br (unexpect_eof ctx (br_get br))" "adds br (unexpect_eof ctx br)"
  by (auto simp: adds_def unexpect_eof_def br_error_def emit_def br_get_def split: list.split)

lemma adds_get: "adds (br_get br) r \<Longrightarrow> adds br r"
  by (auto simp: adds_def br_get_def split: list.splits)

lemma adds_number_loop [adds_rules]: "adds br (number_loop k vec br)"
proof (induction k arbitrary: vec br)
  case (Suc k)
  then show ?case unfolding number_loop_then by (intro adds_rules)
qed (simp add: adds_rules)

lemma adds_bytes_loop [adds_rules]: "adds br (bytes_loop ctx k bs br)"
proof (induction k arbitrary: bs br)
  case (Suc k)
  then show ?case unfolding bytes_loop_then by (intro adds_rules)
qed (simp add: adds_rules)

lemma adds_get_number [adds_rules]: "adds br (get_number k br)"
  unfolding get_number_then by (intro adds_rules)

lemma adds_sized [adds_rules]: "(\<And>n br. adds br (f n br)) \<Longrightarrow> adds br (sized k f br)"
  unfolding sized_then by (intro adds_rules)

lemma adds_get_binary [adds_rules]: "adds br (get_binary len br)"
  unfolding get_binary_then by (intro adds_rules)

lemma adds_get_ext [adds_rules]: "adds br (get_ext len br)"
  unfolding get_ext_then by (intro adds_rules)

lemma adds_msgpack_binary [adds_rules]: "adds br (get_msgpack_binary b br)"
  unfolding get_msgpack_binary_def by (intro adds_rules)

lemma adds_error: "adds br (x, snd (br_error i tok d ctx br))" "adds br (x, snd (unexpect_eof ctx br))"
  by (simp_all add: br_error_def unexpect_eof_def adds_rules)

lemma adds_string [adds_rules]: "adds br (get_msgpack_string br)"
proof (cases "br_current br")
  case None
  then show ?thesis by (simp add: get_msgpack_string_def adds_error)
next
  case (Some c)
  then show ?thesis unfolding get_msgpack_string_def Some option.case Let_def by (intro adds_rules adds_error)
qed

lemma adds_begin [adds_rules]: "adds br (unstart (begin_value fl br))"
proof (cases "br_current br")
  case None
  then show ?thesis by (simp add: begin_value_def unexpect_eof_def br_error_def adds_rules)
next
  case (Some c)
  show ?thesis
    unfolding begin_value_def Some option.case Let_def br_error_def prod.case if_distrib [of unstart] unstart.simps
      report_then with_size_then [of Array_Of Array, OF unstart.simps(2)] with_size_then [of Object_Of Object, OF unstart.simps(3)]
    by (intro adds_rules)
qed

lemma adds_parse [adds_rules]:
  "adds br (parse_msgpack_internal fl br)" "adds br (array_loop fl n br)" "adds br (object_loop fl n br)"
proof (induction fl br and fl n br and fl n br rule: parse_msgpack_internal_array_loop_object_loop.induct)
  case (1 fl br)
  show ?case unfolding parse_then
  proof (rule adds_then)
    show "adds br (unstart (begin_value fl (br_get br)))" by (rule adds_get, rule adds_begin)
    fix k br' assume b: "unstart (begin_value fl (br_get br)) = (k, br')"
    show "adds br' (value_rest fl k br')"
    proof (cases "begin_value fl (br_get br)")
      case (Finished ok br1)
      with b have "k = Done ok" by simp
      then show ?thesis by (simp add: value_rest_def adds_rules)
    next
      case (Array_Of n br1)
      with b "1.IH"(1) [OF Array_Of] show ?thesis
        by (auto simp: value_rest_def intro!: adds_then adds_pair intro: adds_emit)
    next
      case (Object_Of n br1)
      with b "1.IH"(2) [OF Object_Of] show ?thesis
        by (auto simp: value_rest_def intro!: adds_then adds_pair intro: adds_emit)
    qed
  qed
next
  case (3 fl n br)
  show ?case unfolding array_loop_then
    by (rule adds_then [OF "3.IH"(1)]) (use "3.IH"(2) in auto)
next
  case (5 fl n br)
  show ?case unfolding object_loop_then
  proof (rule adds_then)
    show "adds br (get_msgpack_string (br_get br))" by (rule adds_get, rule adds_string)
    fix key br1 assume k: "get_msgpack_string (br_get br) = (key, br1)" "key \<noteq> None"
    then obtain s where s: "key = Some s" by blast
    note k = k(1) [unfolded s]
    show "adds br1 (and_then Not False (parse_msgpack_internal fl (emit (Sax_key (the key)) br1)) (\<lambda>_ br. object_loop fl n br))"
      unfolding s option.sel
    proof (rule adds_then)
      show "adds br1 (parse_msgpack_internal fl (emit (Sax_key s) br1))"
        by (rule adds_emit, rule "5.IH"(1) [OF k [symmetric] refl])
      fix ok br2 assume "parse_msgpack_internal fl (emit (Sax_key s) br1) = (ok, br2)" "\<not> \<not> ok"
      with "5.IH"(2) [OF k [symmetric] refl] show "adds br2 (object_loop fl n br2)" by simp
    qed
  qed
qed (simp_all add: adds_rules)

section \<open>The same steps with more input\<close>

definition longer :: "string \<Rightarrow> 'd binary_reader \<Rightarrow> 'd binary_reader" where
  "longer q br = br\<lparr>br_ia := br_ia br @ q\<rparr>"

text \<open>There are \<open>N\<close> bytes in the whole input.\<close>

definition counted :: "nat \<Rightarrow> 'd binary_reader \<Rightarrow> bool" where
  "counted N br \<longleftrightarrow> br_chars_read br + length (br_ia br) = N"

definition end_error :: "nat \<Rightarrow> string \<Rightarrow> 'd sax_event" where
  "end_error N ctx = Sax_error 110 (N + 1) ''<end of file>''
     (''syntax error while parsing MessagePack '' @ ctx @ '': '' @ ''unexpected end of input'')"

definition cut_off :: "nat \<Rightarrow> 'd binary_reader \<Rightarrow> 'd binary_reader \<Rightarrow> bool" where
  "cut_off N br br' \<longleftrightarrow> (\<exists>es ctx. br_events br = es @ [end_error N ctx] \<and> prefix es (br_events br'))"

definition follows :: "('a \<Rightarrow> bool) \<Rightarrow> string \<Rightarrow> nat \<Rightarrow> 'a \<times> 'd binary_reader \<Rightarrow> 'a \<times> 'd binary_reader \<Rightarrow> bool" where
  "follows f q N r r' \<longleftrightarrow>
     r' = (fst r, longer q (snd r)) \<and> (\<not> f (fst r) \<longrightarrow> counted N (snd r)) \<or>
     f (fst r) \<and> cut_off N (snd r) (snd r')"

named_theorems follows_rules

lemma longer_emit [simp]: "emit e (longer q br) = longer q (emit e br)"
  by (simp add: longer_def emit_def)

lemma counted_emit [simp]: "counted N (emit e br) = counted N br"
  by (simp add: counted_def emit_def)

lemma longer_simps [simp]: "br_current (longer q br) = br_current br" "br_chars_read (longer q br) = br_chars_read br"
  "br_events (longer q br) = br_events br" "br_token_string (longer q br) = br_token_string br"
  by (simp_all add: longer_def br_token_string_def)

lemma follows_pair [follows_rules]:
  "counted N br \<Longrightarrow> follows f q N (x, br) (x, longer q br)"
  "counted N br \<Longrightarrow> follows f q N (x, emit e br) (x, emit e (longer q br))"
  by (simp_all add: follows_def)

lemma follows_then [follows_rules]:
  assumes "follows f q N r r'" "\<And>x br. r = (x, br) \<Longrightarrow> \<not> f x \<Longrightarrow> counted N br \<Longrightarrow> follows f' q N (g x br) (g x (longer q br))"
    and "f' bad" "\<And>x br. adds br (g x br)"
  shows "follows f' q N (and_then f bad r g) (and_then f bad r' g)"
proof -
  obtain x br x' br' where r: "r = (x, br)" "r' = (x', br')" by fastforce
  show ?thesis
  proof (cases "f x \<and> cut_off N br br'")
    case True
    have "prefix (br_events br') (br_events (snd (g x' br')))" using assms(4) by (simp add: adds_def)
    with True r assms(3) show ?thesis
      by (auto simp: follows_def and_then_def cut_off_def intro: prefix_order.trans)
  next
    case False
    with assms(1) r have "x' = x" "br' = longer q br" "\<not> f x \<longrightarrow> counted N br" by (auto simp: follows_def)
    with r assms(2) [OF r(1)] assms(3) show ?thesis by (auto simp: follows_def and_then_def)
  qed
qed

lemma follows_if [follows_rules]:
  "follows f q N r r' \<Longrightarrow> follows f q N s s' \<Longrightarrow> follows f q N (if b then r else s) (if b then r' else s')"
  by simp

lemma br_get_more:
  assumes "counted N br" "br_current (br_get br) \<noteq> None"
  shows "br_get (longer q br) = longer q (br_get br)" "counted N (br_get br)"
  using assms by (auto simp: br_get_def longer_def counted_def split: list.splits)

lemma br_get_end:
  assumes "counted N br" "br_current (br_get br) = None"
  shows "br_chars_read (br_get br) = N + 1" "br_events (br_get br) = br_events br"
  using assms by (auto simp: br_get_def counted_def split: list.splits)

lemma unexpect_end:
  assumes "counted N br" "br_current (br_get br) = None" "adds br r'" "f x"
  shows "follows f q N (x, snd (unexpect_eof ctx (br_get br))) r'"
proof -
  have "br_events (snd (unexpect_eof ctx (br_get br))) = br_events br @ [end_error N ctx]"
    using br_get_end [OF assms(1,2)] assms(2) by (simp add: unexpect_eof_def br_error_def emit_def end_error_def)
  with assms(3) have "cut_off N (snd (unexpect_eof ctx (br_get br))) (snd r')" unfolding cut_off_def adds_def by blast
  with assms(4) show ?thesis by (simp add: follows_def)
qed

lemma follows_next [follows_rules]:
  assumes "counted N br"
  shows "follows Not q N (unexpect_eof ctx (br_get br)) (unexpect_eof ctx (br_get (longer q br)))"
proof (cases "br_current (br_get br) = None")
  case True
  have a: "adds br (unexpect_eof ctx (br_get (longer q br)))"
    using adds_next(1) [of "longer q br" ctx] by (simp add: adds_def)
  have e: "unexpect_eof ctx (br_get br) = (False, snd (unexpect_eof ctx (br_get br)))"
    using True by (simp add: unexpect_eof_def br_error_def)
  show ?thesis by (subst e) (rule unexpect_end [OF assms True a], simp)
next
  case False
  with br_get_more(1) [OF assms False, of q] br_get_more(2) [OF assms False] show ?thesis by (auto simp: unexpect_eof_def follows_def)
qed

lemma follows_number_loop [follows_rules]:
  "counted N br \<Longrightarrow> follows none q N (number_loop k vec br) (number_loop k vec (longer q br))"
proof (induction k arbitrary: vec br)
  case (Suc k)
  show ?case unfolding number_loop_then
  proof (intro follows_rules adds_rules refl Suc.prems)
    fix br1 :: "'a binary_reader"
    assume "counted N br1"
    from Suc.IH [OF this] show "follows none q N (number_loop k (the (br_current br1) # vec) br1)
      (number_loop k (the (br_current (longer q br1)) # vec) (longer q br1))" by simp
  qed
qed (simp add: follows_rules)

lemma follows_bytes_loop [follows_rules]:
  "counted N br \<Longrightarrow> follows none q N (bytes_loop ctx k bs br) (bytes_loop ctx k bs (longer q br))"
proof (induction k arbitrary: bs br)
  case (Suc k)
  show ?case unfolding bytes_loop_then
  proof (intro follows_rules adds_rules refl Suc.prems)
    fix br1 :: "'a binary_reader"
    assume "counted N br1"
    from Suc.IH [OF this] show "follows none q N (bytes_loop ctx k (bs @ [the (br_current br1)]) br1)
      (bytes_loop ctx k (bs @ [the (br_current (longer q br1))]) (longer q br1))" by simp
  qed
qed (simp add: follows_rules)

lemma follows_get_number [follows_rules]:
  "counted N br \<Longrightarrow> follows none q N (get_number k br) (get_number k (longer q br))"
  unfolding get_number_then by (intro follows_rules adds_rules refl)

lemma follows_sized [follows_rules]:
  "counted N br \<Longrightarrow> (\<And>n br. counted N br \<Longrightarrow> follows none q N (f n br) (f n (longer q br))) \<Longrightarrow>
     (\<And>n br. adds br (f n br)) \<Longrightarrow> follows none q N (sized k f br) (sized k f (longer q br))"
  unfolding sized_then by (intro follows_rules adds_rules refl)

lemma follows_get_binary [follows_rules]:
  "counted N br \<Longrightarrow> follows none q N (get_binary len br) (get_binary len (longer q br))"
  unfolding get_binary_then by (intro follows_rules adds_rules refl)

lemma follows_get_ext [follows_rules]:
  "counted N br \<Longrightarrow> follows none q N (get_ext len br) (get_ext len (longer q br))"
  unfolding get_ext_then by (intro follows_rules adds_rules refl)

lemma follows_msgpack_binary [follows_rules]:
  "counted N br \<Longrightarrow> follows none q N (get_msgpack_binary b br) (get_msgpack_binary b (longer q br))"
  unfolding get_msgpack_binary_def by (intro follows_rules adds_rules refl)

lemma follows_string_at:
  assumes "counted N br" "br_current br = Some c"
  shows "follows none q N (get_msgpack_string br) (get_msgpack_string (longer q br))"
  unfolding get_msgpack_string_def longer_simps assms(2) option.case Let_def br_error_def snd_conv
  by (intro follows_rules adds_rules assms(1))

lemma follows_string:
  assumes "counted N br"
  shows "follows none q N (get_msgpack_string (br_get br)) (get_msgpack_string (br_get (longer q br)))"
proof (cases "br_current (br_get br)")
  case None
  have "adds br (get_msgpack_string (br_get (longer q br)))"
    using adds_get [OF adds_string, of "longer q br"] by (simp add: adds_def)
  from unexpect_end [OF assms None this, of none None q "''string''"] None show ?thesis
    by (simp add: get_msgpack_string_def)
next
  case (Some c)
  with br_get_more(1) [OF assms, of q] br_get_more(2) [OF assms] have more: "br_get (longer q br) = longer q (br_get br)" "counted N (br_get br)"
    by simp_all
  from follows_string_at [OF more(2) Some] show ?thesis by (simp only: more(1))
qed

lemma follows_begin:
  assumes "counted N br"
  shows "follows failed q N (unstart (begin_value fl (br_get br))) (unstart (begin_value fl (br_get (longer q br))))"
proof (cases "br_current (br_get br)")
  case None
  have "adds br (unstart (begin_value fl (br_get (longer q br))))"
    using adds_get [OF adds_begin, of "longer q br"] by (simp add: adds_def)
  from unexpect_end [OF assms None this, of failed "Done False" q "''value''"] None show ?thesis
    by (simp add: begin_value_def unexpect_eof_def br_error_def)
next
  case (Some c)
  with br_get_more(1) [OF assms, of q] br_get_more(2) [OF assms] have more: "br_get (longer q br) = longer q (br_get br)" "counted N (br_get br)"
    by simp_all
  show ?thesis
    unfolding more(1) begin_value_def longer_simps Some option.case Let_def br_error_def prod.case if_distrib [of unstart]
      unstart.simps report_then with_size_then [of Array_Of Array, OF unstart.simps(2)]
      with_size_then [of Object_Of Object, OF unstart.simps(3)]
    by (intro follows_rules adds_rules follows_string_at [OF more(2) Some] more(2) refl)
qed

lemma adds_loops:
  "adds br (array_loop fl n (emit e br))" "adds br (object_loop fl n (emit e br))"
  "adds br (parse_msgpack_internal fl (emit e br))"
  by (rule adds_emit, rule adds_parse)+

lemma adds_value_rest [adds_rules]: "adds br (value_rest fl k br)"
  by (cases k) (simp_all add: value_rest_def adds_pair adds_then adds_loops)

lemma follows_parse:
  "counted N br \<Longrightarrow> follows Not q N (parse_msgpack_internal fl br) (parse_msgpack_internal fl (longer q br))"
  "counted N br \<Longrightarrow> follows Not q N (array_loop fl n br) (array_loop fl n (longer q br))"
  "counted N br \<Longrightarrow> follows Not q N (object_loop fl n br) (object_loop fl n (longer q br))"
proof (induction fl br and fl n br and fl n br rule: parse_msgpack_internal_array_loop_object_loop.induct)
  case (1 fl br)
  show ?case unfolding parse_then
  proof (intro follows_then follows_begin [OF "1.prems"] adds_value_rest)
    fix k br' assume b: "unstart (begin_value fl (br_get br)) = (k, br')" "counted N br'" "k \<noteq> Done False"
    show "follows Not q N (value_rest fl k br') (value_rest fl k (longer q br'))"
    proof (cases "begin_value fl (br_get br)")
      case (Finished ok br1)
      with b have "k = Done ok" by simp
      with b(2) show ?thesis by (simp add: value_rest_def follows_rules)
    next
      case (Array_Of n br1)
      with b have k: "k = Array n" "br1 = br'" by auto
      from "1.IH"(1) [OF Array_Of] b(2) k show ?thesis
        by (auto simp: value_rest_def intro!: follows_then follows_pair adds_pair)
    next
      case (Object_Of n br1)
      with b have k: "k = Object n" "br1 = br'" by auto
      from "1.IH"(2) [OF Object_Of] b(2) k show ?thesis
        by (auto simp: value_rest_def intro!: follows_then follows_pair adds_pair)
    qed
  qed simp
next
  case (3 fl n br)
  show ?case unfolding array_loop_then
    by (rule follows_then [OF "3.IH"(1) [OF "3.prems"]]) (use "3.IH"(2) in \<open>auto intro: adds_parse\<close>)
next
  case (5 fl n br)
  show ?case unfolding object_loop_then
  proof (rule follows_then [OF follows_string [OF "5.prems"]])
    fix key br1 assume k: "get_msgpack_string (br_get br) = (key, br1)" "key \<noteq> None" "counted N br1"
    then obtain s where s: "key = Some s" by blast
    note g = k(1) [unfolded s]
    show "follows Not q N
      (and_then Not False (parse_msgpack_internal fl (emit (Sax_key (the key)) br1)) (\<lambda>_ br. object_loop fl n br))
      (and_then Not False (parse_msgpack_internal fl (emit (Sax_key (the key)) (longer q br1))) (\<lambda>_ br. object_loop fl n br))"
      unfolding s option.sel longer_emit
    proof (rule follows_then)
      show "follows Not q N (parse_msgpack_internal fl (emit (Sax_key s) br1)) (parse_msgpack_internal fl (longer q (emit (Sax_key s) br1)))"
        using "5.IH"(1) [OF g [symmetric] refl] k(3) by simp
      fix ok br2 assume "parse_msgpack_internal fl (emit (Sax_key s) br1) = (ok, br2)" "\<not> \<not> ok" "counted N br2"
      with "5.IH"(2) [OF g [symmetric] refl]
      show "follows Not q N (object_loop fl n br2) (object_loop fl n (longer q br2))" by simp
    qed (auto intro: adds_parse)
  qed (auto intro: adds_parse adds_then adds_loops)
qed (simp_all add: follows_rules)

section \<open>Cut off input is refused\<close>

lemma dom_events_append: "dom_events (es @ fs) sdp = rbind (dom_events es sdp) (dom_events fs)"
  by (induction es arbitrary: sdp) (simp_all add: rbind_assoc cong: rbind_cong)

lemma parse_cut_off:
  assumes "packable fl v" "to_msgpack fl v = p @ q" "q \<noteq> []"
  shows "\<exists>br es ctx. parse_msgpack_internal fl (new_binary_reader p) = (False, br) \<and>
    br_events br = es @ [end_error (length p) ctx] \<and> prefix es (value_events v)"
proof -
  let ?br = "new_binary_reader p"
  have "counted (length p) ?br" by (simp add: counted_def new_binary_reader_def)
  note f = follows_parse(1) [OF this, of q fl]
  have w: "br_ia (longer q ?br) = write_msgpack fl v @ []" "br_events (longer q ?br) = []"
    using assms(2) by (simp_all add: longer_def new_binary_reader_def to_msgpack_def)
  from parses_written(1) [OF assms(1) w(1)] w(2) obtain br1 where
    1: "parse_msgpack_internal fl (longer q ?br) = (True, br1)" "br_ia br1 = []" "br_events br1 = value_events v"
    unfolding parses_to_def reads_to_def by auto
  have "br1 \<noteq> longer q br" for br using 1(2) assms(3) by (auto simp: longer_def)
  with f 1(1,3) show ?thesis
    by (cases "parse_msgpack_internal fl ?br") (auto simp: follows_def cut_off_def)
qed

lemma msgpack_cut_off:
  assumes "packable fl v" "json_ordered v" "strict_prefix p (to_msgpack fl v)"
  shows "\<exists>ctx. from_msgpack fl p strict = Inl (Binary_Parse_Error 110 (length p + 1)
    (parse_error_text 110 (length p + 1)
      (''syntax error while parsing MessagePack '' @ ctx @ '': '' @ ''unexpected end of input'')))"
proof -
  from assms(3) obtain q where q: "to_msgpack fl v = p @ q" "q \<noteq> []" by (auto elim!: strict_prefixE' )
  from parse_cut_off [OF assms(1) q] obtain br es ctx where
    1: "parse_msgpack_internal fl (new_binary_reader p) = (False, br)"
    "br_events br = es @ [end_error (length p) ctx]" "prefix es (value_events v)" by blast
  have "ready (new_sax_dom_parser JNull :: 'a json_sax_dom_parser)" by (simp add: ready_def new_sax_dom_parser_def)
  from dom_value_events(1) [OF assms(2,1) this, of "[]"] 1(3) obtain sdp where
    "dom_events es (new_sax_dom_parser JNull :: 'a json_sax_dom_parser) = Inr sdp"
    by (auto simp: prefix_def dom_events_append rbind_eq_Inr)
  with 1 show ?thesis
    by (auto simp: from_msgpack_def sax_parse_msgpack_def dom_events_append end_error_def)
qed

section \<open>Properties\<close>

text \<open>
  C22: \<open>from_msgpack\<close> on any first part of what \<open>to_msgpack\<close> writes for a value with numbers of 64
  bits, members in order and fewer than 2 to the 32 bytes or parts in every string and container:
  the whole text gives the value back, doubles with all their bits whether they were written as a
  \<open>float\<close> or not, where only a signed number from 0 on becomes an unsigned one; any proper part
  throws the parse error 110 at the index of the first missing byte, so that no value is ever built
  from truncated input.
\<close>

theorem msgpack_prefixes:
  assumes "packable ieee_floats v" "json_ordered v" "prefix p (to_msgpack ieee_floats v)"
  shows "if p = to_msgpack ieee_floats v then from_msgpack ieee_floats p True = Inr (reread v)
    else \<exists>ctx. from_msgpack ieee_floats p True = Inl (Binary_Parse_Error 110 (length p + 1)
      (parse_error_text 110 (length p + 1)
        (''syntax error while parsing MessagePack '' @ ctx @ '': '' @ ''unexpected end of input'')))"
  using msgpack_read_back [OF assms(1,2)] msgpack_cut_off [OF assms(1,2), of p True] assms(3)
  by (simp add: strict_prefix_def)

theorem msgpack_prefixes_witness:
  "let v = JArray [JInteger (- 3), JInteger 300, JFloat 0x3FF8000000000000, JFloat 0x3FB999999999999A];
       bytes = [CHR 0x94, CHR 0xFD, CHR 0xCD, CHR 0x01, CHR 0x2C, CHR 0xCA, CHR 0x3F, CHR 0xC0, CHR 0x00, CHR 0x00,
         CHR 0xCB, CHR 0x3F, CHR 0xB9, CHR 0x99, CHR 0x99, CHR 0x99, CHR 0x99, CHR 0x99, CHR 0x9A]
   in to_msgpack ieee_floats v = bytes \<and>
     from_msgpack ieee_floats bytes True =
       Inr (JArray [JInteger (- 3), JUnsigned 300, JFloat 0x3FF8000000000000, JFloat 0x3FB999999999999A]) \<and>
     (\<exists>ctx. from_msgpack ieee_floats (take 8 bytes) True = Inl (Binary_Parse_Error 110 9 (parse_error_text 110 9
        (''syntax error while parsing MessagePack '' @ ctx @ '': '' @ ''unexpected end of input''))))"
proof -
  let ?v = "JArray [JInteger (- 3), JInteger 300, JFloat 0x3FF8000000000000, JFloat 0x3FB999999999999A]"
  define bytes where "bytes = [CHR 0x94, CHR 0xFD, CHR 0xCD, CHR 0x01, CHR 0x2C, CHR 0xCA, CHR 0x3F, CHR 0xC0, CHR 0x00, CHR 0x00,
    CHR 0xCB, CHR 0x3F, CHR 0xB9, CHR 0x99, CHR 0x99, CHR 0x99, CHR 0x99, CHR 0x99, CHR 0x9A]"
  have w: "to_msgpack ieee_floats ?v = bytes" unfolding bytes_def
    by (simp add: to_msgpack_def write_array_size_def write_unsigned_def write_integer_def write_number_def write_byte_def
        write_compact_float_def ieee_floats_def narrow_def widen_def half_even_def little_bytes_numeral Let_def, code_simp)
  have p: "packable ieee_floats ?v" "json_ordered ?v" by simp_all
  have len: "length (take 8 bytes) + 1 = 9" and ne: "take 8 bytes \<noteq> bytes" by (simp_all add: bytes_def)
  from msgpack_prefixes [OF p, of bytes] have "from_msgpack ieee_floats bytes True = Inr (reread ?v)" by (simp add: w)
  moreover from msgpack_prefixes [OF p, of "take 8 bytes"] have
    "\<exists>ctx. from_msgpack ieee_floats (take 8 bytes) True = Inl (Binary_Parse_Error 110 9 (parse_error_text 110 9
        (''syntax error while parsing MessagePack '' @ ctx @ '': '' @ ''unexpected end of input'')))"
    unfolding w len using ne by (simp add: take_is_prefix)
  ultimately show ?thesis using w by (simp add: Let_def bytes_def)
qed

end
