(* ===== verification/Spec2Isabelle.thy ===== *)
theory Spec2Isabelle
  imports StompClient EchoClient ReportFile Utf8_Exact Json_Destroy Json_Doubles Json_Diff Json_Merge
    Json_Flatten Json_Order Json_Msgpack_Prefix
begin

text \<open>
  A model of the C++ client of the community-led World Cup update service (src/client), with the
  theorems about it. The client is a STOMP client: one thread reads commands from the keyboard
  and sends frames, the other reads frames from the socket and prints what they acknowledge.
  Game events are read from JSON files with the vendored library include/json.hpp.

  How the parts interact. \<open>main\<close> (StompClient.cpp) connects a \<open>ConnectionHandler\<close>, starts the
  keyboard thread and runs the socket loop. Both loops belong to \<open>StompProtocol\<close>: a line becomes
  a command, a command becomes a frame and changes the tables of \<open>Connections\<close> (channel ids,
  receipts); a receipt from the server is looked up in these tables; the command \<open>report\<close> calls
  \<open>parseEventsFile\<close> (event.cpp), stores the events in \<open>Games\<close> and sends them; \<open>summary\<close> reads the
  store. echoClient.cpp is a second program over the same \<open>ConnectionHandler\<close>.

  The theories, with the source each models:
  \<^item> Prelude, Cpp_Strings: what the code uses of C++11 and its library: failures as values of
    \<open>cpp_error\<close> (no exception is caught in the client, undefined behaviour is a failure too),
    \<open>std::map\<close> and \<open>std::vector\<close> accesses, \<open>getline\<close>, \<open>to_string\<close>, \<open>stoi\<close>, 32-bit \<open>int\<close>, pointer
    arithmetic on string literals.
  \<^item> Frame (Frame.cpp): the frame parser. Lemmas: the exact language it accepts, the round trip
    with a rendering function.
  \<^item> Event (event.h, event.cpp), Games (Games.cpp), Connections (Connections.cpp): the data.
  \<^item> ConnectionHandler (ConnectionHandler.cpp): the reading and sending loops over a socket. The
    Boost.Asio socket is a parameter, a record \<open>socket_ops\<close> of its operations; the locales
    \<open>tcp_socket\<close> (a stream that delivers in pieces) and \<open>open_socket\<close> (and accepts data) state
    what the code relies on, and both are interpreted on a concrete stream \<open>wire_ops\<close>.
  \<^item> StompProtocol (StompProtocol.cpp): the command and message handlers on the record
    \<open>stomp_protocol\<close>. Requests and ServerMessages prove that the tables refine an abstract log of
    requests and that receipts find their request; Reports treats \<open>report\<close> and \<open>summary\<close>.
  \<^item> ClientLoops (StompProtocol.cpp): the two loops over a process (protocol object, keyboard,
    printed text), as partial functions. Sessions: whole sessions, termination and failures.
  \<^item> StompClient (StompClient.cpp): the program as a step relation which interleaves turns of the
    two loops, with reachable states and invariants. EchoClient (echoClient.cpp).
  \<^item> Json (json.hpp, \<open>basic_json\<close> and its iterators): values, member access, iteration, conversion.
    Json_Lexer (\<open>lexer\<close>): the scanner byte by byte with positions and error texts. Json_Parser
    (\<open>json_sax_dom_parser\<close>, \<open>parser\<close>): the loop with its stack of states; the pointers of the DOM
    parser are paths into the value built so far. Json_Dump (\<open>serializer\<close>): the writer with its
    buffers, automaton and error handlers. The assertions (\<open>JSON_ASSERT\<close>) are part of the model: in the
    lexer a failed one sets the field \<open>aborted\<close>, which the parser turns into \<open>Assertion_Failed\<close>; in
    the serializer it is the value \<open>Abort_Called\<close>.
  \<^item> About these: Utf8 (strings the lexer accepts are well-formed), Utf8_Decoder and Utf8_Exact
    (the automaton of the writer decides UTF-8), Json_Text (\<open>dump\<close> equals a reference text),
    Json_Buffer (bounds of its buffers), Json_Tokens and Json_Roundtrip (texts of tokens, the
    parser on the tokens of a value), Json_Canonical (round trip), Json_Asserts and Parser_Asserts
    (no assertion of the lexer fails: the buffer of a number is a numeral at the end of the scan),
    Json_Safety (the parser's result is well-formed and no assertion fails, by an invariant on its
    two stacks),
    Json_Destroy (the destruction of a value, \<open>json_value::destroy\<close>, which never nests).
  \<^item> The texts of doubles (json.hpp, namespace \<open>detail::dtoa_impl\<close> and \<open>detail::to_chars\<close>): a double is
    its 64 bits. Diyfp (\<open>diyfp\<close>, \<open>boundaries\<close>), Cached_Powers (\<open>get_cached_power_for_binary_exponent\<close>),
    Grisu (\<open>grisu2_round\<close>, \<open>grisu2_digit_gen\<close>, \<open>grisu2\<close>), Double_Text (\<open>append_exponent\<close>,
    \<open>format_buffer\<close>, \<open>to_chars\<close>) translate the code with every assertion and every write through
    its pointers. About these: Powers_Of_Ten (the table is accurate), Digit_Generation and
    Grisu_Correct (the digits denote a number between the midpoints to the neighbours, and no
    assertion fails), Buffer_Contents (old bytes of the buffer do not matter), Double_Layout and
    Double_Bounds (a reference layout, at most 24 bytes), Decimal_Numerals and Double_Roundtrip
    (what a numeral denotes; a \<open>strtod\<close> that rounds correctly reads the double back, and an
    executable one exists). Json_Doubles joins them with the library: the record of operations on
    doubles the other theories have as a parameter, \<open>dump_float\<close>, the round trip of all values.
  \<^item> Beyond what the client calls, the part of json.hpp that works on whole documents. Json_Pointer
    (\<open>json_pointer\<close>: texts, checked access, \<open>contains\<close>), Json_Compare (\<open>operator==\<close>, \<open>operator<\<close>), Json_Members (the
    members of an object: the locale \<open>member_map\<close> states what a \<open>std::map\<close> promises, interpreted on
    the ordered lists of Json), Json_Patch (\<open>patch_inplace\<close>, \<open>patch\<close>, \<open>diff\<close>), Json_Merge (\<open>merge_patch\<close>),
    Json_Flatten (\<open>flatten\<close>, \<open>unflatten\<close>; the round trip goes through the leaves of a value and an invariant
    on partly restored values), Json_Order (when \<open>operator<\<close> is an order, by a code of the values).
    Json_Diff proves that a patch computed by \<open>diff\<close> leads from the source to the target: it reads a
    patch as edits on lists of tokens and shows that an edit below a token acts inside a frame.
  \<^item> MessagePack, of the binary formats of json.hpp. Json_Msgpack (\<open>binary_writer::write_msgpack\<close>,
    \<open>binary_reader::parse_msgpack_internal\<close>): the writer, and the reader with its counter, its errors
    and the events it reports. Json_Msgpack_Dom (\<open>to_msgpack\<close>, \<open>from_msgpack\<close>): the events as calls of
    the DOM parser, and the casts between \<open>double\<close> and \<open>float\<close> on bit patterns. About these:
    Json_Msgpack_Roundtrip (what the reader reports of what was written), Json_Msgpack_Prefix (the
    reader on cut off input, compared with itself on the longer one).
  \<^item> EventsFile (event.cpp, \<open>parseEventsFile\<close>): the loops of the reader, a reference definition of
    what a file says, round trip and failures. ReportFile: the interface \<open>event_source\<close> the keyboard loop
    expects of a reader, its interpretation on this one, and the report command on files.

  Bounds and fuel. No definition uses fuel. Loops that end on every input are functions with a
  termination proof: the scanner consumes its input, each round of the parser shortens it (or
  is followed by an error), a rejected byte of the writer is read twice at most. The loops over
  the socket and the keyboard are partial functions, and theorems say that they return. Where the
  code keeps a length in an \<open>int\<close> (the bytes of a frame to send, the length of a received one, the
  index in a line) so does the model: lengths from 2 to the 31 on are narrowed or overflow, and
  theorems that need shorter texts assume them. Integers of JSON have 64 bits and are
  cut to 32 where the code converts them; code points are 32-bit words.
  The significands of the digit generation are 64-bit words and wrap; its proofs show where they do not.
  A double has at most 17 digits; the exponent of its scaled boundary lies between -1137 and 960,
  which the 79 entries of the table cover.

  Not modelled, and why:
  \<^item> texts for \<open>std::cerr\<close>;
  \<^item> interleavings inside a turn of a loop: the threads share the tables without a lock, so such
    a data race has no meaning in C++; the step relation interleaves whole turns;
  \<^item> the file system, a parameter, and \<open>strtod\<close> of the C library, of which the round trips assume
    that it rounds to the nearest double; the theories on the lexer, the parser and the serializer
    take the type \<open>double\<close> and its operations as a parameter, which Json_Doubles supplies;
  \<^item> of json.hpp what the client never reaches, but for the parts named above: other input adapters,
    the binary formats CBOR, UBJSON, BJData and BSON, byte arrays as values,
    the callback parser, other conversions and constructors. The locale is the C locale;
  \<^item> the Java server under src/server, the makefile and the data files.
\<close>

end
